(* ===== verification/Close_Reason.thy ===== *)
theory Close_Reason
  imports Prelude "HOL-Library.Sublist"
begin

text \<open>
  \<open>EpisodeCloseReason\<close> of \<open>rust/chronicle_app_usage_matcher/src/lib.rs\<close>: why an episode ended, the
  provenance string each reason has in a lineage record, the label it has in an output cell, and
  the decoder that reads a lineage string back.
\<close>

datatype episode_close_reason =
    SameAppStop
  | OtherAppStop
  | ActivityStoppedFallback
  | EndOfStream
  | Unobserved
  | ScreenNonInteractive
  | SamePackageBackgrounded
  | ForegroundHandover
  | GesisOriginalStop
  | GesisNextGlobalEvent
  | GesisTimeout
  | EyesDeviceStateBoundary
  | EyesTripletClose
  | EyesNextBlockAssumed
  | DraxlerInactivityTimeout
  | ScreenLockedPastTimeout

fun lineage_reason :: "episode_close_reason \<Rightarrow> string" where
  "lineage_reason SameAppStop = ''same-app-stop''"
| "lineage_reason OtherAppStop = ''other-app-stop''"
| "lineage_reason ActivityStoppedFallback = ''activity-stopped-fallback''"
| "lineage_reason EndOfStream = ''end-of-stream''"
| "lineage_reason Unobserved = ''unobserved''"
| "lineage_reason ScreenNonInteractive = ''screen-non-interactive''"
| "lineage_reason SamePackageBackgrounded = ''same-package-backgrounded''"
| "lineage_reason ForegroundHandover = ''foreground-handover''"
| "lineage_reason GesisOriginalStop = ''gesis-original''"
| "lineage_reason GesisNextGlobalEvent = ''gesis-activity-based''"
| "lineage_reason GesisTimeout = ''gesis-timeout''"
| "lineage_reason EyesDeviceStateBoundary = ''eyes-device-state-boundary''"
| "lineage_reason EyesTripletClose = ''eyes-triplet-close''"
| "lineage_reason EyesNextBlockAssumed = ''eyes-next-block-assumed''"
| "lineage_reason DraxlerInactivityTimeout = ''draxler-inactivity-timeout''"
| "lineage_reason ScreenLockedPastTimeout = ''screen-locked-past-timeout''"

fun output_label :: "episode_close_reason \<Rightarrow> string" where
  "output_label SameAppStop = ''same_app_stop_event''"
| "output_label GesisOriginalStop = ''same_app_stop_event''"
| "output_label EyesTripletClose = ''same_app_stop_event''"
| "output_label OtherAppStop = ''other_app_stop_event''"
| "output_label ActivityStoppedFallback = ''activity_stopped_event''"
| "output_label ForegroundHandover = ''another_app_opened''"
| "output_label SamePackageBackgrounded = ''app_moved_to_background''"
| "output_label ScreenNonInteractive = ''screen_turned_off''"
| "output_label ScreenLockedPastTimeout = ''screen_turned_off''"
| "output_label EyesDeviceStateBoundary = ''device_powered_off_or_idle''"
| "output_label GesisNextGlobalEvent = ''assumed_end_at_next_event''"
| "output_label EyesNextBlockAssumed = ''assumed_end_at_next_activity''"
| "output_label GesisTimeout = ''assumed_end_at_timeout''"
| "output_label DraxlerInactivityTimeout = ''assumed_end_after_inactivity''"
| "output_label EndOfStream = ''recording_ended_while_open''"
| "output_label Unobserved = ''no_end_found''"

definition all_reasons :: "episode_close_reason list" where
  "all_reasons =
     [SameAppStop, OtherAppStop, ActivityStoppedFallback, EndOfStream, Unobserved,
      ScreenNonInteractive, SamePackageBackgrounded, ForegroundHandover, GesisOriginalStop,
      GesisNextGlobalEvent, GesisTimeout, EyesDeviceStateBoundary, EyesTripletClose,
      EyesNextBlockAssumed, DraxlerInactivityTimeout, ScreenLockedPastTimeout]"

definition from_lineage_reason :: "string \<Rightarrow> episode_close_reason option" where
  "from_lineage_reason v = find (\<lambda>reason. lineage_reason reason = v) all_reasons"

definition is_unobserved :: "episode_close_reason \<Rightarrow> bool" where
  "is_unobserved reason = (case reason of Unobserved \<Rightarrow> True | _ \<Rightarrow> False)"

section \<open>The decoder inverts the encoder\<close>

lemma all_reasons_complete: "reason \<in> set all_reasons"
  by (cases reason) (simp_all add: all_reasons_def)

lemma lineage_reason_inj: "lineage_reason r = lineage_reason s \<Longrightarrow> r = s"
  by (cases r; cases s) simp_all

lemma from_lineage_reason_Some:
  "from_lineage_reason v = Some r \<longleftrightarrow> v = lineage_reason r"
proof
  assume "from_lineage_reason v = Some r"
  then show "v = lineage_reason r"
    by (auto simp: from_lineage_reason_def find_Some_iff)
next
  assume v: "v = lineage_reason r"
  show "from_lineage_reason v = Some r"
    unfolding v by (cases r) (simp_all add: from_lineage_reason_def all_reasons_def)
qed

lemma from_lineage_reason_None:
  "from_lineage_reason v = None \<longleftrightarrow> v \<notin> range lineage_reason"
  by (metis (mono_tags, opaque_lifting) from_lineage_reason_Some not_Some_eq rangeE rangeI)

section \<open>Output labels\<close>

text \<open>The ends no row of the log carries, as the label's documentation names them.\<close>

definition end_is_inferred :: "episode_close_reason \<Rightarrow> bool" where
  "end_is_inferred r \<longleftrightarrow>
     r \<in> {GesisNextGlobalEvent, GesisTimeout, EyesNextBlockAssumed, DraxlerInactivityTimeout}"

lemma assumed_prefix_iff: "prefix ''assumed_'' (output_label r) \<longleftrightarrow> end_is_inferred r"
  by (cases r) (simp_all add: end_is_inferred_def)

lemma output_label_not_lineage: "output_label r \<noteq> lineage_reason s"
  by (cases r; cases s) simp_all

end
