(* ===== verification/Matcher_Base.thy ===== *)
theory Matcher_Base
  imports Close_Reason
begin

text \<open>
  The data and the shared tests of the app-usage matcher
  (\<open>rust/chronicle_app_usage_matcher/src/lib.rs\<close>): options, the parallel event arrays, outputs and
  errors, the duration and compatibility tests, the in-place compaction of the open starts, and the
  classification of a stop event.

  The seven parallel slices every matcher function takes are the record \<open>match_input\<close>. Durations
  are computed in \<open>i128\<close> from \<open>i64\<close> timestamps, which is exact, so they are plain \<open>int\<close> differences
  here.
\<close>

section \<open>Data\<close>

text \<open>
  A call ends with a value, with the crate's error, with a panic, or (for the loops over linked
  indices) possibly not at all.
\<close>

datatype matcher_failure = MatcherError string | Panic | NoReturn

type_synonym 'a matcher_result = "matcher_failure + 'a"

record match_options =
  allow_stop_event_reuse :: bool
  use_activity_stopped_as_fallback :: bool
  apply_threshold_to_fallback :: bool
  long_duration_threshold_ns :: int

record match_input =
  app_codes :: "int list"
  timestamp_ns :: "int list"
  resumed :: "bool list"
  same_stop :: "bool list"
  other_stop :: "bool list"
  stopped :: "bool list"
  background :: "bool list"

record match_output =
  out_start_ns :: "int list"
  out_stop_ns :: "int list"
  out_missing :: "bool list"

record match_update_indices =
  start_indices :: "nat list"
  stop_start_indices :: "nat list"
  stop_event_indices :: "nat list"
  missing_indices :: "nat list"
  stop_reasons :: "episode_close_reason list"
  missing_reasons :: "episode_close_reason list"
  stop_timestamps_ns :: "int option list"

definition length_error :: matcher_failure where
  "length_error = MatcherError ''all input arrays must have the same length''"

definition validate_lengths :: "match_input \<Rightarrow> nat matcher_result" where
  "validate_lengths inp =
     (let len = length (app_codes inp) in
      if length (timestamp_ns inp) \<noteq> len \<or> length (resumed inp) \<noteq> len
         \<or> length (same_stop inp) \<noteq> len \<or> length (other_stop inp) \<noteq> len
         \<or> length (stopped inp) \<noteq> len \<or> length (background inp) \<noteq> len
      then Inl length_error
      else Inr len)"

text \<open>The inputs that pass the length check.\<close>

definition aligned :: "match_input \<Rightarrow> bool" where
  "aligned inp \<longleftrightarrow>
     (\<forall>n \<in> {length (timestamp_ns inp), length (resumed inp), length (same_stop inp),
            length (other_stop inp), length (stopped inp), length (background inp)}.
        n = length (app_codes inp))"

lemma validate_lengths_aligned:
  "validate_lengths inp = (if aligned inp then Inr (length (app_codes inp)) else Inl length_error)"
  by (auto simp: validate_lengths_def aligned_def Let_def)

section \<open>Compatibility of an open start with a stop event\<close>

definition is_valid_duration :: "int \<Rightarrow> int \<Rightarrow> bool \<Rightarrow> int \<Rightarrow> bool" where
  "is_valid_duration start_t stop_t enforce_threshold threshold =
     (let duration = stop_t - start_t in
      if duration < 0 then False else \<not> enforce_threshold \<or> duration \<le> threshold)"

definition is_compatible_open_start_for_stop ::
    "match_input \<Rightarrow> match_options \<Rightarrow> nat \<Rightarrow> nat \<Rightarrow> bool" where
  "is_compatible_open_start_for_stop inp opts stop_index start_index =
     (let current_app = app_codes inp ! stop_index;
          normal_stop = same_stop inp ! stop_index \<or> other_stop inp ! stop_index;
          fallback_stop = stopped inp ! stop_index \<and> use_activity_stopped_as_fallback opts;
          start_app = app_codes inp ! start_index;
          same_app_compatible = same_stop inp ! stop_index \<and> start_app = current_app;
          other_app_compatible =
            other_stop inp ! stop_index \<and> start_app \<noteq> current_app
              \<and> \<not> background inp ! start_index;
          fallback_compatible = \<not> normal_stop \<and> fallback_stop \<and> start_app = current_app
      in if \<not> (same_app_compatible \<or> other_app_compatible \<or> fallback_compatible) then False
         else is_valid_duration (timestamp_ns inp ! start_index) (timestamp_ns inp ! stop_index)
                (\<not> fallback_compatible \<or> apply_threshold_to_fallback opts)
                (long_duration_threshold_ns opts))"

text \<open>The position of the newest compatible open start, scanning the positions backward.\<close>

definition nearest_compatible_open_start_for_stop ::
    "match_input \<Rightarrow> match_options \<Rightarrow> nat \<Rightarrow> nat list \<Rightarrow> nat option" where
  "nearest_compatible_open_start_for_stop inp opts stop_index open_start_indices =
     find (\<lambda>position. is_compatible_open_start_for_stop inp opts stop_index
                        (open_start_indices ! position))
       (rev [0..<length open_start_indices])"

text \<open>
  The in-place compaction: one pass with a read and a write index over the vector of open starts,
  calling back for every compatible start, then a truncation to the write index.
\<close>

definition close_reused_starts ::
    "match_input \<Rightarrow> match_options \<Rightarrow> nat \<Rightarrow> (nat \<Rightarrow> 's \<Rightarrow> 's) \<Rightarrow> nat list \<Rightarrow> 's \<Rightarrow> nat list \<times> 's" where
  "close_reused_starts inp opts stop_index close_start open_start_indices s =
     (case fold
         (\<lambda>read_index (vec, write_index, s).
            let start_index = vec ! read_index in
            if is_compatible_open_start_for_stop inp opts stop_index start_index
            then (vec, write_index, close_start start_index s)
            else (vec[write_index := start_index], Suc write_index, s))
         [0..<length open_start_indices] (open_start_indices, 0, s) of
       (vec, write_index, s) \<Rightarrow> (take write_index vec, s))"

definition legacy_close_reason :: "match_input \<Rightarrow> nat \<Rightarrow> nat \<Rightarrow> episode_close_reason" where
  "legacy_close_reason inp stop_index start_index =
     (let same_app = (app_codes inp ! start_index = app_codes inp ! stop_index) in
      if same_stop inp ! stop_index \<and> same_app then SameAppStop
      else if other_stop inp ! stop_index \<and> \<not> same_app \<and> \<not> background inp ! start_index
      then OtherAppStop
      else ActivityStoppedFallback)"

text \<open>Classify every close appended since \<open>stop_reasons\<close> was last filled.\<close>

definition classify_new_closes ::
    "match_input \<Rightarrow> nat \<Rightarrow> episode_close_reason list \<Rightarrow> nat list \<Rightarrow> episode_close_reason list" where
  "classify_new_closes inp stop_index reasons stop_starts =
     reasons @ map (legacy_close_reason inp stop_index) (drop (length reasons) stop_starts)"

section \<open>Stop modes of the sparse matcher\<close>

datatype sparse_stop_mode = SameApp | OtherApp | AnyApp | FallbackSameApp

definition sparse_stop_mode_of ::
    "match_input \<Rightarrow> match_options \<Rightarrow> nat \<Rightarrow> sparse_stop_mode option" where
  "sparse_stop_mode_of inp opts index =
     (let has_same_stop = same_stop inp ! index;
          has_other_stop = other_stop inp ! index;
          has_fallback_stop = stopped inp ! index \<and> use_activity_stopped_as_fallback opts
      in if has_same_stop \<and> has_other_stop then Some AnyApp
         else if has_same_stop then Some SameApp
         else if has_other_stop then Some OtherApp
         else if has_fallback_stop then Some FallbackSameApp
         else None)"

fun sparse_stop_enforces_threshold :: "sparse_stop_mode \<Rightarrow> match_options \<Rightarrow> bool" where
  "sparse_stop_enforces_threshold FallbackSameApp opts = apply_threshold_to_fallback opts"
| "sparse_stop_enforces_threshold _ opts = True"

text \<open>The test a mode applies to an open start, the duration aside.\<close>

fun mode_matches :: "match_input \<Rightarrow> sparse_stop_mode \<Rightarrow> nat \<Rightarrow> nat \<Rightarrow> bool" where
  "mode_matches inp OtherApp stop_index start_index =
     (app_codes inp ! start_index \<noteq> app_codes inp ! stop_index \<and> \<not> background inp ! start_index)"
| "mode_matches inp AnyApp stop_index start_index =
     (app_codes inp ! start_index = app_codes inp ! stop_index \<or> \<not> background inp ! start_index)"
| "mode_matches inp _ stop_index start_index =
     (app_codes inp ! start_index = app_codes inp ! stop_index)"

abbreviation duration_ok ::
    "match_input \<Rightarrow> match_options \<Rightarrow> bool \<Rightarrow> nat \<Rightarrow> nat \<Rightarrow> bool" where
  "duration_ok inp opts enforce stop_index start_index \<equiv>
     is_valid_duration (timestamp_ns inp ! start_index) (timestamp_ns inp ! stop_index) enforce
       (long_duration_threshold_ns opts)"

section \<open>Facts\<close>

lemma is_valid_duration_iff:
  "is_valid_duration a b enforce threshold \<longleftrightarrow> a \<le> b \<and> (enforce \<longrightarrow> b - a \<le> threshold)"
  by (auto simp: is_valid_duration_def Let_def)

text \<open>The mode is the compatibility test with the event's flags evaluated once.\<close>

lemma compatible_iff_mode:
  "is_compatible_open_start_for_stop inp opts i j \<longleftrightarrow>
     (case sparse_stop_mode_of inp opts i of
        None \<Rightarrow> False
      | Some mode \<Rightarrow> mode_matches inp mode i j
          \<and> duration_ok inp opts (sparse_stop_enforces_threshold mode opts) i j)"
  by (auto simp: is_compatible_open_start_for_stop_def sparse_stop_mode_of_def Let_def)

lemma no_mode_iff:
  "sparse_stop_mode_of inp opts i = None \<longleftrightarrow>
     \<not> (same_stop inp ! i \<or> other_stop inp ! i)
     \<and> \<not> (stopped inp ! i \<and> use_activity_stopped_as_fallback opts)"
  by (auto simp: sparse_stop_mode_of_def Let_def)

lemma compatible_duration:
  "is_compatible_open_start_for_stop inp opts i j \<Longrightarrow> timestamp_ns inp ! j \<le> timestamp_ns inp ! i"
  by (auto simp: compatible_iff_mode is_valid_duration_iff split: option.splits)

text \<open>The compaction loop is a filter: it keeps the incompatible starts in order and calls back on
  the compatible ones in order.\<close>

lemma compaction_loop:
  assumes "n \<le> length xs"
  shows "\<exists>vec w.
    fold (\<lambda>read_index (vec, write_index, s).
            let start_index = vec ! read_index in
            if c start_index then (vec, write_index, f start_index s)
            else (vec[write_index := start_index], Suc write_index, s))
         [0..<n] (xs, 0, s)
      = (vec, w, fold f (filter c (take n xs)) s)
    \<and> length vec = length xs \<and> w \<le> n \<and> drop n vec = drop n xs
    \<and> take w vec = filter (\<lambda>x. \<not> c x) (take n xs)"
  using assms
proof (induction n)
  case 0
  then show ?case by simp
next
  case (Suc n)
  then obtain vec w where IH:
    "fold (\<lambda>read_index (vec, write_index, s).
            let start_index = vec ! read_index in
            if c start_index then (vec, write_index, f start_index s)
            else (vec[write_index := start_index], Suc write_index, s))
         [0..<n] (xs, 0, s) = (vec, w, fold f (filter c (take n xs)) s)"
    "length vec = length xs" "w \<le> n" "drop n vec = drop n xs"
    "take w vec = filter (\<lambda>x. \<not> c x) (take n xs)"
    by auto
  have n: "n < length xs" using Suc.prems by simp
  have x: "vec ! n = xs ! n"
    using IH(2,4) n by (metis nth_via_drop drop_eq_Nil Cons_nth_drop_Suc not_le)
  have d: "drop (Suc n) vec = drop (Suc n) xs"
    using IH(4) by (metis drop_Suc drop_tl)
  have t: "take (Suc n) xs = take n xs @ [xs ! n]"
    using n by (rule take_Suc_conv_app_nth)
  have w: "w < length vec" using IH(2,3) n by simp
  show ?case
  proof (cases "c (xs ! n)")
    case True
    then show ?thesis using IH x d t by (auto simp: Let_def)
  next
    case False
    have "take (Suc w) (vec[w := xs ! n]) = take w vec @ [xs ! n]"
      using w by (simp add: take_Suc_conv_app_nth)
    moreover have "drop (Suc n) (vec[w := xs ! n]) = drop (Suc n) xs"
      using d IH(3) by simp
    ultimately show ?thesis using False IH x t by (auto simp: Let_def)
  qed
qed

lemma close_reused_starts_filter:
  "close_reused_starts inp opts i f xs s =
     (filter (\<lambda>j. \<not> is_compatible_open_start_for_stop inp opts i j) xs,
      fold f (filter (is_compatible_open_start_for_stop inp opts i) xs) s)"
  using compaction_loop [of "length xs" xs "is_compatible_open_start_for_stop inp opts i" f s]
  by (auto simp: close_reused_starts_def)

text \<open>Scanning positions backward finds the last element that satisfies the test.\<close>

lemma find_rev_position:
  "find (\<lambda>p. P (xs ! p)) (rev [0..<length xs]) = None \<longleftrightarrow> (\<forall>x \<in> set xs. \<not> P x)"
  by (auto simp: find_None_iff all_set_conv_all_nth)

lemma find_rev_position_Some:
  "find (\<lambda>p. P (xs ! p)) (rev [0..<length xs]) = Some p \<Longrightarrow>
     p < length xs \<and> P (xs ! p) \<and> find P (rev xs) = Some (xs ! p)"
proof (induction xs rule: rev_induct)
  case Nil
  then show ?case by simp
next
  case (snoc x xs)
  show ?case
  proof (cases "P x")
    case True
    with snoc.prems show ?thesis by auto
  next
    case False
    have "find (\<lambda>p. P ((xs @ [x]) ! p)) (rev [0..<length xs])
        = find (\<lambda>p. P (xs ! p)) (rev [0..<length xs])"
      by (rule find_cong) (auto simp: nth_append)
    with snoc.prems False have "find (\<lambda>p. P (xs ! p)) (rev [0..<length xs]) = Some p" by simp
    with snoc.IH False show ?thesis by (auto simp: nth_append)
  qed
qed

lemma nearest_None:
  "nearest_compatible_open_start_for_stop inp opts i xs = None \<longleftrightarrow>
     find (is_compatible_open_start_for_stop inp opts i) (rev xs) = None"
  unfolding nearest_compatible_open_start_for_stop_def find_rev_position
  by (auto simp: find_None_iff)

lemma nearest_Some:
  "nearest_compatible_open_start_for_stop inp opts i xs = Some p \<Longrightarrow>
     p < length xs \<and> is_compatible_open_start_for_stop inp opts i (xs ! p)
     \<and> find (is_compatible_open_start_for_stop inp opts i) (rev xs) = Some (xs ! p)"
  unfolding nearest_compatible_open_start_for_stop_def by (rule find_rev_position_Some)

lemma length_classify_new_closes:
  "length reasons \<le> length starts \<Longrightarrow>
     length (classify_new_closes inp i reasons starts) = length starts"
  by (simp add: classify_new_closes_def)

lemma classify_new_closes_append:
  "length reasons = length starts \<Longrightarrow>
     classify_new_closes inp i reasons (starts @ new) =
       reasons @ map (legacy_close_reason inp i) new"
  by (simp add: classify_new_closes_def)

end
