(* ===== verification/Sparse_Open_Starts.thy ===== *)
theory Sparse_Open_Starts
  imports Matcher_Base
begin

text \<open>
  \<open>SparseOpenStarts\<close>: the open starts kept as two kinds of linked lists threaded through index
  vectors (one list over all starts, one per app code, both newest first), with lazy deletion by a
  \<open>closed\<close> bit that later pruning skips over.

  A walk along a list is a \<open>while\<close> loop over a cursor. Nothing in the types makes it stop, so each
  walk is a \<open>partial_function (option)\<close>; the lemmas of the last section show that on a structure
  whose vectors really hold linked lists every walk returns, and what it returns.
\<close>

section \<open>The structure and its operations\<close>

record sparse_open_starts =
  global_prev :: "int list"
  app_prev :: "int list"
  is_closed :: "bool list"
  app_heads :: "int list"
  global_head :: int

definition max_or_zero :: "int list \<Rightarrow> int" where
  "max_or_zero codes = (case codes of [] \<Rightarrow> 0 | c # cs \<Rightarrow> fold max cs c)"

definition negative_code_error :: matcher_failure where
  "negative_code_error = MatcherError ''app code arrays must contain only non-negative values''"

definition sparse_new :: "nat \<Rightarrow> int list \<Rightarrow> sparse_open_starts matcher_result" where
  "sparse_new len codes =
     (if \<exists>code \<in> set codes. code < 0 then Inl negative_code_error
      else Inr \<lparr>global_prev = replicate len (-1), app_prev = replicate len (-1),
                is_closed = replicate len False,
                app_heads = replicate (nat (max_or_zero codes) + 1) (-1),
                global_head = -1\<rparr>)"

definition sparse_open :: "nat \<Rightarrow> int \<Rightarrow> sparse_open_starts \<Rightarrow> sparse_open_starts" where
  "sparse_open index app_code s =
     (let slot = nat app_code in
      s\<lparr>global_prev := (global_prev s)[index := global_head s],
        app_prev := (app_prev s)[index := app_heads s ! slot],
        global_head := as_i32 index,
        app_heads := (app_heads s)[slot := as_i32 index]\<rparr>)"

definition sparse_close :: "nat \<Rightarrow> sparse_open_starts \<Rightarrow> sparse_open_starts" where
  "sparse_close index s = s\<lparr>is_closed := (is_closed s)[index := True]\<rparr>"

partial_function (option) prune_walk :: "int list \<Rightarrow> bool list \<Rightarrow> int \<Rightarrow> int option" where
  "prune_walk prev cl head =
     (if 0 \<le> head \<and> cl ! nat head then prune_walk prev cl (prev ! nat head) else Some head)"

definition prune_global_head :: "sparse_open_starts \<Rightarrow> sparse_open_starts option" where
  "prune_global_head s =
     map_option (\<lambda>h. s\<lparr>global_head := h\<rparr>)
       (prune_walk (global_prev s) (is_closed s) (global_head s))"

definition prune_app_head :: "int \<Rightarrow> sparse_open_starts \<Rightarrow> sparse_open_starts option" where
  "prune_app_head app_code s =
     (let slot = nat app_code in
      map_option (\<lambda>h. s\<lparr>app_heads := (app_heads s)[slot := h]\<rparr>)
        (prune_walk (app_prev s) (is_closed s) (app_heads s ! slot)))"

definition latest_same_app ::
    "int \<Rightarrow> (nat \<Rightarrow> bool) \<Rightarrow> sparse_open_starts \<Rightarrow> (nat option \<times> sparse_open_starts) option" where
  "latest_same_app app_code valid s =
     (case prune_app_head app_code s of
        None \<Rightarrow> None
      | Some s \<Rightarrow>
          let cursor = app_heads s ! nat app_code in
          if cursor < 0 then Some (None, s)
          else if \<not> valid (nat cursor) then Some (None, s)
          else Some (Some (nat cursor), s))"

partial_function (option) latest_walk ::
    "int list \<Rightarrow> bool list \<Rightarrow> (nat \<Rightarrow> bool) \<Rightarrow> (nat \<Rightarrow> bool) \<Rightarrow> int \<Rightarrow> nat option option" where
  "latest_walk prev cl valid predicate cursor =
     (if cursor < 0 then Some None
      else let index = nat cursor; cursor = prev ! index in
        if cl ! index then latest_walk prev cl valid predicate cursor
        else if \<not> valid index then Some None
        else if predicate index then Some (Some index)
        else latest_walk prev cl valid predicate cursor)"

definition latest_matching_global ::
    "(nat \<Rightarrow> bool) \<Rightarrow> (nat \<Rightarrow> bool) \<Rightarrow> sparse_open_starts
      \<Rightarrow> (nat option \<times> sparse_open_starts) option" where
  "latest_matching_global valid predicate s =
     (case prune_global_head s of
        None \<Rightarrow> None
      | Some s \<Rightarrow>
          map_option (\<lambda>r. (r, s))
            (latest_walk (global_prev s) (is_closed s) valid predicate (global_head s)))"

text \<open>The closing walks call back on every start they close, newest first.\<close>

partial_function (option) close_walk ::
    "int list \<Rightarrow> (nat \<Rightarrow> bool) \<Rightarrow> (nat \<Rightarrow> bool) \<Rightarrow> (nat \<Rightarrow> 'u \<Rightarrow> 'u) \<Rightarrow> int \<Rightarrow> bool list \<Rightarrow> 'u
      \<Rightarrow> (bool list \<times> 'u) option" where
  "close_walk prev valid predicate on_close cursor cl u =
     (if cursor < 0 then Some (cl, u)
      else let index = nat cursor; cursor = prev ! index in
        if cl ! index then close_walk prev valid predicate on_close cursor cl u
        else if \<not> valid index then Some (cl, u)
        else if predicate index
        then close_walk prev valid predicate on_close cursor (cl[index := True]) (on_close index u)
        else close_walk prev valid predicate on_close cursor cl u)"

definition close_same_app_matches ::
    "int \<Rightarrow> (nat \<Rightarrow> bool) \<Rightarrow> (nat \<Rightarrow> 'u \<Rightarrow> 'u) \<Rightarrow> sparse_open_starts \<Rightarrow> 'u
      \<Rightarrow> (sparse_open_starts \<times> 'u) option" where
  "close_same_app_matches app_code valid on_close s u =
     (case prune_app_head app_code s of
        None \<Rightarrow> None
      | Some s \<Rightarrow>
     (case close_walk (app_prev s) valid (\<lambda>_. True) on_close (app_heads s ! nat app_code)
             (is_closed s) u of
        None \<Rightarrow> None
      | Some (cl, u) \<Rightarrow>
     (case prune_app_head app_code (s\<lparr>is_closed := cl\<rparr>) of
        None \<Rightarrow> None
      | Some s \<Rightarrow> map_option (\<lambda>s. (s, u)) (prune_global_head s))))"

definition close_matching_global ::
    "(nat \<Rightarrow> bool) \<Rightarrow> (nat \<Rightarrow> bool) \<Rightarrow> (nat \<Rightarrow> 'u \<Rightarrow> 'u) \<Rightarrow> sparse_open_starts \<Rightarrow> 'u
      \<Rightarrow> (sparse_open_starts \<times> 'u) option" where
  "close_matching_global valid predicate on_close s u =
     (case prune_global_head s of
        None \<Rightarrow> None
      | Some s \<Rightarrow>
     (case close_walk (global_prev s) valid predicate on_close (global_head s) (is_closed s) u of
        None \<Rightarrow> None
      | Some (cl, u) \<Rightarrow> map_option (\<lambda>s. (s, u)) (prune_global_head (s\<lparr>is_closed := cl\<rparr>))))"

partial_function (option) finish_walk ::
    "int list \<Rightarrow> (nat \<Rightarrow> bool) \<Rightarrow> (nat \<Rightarrow> 'u \<Rightarrow> 'u) \<Rightarrow> (nat \<Rightarrow> 'u \<Rightarrow> 'u) \<Rightarrow> int \<Rightarrow> bool list \<Rightarrow> 'u
      \<Rightarrow> (bool list \<times> 'u) option" where
  "finish_walk prev closes on_close on_missing cursor cl u =
     (if cursor < 0 then Some (cl, u)
      else let index = nat cursor; cursor = prev ! index in
        if cl ! index then finish_walk prev closes on_close on_missing cursor cl u
        else if closes index
        then finish_walk prev closes on_close on_missing cursor (cl[index := True])
               (on_close index u)
        else finish_walk prev closes on_close on_missing cursor cl (on_missing index u))"

definition finish_open_starts ::
    "nat \<Rightarrow> (nat \<Rightarrow> bool) \<Rightarrow> (nat \<Rightarrow> nat \<Rightarrow> 'u \<Rightarrow> 'u) \<Rightarrow> (nat \<Rightarrow> 'u \<Rightarrow> 'u) \<Rightarrow> sparse_open_starts \<Rightarrow> 'u
      \<Rightarrow> (sparse_open_starts \<times> 'u) option" where
  "finish_open_starts last_index valid on_close on_missing s u =
     (case prune_global_head s of
        None \<Rightarrow> None
      | Some s \<Rightarrow>
          map_option (\<lambda>(cl, u). (s\<lparr>is_closed := cl\<rparr>, u))
            (finish_walk (global_prev s) (\<lambda>index. index < last_index \<and> valid index)
               (\<lambda>index. on_close index last_index) on_missing (global_head s) (is_closed s) u))"

section \<open>Linked lists in an index vector\<close>

primrec linked :: "int list \<Rightarrow> int \<Rightarrow> nat list \<Rightarrow> bool" where
  "linked prev h [] \<longleftrightarrow> h < 0"
| "linked prev h (x # xs) \<longleftrightarrow> h = int x \<and> x < length prev \<and> linked prev (prev ! x) xs"

lemma linked_update_outside [simp]:
  "x \<notin> set xs \<Longrightarrow> linked (prev[x := v]) h xs = linked prev h xs"
  by (induction xs arbitrary: h) auto

lemma prune_walk_linked:
  "linked prev h xs \<Longrightarrow>
     \<exists>h'. prune_walk prev cl h = Some h' \<and> linked prev h' (dropWhile (\<lambda>x. cl ! x) xs)"
proof (induction xs arbitrary: h)
  case Nil
  then show ?case by (subst prune_walk.simps) auto
next
  case (Cons x xs)
  show ?case
  proof (cases "cl ! x")
    case True
    with Cons show ?thesis by (subst prune_walk.simps) auto
  next
    case False
    with Cons.prems show ?thesis by (subst prune_walk.simps) auto
  qed
qed

lemma latest_walk_linked:
  "linked prev h xs \<Longrightarrow>
     latest_walk prev cl valid p h
       = Some (find p (takeWhile valid (filter (\<lambda>x. \<not> cl ! x) xs)))"
proof (induction xs arbitrary: h)
  case Nil
  then show ?case by (subst latest_walk.simps) auto
next
  case (Cons x xs)
  then show ?case by (subst latest_walk.simps) (auto simp: Let_def)
qed

definition mark_closed :: "nat list \<Rightarrow> bool list \<Rightarrow> bool list" where
  "mark_closed xs cl = fold (\<lambda>x c. c[x := True]) xs cl"

lemma length_mark_closed [simp]: "length (mark_closed xs cl) = length cl"
  by (induction xs arbitrary: cl) (auto simp: mark_closed_def)

lemma nth_mark_closed:
  "i < length cl \<Longrightarrow> mark_closed xs cl ! i \<longleftrightarrow> cl ! i \<or> i \<in> set xs"
proof (induction xs arbitrary: cl)
  case Nil
  then show ?case by (simp add: mark_closed_def)
next
  case (Cons x xs)
  from Cons.IH [of "cl[x := True]"] Cons.prems show ?case
    by (cases "i = x") (simp_all add: mark_closed_def)
qed

lemma filter_not_closed_update:
  "x \<notin> set xs \<Longrightarrow> filter (\<lambda>y. \<not> cl[x := True] ! y) xs = filter (\<lambda>y. \<not> cl ! y) xs"
  by (intro filter_cong refl) (metis nth_list_update_neq)

lemma filter_not_closed_update_conj:
  "x \<notin> set xs \<Longrightarrow>
     filter (\<lambda>y. \<not> cl[x := True] ! y \<and> q y) xs = filter (\<lambda>y. \<not> cl ! y \<and> q y) xs"
  by (intro filter_cong refl) (metis nth_list_update_neq)

lemma close_walk_linked:
  "linked prev h xs \<Longrightarrow> distinct xs \<Longrightarrow>
     close_walk prev valid p f h cl u =
       Some (mark_closed (filter p (takeWhile valid (filter (\<lambda>x. \<not> cl ! x) xs))) cl,
             fold f (filter p (takeWhile valid (filter (\<lambda>x. \<not> cl ! x) xs))) u)"
proof (induction xs arbitrary: h cl u)
  case Nil
  then show ?case by (subst close_walk.simps) (auto simp: mark_closed_def)
next
  case (Cons x xs)
  then show ?case
    by (subst close_walk.simps) (auto simp: Let_def mark_closed_def filter_not_closed_update)
qed

lemma finish_walk_linked:
  "linked prev h xs \<Longrightarrow> distinct xs \<Longrightarrow>
     finish_walk prev closes f g h cl u =
       Some (mark_closed (filter closes (filter (\<lambda>x. \<not> cl ! x) xs)) cl,
             fold (\<lambda>x. if closes x then f x else g x) (filter (\<lambda>x. \<not> cl ! x) xs) u)"
proof (induction xs arbitrary: h cl u)
  case Nil
  then show ?case by (subst finish_walk.simps) (auto simp: mark_closed_def)
next
  case (Cons x xs)
  then show ?case
    by (subst finish_walk.simps)
      (auto simp: Let_def mark_closed_def filter_not_closed_update filter_not_closed_update_conj)
qed

end
