(* ===== verification/Open_Start_Pool.thy ===== *)
theory Open_Start_Pool
  imports Sparse_Open_Starts
begin

text \<open>
  The contract the fused matchers rely on: a pool represents an ascending list of open starts, and
  each operation acts on that list as documented. \<open>open_start_pool\<close> states it as a locale; its
  interpretation \<open>sparse\<close> discharges it for \<open>SparseOpenStarts\<close>, the linked lists with lazy deletion,
  so the matchers reason about lists only.
\<close>

section \<open>The interface\<close>

locale open_start_pool =
  fixes repr :: "'p \<Rightarrow> nat list \<Rightarrow> nat \<Rightarrow> bool"
    and app_of :: "nat \<Rightarrow> int"
    and opn :: "nat \<Rightarrow> 'p \<Rightarrow> 'p"
    and cls :: "nat \<Rightarrow> 'p \<Rightarrow> 'p"
    and latest_app :: "int \<Rightarrow> (nat \<Rightarrow> bool) \<Rightarrow> 'p \<Rightarrow> (nat option \<times> 'p) option"
    and latest_global :: "(nat \<Rightarrow> bool) \<Rightarrow> (nat \<Rightarrow> bool) \<Rightarrow> 'p \<Rightarrow> (nat option \<times> 'p) option"
    and close_app :: "int \<Rightarrow> (nat \<Rightarrow> bool) \<Rightarrow> (nat \<Rightarrow> 'u \<Rightarrow> 'u) \<Rightarrow> 'p \<Rightarrow> 'u \<Rightarrow> ('p \<times> 'u) option"
    and close_global ::
      "(nat \<Rightarrow> bool) \<Rightarrow> (nat \<Rightarrow> bool) \<Rightarrow> (nat \<Rightarrow> 'u \<Rightarrow> 'u) \<Rightarrow> 'p \<Rightarrow> 'u \<Rightarrow> ('p \<times> 'u) option"
    and room :: "nat \<Rightarrow> bool"
  assumes repr_sorted: "repr p opens n \<Longrightarrow> sorted_wrt (<) opens \<and> (\<forall>j \<in> set opens. j < n)"
    and repr_opn: "repr p opens n \<Longrightarrow> room n \<Longrightarrow> repr (opn n p) (opens @ [n]) (Suc n)"
    and repr_skip: "repr p opens n \<Longrightarrow> room n \<Longrightarrow> repr p opens (Suc n)"
    and repr_cls: "repr p opens n \<Longrightarrow> j \<in> set opens \<Longrightarrow> repr (cls j p) (remove1 j opens) n"
    and latest_app_law: "repr p opens n \<Longrightarrow> room n \<Longrightarrow>
      \<exists>p'. latest_app (app_of n) valid p =
             Some (case filter (\<lambda>j. app_of j = app_of n) (rev opens) of
                     [] \<Rightarrow> None | j # _ \<Rightarrow> if valid j then Some j else None, p')
        \<and> repr p' opens n"
    and latest_global_law: "repr p opens n \<Longrightarrow>
      \<exists>p'. latest_global valid q p = Some (find q (takeWhile valid (rev opens)), p')
        \<and> repr p' opens n"
    and close_app_law: "repr p opens n \<Longrightarrow> room n \<Longrightarrow>
      L = takeWhile valid (filter (\<lambda>j. app_of j = app_of n) (rev opens)) \<Longrightarrow>
      \<exists>p'. close_app (app_of n) valid f p u = Some (p', fold f L u)
        \<and> repr p' (filter (\<lambda>j. j \<notin> set L) opens) n"
    and close_global_law: "repr p opens n \<Longrightarrow>
      L = filter q (takeWhile valid (rev opens)) \<Longrightarrow>
      \<exists>p'. close_global valid q f p u = Some (p', fold f L u)
        \<and> repr p' (filter (\<lambda>j. j \<notin> set L) opens) n"
begin

text \<open>
  The clients: where older starts are never valid once a newer one is not, stopping at the first
  invalid start loses nothing, so every operation is a search or a filter with the whole test.
\<close>

definition age_monotone :: "(nat \<Rightarrow> bool) \<Rightarrow> nat list \<Rightarrow> bool" where
  "age_monotone valid opens \<longleftrightarrow> (\<forall>i \<in> set opens. \<forall>j \<in> set opens. i \<le> j \<longrightarrow> valid i \<longrightarrow> valid j)"

lemma takeWhile_rev_opens:
  assumes "repr p opens n" "age_monotone valid opens"
  shows "takeWhile valid (filter q (rev opens)) = filter (\<lambda>j. valid j \<and> q j) (rev opens)"
proof -
  have "sorted_wrt (\<lambda>x y. y < x) (rev opens)"
    using repr_sorted [OF assms(1)] by (simp add: sorted_wrt_rev)
  then have "sorted_wrt (\<lambda>x y. y < x) (filter q (rev opens))"
    by (rule sorted_wrt_filter)
  then have "sorted_wrt (\<lambda>x y. valid y \<longrightarrow> valid x) (filter q (rev opens))"
    by (rule sorted_wrt_mono_rel [rotated])
      (use assms(2) in \<open>auto simp: age_monotone_def\<close>)
  then have "takeWhile valid (filter q (rev opens)) = filter valid (filter q (rev opens))"
    by (rule takeWhile_filter_antimono)
  also have "\<dots> = filter (\<lambda>j. valid j \<and> q j) (rev opens)"
    by (simp add: conj_commute)
  finally show ?thesis .
qed

lemma find_filter_conj: "find q (filter valid xs) = find (\<lambda>j. valid j \<and> q j) xs"
  by (induction xs) auto

lemma case_filter_find:
  assumes "takeWhile valid (filter q xs) = filter (\<lambda>j. valid j \<and> q j) xs"
  shows "(case filter q xs of [] \<Rightarrow> None | j # _ \<Rightarrow> if valid j then Some j else None)
       = find (\<lambda>j. valid j \<and> q j) xs"
proof (cases "filter q xs")
  case Nil
  then have "find (\<lambda>j. valid j \<and> q j) xs = None"
    by (auto simp: find_None_iff filter_empty_conv)
  with Nil show ?thesis by simp
next
  case (Cons j js)
  have hd: "find r xs = (case filter r xs of [] \<Rightarrow> None | j # _ \<Rightarrow> Some j)" for r
    by (induction xs) auto
  show ?thesis
  proof (cases "valid j")
    case True
    with Cons assms have "filter (\<lambda>j. valid j \<and> q j) xs = j # takeWhile valid js" by simp
    with Cons True show ?thesis by (simp add: hd)
  next
    case False
    with Cons assms have "filter (\<lambda>j. valid j \<and> q j) xs = []" by simp
    with Cons False show ?thesis by (simp add: hd)
  qed
qed

lemma latest_app_find:
  assumes "repr p opens n" "room n" "age_monotone valid opens"
  shows "\<exists>p'. latest_app (app_of n) valid p =
           Some (find (\<lambda>j. valid j \<and> app_of j = app_of n) (rev opens), p') \<and> repr p' opens n"
  using latest_app_law [OF assms(1,2), of valid]
  by (simp add: case_filter_find [OF takeWhile_rev_opens [OF assms(1,3)]])

lemma latest_global_find:
  assumes "repr p opens n" "age_monotone valid opens"
  shows "\<exists>p'. latest_global valid q p =
           Some (find (\<lambda>j. valid j \<and> q j) (rev opens), p') \<and> repr p' opens n"
  using latest_global_law [OF assms(1), of valid q]
    takeWhile_rev_opens [OF assms, of "\<lambda>_. True"]
  by (simp add: find_filter_conj)

lemma close_app_filter:
  assumes "repr p opens n" "room n" "age_monotone valid opens"
  shows "\<exists>p'. close_app (app_of n) valid f p u =
           Some (p', fold f (filter (\<lambda>j. valid j \<and> app_of j = app_of n) (rev opens)) u)
         \<and> repr p' (filter (\<lambda>j. \<not> (valid j \<and> app_of j = app_of n)) opens) n"
proof -
  let ?c = "\<lambda>j. valid j \<and> app_of j = app_of n"
  have "filter (\<lambda>j. j \<notin> set (filter ?c (rev opens))) opens = filter (\<lambda>j. \<not> ?c j) opens"
    by (rule filter_cong) auto
  with close_app_law [OF assms(1,2) refl, of valid f u] takeWhile_rev_opens [OF assms(1,3)]
  show ?thesis by simp
qed

lemma close_global_filter:
  assumes "repr p opens n" "age_monotone valid opens"
  shows "\<exists>p'. close_global valid q f p u =
           Some (p', fold f (filter (\<lambda>j. valid j \<and> q j) (rev opens)) u)
         \<and> repr p' (filter (\<lambda>j. \<not> (valid j \<and> q j)) opens) n"
proof -
  let ?c = "\<lambda>j. valid j \<and> q j"
  have L: "filter q (takeWhile valid (rev opens)) = filter ?c (rev opens)"
    using takeWhile_rev_opens [OF assms, of "\<lambda>_. True"] by (simp add: conj_commute)
  have "filter (\<lambda>j. j \<notin> set (filter ?c (rev opens))) opens = filter (\<lambda>j. \<not> ?c j) opens"
    by (rule filter_cong) auto
  with close_global_law [OF assms(1) refl, where q = q and valid = valid and f = f and u = u] L
  show ?thesis by simp
qed

end

section \<open>The linked lists represent the pool\<close>

text \<open>
  \<open>chain n prev cl h ys\<close>: from head \<open>h\<close> the vector \<open>prev\<close> links a strictly descending list of
  indices below \<open>n\<close>, and its members that are not closed are \<open>ys\<close>, in order.
\<close>

definition chain :: "nat \<Rightarrow> int list \<Rightarrow> bool list \<Rightarrow> int \<Rightarrow> nat list \<Rightarrow> bool" where
  "chain n prev cl h ys \<longleftrightarrow>
     (\<exists>xs. linked prev h xs \<and> sorted_wrt (>) xs \<and> (\<forall>x \<in> set xs. x < n)
        \<and> filter (\<lambda>x. \<not> cl ! x) xs = ys)"

lemma sorted_greater_distinct: "sorted_wrt (>) xs \<Longrightarrow> distinct (xs :: nat list)"
  by (induction xs) auto

lemma chain_empty: "h < 0 \<Longrightarrow> chain n prev cl h []"
  by (auto simp: chain_def intro!: exI [of _ "[]"])

lemma chain_Suc: "chain n prev cl h ys \<Longrightarrow> chain (Suc n) prev cl h ys"
  by (auto simp: chain_def intro: less_SucI)

lemma chain_prune:
  assumes "chain n prev cl h ys"
  shows "\<exists>h'. prune_walk prev cl h = Some h' \<and> chain n prev cl h' ys
           \<and> (case ys of [] \<Rightarrow> h' < 0 | y # _ \<Rightarrow> h' = int y)"
proof -
  obtain xs where xs: "linked prev h xs" "sorted_wrt (>) xs" "\<forall>x \<in> set xs. x < n"
    "filter (\<lambda>x. \<not> cl ! x) xs = ys"
    using assms by (auto simp: chain_def)
  let ?zs = "dropWhile (\<lambda>x. cl ! x) xs"
  obtain h' where h': "prune_walk prev cl h = Some h'" "linked prev h' ?zs"
    using prune_walk_linked [OF xs(1), of cl] by blast
  have split: "takeWhile (\<lambda>x. cl ! x) xs @ ?zs = xs" by simp
  have zs: "filter (\<lambda>x. \<not> cl ! x) ?zs = ys"
    using xs(4) by (induction xs arbitrary: ys) auto
  have "sorted_wrt (>) ?zs" using xs(2) split by (metis sorted_wrt_append)
  moreover have "\<forall>x \<in> set ?zs. x < n" using xs(3) by (auto dest: set_dropWhileD)
  ultimately have "chain n prev cl h' ys" using h'(2) zs by (auto simp: chain_def)
  moreover have "case ys of [] \<Rightarrow> h' < 0 | y # _ \<Rightarrow> h' = int y"
  proof (cases ?zs)
    case Nil
    with zs h'(2) show ?thesis by auto
  next
    case (Cons z zs')
    then have "\<not> cl ! z" by (metis hd_dropWhile list.distinct(1) list.sel(1))
    with Cons zs h'(2) show ?thesis by auto
  qed
  ultimately show ?thesis using h'(1) by blast
qed

lemma chain_push:
  assumes "chain n prev cl h ys" "n < length prev" "\<not> cl ! n"
  shows "chain (Suc n) (prev[n := h]) cl (int n) (n # ys)"
proof -
  obtain xs where xs: "linked prev h xs" "sorted_wrt (>) xs" "\<forall>x \<in> set xs. x < n"
    "filter (\<lambda>x. \<not> cl ! x) xs = ys"
    using assms(1) by (auto simp: chain_def)
  have "n \<notin> set xs" using xs(3) by auto
  then show ?thesis
    using xs assms(2,3) unfolding chain_def by (intro exI [of _ "n # xs"]) auto
qed

lemma chain_update_outside:
  assumes "chain n prev cl h ys"
  shows "chain (Suc n) (prev[n := v]) cl h ys"
proof -
  obtain xs where xs: "linked prev h xs" "sorted_wrt (>) xs" "\<forall>x \<in> set xs. x < n"
    "filter (\<lambda>x. \<not> cl ! x) xs = ys"
    using assms by (auto simp: chain_def)
  have "n \<notin> set xs" using xs(3) by auto
  then show ?thesis
    using xs unfolding chain_def by (intro exI [of _ xs]) (auto intro: less_SucI)
qed

lemma chain_mark:
  assumes "chain n prev cl h ys" "n \<le> length cl"
  shows "chain n prev (mark_closed zs cl) h (filter (\<lambda>y. y \<notin> set zs) ys)"
proof -
  obtain xs where xs: "linked prev h xs" "sorted_wrt (>) xs" "\<forall>x \<in> set xs. x < n"
    "filter (\<lambda>x. \<not> cl ! x) xs = ys"
    using assms(1) by (auto simp: chain_def)
  have "filter (\<lambda>x. \<not> mark_closed zs cl ! x) xs = filter (\<lambda>y. y \<notin> set zs) ys"
    using xs(3) assms(2) unfolding xs(4) [symmetric] filter_filter
    by (intro filter_cong) (auto simp: nth_mark_closed)
  then show ?thesis using xs by (auto simp: chain_def)
qed

section \<open>The representation relation\<close>

definition sparse_repr :: "int list \<Rightarrow> sparse_open_starts \<Rightarrow> nat list \<Rightarrow> nat \<Rightarrow> bool" where
  "sparse_repr codes s opens n \<longleftrightarrow>
     length (global_prev s) = length codes \<and> length (app_prev s) = length codes
     \<and> length (is_closed s) = length codes
     \<and> n \<le> length codes \<and> length codes \<le> 2 ^ 31
     \<and> (\<forall>i < length codes. 0 \<le> codes ! i \<and> nat (codes ! i) < length (app_heads s))
     \<and> sorted_wrt (<) opens \<and> (\<forall>j \<in> set opens. j < n)
     \<and> (\<forall>i. n \<le> i \<longrightarrow> i < length codes \<longrightarrow> \<not> is_closed s ! i)
     \<and> chain n (global_prev s) (is_closed s) (global_head s) (rev opens)
     \<and> (\<forall>c < length (app_heads s).
          chain n (app_prev s) (is_closed s) (app_heads s ! c)
            (filter (\<lambda>i. nat (codes ! i) = c) (rev opens)))"

lemma max_or_zero_ge: "c \<in> set codes \<Longrightarrow> c \<le> max_or_zero codes"
  by (cases codes) (auto simp: max_or_zero_def Max.set_eq_fold [symmetric])

lemma sparse_new_repr:
  assumes "sparse_new (length codes) codes = Inr s" "length codes \<le> 2 ^ 31"
  shows "sparse_repr codes s [] 0"
proof -
  have nonneg: "\<forall>c \<in> set codes. 0 \<le> c"
    and s: "s = \<lparr>global_prev = replicate (length codes) (-1),
                 app_prev = replicate (length codes) (-1),
                 is_closed = replicate (length codes) False,
                 app_heads = replicate (nat (max_or_zero codes) + 1) (-1), global_head = -1\<rparr>"
    using assms(1) by (auto simp: sparse_new_def not_less split: if_splits)
  have "0 \<le> codes ! i \<and> nat (codes ! i) < nat (max_or_zero codes) + 1" if "i < length codes" for i
    using that nonneg max_or_zero_ge [of "codes ! i" codes] by (auto simp: nth_mem)
  then show ?thesis
    using assms(2) by (auto simp: s sparse_repr_def nth_replicate simp del: replicate_Suc
        intro!: chain_empty)
qed

lemma sparse_new_Inr_iff:
  "(\<exists>s. sparse_new len codes = Inr s) \<longleftrightarrow> (\<forall>c \<in> set codes. 0 \<le> c)"
  by (force simp: sparse_new_def not_less)

text \<open>Pruning moves a head past closed members and represents the same pool.\<close>

lemma prune_global_head_repr:
  assumes "sparse_repr codes s opens n"
  shows "\<exists>s'. prune_global_head s = Some s' \<and> sparse_repr codes s' opens n
           \<and> is_closed s' = is_closed s"
proof -
  have c: "chain n (global_prev s) (is_closed s) (global_head s) (rev opens)"
    using assms by (simp add: sparse_repr_def)
  obtain h where "prune_walk (global_prev s) (is_closed s) (global_head s) = Some h"
    "chain n (global_prev s) (is_closed s) h (rev opens)"
    using chain_prune [OF c] by blast
  with assms show ?thesis by (auto simp: prune_global_head_def sparse_repr_def)
qed

lemma prune_app_head_repr:
  assumes "sparse_repr codes s opens n" "c < length (app_heads s)"
  shows "\<exists>s'. prune_app_head (int c) s = Some s' \<and> sparse_repr codes s' opens n
           \<and> is_closed s' = is_closed s \<and> app_prev s' = app_prev s
           \<and> length (app_heads s') = length (app_heads s)
           \<and> (case filter (\<lambda>i. nat (codes ! i) = c) (rev opens) of
                [] \<Rightarrow> app_heads s' ! c < 0 | j # _ \<Rightarrow> app_heads s' ! c = int j)"
proof -
  have ch: "chain n (app_prev s) (is_closed s) (app_heads s ! c)
      (filter (\<lambda>i. nat (codes ! i) = c) (rev opens))"
    using assms by (simp add: sparse_repr_def)
  obtain h where h: "prune_walk (app_prev s) (is_closed s) (app_heads s ! c) = Some h"
    "chain n (app_prev s) (is_closed s) h (filter (\<lambda>i. nat (codes ! i) = c) (rev opens))"
    "case filter (\<lambda>i. nat (codes ! i) = c) (rev opens) of [] \<Rightarrow> h < 0 | j # _ \<Rightarrow> h = int j"
    using chain_prune [OF ch] by blast
  have "sparse_repr codes (s\<lparr>app_heads := (app_heads s)[c := h]\<rparr>) opens n"
    using assms h(2) by (auto simp: sparse_repr_def nth_list_update)
  with h(1,3) assms(2) show ?thesis
    by (auto simp: prune_app_head_def split: list.splits)
qed

lemma mark_closed_repr:
  assumes "sparse_repr codes s opens n" "\<forall>z \<in> set zs. z < n"
  shows "sparse_repr codes (s\<lparr>is_closed := mark_closed zs (is_closed s)\<rparr>)
           (filter (\<lambda>j. j \<notin> set zs) opens) n"
proof -
  have n: "n \<le> length (is_closed s)" using assms(1) by (simp add: sparse_repr_def)
  have open_after: "\<not> mark_closed zs (is_closed s) ! i" if "n \<le> i" "i < length codes" for i
    using that assms by (auto simp: sparse_repr_def nth_mark_closed)
  have app: "chain n (app_prev s) (mark_closed zs (is_closed s)) (app_heads s ! c)
      (filter (\<lambda>i. nat (codes ! i) = c) (rev (filter (\<lambda>j. j \<notin> set zs) opens)))"
    if "c < length (app_heads s)" for c
    using chain_mark [OF _ n, of "app_prev s" "app_heads s ! c"
        "filter (\<lambda>i. nat (codes ! i) = c) (rev opens)" zs] that assms(1)
    by (simp add: sparse_repr_def rev_filter [symmetric] conj_commute)
  have global: "chain n (global_prev s) (mark_closed zs (is_closed s)) (global_head s)
      (rev (filter (\<lambda>j. j \<notin> set zs) opens))"
    using chain_mark [OF _ n, of "global_prev s" "global_head s" "rev opens" zs] assms(1)
    by (simp add: sparse_repr_def rev_filter)
  show ?thesis
    using assms(1) open_after app global
    by (simp add: sparse_repr_def sorted_wrt_filter)
qed

section \<open>Every operation of the linked lists acts on the pool\<close>

lemma sparse_repr_same_app:
  assumes "sparse_repr codes s opens n" "n < length codes"
  shows "filter (\<lambda>i. nat (codes ! i) = nat (codes ! n)) (rev opens)
       = filter (\<lambda>i. codes ! i = codes ! n) (rev opens)"
    and "nat (codes ! n) < length (app_heads s)"
    and "codes ! n = int (nat (codes ! n))"
proof -
  have "0 \<le> codes ! i" if "i = n \<or> i \<in> set opens" for i
    using that assms by (fastforce simp: sparse_repr_def)
  then show "filter (\<lambda>i. nat (codes ! i) = nat (codes ! n)) (rev opens)
       = filter (\<lambda>i. codes ! i = codes ! n) (rev opens)"
    by (intro filter_cong) (auto simp: eq_nat_nat_iff)
  show "nat (codes ! n) < length (app_heads s)" "codes ! n = int (nat (codes ! n))"
    using assms by (auto simp: sparse_repr_def)
qed

lemma sparse_open_repr:
  assumes r: "sparse_repr codes s opens n" and n: "n < length codes"
  shows "sparse_repr codes (sparse_open n (codes ! n) s) (opens @ [n]) (Suc n)"
proof -
  let ?slot = "nat (codes ! n)"
  have slot: "?slot < length (app_heads s)" by (rule sparse_repr_same_app [OF r n])
  have i32: "as_i32 n = int n"
    using r n by (intro as_i32_id) (auto simp: sparse_repr_def)
  have fresh: "\<not> is_closed s ! n" using r n by (auto simp: sparse_repr_def)
  have global: "chain (Suc n) ((global_prev s)[n := global_head s]) (is_closed s) (int n)
      (n # rev opens)"
    using r n fresh by (intro chain_push) (auto simp: sparse_repr_def)
  have app: "chain (Suc n) ((app_prev s)[n := app_heads s ! ?slot]) (is_closed s)
      ((app_heads s)[?slot := int n] ! c)
      (filter (\<lambda>i. nat (codes ! i) = c) (n # rev opens))" if c: "c < length (app_heads s)" for c
  proof (cases "c = ?slot")
    case True
    have "chain n (app_prev s) (is_closed s) (app_heads s ! ?slot)
        (filter (\<lambda>i. nat (codes ! i) = ?slot) (rev opens))"
      using r slot by (simp add: sparse_repr_def)
    from chain_push [OF this _ fresh] r n True slot show ?thesis
      by (simp add: sparse_repr_def)
  next
    case False
    have "chain n (app_prev s) (is_closed s) (app_heads s ! c)
        (filter (\<lambda>i. nat (codes ! i) = c) (rev opens))"
      using r c by (simp add: sparse_repr_def)
    from chain_update_outside [OF this] False show ?thesis by simp
  qed
  show ?thesis
    using r n global app
    by (auto simp: sparse_repr_def sparse_open_def Let_def i32 sorted_wrt_append
        intro: less_SucI)
qed

lemma sparse_skip_repr:
  "sparse_repr codes s opens n \<Longrightarrow> n < length codes \<Longrightarrow> sparse_repr codes s opens (Suc n)"
  by (auto simp: sparse_repr_def intro: chain_Suc less_SucI)

lemma sparse_close_repr:
  assumes r: "sparse_repr codes s opens n" and j: "j \<in> set opens"
  shows "sparse_repr codes (sparse_close j s) (remove1 j opens) n"
proof -
  have "distinct opens" using r strict_sorted_iff by (auto simp: sparse_repr_def)
  then have "remove1 j opens = filter (\<lambda>i. i \<notin> set [j]) opens"
    by (simp add: distinct_remove1_removeAll removeAll_filter_not_eq eq_commute)
  moreover have "\<forall>z \<in> set [j]. z < n" using r j by (auto simp: sparse_repr_def)
  ultimately show ?thesis
    using mark_closed_repr [OF r, of "[j]"] by (simp add: sparse_close_def mark_closed_def)
qed

lemma latest_same_app_repr:
  assumes r: "sparse_repr codes s opens n" and n: "n < length codes"
  shows "\<exists>s'. latest_same_app (codes ! n) valid s =
      Some (case filter (\<lambda>j. codes ! j = codes ! n) (rev opens) of
              [] \<Rightarrow> None | j # _ \<Rightarrow> if valid j then Some j else None, s')
    \<and> sparse_repr codes s' opens n"
proof -
  note app = sparse_repr_same_app [OF r n]
  show ?thesis
    using prune_app_head_repr [OF r app(2)] unfolding app(1) app(3) [symmetric]
    by (auto simp: latest_same_app_def Let_def split: list.splits)
qed

lemma latest_matching_global_repr:
  assumes r: "sparse_repr codes s opens n"
  shows "\<exists>s'. latest_matching_global valid q s = Some (find q (takeWhile valid (rev opens)), s')
    \<and> sparse_repr codes s' opens n"
proof -
  obtain s' where s': "prune_global_head s = Some s'" "sparse_repr codes s' opens n"
    using prune_global_head_repr [OF r] by blast
  from s'(2) obtain xs where "linked (global_prev s') (global_head s') xs"
    "filter (\<lambda>x. \<not> is_closed s' ! x) xs = rev opens"
    by (auto simp: sparse_repr_def chain_def)
  with s' show ?thesis by (simp add: latest_matching_global_def latest_walk_linked)
qed

lemma close_matching_global_repr:
  assumes r: "sparse_repr codes s opens n" and L: "L = filter q (takeWhile valid (rev opens))"
  shows "\<exists>s'. close_matching_global valid q f s u = Some (s', fold f L u)
    \<and> sparse_repr codes s' (filter (\<lambda>j. j \<notin> set L) opens) n"
proof -
  obtain s1 where s1: "prune_global_head s = Some s1" "sparse_repr codes s1 opens n"
    using prune_global_head_repr [OF r] by blast
  from s1(2) obtain xs where xs: "linked (global_prev s1) (global_head s1) xs"
    "sorted_wrt (>) xs" "filter (\<lambda>x. \<not> is_closed s1 ! x) xs = rev opens"
    by (auto simp: sparse_repr_def chain_def)
  have walk: "close_walk (global_prev s1) valid q f (global_head s1) (is_closed s1) u
      = Some (mark_closed L (is_closed s1), fold f L u)"
    using close_walk_linked [OF xs(1) sorted_greater_distinct [OF xs(2)],
        of valid q f "is_closed s1" u] xs(3) L by simp
  have "\<forall>z \<in> set L. z < n"
    using r L by (auto simp: sparse_repr_def dest!: set_takeWhileD)
  from mark_closed_repr [OF s1(2) this] prune_global_head_repr obtain s2 where
    "prune_global_head (s1\<lparr>is_closed := mark_closed L (is_closed s1)\<rparr>) = Some s2"
    "sparse_repr codes s2 (filter (\<lambda>j. j \<notin> set L) opens) n" by blast
  with s1(1) walk show ?thesis by (simp add: close_matching_global_def)
qed

lemma close_same_app_matches_repr:
  assumes r: "sparse_repr codes s opens n" and n: "n < length codes"
    and L: "L = takeWhile valid (filter (\<lambda>j. codes ! j = codes ! n) (rev opens))"
  shows "\<exists>s'. close_same_app_matches (codes ! n) valid f s u = Some (s', fold f L u)
    \<and> sparse_repr codes s' (filter (\<lambda>j. j \<notin> set L) opens) n"
proof -
  note app = sparse_repr_same_app [OF r n]
  let ?slot = "nat (codes ! n)"
  obtain s1 where s1: "prune_app_head (codes ! n) s = Some s1" "sparse_repr codes s1 opens n"
    "length (app_heads s1) = length (app_heads s)"
    using prune_app_head_repr [OF r app(2)] app(3) by auto
  from s1(2) have "chain n (app_prev s1) (is_closed s1) (app_heads s1 ! ?slot)
      (filter (\<lambda>i. nat (codes ! i) = ?slot) (rev opens))"
    using app(2) s1(3) by (simp add: sparse_repr_def)
  then obtain xs where xs: "linked (app_prev s1) (app_heads s1 ! ?slot) xs" "sorted_wrt (>) xs"
    "filter (\<lambda>x. \<not> is_closed s1 ! x) xs = filter (\<lambda>j. codes ! j = codes ! n) (rev opens)"
    unfolding app(1) by (auto simp: chain_def)
  have walk: "close_walk (app_prev s1) valid (\<lambda>_. True) f (app_heads s1 ! ?slot) (is_closed s1) u
      = Some (mark_closed L (is_closed s1), fold f L u)"
    using close_walk_linked [OF xs(1) sorted_greater_distinct [OF xs(2)],
        of valid "\<lambda>_. True" f "is_closed s1" u] xs(3) L by simp
  have "\<forall>z \<in> set L. z < n"
    using r L by (auto simp: sparse_repr_def dest!: set_takeWhileD)
  note marked = mark_closed_repr [OF s1(2) this]
  obtain s2 where s2:
    "prune_app_head (codes ! n) (s1\<lparr>is_closed := mark_closed L (is_closed s1)\<rparr>) = Some s2"
    "sparse_repr codes s2 (filter (\<lambda>j. j \<notin> set L) opens) n"
    using prune_app_head_repr [OF marked, of ?slot] app(2,3) s1(3) by auto
  obtain s3 where "prune_global_head s2 = Some s3"
    "sparse_repr codes s3 (filter (\<lambda>j. j \<notin> set L) opens) n"
    using prune_global_head_repr [OF s2(2)] by blast
  with s1(1) walk s2(1) show ?thesis by (simp add: close_same_app_matches_def)
qed

lemma finish_open_starts_repr:
  assumes r: "sparse_repr codes s opens n"
  shows "\<exists>s'. finish_open_starts last_index valid f g s u =
      Some (s', fold (\<lambda>j. if j < last_index \<and> valid j then f j last_index else g j) (rev opens) u)"
proof -
  obtain s1 where s1: "prune_global_head s = Some s1" "sparse_repr codes s1 opens n"
    using prune_global_head_repr [OF r] by blast
  from s1(2) obtain xs where xs: "linked (global_prev s1) (global_head s1) xs"
    "sorted_wrt (>) xs" "filter (\<lambda>x. \<not> is_closed s1 ! x) xs = rev opens"
    by (auto simp: sparse_repr_def chain_def)
  show ?thesis
    using finish_walk_linked [OF xs(1) sorted_greater_distinct [OF xs(2)],
        of "\<lambda>j. j < last_index \<and> valid j" "\<lambda>j. f j last_index" g "is_closed s1" u] xs(3)
    by (simp add: finish_open_starts_def s1(1))
qed

interpretation sparse: open_start_pool
  "sparse_repr codes" "\<lambda>j. codes ! j" "\<lambda>j. sparse_open j (codes ! j)" sparse_close
  latest_same_app latest_matching_global close_same_app_matches close_matching_global
  "\<lambda>n. n < length codes" for codes
proof unfold_locales
  show "sorted_wrt (<) opens \<and> (\<forall>j \<in> set opens. j < n)" if "sparse_repr codes p opens n"
    for p opens n using that by (simp add: sparse_repr_def)
qed (blast intro: sparse_open_repr sparse_skip_repr sparse_close_repr latest_same_app_repr
      latest_matching_global_repr close_same_app_matches_repr close_matching_global_repr)+

end
