(* ===== verification/Fused_Spec.thy ===== *)
theory Fused_Spec
  imports Matcher_Base
begin

text \<open>
  What the fused matcher computes, independently of how open starts are stored: at each event the
  starts it closes (\<open>fused_closes\<close>), the effect on the ascending list of open starts and on the
  log of closes (\<open>fused_step\<close>), the sweep at the end of the stream, and the invariant of the loop.
  The three implementations (dense, sparse, proximity) are proved to follow it.
\<close>

section \<open>One event\<close>

definition fused_closes ::
    "match_input \<Rightarrow> match_options \<Rightarrow> (nat \<Rightarrow> bool) \<Rightarrow> nat list \<Rightarrow> nat \<Rightarrow> nat list" where
  "fused_closes inp opts held opens i =
     (if allow_stop_event_reuse opts
      then filter (is_compatible_open_start_for_stop inp opts i) opens
      else case find (is_compatible_open_start_for_stop inp opts i) (rev opens) of
             None \<Rightarrow> []
           | Some j \<Rightarrow> if held j then [] else [j])"

definition fused_step ::
    "match_input \<Rightarrow> match_options \<Rightarrow> bool list \<Rightarrow> (nat \<Rightarrow> bool) \<Rightarrow> nat
      \<Rightarrow> nat list \<times> (nat \<times> nat) list \<Rightarrow> nat list \<times> (nat \<times> nat) list" where
  "fused_step inp opts eligible held i st =
     (case st of (opens, closed) \<Rightarrow>
        let cs = fused_closes inp opts held opens i in
        (filter (\<lambda>j. j \<notin> set cs) opens @ (if eligible ! i then [i] else []),
         closed @ map (\<lambda>j. (j, i)) cs))"

text \<open>The end-of-stream sweep: which open starts the last event closes.\<close>

definition closes_at_end :: "match_input \<Rightarrow> match_options \<Rightarrow> nat \<Rightarrow> bool" where
  "closes_at_end inp opts j \<longleftrightarrow>
     (let last_index = length (app_codes inp) - 1 in
      j < last_index \<and> duration_ok inp opts True last_index j)"

lemma fused_closes_subset: "set (fused_closes inp opts held opens i) \<subseteq> set opens"
  by (cases "find (is_compatible_open_start_for_stop inp opts i) (rev opens)")
    (auto simp: fused_closes_def dest: find_SomeD)

lemma fused_closes_compatible:
  "j \<in> set (fused_closes inp opts held opens i) \<Longrightarrow> is_compatible_open_start_for_stop inp opts i j"
  by (auto simp: fused_closes_def split: option.splits if_splits dest!: find_SomeD)

lemma fused_closes_distinct: "distinct opens \<Longrightarrow> distinct (fused_closes inp opts held opens i)"
  by (auto simp: fused_closes_def split: option.splits)

lemma fused_closes_single:
  "\<not> allow_stop_event_reuse opts \<Longrightarrow> length (fused_closes inp opts held opens i) \<le> 1"
  by (auto simp: fused_closes_def split: option.splits)

lemma fused_closes_no_mode:
  "sparse_stop_mode_of inp opts i = None \<Longrightarrow> fused_closes inp opts held opens i = []"
  by (auto simp: fused_closes_def compatible_iff_mode split: option.splits dest!: find_SomeD)

section \<open>The loop invariant\<close>

text \<open>
  After \<open>n\<close> events: the open starts are ascending, every opener so far is either open or closed
  exactly once, every close is by a later compatible event, and without reuse no event closes two
  starts.
\<close>

definition fused_inv ::
    "match_input \<Rightarrow> match_options \<Rightarrow> bool list \<Rightarrow> nat \<Rightarrow> nat list \<times> (nat \<times> nat) list \<Rightarrow> bool" where
  "fused_inv inp opts eligible n st \<longleftrightarrow>
     (case st of (opens, closed) \<Rightarrow>
        sorted_wrt (<) opens
        \<and> (\<forall>j \<in> set opens. j < n \<and> eligible ! j)
        \<and> mset opens + mset (map fst closed) = mset (filter (\<lambda>i. eligible ! i) [0..<n])
        \<and> (\<forall>(j, e) \<in> set closed. j < e \<and> e < n \<and> is_compatible_open_start_for_stop inp opts e j)
        \<and> (\<not> allow_stop_event_reuse opts \<longrightarrow> distinct (map snd closed)))"

lemma fused_inv_init: "fused_inv inp opts eligible 0 ([], [])"
  by (simp add: fused_inv_def)

lemma mset_split_subset:
  assumes "distinct xs" "set ys \<subseteq> set xs" "distinct ys"
  shows "mset (filter (\<lambda>j. j \<notin> set ys) xs) + mset ys = mset xs"
proof -
  have "distinct (filter (\<lambda>j. j \<notin> set ys) xs @ ys)" using assms by auto
  moreover have "set (filter (\<lambda>j. j \<notin> set ys) xs @ ys) = set xs" using assms(2) by auto
  ultimately have "mset (filter (\<lambda>j. j \<notin> set ys) xs @ ys) = mset xs"
    using assms(1) by (metis set_eq_iff_mset_eq_distinct)
  then show ?thesis by simp
qed

lemma fused_step_inv:
  assumes inv: "fused_inv inp opts eligible n (opens, closed)"
  shows "fused_inv inp opts eligible (Suc n) (fused_step inp opts eligible held n (opens, closed))"
proof -
  let ?cs = "fused_closes inp opts held opens n"
  have opens: "sorted_wrt (<) opens" "\<forall>j \<in> set opens. j < n \<and> eligible ! j"
    and part: "mset opens + mset (map fst closed) = mset (filter (\<lambda>i. eligible ! i) [0..<n])"
    and closed: "\<forall>(j, e) \<in> set closed. j < e \<and> e < n
        \<and> is_compatible_open_start_for_stop inp opts e j"
    and reuse: "\<not> allow_stop_event_reuse opts \<longrightarrow> distinct (map snd closed)"
    using inv by (auto simp: fused_inv_def)
  have dist: "distinct opens" using opens(1) strict_sorted_iff by auto
  have sub: "set ?cs \<subseteq> set opens" by (rule fused_closes_subset)
  have split: "mset (filter (\<lambda>j. j \<notin> set ?cs) opens) + mset ?cs = mset opens"
    by (rule mset_split_subset [OF dist sub fused_closes_distinct [OF dist]])
  let ?closed = "closed @ map (\<lambda>j. (j, n)) ?cs"
  let ?opens = "filter (\<lambda>j. j \<notin> set ?cs) opens @ (if eligible ! n then [n] else [])"
  have new: "\<forall>j \<in> set ?cs. j < n \<and> is_compatible_open_start_for_stop inp opts n j"
    using sub opens(2) fused_closes_compatible by blast
  have "map fst ?closed = map fst closed @ ?cs" by (simp add: comp_def)
  then have "mset ?opens + mset (map fst ?closed)
      = mset opens + mset (map fst closed) + mset (if eligible ! n then [n] else [])"
    using split by (simp add: ac_simps)
  then have c3: "mset ?opens + mset (map fst ?closed)
      = mset (filter (\<lambda>i. eligible ! i) [0..<Suc n])"
    unfolding part by simp
  have c5: "\<not> allow_stop_event_reuse opts \<longrightarrow> distinct (map snd ?closed)"
  proof
    assume nr: "\<not> allow_stop_event_reuse opts"
    then have "?cs = [] \<or> (\<exists>j. ?cs = [j])"
      using fused_closes_single [OF nr, of inp held opens n]
      by (cases ?cs) (auto simp: Suc_le_length_iff)
    moreover have "n \<notin> set (map snd closed)" using closed by fastforce
    ultimately show "distinct (map snd ?closed)" using nr reuse by auto
  qed
  have c4: "\<forall>(j, e) \<in> set ?closed. j < e \<and> e < Suc n
      \<and> is_compatible_open_start_for_stop inp opts e j"
    using closed new by (auto intro: less_SucI)
  have c1: "sorted_wrt (<) ?opens" using opens by (auto simp: sorted_wrt_append sorted_wrt_filter)
  have c2: "\<forall>j \<in> set ?opens. j < Suc n \<and> eligible ! j" using opens(2) by (auto intro: less_SucI)
  show ?thesis
    unfolding fused_inv_def fused_step_def Let_def prod.case using c1 c2 c3 c4 c5 by blast
qed

definition fused_run ::
    "match_input \<Rightarrow> match_options \<Rightarrow> bool list \<Rightarrow> (nat \<Rightarrow> nat \<Rightarrow> bool) \<Rightarrow> nat
      \<Rightarrow> nat list \<times> (nat \<times> nat) list" where
  "fused_run inp opts eligible held n =
     fold (\<lambda>i. fused_step inp opts eligible (held i) i) [0..<n] ([], [])"

lemma fused_run_0 [simp]: "fused_run inp opts eligible held 0 = ([], [])"
  by (simp add: fused_run_def)

lemma fused_run_Suc:
  "fused_run inp opts eligible held (Suc n) =
     fused_step inp opts eligible (held n) n (fused_run inp opts eligible held n)"
  by (simp add: fused_run_def)

lemma fused_run_inv: "fused_inv inp opts eligible n (fused_run inp opts eligible held n)"
proof (induction n)
  case 0
  show ?case by (simp add: fused_inv_init)
next
  case (Suc n)
  then show ?case
    by (cases "fused_run inp opts eligible held n") (auto simp: fused_run_Suc intro: fused_step_inv)
qed

text \<open>The pairs (start, closing event) of a whole run, and the starts left without an end.\<close>

definition fused_closed ::
    "match_input \<Rightarrow> match_options \<Rightarrow> bool list \<Rightarrow> (nat \<Rightarrow> nat \<Rightarrow> bool) \<Rightarrow> (nat \<times> nat) list" where
  "fused_closed inp opts eligible held =
     (case fused_run inp opts eligible held (length (app_codes inp)) of (opens, closed) \<Rightarrow>
        closed @ map (\<lambda>j. (j, length (app_codes inp) - 1)) (filter (closes_at_end inp opts) opens))"

definition fused_missing ::
    "match_input \<Rightarrow> match_options \<Rightarrow> bool list \<Rightarrow> (nat \<Rightarrow> nat \<Rightarrow> bool) \<Rightarrow> nat list" where
  "fused_missing inp opts eligible held =
     filter (\<lambda>j. \<not> closes_at_end inp opts j)
       (fst (fused_run inp opts eligible held (length (app_codes inp))))"

abbreviation openers_of :: "match_input \<Rightarrow> bool list \<Rightarrow> nat list" where
  "openers_of inp eligible \<equiv> filter (\<lambda>i. eligible ! i) [0..<length (app_codes inp)]"

lemma fused_partition:
  "mset (map fst (fused_closed inp opts eligible held)) + mset (fused_missing inp opts eligible held)
     = mset (openers_of inp eligible)"
proof -
  obtain opens closed where run:
    "fused_run inp opts eligible held (length (app_codes inp)) = (opens, closed)"
    by (cases "fused_run inp opts eligible held (length (app_codes inp))")
  have "mset opens + mset (map fst closed) = mset (openers_of inp eligible)"
    using fused_run_inv [of inp opts eligible "length (app_codes inp)" held]
    by (simp add: run fused_inv_def)
  moreover have "mset (filter (closes_at_end inp opts) opens)
      + mset (filter (\<lambda>j. \<not> closes_at_end inp opts j) opens) = mset opens"
    by simp
  ultimately show ?thesis
    unfolding fused_closed_def fused_missing_def run prod.case fst_conv map_append mset_append
    by (simp add: comp_def ac_simps del: mset_filter)
qed

lemma fused_closed_distinct: "distinct (map fst (fused_closed inp opts eligible held))"
proof -
  have "distinct (map fst (fused_closed inp opts eligible held) @ fused_missing inp opts eligible held)"
    using fused_partition [of inp opts eligible held]
    by (metis distinct_filter distinct_upt mset_append mset_eq_imp_distinct_iff)
  then show ?thesis by simp
qed

text \<open>Every reported end is a later event at a non-negative distance.\<close>

lemma fused_closed_valid:
  assumes "(j, e) \<in> set (fused_closed inp opts eligible held)"
  shows "j < e \<and> e < length (app_codes inp) \<and> eligible ! j
    \<and> (is_compatible_open_start_for_stop inp opts e j
       \<or> e = length (app_codes inp) - 1 \<and> duration_ok inp opts True e j)"
proof -
  let ?n = "length (app_codes inp)"
  obtain opens closed where run: "fused_run inp opts eligible held ?n = (opens, closed)"
    by (cases "fused_run inp opts eligible held ?n")
  have inv: "fused_inv inp opts eligible ?n (opens, closed)"
    using fused_run_inv [of inp opts eligible ?n held] by (simp add: run)
  have "j \<in> set (openers_of inp eligible)"
    using assms fused_partition [of inp opts eligible held]
    by (metis (no_types, lifting) UnCI fst_conv image_eqI list.set_map set_append set_mset_mset
        mset_append)
  then have "eligible ! j" by simp
  with assms inv show ?thesis
    by (auto simp: fused_closed_def run fused_inv_def closes_at_end_def Let_def)
qed

section \<open>The contract of an episode rule\<close>

text \<open>
  The rows a reconstruction rule opens an episode on, and what every rule promises about its
  output: one start per opener in stream order, parallel vectors of equal lengths, and every opened
  episode reported exactly once, closed or missing.
\<close>

definition well_reported :: "nat list \<Rightarrow> match_update_indices \<Rightarrow> bool" where
  "well_reported openers out \<longleftrightarrow>
     start_indices out = openers
     \<and> mset (stop_start_indices out) + mset (missing_indices out) = mset openers
     \<and> length (stop_event_indices out) = length (stop_start_indices out)
     \<and> length (stop_reasons out) = length (stop_start_indices out)
     \<and> length (stop_timestamps_ns out) = length (stop_start_indices out)
     \<and> length (missing_reasons out) = length (missing_indices out)"

locale episode_rule =
  fixes run :: "'i \<Rightarrow> match_update_indices matcher_result"
    and admissible :: "'i \<Rightarrow> bool"
    and openers :: "'i \<Rightarrow> nat list"
  assumes distinct_openers: "distinct (openers i)"
    and returns: "admissible i \<Longrightarrow> \<exists>out. run i = Inr out"
    and reports: "admissible i \<Longrightarrow> run i = Inr out \<Longrightarrow> well_reported (openers i) out"
begin

lemma total_report: "admissible i \<Longrightarrow> \<exists>out. run i = Inr out \<and> well_reported (openers i) out"
  using returns reports by blast

text \<open>No start is both closed and missing, and none is closed or missing twice.\<close>

lemma outcome_unique:
  assumes "admissible i" "run i = Inr out"
  shows "distinct (stop_start_indices out @ missing_indices out)"
proof -
  have "mset (stop_start_indices out @ missing_indices out) = mset (openers i)"
    using reports [OF assms] by (simp add: well_reported_def)
  then show ?thesis using distinct_openers [of i] mset_eq_imp_distinct_iff by blast
qed

lemma outcome_complete:
  assumes "admissible i" "run i = Inr out"
  shows "set (stop_start_indices out) \<union> set (missing_indices out) = set (openers i)"
  using reports [OF assms]
  by (metis (no_types, lifting) mset_append set_append set_mset_mset well_reported_def)

lemma episode_count:
  assumes "admissible i" "run i = Inr out"
  shows "length (start_indices out) = length (stop_start_indices out) + length (missing_indices out)"
  using reports [OF assms]
  by (metis size_mset size_union well_reported_def)

end

end
