(* ===== verification/Matcher_Dense.thy ===== *)
theory Matcher_Dense
  imports Fused_Spec
begin

text \<open>
  \<open>match_app_usage_core\<close>: the matcher with dense output, one start, stop and missing slot per input
  row, over a plain vector of open starts. Its result is the scatter of the closes of
  \<open>fused_closed\<close> into the stop column.
\<close>

record dense_state =
  dn_start :: "int list"
  dn_stop :: "int list"
  dn_open :: "nat list"

definition match_core_step ::
    "match_input \<Rightarrow> match_options \<Rightarrow> nat \<Rightarrow> dense_state \<Rightarrow> dense_state" where
  "match_core_step inp opts index st =
     (let is_normal_stop = same_stop inp ! index \<or> other_stop inp ! index;
          is_fallback_stop = stopped inp ! index \<and> use_activity_stopped_as_fallback opts;
          current_timestamp = timestamp_ns inp ! index;
          st =
            (if allow_stop_event_reuse opts \<and> (is_normal_stop \<or> is_fallback_stop) then
               (case close_reused_starts inp opts index
                       (\<lambda>start_index stop_col. stop_col[start_index := current_timestamp])
                       (dn_open st) (dn_stop st) of
                  (opens, stop_col) \<Rightarrow> st\<lparr>dn_open := opens, dn_stop := stop_col\<rparr>)
             else if is_normal_stop \<or> is_fallback_stop then
               (case nearest_compatible_open_start_for_stop inp opts index (dn_open st) of
                  None \<Rightarrow> st
                | Some position \<Rightarrow>
                    let start_index = dn_open st ! position in
                    st\<lparr>dn_open := vec_remove (dn_open st) position,
                      dn_stop := (dn_stop st)[start_index := current_timestamp]\<rparr>)
             else st)
      in if resumed inp ! index
         then st\<lparr>dn_start := (dn_start st)[index := current_timestamp],
                dn_open := dn_open st @ [index]\<rparr>
         else st)"

definition match_core_finish ::
    "match_input \<Rightarrow> match_options \<Rightarrow> nat \<Rightarrow> dense_state \<Rightarrow> match_output" where
  "match_core_finish inp opts len st =
     (let missing = replicate len False in
      if dn_open st = [] then
        \<lparr>out_start_ns = dn_start st, out_stop_ns = dn_stop st, out_missing = missing\<rparr>
      else
        (let last_index = len - 1;
             last_timestamp = timestamp_ns inp ! last_index
         in case fold
              (\<lambda>start_index (stop_col, missing).
                 if start_index < last_index
                    \<and> is_valid_duration (timestamp_ns inp ! start_index) last_timestamp True
                        (long_duration_threshold_ns opts)
                 then (stop_col[start_index := last_timestamp], missing)
                 else (stop_col, missing[start_index := True]))
              (dn_open st) (dn_stop st, missing) of
            (stop_col, missing) \<Rightarrow>
              \<lparr>out_start_ns = dn_start st, out_stop_ns = stop_col, out_missing = missing\<rparr>))"

definition match_app_usage_core ::
    "match_input \<Rightarrow> match_options \<Rightarrow> match_output matcher_result" where
  "match_app_usage_core inp opts =
     (case validate_lengths inp of
        Inl e \<Rightarrow> Inl e
      | Inr len \<Rightarrow>
          Inr (match_core_finish inp opts len
            (fold (match_core_step inp opts) [0..<len]
              \<lparr>dn_start = replicate len (-1), dn_stop = replicate len (-1), dn_open = []\<rparr>)))"

section \<open>The scatter of a log of closes\<close>

definition scatter_stops :: "match_input \<Rightarrow> (nat \<times> nat) list \<Rightarrow> int list \<Rightarrow> int list" where
  "scatter_stops inp log col = fold (\<lambda>(j, e) col. col[j := timestamp_ns inp ! e]) log col"

lemma length_scatter_stops [simp]: "length (scatter_stops inp log col) = length col"
  by (induction log arbitrary: col) (auto simp: scatter_stops_def)

lemma scatter_stops_append:
  "scatter_stops inp (xs @ ys) col = scatter_stops inp ys (scatter_stops inp xs col)"
  by (simp add: scatter_stops_def)

lemma scatter_stops_same_event:
  "scatter_stops inp (map (\<lambda>j. (j, e)) js) col = fold (\<lambda>j c. c[j := timestamp_ns inp ! e]) js col"
  by (induction js arbitrary: col) (auto simp: scatter_stops_def)

lemma nth_scatter_stops:
  "distinct (map fst log) \<Longrightarrow> j < length col \<Longrightarrow>
     scatter_stops inp log col ! j =
       (case map_of log j of None \<Rightarrow> col ! j | Some e \<Rightarrow> timestamp_ns inp ! e)"
proof (induction log arbitrary: col)
  case Nil
  then show ?case by (simp add: scatter_stops_def)
next
  case (Cons p log)
  obtain i e where p: "p = (i, e)" by (cases p)
  have "scatter_stops inp (p # log) col ! j
      = scatter_stops inp log (col[i := timestamp_ns inp ! e]) ! j"
    by (simp add: scatter_stops_def p)
  also have "\<dots> = (case map_of log j of None \<Rightarrow> col[i := timestamp_ns inp ! e] ! j
      | Some e \<Rightarrow> timestamp_ns inp ! e)"
    using Cons.prems by (intro Cons.IH) auto
  finally have eq: "scatter_stops inp (p # log) col ! j =
      (case map_of log j of None \<Rightarrow> col[i := timestamp_ns inp ! e] ! j
       | Some e \<Rightarrow> timestamp_ns inp ! e)" .
  have "map_of log i = None"
    using Cons.prems(1) by (auto simp: p map_of_eq_None_iff)
  with eq Cons.prems show ?case by (cases "j = i") (auto simp: p split: option.split)
qed

section \<open>The dense matcher follows the specification\<close>

abbreviation dense_run :: "match_input \<Rightarrow> match_options \<Rightarrow> nat \<Rightarrow> dense_state" where
  "dense_run inp opts n \<equiv>
     fold (match_core_step inp opts) [0..<n]
       \<lparr>dn_start = replicate (length (app_codes inp)) (-1),
        dn_stop = replicate (length (app_codes inp)) (-1), dn_open = []\<rparr>"

abbreviation never_held :: "nat \<Rightarrow> nat \<Rightarrow> bool" where
  "never_held \<equiv> \<lambda>_ _. False"

lemma match_core_step_spec:
  assumes "distinct (dn_open st)"
  shows "dn_open (match_core_step inp opts n st)
       = filter (\<lambda>j. j \<notin> set (fused_closes inp opts (\<lambda>_. False) (dn_open st) n)) (dn_open st)
         @ (if resumed inp ! n then [n] else [])"
    and "dn_stop (match_core_step inp opts n st)
       = scatter_stops inp (map (\<lambda>j. (j, n)) (fused_closes inp opts (\<lambda>_. False) (dn_open st) n))
           (dn_stop st)"
    and "dn_start (match_core_step inp opts n st)
       = (if resumed inp ! n then (dn_start st)[n := timestamp_ns inp ! n] else dn_start st)"
proof -
  let ?c = "is_compatible_open_start_for_stop inp opts n"
  let ?cs = "fused_closes inp opts (\<lambda>_. False) (dn_open st) n"
  let ?near = "nearest_compatible_open_start_for_stop inp opts n (dn_open st)"
  have reuse: "filter (\<lambda>j. \<not> ?c j) (dn_open st) = filter (\<lambda>j. j \<notin> set ?cs) (dn_open st)"
    "filter ?c (dn_open st) = ?cs" if "allow_stop_event_reuse opts"
    using that by (auto simp: fused_closes_def intro!: filter_cong)
  have near_none: "?cs = []" if "\<not> allow_stop_event_reuse opts" "?near = None"
    using that by (simp add: fused_closes_def nearest_None)
  have near_some: "?cs = [dn_open st ! p]"
    "vec_remove (dn_open st) p = filter (\<lambda>j. j \<noteq> dn_open st ! p) (dn_open st)"
    if "\<not> allow_stop_event_reuse opts" "?near = Some p" for p
    using that nearest_Some [OF that(2)] assms
    by (auto simp: fused_closes_def vec_remove_filter)
  have no_mode: "?cs = []" if "sparse_stop_mode_of inp opts n = None"
    using that by (rule fused_closes_no_mode)
  show "dn_open (match_core_step inp opts n st)
       = filter (\<lambda>j. j \<notin> set ?cs) (dn_open st) @ (if resumed inp ! n then [n] else [])"
    "dn_stop (match_core_step inp opts n st)
       = scatter_stops inp (map (\<lambda>j. (j, n)) ?cs) (dn_stop st)"
    "dn_start (match_core_step inp opts n st)
       = (if resumed inp ! n then (dn_start st)[n := timestamp_ns inp ! n] else dn_start st)"
    using reuse near_none near_some no_mode
    by (auto simp: match_core_step_def Let_def close_reused_starts_filter no_mode_iff
        scatter_stops_same_event split: option.splits)
qed

lemma dense_run_spec:
  assumes "n \<le> length (app_codes inp)"
  shows "\<exists>opens closed. fused_run inp opts (resumed inp) never_held n = (opens, closed)
      \<and> dn_open (dense_run inp opts n) = opens
      \<and> dn_stop (dense_run inp opts n)
          = scatter_stops inp closed (replicate (length (app_codes inp)) (-1))
      \<and> dn_start (dense_run inp opts n)
          = map (\<lambda>i. if i < n \<and> resumed inp ! i then timestamp_ns inp ! i else -1)
              [0..<length (app_codes inp)]"
  using assms
proof (induction n)
  case 0
  show ?case by (simp add: scatter_stops_def map_replicate_const)
next
  case (Suc n)
  then obtain opens closed where IH:
    "fused_run inp opts (resumed inp) never_held n = (opens, closed)"
    "dn_open (dense_run inp opts n) = opens"
    "dn_stop (dense_run inp opts n)
       = scatter_stops inp closed (replicate (length (app_codes inp)) (-1))"
    "dn_start (dense_run inp opts n)
       = map (\<lambda>i. if i < n \<and> resumed inp ! i then timestamp_ns inp ! i else -1)
           [0..<length (app_codes inp)]"
    by auto
  have "sorted_wrt (<) opens"
    using fused_run_inv [of inp opts "resumed inp" n never_held] by (simp add: IH(1) fused_inv_def)
  then have dist: "distinct (dn_open (dense_run inp opts n))"
    unfolding IH(2) using strict_sorted_iff by blast
  have start: "(map (\<lambda>i. if i < n \<and> resumed inp ! i then timestamp_ns inp ! i else -1)
        [0..<length (app_codes inp)])[n := timestamp_ns inp ! n]
      = map (\<lambda>i. if i < Suc n \<and> resumed inp ! i then timestamp_ns inp ! i else -1)
        [0..<length (app_codes inp)]" if r: "resumed inp ! n"
  proof (rule nth_equalityI, simp)
    fix i
    assume "i < length ((map (\<lambda>i. if i < n \<and> resumed inp ! i then timestamp_ns inp ! i else -1)
        [0..<length (app_codes inp)])[n := timestamp_ns inp ! n])"
    then show "(map (\<lambda>i. if i < n \<and> resumed inp ! i then timestamp_ns inp ! i else -1)
        [0..<length (app_codes inp)])[n := timestamp_ns inp ! n] ! i
      = map (\<lambda>i. if i < Suc n \<and> resumed inp ! i then timestamp_ns inp ! i else -1)
        [0..<length (app_codes inp)] ! i"
      using r by (cases "i = n") (auto simp: less_Suc_eq)
  qed
  have keep: "map (\<lambda>i. if i < n \<and> resumed inp ! i then timestamp_ns inp ! i else -1)
        [0..<length (app_codes inp)]
      = map (\<lambda>i. if i < Suc n \<and> resumed inp ! i then timestamp_ns inp ! i else -1)
        [0..<length (app_codes inp)]" if "\<not> resumed inp ! n"
    using that by (auto simp: less_Suc_eq)
  show ?case
    unfolding fold_upt_Suc fused_run_Suc
    using match_core_step_spec [OF dist, of inp opts n] IH start keep
    by (simp add: fused_step_def Let_def scatter_stops_append)
qed

lemma finish_fold:
  "fold (\<lambda>j (stop_col, missing).
           if c j then (stop_col[j := t], missing) else (stop_col, missing[j := True]))
     js (col, miss) =
   (fold (\<lambda>j c. c[j := t]) (filter c js) col,
    fold (\<lambda>j m. m[j := True]) (filter (\<lambda>j. \<not> c j) js) miss)"
  by (induction js arbitrary: col miss) auto

lemma nth_fold_True:
  "i < length miss \<Longrightarrow> fold (\<lambda>j m. m[j := True]) js miss ! i \<longleftrightarrow> miss ! i \<or> i \<in> set js"
proof (induction js arbitrary: miss)
  case (Cons j js)
  then show ?case by (cases "i = j") auto
qed simp

lemma length_fold_True [simp]: "length (fold (\<lambda>j m. m[j := True]) js miss) = length miss"
  by (induction js arbitrary: miss) auto

lemma fold_True_map:
  "fold (\<lambda>j m. m[j := True]) js (replicate n False) = map (\<lambda>i. i \<in> set js) [0..<n]"
  by (intro nth_equalityI) (auto simp: nth_fold_True)

lemma match_app_usage_core_spec:
  assumes "aligned inp"
  shows "match_app_usage_core inp opts = Inr
    \<lparr>out_start_ns = map (\<lambda>i. if resumed inp ! i then timestamp_ns inp ! i else -1)
                     [0..<length (app_codes inp)],
     out_stop_ns = scatter_stops inp (fused_closed inp opts (resumed inp) never_held)
                     (replicate (length (app_codes inp)) (-1)),
     out_missing = map (\<lambda>i. i \<in> set (fused_missing inp opts (resumed inp) never_held))
                     [0..<length (app_codes inp)]\<rparr>"
proof -
  let ?n = "length (app_codes inp)"
  obtain opens closed where run:
    "fused_run inp opts (resumed inp) never_held ?n = (opens, closed)"
    "dn_open (dense_run inp opts ?n) = opens"
    "dn_stop (dense_run inp opts ?n) = scatter_stops inp closed (replicate ?n (-1))"
    "dn_start (dense_run inp opts ?n)
       = map (\<lambda>i. if i < ?n \<and> resumed inp ! i then timestamp_ns inp ! i else -1) [0..<?n]"
    using dense_run_spec [of ?n inp opts] by auto
  have start: "dn_start (dense_run inp opts ?n)
      = map (\<lambda>i. if resumed inp ! i then timestamp_ns inp ! i else -1) [0..<?n]"
    unfolding run(4) by (rule map_cong) auto
  have "match_core_finish inp opts ?n (dense_run inp opts ?n) =
    \<lparr>out_start_ns = map (\<lambda>i. if resumed inp ! i then timestamp_ns inp ! i else -1) [0..<?n],
     out_stop_ns = scatter_stops inp (fused_closed inp opts (resumed inp) never_held)
                     (replicate ?n (-1)),
     out_missing = map (\<lambda>i. i \<in> set (fused_missing inp opts (resumed inp) never_held)) [0..<?n]\<rparr>"
  proof -
    have at_end: "closes_at_end inp opts
        = (\<lambda>j. j < ?n - Suc 0 \<and> duration_ok inp opts True (?n - Suc 0) j)"
      by (auto simp: closes_at_end_def fun_eq_iff Let_def)
    show ?thesis
    proof (cases "opens = []")
      case True
      then show ?thesis
        using run start by (simp add: match_core_finish_def fused_closed_def fused_missing_def
          map_replicate_const)
    next
      case False
      then show ?thesis
        using run start
        by (simp add: match_core_finish_def Let_def finish_fold fused_closed_def fused_missing_def
          scatter_stops_append scatter_stops_same_event fold_True_map at_end)
    qed
  qed
  then show ?thesis by (simp add: match_app_usage_core_def validate_lengths_aligned assms)
qed

end
