(* ===== verification/Matcher_Sparse.thy ===== *)
theory Matcher_Sparse
  imports Open_Start_Pool Matcher_Dense
begin

text \<open>
  \<open>match_app_usage_update_indices_core\<close>: the matcher over \<open>SparseOpenStarts\<close> with sparse output. On
  a stream in time order it reports the closes of \<open>fused_closed\<close> (those of one event newest first),
  so scattering its output gives the dense matcher's.
\<close>

section \<open>The branches of one stop event\<close>

text \<open>The \<open>match stop_mode\<close> of the reuse branch.\<close>

definition sparse_reuse_closes ::
    "match_input \<Rightarrow> match_options \<Rightarrow> sparse_stop_mode \<Rightarrow> nat \<Rightarrow> (nat \<Rightarrow> 'u \<Rightarrow> 'u)
      \<Rightarrow> sparse_open_starts \<Rightarrow> 'u \<Rightarrow> (sparse_open_starts \<times> 'u) option" where
  "sparse_reuse_closes inp opts stop_mode index on_close open_starts u =
     (let current_app = app_codes inp ! index;
          enforce_threshold = sparse_stop_enforces_threshold stop_mode opts;
          valid = duration_ok inp opts enforce_threshold index
      in case stop_mode of
           SameApp \<Rightarrow> close_same_app_matches current_app valid on_close open_starts u
         | FallbackSameApp \<Rightarrow> close_same_app_matches current_app valid on_close open_starts u
         | OtherApp \<Rightarrow>
             close_matching_global valid
               (\<lambda>start_index. app_codes inp ! start_index \<noteq> current_app
                  \<and> \<not> background inp ! start_index) on_close open_starts u
         | AnyApp \<Rightarrow>
             close_matching_global valid
               (\<lambda>start_index. app_codes inp ! start_index = current_app
                  \<or> \<not> background inp ! start_index) on_close open_starts u)"

text \<open>The \<open>match stop_mode\<close> of the branch that closes at most one start.\<close>

definition sparse_matched_start ::
    "match_input \<Rightarrow> match_options \<Rightarrow> sparse_stop_mode \<Rightarrow> nat \<Rightarrow> sparse_open_starts
      \<Rightarrow> (nat option \<times> sparse_open_starts) option" where
  "sparse_matched_start inp opts stop_mode index open_starts =
     (let current_app = app_codes inp ! index;
          enforce_threshold = sparse_stop_enforces_threshold stop_mode opts;
          valid = duration_ok inp opts enforce_threshold index
      in case stop_mode of
           SameApp \<Rightarrow> latest_same_app current_app valid open_starts
         | FallbackSameApp \<Rightarrow> latest_same_app current_app valid open_starts
         | OtherApp \<Rightarrow>
             latest_matching_global valid
               (\<lambda>start_index. app_codes inp ! start_index \<noteq> current_app
                  \<and> \<not> background inp ! start_index) open_starts
         | AnyApp \<Rightarrow>
             latest_matching_global valid
               (\<lambda>start_index. app_codes inp ! start_index = current_app
                  \<or> \<not> background inp ! start_index) open_starts)"

section \<open>The matcher\<close>

record sparse_state =
  sp_pool :: sparse_open_starts
  sp_starts :: "nat list"
  sp_stop_starts :: "nat list"
  sp_stop_events :: "nat list"
  sp_reasons :: "episode_close_reason list"

definition match_update_stop ::
    "match_input \<Rightarrow> match_options \<Rightarrow> sparse_stop_mode \<Rightarrow> nat \<Rightarrow> sparse_state \<Rightarrow> sparse_state option" where
  "match_update_stop inp opts stop_mode index st =
     map_option
       (\<lambda>st. st\<lparr>sp_reasons := classify_new_closes inp index (sp_reasons st) (sp_stop_starts st)\<rparr>)
       (if allow_stop_event_reuse opts then
          map_option
            (\<lambda>(pool, stop_starts, stop_events).
               st\<lparr>sp_pool := pool, sp_stop_starts := stop_starts, sp_stop_events := stop_events\<rparr>)
            (sparse_reuse_closes inp opts stop_mode index
              (\<lambda>start_index (stop_starts, stop_events).
                 (stop_starts @ [start_index], stop_events @ [index]))
              (sp_pool st) (sp_stop_starts st, sp_stop_events st))
        else
          map_option
            (\<lambda>(matched_start, pool).
               case matched_start of
                 None \<Rightarrow> st\<lparr>sp_pool := pool\<rparr>
               | Some start_index \<Rightarrow>
                   st\<lparr>sp_pool := sparse_close start_index pool,
                     sp_stop_starts := sp_stop_starts st @ [start_index],
                     sp_stop_events := sp_stop_events st @ [index]\<rparr>)
            (sparse_matched_start inp opts stop_mode index (sp_pool st)))"

definition match_update_step ::
    "match_input \<Rightarrow> match_options \<Rightarrow> nat \<Rightarrow> sparse_state \<Rightarrow> sparse_state option" where
  "match_update_step inp opts index st =
     map_option
       (\<lambda>st. if resumed inp ! index
             then st\<lparr>sp_starts := sp_starts st @ [index],
                    sp_pool := sparse_open index (app_codes inp ! index) (sp_pool st)\<rparr>
             else st)
       (case sparse_stop_mode_of inp opts index of
          None \<Rightarrow> Some st
        | Some stop_mode \<Rightarrow> match_update_stop inp opts stop_mode index st)"

definition match_update_finish ::
    "match_input \<Rightarrow> match_options \<Rightarrow> nat \<Rightarrow> sparse_state \<Rightarrow> match_update_indices option" where
  "match_update_finish inp opts len st =
     map_option
       (\<lambda>(stop_starts, stop_events, missing, reasons, missing_rs).
          \<lparr>start_indices = sp_starts st, stop_start_indices = stop_starts,
           stop_event_indices = stop_events, missing_indices = missing,
           stop_reasons = reasons, missing_reasons = missing_rs,
           stop_timestamps_ns = replicate (length stop_starts) None\<rparr>)
       (if 0 < len then
          map_option
            (\<lambda>(pool, stop_starts, stop_events, missing).
               (stop_starts, stop_events, missing,
                vec_resize (sp_reasons st) (length stop_starts) EndOfStream,
                vec_resize [] (length missing) Unobserved))
            (finish_open_starts (len - 1) (duration_ok inp opts True (len - 1))
               (\<lambda>start_index stop_index (stop_starts, stop_events, missing).
                  (stop_starts @ [start_index], stop_events @ [stop_index], missing))
               (\<lambda>start_index (stop_starts, stop_events, missing).
                  (stop_starts, stop_events, missing @ [start_index]))
               (sp_pool st) (sp_stop_starts st, sp_stop_events st, []))
        else Some (sp_stop_starts st, sp_stop_events st, [], sp_reasons st, []))"

definition match_app_usage_update_indices_core ::
    "match_input \<Rightarrow> match_options \<Rightarrow> match_update_indices matcher_result" where
  "match_app_usage_update_indices_core inp opts =
     (case validate_lengths inp of
        Inl e \<Rightarrow> Inl e
      | Inr len \<Rightarrow>
     (case sparse_new len (app_codes inp) of
        Inl e \<Rightarrow> Inl e
      | Inr open_starts \<Rightarrow>
     (case Option.bind
             (fold_opt (match_update_step inp opts) [0..<len]
               \<lparr>sp_pool = open_starts, sp_starts = [], sp_stop_starts = [], sp_stop_events = [],
                sp_reasons = []\<rparr>)
             (match_update_finish inp opts len) of
        None \<Rightarrow> Inl NoReturn
      | Some out \<Rightarrow> Inr out)))"

section \<open>What the branches compute on a stream in time order\<close>

text \<open>The streams the optimised matchers are specified for.\<close>

definition ordered_input :: "match_input \<Rightarrow> bool" where
  "ordered_input inp \<longleftrightarrow>
     aligned inp \<and> sorted (timestamp_ns inp) \<and> (\<forall>c \<in> set (app_codes inp). 0 \<le> c)
     \<and> length (app_codes inp) \<le> 2 ^ 31"

lemma ordered_input_mono:
  "ordered_input inp \<Longrightarrow> i \<le> j \<Longrightarrow> j < length (app_codes inp) \<Longrightarrow>
     timestamp_ns inp ! i \<le> timestamp_ns inp ! j"
  by (auto simp: ordered_input_def aligned_def intro: sorted_nth_mono)

lemma duration_age_monotone:
  assumes "ordered_input inp" "i < length (app_codes inp)" "\<forall>j \<in> set opens. j < i"
  shows "sparse.age_monotone (duration_ok inp opts enforce i) opens"
  unfolding sparse.age_monotone_def
proof (intro ballI impI)
  fix a b
  assume ab: "a \<in> set opens" "b \<in> set opens" "a \<le> b" "duration_ok inp opts enforce i a"
  then have "timestamp_ns inp ! a \<le> timestamp_ns inp ! b"
    "timestamp_ns inp ! b \<le> timestamp_ns inp ! i"
    using assms by (auto intro!: ordered_input_mono dest: order.strict_trans)
  with ab(4) show "duration_ok inp opts enforce i b" by (auto simp: is_valid_duration_iff)
qed

lemma sparse_reuse_closes_repr:
  assumes ord: "ordered_input inp" and i: "i < length (app_codes inp)"
    and r: "sparse_repr (app_codes inp) pool opens i"
    and mode: "sparse_stop_mode_of inp opts i = Some mode"
  shows "\<exists>pool'. sparse_reuse_closes inp opts mode i f pool u =
      Some (pool', fold f (filter (is_compatible_open_start_for_stop inp opts i) (rev opens)) u)
    \<and> sparse_repr (app_codes inp) pool'
        (filter (\<lambda>j. \<not> is_compatible_open_start_for_stop inp opts i j) opens) i"
proof -
  let ?valid = "duration_ok inp opts (sparse_stop_enforces_threshold mode opts) i"
  have mono: "sparse.age_monotone ?valid opens"
    using ord i r by (intro duration_age_monotone) (auto simp: sparse_repr_def)
  have c: "is_compatible_open_start_for_stop inp opts i
      = (\<lambda>j. ?valid j \<and> mode_matches inp mode i j)"
    by (auto simp: fun_eq_iff compatible_iff_mode mode)
  note app = sparse.close_app_filter [OF r i mono, of f u]
  note other = sparse.close_global_filter [OF r mono,
      of "\<lambda>j. app_codes inp ! j \<noteq> app_codes inp ! i \<and> \<not> background inp ! j" f u]
  note any = sparse.close_global_filter [OF r mono,
      of "\<lambda>j. app_codes inp ! j = app_codes inp ! i \<or> \<not> background inp ! j" f u]
  show ?thesis
    unfolding c sparse_reuse_closes_def Let_def
    using app other any by (cases mode) simp_all
qed

lemma sparse_matched_start_repr:
  assumes ord: "ordered_input inp" and i: "i < length (app_codes inp)"
    and r: "sparse_repr (app_codes inp) pool opens i"
    and mode: "sparse_stop_mode_of inp opts i = Some mode"
  shows "\<exists>pool'. sparse_matched_start inp opts mode i pool =
      Some (find (is_compatible_open_start_for_stop inp opts i) (rev opens), pool')
    \<and> sparse_repr (app_codes inp) pool' opens i"
proof -
  let ?valid = "duration_ok inp opts (sparse_stop_enforces_threshold mode opts) i"
  have mono: "sparse.age_monotone ?valid opens"
    using ord i r by (intro duration_age_monotone) (auto simp: sparse_repr_def)
  have c: "is_compatible_open_start_for_stop inp opts i
      = (\<lambda>j. ?valid j \<and> mode_matches inp mode i j)"
    by (auto simp: fun_eq_iff compatible_iff_mode mode)
  note app = sparse.latest_app_find [OF r i mono]
  note other = sparse.latest_global_find [OF r mono,
      of "\<lambda>j. app_codes inp ! j \<noteq> app_codes inp ! i \<and> \<not> background inp ! j"]
  note any = sparse.latest_global_find [OF r mono,
      of "\<lambda>j. app_codes inp ! j = app_codes inp ! i \<or> \<not> background inp ! j"]
  show ?thesis
    unfolding c sparse_matched_start_def Let_def
    using app other any by (cases mode) simp_all
qed

section \<open>The loop follows the specification\<close>

text \<open>
  \<open>log_of\<close> relates the parallel output vectors to the log of closes they encode; the reason of a
  close is a function of the pair.
\<close>

abbreviation reason_of :: "match_input \<Rightarrow> nat \<times> nat \<Rightarrow> episode_close_reason" where
  "reason_of inp \<equiv> \<lambda>(j, e). legacy_close_reason inp e j"

definition log_of ::
    "match_input \<Rightarrow> nat list \<Rightarrow> nat list \<Rightarrow> episode_close_reason list \<Rightarrow> (nat \<times> nat) list \<Rightarrow> bool" where
  "log_of inp stop_starts stop_events reasons log \<longleftrightarrow>
     stop_starts = map fst log \<and> stop_events = map snd log \<and> reasons = map (reason_of inp) log"

lemma log_of_Nil: "log_of inp [] [] [] []"
  by (simp add: log_of_def)

lemma log_of_append:
  assumes "log_of inp stop_starts stop_events reasons log"
  shows "log_of inp (stop_starts @ cs) (stop_events @ replicate (length cs) i)
    (classify_new_closes inp i reasons (stop_starts @ cs)) (log @ map (\<lambda>j. (j, i)) cs)"
  using assms
  by (auto simp: log_of_def classify_new_closes_append comp_def map_replicate_const)

lemma fold_push_pairs:
  "fold (\<lambda>j (ss, es). (ss @ [j], es @ [i])) cs (ss, es) = (ss @ cs, es @ replicate (length cs) i)"
  by (induction cs arbitrary: ss es) (auto simp: replicate_app_Cons_same)

definition update_rel :: "match_input \<Rightarrow> match_options \<Rightarrow> nat \<Rightarrow> sparse_state \<Rightarrow> bool" where
  "update_rel inp opts n st \<longleftrightarrow>
     (\<exists>opens closed log.
        fused_run inp opts (resumed inp) never_held n = (opens, closed)
        \<and> sparse_repr (app_codes inp) (sp_pool st) opens n
        \<and> sp_starts st = filter (\<lambda>i. resumed inp ! i) [0..<n]
        \<and> log_of inp (sp_stop_starts st) (sp_stop_events st) (sp_reasons st) log
        \<and> mset log = mset closed)"

text \<open>The stop block removes exactly the starts \<open>fused_closes\<close> names, and logs them.\<close>

lemma match_update_stop_repr:
  assumes ord: "ordered_input inp" and i: "i < length (app_codes inp)"
    and r: "sparse_repr (app_codes inp) (sp_pool st) opens i"
    and mode: "sparse_stop_mode_of inp opts i = Some mode"
    and log: "log_of inp (sp_stop_starts st) (sp_stop_events st) (sp_reasons st) log"
  shows "\<exists>st' cs. match_update_stop inp opts mode i st = Some st'
    \<and> mset cs = mset (fused_closes inp opts (\<lambda>_. False) opens i)
    \<and> sparse_repr (app_codes inp) (sp_pool st')
        (filter (\<lambda>j. j \<notin> set (fused_closes inp opts (\<lambda>_. False) opens i)) opens) i
    \<and> sp_starts st' = sp_starts st
    \<and> log_of inp (sp_stop_starts st') (sp_stop_events st') (sp_reasons st')
        (log @ map (\<lambda>j. (j, i)) cs)"
proof (cases "allow_stop_event_reuse opts")
  case True
  let ?c = "is_compatible_open_start_for_stop inp opts i"
  obtain pool' where pool':
    "sparse_reuse_closes inp opts mode i (\<lambda>j (ss, es). (ss @ [j], es @ [i]))
       (sp_pool st) (sp_stop_starts st, sp_stop_events st)
     = Some (pool', fold (\<lambda>j (ss, es). (ss @ [j], es @ [i])) (filter ?c (rev opens))
         (sp_stop_starts st, sp_stop_events st))"
    "sparse_repr (app_codes inp) pool' (filter (\<lambda>j. \<not> ?c j) opens) i"
    using sparse_reuse_closes_repr [OF ord i r mode,
        of "\<lambda>j (ss, es). (ss @ [j], es @ [i])" "(sp_stop_starts st, sp_stop_events st)"]
    by (elim exE conjE)
  have cs: "fused_closes inp opts (\<lambda>_. False) opens i = filter ?c opens"
    using True by (simp add: fused_closes_def)
  have rest: "filter (\<lambda>j. j \<in> set opens \<longrightarrow> \<not> ?c j) opens = filter (\<lambda>j. \<not> ?c j) opens"
    by (rule filter_cong) auto
  let ?L = "filter ?c (rev opens)"
  let ?st' = "st\<lparr>sp_pool := pool', sp_stop_starts := sp_stop_starts st @ ?L,
      sp_stop_events := sp_stop_events st @ replicate (length ?L) i,
      sp_reasons := classify_new_closes inp i (sp_reasons st) (sp_stop_starts st @ ?L)\<rparr>"
  have "match_update_stop inp opts mode i st = Some ?st'"
    using True pool'(1) by (simp add: match_update_stop_def fold_push_pairs)
  moreover have "mset ?L = mset (filter ?c opens)" by (simp add: rev_filter [symmetric])
  ultimately show ?thesis
    using log_of_append [OF log, of ?L i] pool'(2)
    by (intro exI [of _ ?st'] exI [of _ ?L] conjI) (simp_all add: cs rest)
next
  case False
  let ?find = "find (is_compatible_open_start_for_stop inp opts i) (rev opens)"
  obtain pool' where pool':
    "sparse_matched_start inp opts mode i (sp_pool st) = Some (?find, pool')"
    "sparse_repr (app_codes inp) pool' opens i"
    using sparse_matched_start_repr [OF ord i r mode] by blast
  show ?thesis
  proof (cases ?find)
    case None
    let ?st' = "st\<lparr>sp_pool := pool',
        sp_reasons := classify_new_closes inp i (sp_reasons st) (sp_stop_starts st)\<rparr>"
    have "fused_closes inp opts (\<lambda>_. False) opens i = []"
      using None False by (simp add: fused_closes_def)
    moreover have "match_update_stop inp opts mode i st = Some ?st'"
      using pool'(1) None False by (simp add: match_update_stop_def)
    ultimately show ?thesis
      using log_of_append [OF log, of "[]" i] pool'(2)
      by (intro exI [of _ ?st'] exI [of _ "[]"] conjI) simp_all
  next
    case (Some j)
    let ?st' = "st\<lparr>sp_pool := sparse_close j pool', sp_stop_starts := sp_stop_starts st @ [j],
        sp_stop_events := sp_stop_events st @ [i],
        sp_reasons := classify_new_closes inp i (sp_reasons st) (sp_stop_starts st @ [j])\<rparr>"
    have cs: "fused_closes inp opts (\<lambda>_. False) opens i = [j]"
      using Some False by (simp add: fused_closes_def)
    have j: "j \<in> set opens" using find_SomeD [OF Some] by simp
    have "distinct opens" using r strict_sorted_iff by (auto simp: sparse_repr_def)
    then have "remove1 j opens = filter (\<lambda>i. i \<noteq> j) opens"
      by (simp add: distinct_remove1_removeAll removeAll_filter_not_eq eq_commute)
    moreover have "match_update_stop inp opts mode i st = Some ?st'"
      using pool'(1) Some False by (simp add: match_update_stop_def)
    ultimately show ?thesis
      using log_of_append [OF log, of "[j]" i] sparse_close_repr [OF pool'(2) j]
      by (intro exI [of _ ?st'] exI [of _ "[j]"] conjI) (simp_all add: cs)
  qed
qed

lemma match_update_step_rel:
  assumes ord: "ordered_input inp" and i: "i < length (app_codes inp)"
    and rel: "update_rel inp opts i st"
  shows "\<exists>st'. match_update_step inp opts i st = Some st' \<and> update_rel inp opts (Suc i) st'"
proof -
  obtain opens closed log where R:
    "fused_run inp opts (resumed inp) never_held i = (opens, closed)"
    "sparse_repr (app_codes inp) (sp_pool st) opens i"
    "sp_starts st = filter (\<lambda>i. resumed inp ! i) [0..<i]"
    "log_of inp (sp_stop_starts st) (sp_stop_events st) (sp_reasons st) log"
    "mset log = mset closed"
    using rel by (auto simp: update_rel_def)
  let ?cs = "fused_closes inp opts (\<lambda>_. False) opens i"
  let ?opens = "filter (\<lambda>j. j \<notin> set ?cs) opens"
  obtain st1 cs where st1:
    "(case sparse_stop_mode_of inp opts i of None \<Rightarrow> Some st
      | Some stop_mode \<Rightarrow> match_update_stop inp opts stop_mode i st) = Some st1"
    "mset cs = mset ?cs"
    "sparse_repr (app_codes inp) (sp_pool st1) ?opens i" "sp_starts st1 = sp_starts st"
    "log_of inp (sp_stop_starts st1) (sp_stop_events st1) (sp_reasons st1)
       (log @ map (\<lambda>j. (j, i)) cs)"
  proof (cases "sparse_stop_mode_of inp opts i")
    case None
    then have "?cs = []" by (rule fused_closes_no_mode)
    with None R that [of st "[]"] show ?thesis by simp
  next
    case (Some mode)
    with match_update_stop_repr [OF ord i R(2) Some R(4)] that show ?thesis by auto
  qed
  have run: "fused_run inp opts (resumed inp) never_held (Suc i)
      = (?opens @ (if resumed inp ! i then [i] else []), closed @ map (\<lambda>j. (j, i)) ?cs)"
    by (simp add: fused_run_Suc R(1) fused_step_def Let_def)
  have ms: "mset (log @ map (\<lambda>j. (j, i)) cs) = mset (closed @ map (\<lambda>j. (j, i)) ?cs)"
    using R(5) st1(2) by simp
  show ?thesis
    using run ms st1 R(3) sparse_open_repr [OF st1(3) i] sparse_skip_repr [OF st1(3) i]
    by (auto simp: match_update_step_def update_rel_def)
qed

lemma finish_fold_push:
  "fold (\<lambda>j. if c j then (\<lambda>(ss, es, ms). (ss @ [j], es @ [l], ms))
             else (\<lambda>(ss, es, ms). (ss, es, ms @ [j]))) js (ss, es, ms)
   = (ss @ filter c js, es @ replicate (length (filter c js)) l, ms @ filter (\<lambda>j. \<not> c j) js)"
  by (induction js arbitrary: ss es ms) (auto simp: replicate_app_Cons_same)

text \<open>What the output says: the log, the reasons of its pairs, and the starts without an end.\<close>

definition reports_log ::
    "match_input \<Rightarrow> bool list \<Rightarrow> (nat \<times> nat) list \<Rightarrow> (nat \<times> nat) list \<Rightarrow> nat list
      \<Rightarrow> match_update_indices \<Rightarrow> bool" where
  "reports_log inp eligible log ends missing out \<longleftrightarrow>
     start_indices out = openers_of inp eligible
     \<and> stop_start_indices out = map fst (log @ ends)
     \<and> stop_event_indices out = map snd (log @ ends)
     \<and> missing_indices out = missing
     \<and> stop_reasons out = map (reason_of inp) log @ replicate (length ends) EndOfStream
     \<and> missing_reasons out = replicate (length missing) Unobserved
     \<and> stop_timestamps_ns out = replicate (length (log @ ends)) None"

lemma reports_log_well_reported:
  assumes "reports_log inp eligible log ends missing out"
    and "mset (map fst (log @ ends)) + mset missing = mset (openers_of inp eligible)"
  shows "well_reported (openers_of inp eligible) out"
  using assms by (simp add: reports_log_def well_reported_def)

lemma match_app_usage_update_indices_core_spec:
  assumes ord: "ordered_input inp"
  shows "\<exists>out log ends.
      match_app_usage_update_indices_core inp opts = Inr out
      \<and> reports_log inp (resumed inp) log ends (missing_indices out) out
      \<and> mset (log @ ends) = mset (fused_closed inp opts (resumed inp) never_held)
      \<and> mset (missing_indices out) = mset (fused_missing inp opts (resumed inp) never_held)"
proof -
  let ?n = "length (app_codes inp)"
  have al: "aligned inp" and nonneg: "\<forall>c \<in> set (app_codes inp). 0 \<le> c" and len: "?n \<le> 2 ^ 31"
    using ord by (auto simp: ordered_input_def)
  obtain pool where pool: "sparse_new ?n (app_codes inp) = Inr pool"
    using sparse_new_Inr_iff nonneg by blast
  let ?init = "\<lparr>sp_pool = pool, sp_starts = [], sp_stop_starts = [], sp_stop_events = [],
      sp_reasons = []\<rparr>"
  have "update_rel inp opts 0 ?init"
    using sparse_new_repr [OF pool len] log_of_Nil by (auto simp: update_rel_def)
  then obtain st where st: "fold_opt (match_update_step inp opts) [0..<?n] ?init = Some st"
    "update_rel inp opts ?n st"
    using fold_opt_upt_invariant [of "update_rel inp opts" ?init ?n "match_update_step inp opts"]
      match_update_step_rel [OF ord] by blast
  obtain opens closed log where R:
    "fused_run inp opts (resumed inp) never_held ?n = (opens, closed)"
    "sparse_repr (app_codes inp) (sp_pool st) opens ?n"
    "sp_starts st = openers_of inp (resumed inp)"
    "log_of inp (sp_stop_starts st) (sp_stop_events st) (sp_reasons st) log"
    "mset log = mset closed"
    using st(2) by (auto simp: update_rel_def)
  let ?c = "closes_at_end inp opts"
  let ?ends = "map (\<lambda>j. (j, ?n - 1)) (filter ?c (rev opens))"
  let ?missing = "filter (\<lambda>j. \<not> ?c j) (rev opens)"
  let ?out = "\<lparr>start_indices = openers_of inp (resumed inp),
      stop_start_indices = map fst (log @ ?ends), stop_event_indices = map snd (log @ ?ends),
      missing_indices = ?missing,
      stop_reasons = map (reason_of inp) log @ replicate (length ?ends) EndOfStream,
      missing_reasons = replicate (length ?missing) Unobserved,
      stop_timestamps_ns = replicate (length (log @ ?ends)) None\<rparr>"
  have c: "?c = (\<lambda>j. j < ?n - 1 \<and> duration_ok inp opts True (?n - 1) j)"
    by (auto simp: closes_at_end_def fun_eq_iff Let_def)
  have "match_update_finish inp opts ?n st = Some ?out"
  proof (cases "0 < ?n")
    case True
    obtain pool' where "finish_open_starts (?n - 1) (duration_ok inp opts True (?n - 1))
        (\<lambda>j e (ss, es, ms). (ss @ [j], es @ [e], ms)) (\<lambda>j (ss, es, ms). (ss, es, ms @ [j]))
        (sp_pool st) (sp_stop_starts st, sp_stop_events st, [])
      = Some (pool', fold (\<lambda>j. if ?c j then (\<lambda>(ss, es, ms). (ss @ [j], es @ [?n - 1], ms))
             else (\<lambda>(ss, es, ms). (ss, es, ms @ [j]))) (rev opens)
             (sp_stop_starts st, sp_stop_events st, []))"
      unfolding c
      using finish_open_starts_repr [OF R(2), of "?n - 1" "duration_ok inp opts True (?n - 1)"
          "\<lambda>j e (ss, es, ms). (ss @ [j], es @ [e], ms)" "\<lambda>j (ss, es, ms). (ss, es, ms @ [j])"
          "(sp_stop_starts st, sp_stop_events st, [])"]
      by (elim exE)
    with True R(3,4) show ?thesis
      by (simp add: match_update_finish_def finish_fold_push log_of_def vec_resize_def comp_def
          map_replicate_const)
  next
    case False
    then have "opens = []" "closed = []" using R(1) by simp_all
    with False R(3,4,5) show ?thesis by (simp add: match_update_finish_def log_of_def)
  qed
  with st(1) pool al have run: "match_app_usage_update_indices_core inp opts = Inr ?out"
    by (simp add: match_app_usage_update_indices_core_def validate_lengths_aligned)
  have "mset (log @ ?ends) = mset (fused_closed inp opts (resumed inp) never_held)"
    using R(5) by (simp add: fused_closed_def R(1) rev_filter [symmetric] rev_map [symmetric])
  moreover have "mset ?missing = mset (fused_missing inp opts (resumed inp) never_held)"
    by (simp add: fused_missing_def R(1))
  moreover have "reports_log inp (resumed inp) log ?ends (missing_indices ?out) ?out"
    by (simp add: reports_log_def)
  ultimately show ?thesis using run by (intro exI [of _ ?out] exI [of _ log] exI [of _ ?ends]) simp
qed

end
