(* ===== verification/Matcher_Proximity.thy ===== *)
theory Matcher_Proximity
  imports Matcher_Sparse
begin

text \<open>
  The fused matcher of the product, with the intra-app teardown grace: the reference formulation
  over a vector of open starts (\<open>match_legacy_\<dots>\<close>), the optimised one over \<open>SparseOpenStarts\<close>
  (\<open>match_sorted_\<dots>\<close>), and the entry point that validates and selects between them. The optimised
  matcher is proved to return exactly what the reference returns on every stream in time order.
\<close>

section \<open>Tracking re-resumes\<close>

record reresume_state =
  last_event_ns :: "int option list"
  last_was_same_stop :: "bool list"
  is_reresume :: "bool list"

definition reresume_init :: "nat \<Rightarrow> nat \<Rightarrow> reresume_state" where
  "reresume_init app_slots len =
     \<lparr>last_event_ns = replicate app_slots None, last_was_same_stop = replicate app_slots False,
      is_reresume = replicate len False\<rparr>"

text \<open>The update of the re-resume vectors at the end of an iteration, the same in both matchers.\<close>

definition track_reresume ::
    "match_input \<Rightarrow> bool list \<Rightarrow> bool list \<Rightarrow> int \<Rightarrow> nat \<Rightarrow> reresume_state \<Rightarrow> reresume_state" where
  "track_reresume inp eligible_opener native_resumed proximity_ns index t =
     (let slot = nat (app_codes inp ! index);
          t = (if eligible_opener ! index
               then t\<lparr>is_reresume := (is_reresume t)[index :=
                        native_resumed ! index
                        \<and> (case last_event_ns t ! slot of
                             None \<Rightarrow> False
                           | Some prev_ns \<Rightarrow> last_was_same_stop t ! slot
                               \<and> timestamp_ns inp ! index - prev_ns < proximity_ns)]\<rparr>
               else t)
      in t\<lparr>last_event_ns := (last_event_ns t)[slot := Some (timestamp_ns inp ! index)],
           last_was_same_stop := (last_was_same_stop t)[slot := same_stop inp ! index]\<rparr>)"

section \<open>The reference matcher\<close>

record legacy_state =
  lg_open :: "nat list"
  lg_starts :: "nat list"
  lg_stop_starts :: "nat list"
  lg_stop_events :: "nat list"
  lg_reasons :: "episode_close_reason list"
  lg_track :: reresume_state

text \<open>The search for the start one stop event closes: newest first, \<open>continue\<close> past incompatible
  and over-long starts, \<open>break\<close> at a re-resumed start inside the grace window.\<close>

fun legacy_search ::
    "match_input \<Rightarrow> match_options \<Rightarrow> int \<Rightarrow> bool list \<Rightarrow> nat \<Rightarrow> nat list \<Rightarrow> nat list \<Rightarrow> nat option" where
  "legacy_search inp opts proximity_ns reresumes index open_start_indices [] = None"
| "legacy_search inp opts proximity_ns reresumes index open_start_indices (position # positions) =
     (let start_index = open_start_indices ! position;
          current_app = app_codes inp ! index;
          is_normal_stop = same_stop inp ! index \<or> other_stop inp ! index;
          is_fallback_stop = stopped inp ! index \<and> use_activity_stopped_as_fallback opts;
          start_app = app_codes inp ! start_index;
          same_app_compatible = same_stop inp ! index \<and> start_app = current_app;
          other_app_compatible =
            other_stop inp ! index \<and> start_app \<noteq> current_app \<and> \<not> background inp ! start_index;
          fallback_compatible = \<not> is_normal_stop \<and> is_fallback_stop \<and> start_app = current_app;
          continue = legacy_search inp opts proximity_ns reresumes index open_start_indices positions
      in if \<not> (same_app_compatible \<or> other_app_compatible \<or> fallback_compatible) then continue
         else if \<not> is_valid_duration (timestamp_ns inp ! start_index) (timestamp_ns inp ! index)
                     (\<not> fallback_compatible \<or> apply_threshold_to_fallback opts)
                     (long_duration_threshold_ns opts)
         then continue
         else if fallback_compatible \<and> reresumes ! start_index
                 \<and> timestamp_ns inp ! index - timestamp_ns inp ! start_index < proximity_ns
         then None
         else Some position)"

definition legacy_step ::
    "match_input \<Rightarrow> bool list \<Rightarrow> bool list \<Rightarrow> match_options \<Rightarrow> int \<Rightarrow> nat \<Rightarrow> legacy_state \<Rightarrow> legacy_state" where
  "legacy_step inp eligible_opener native_resumed opts proximity_ns index st =
     (let is_normal_stop = same_stop inp ! index \<or> other_stop inp ! index;
          is_fallback_stop = stopped inp ! index \<and> use_activity_stopped_as_fallback opts;
          st =
            (if allow_stop_event_reuse opts \<and> (is_normal_stop \<or> is_fallback_stop) then
               (case close_reused_starts inp opts index
                       (\<lambda>start_index (stop_starts, stop_events, reasons).
                          (stop_starts @ [start_index], stop_events @ [index],
                           reasons @ [legacy_close_reason inp index start_index]))
                       (lg_open st) (lg_stop_starts st, lg_stop_events st, lg_reasons st) of
                  (opens, stop_starts, stop_events, reasons) \<Rightarrow>
                    st\<lparr>lg_open := opens, lg_stop_starts := stop_starts,
                      lg_stop_events := stop_events, lg_reasons := reasons\<rparr>)
             else if is_normal_stop \<or> is_fallback_stop then
               (case legacy_search inp opts proximity_ns (is_reresume (lg_track st)) index
                       (lg_open st) (rev [0..<length (lg_open st)]) of
                  None \<Rightarrow> st
                | Some position \<Rightarrow>
                    let start_index = lg_open st ! position in
                    st\<lparr>lg_open := vec_remove (lg_open st) position,
                      lg_stop_starts := lg_stop_starts st @ [start_index],
                      lg_stop_events := lg_stop_events st @ [index],
                      lg_reasons := lg_reasons st @ [legacy_close_reason inp index start_index]\<rparr>)
             else st);
          st =
            (if eligible_opener ! index
             then st\<lparr>lg_starts := lg_starts st @ [index], lg_open := lg_open st @ [index]\<rparr>
             else st)
      in st\<lparr>lg_track :=
              track_reresume inp eligible_opener native_resumed proximity_ns index (lg_track st)\<rparr>)"

definition legacy_finish ::
    "match_input \<Rightarrow> match_options \<Rightarrow> nat \<Rightarrow> legacy_state \<Rightarrow> match_update_indices" where
  "legacy_finish inp opts len st =
     (case (if 0 < len then
              (let last_index = len - 1 in
               fold
                 (\<lambda>start_index (stop_starts, stop_events, reasons, missing, missing_rs).
                    if start_index < last_index \<and> duration_ok inp opts True last_index start_index
                    then (stop_starts @ [start_index], stop_events @ [last_index],
                          reasons @ [EndOfStream], missing, missing_rs)
                    else (stop_starts, stop_events, reasons, missing @ [start_index],
                          missing_rs @ [Unobserved]))
                 (lg_open st) (lg_stop_starts st, lg_stop_events st, lg_reasons st, [], []))
            else (lg_stop_starts st, lg_stop_events st, lg_reasons st, [], [])) of
       (stop_starts, stop_events, reasons, missing, missing_rs) \<Rightarrow>
         \<lparr>start_indices = lg_starts st, stop_start_indices = stop_starts,
          stop_event_indices = stop_events, missing_indices = missing, stop_reasons = reasons,
          missing_reasons = missing_rs, stop_timestamps_ns = replicate (length stop_starts) None\<rparr>)"

definition match_legacy_app_usage_update_indices_with_proximity ::
    "match_input \<Rightarrow> bool list \<Rightarrow> bool list \<Rightarrow> match_options \<Rightarrow> int
      \<Rightarrow> match_update_indices matcher_result" where
  "match_legacy_app_usage_update_indices_with_proximity inp eligible_opener native_resumed opts
       proximity_ns =
     (let len = length (app_codes inp);
          max_app_code = max_or_zero (app_codes inp)
      in if \<exists>code \<in> set (app_codes inp). code < 0 then Inl negative_code_error
         else
           (let app_slots = nat max_app_code + 1 in
            Inr (legacy_finish inp opts len
              (fold (legacy_step inp eligible_opener native_resumed opts proximity_ns) [0..<len]
                \<lparr>lg_open = [], lg_starts = [], lg_stop_starts = [], lg_stop_events = [],
                 lg_reasons = [], lg_track = reresume_init app_slots len\<rparr>))))"

section \<open>The optimised matcher\<close>

record sorted_state =
  so_pool :: sparse_open_starts
  so_starts :: "nat list"
  so_stop_starts :: "nat list"
  so_stop_events :: "nat list"
  so_reasons :: "episode_close_reason list"
  so_track :: reresume_state

text \<open>
  The two vectors of app slots are allocated before the codes are validated. With every code below
  \<open>-1\<close> the slot count exceeds what a vector may hold, on every pointer width, and the allocation
  panics; with a maximum of \<open>-1\<close> the count wraps to zero.
\<close>

definition alloc_app_slots :: "int \<Rightarrow> nat matcher_result" where
  "alloc_app_slots max_app_code =
     (if max_app_code < -1 then Inl Panic else Inr (nat (max_app_code + 1)))"

definition sorted_stop ::
    "match_input \<Rightarrow> match_options \<Rightarrow> int \<Rightarrow> sparse_stop_mode \<Rightarrow> nat \<Rightarrow> sorted_state
      \<Rightarrow> sorted_state option" where
  "sorted_stop inp opts proximity_ns stop_mode index st =
     map_option
       (\<lambda>st. st\<lparr>so_reasons := classify_new_closes inp index (so_reasons st) (so_stop_starts st)\<rparr>)
       (if allow_stop_event_reuse opts then
          map_option
            (\<lambda>(pool, closed).
               case fold
                 (\<lambda>start_index (stop_starts, stop_events).
                    (stop_starts @ [start_index], stop_events @ [index]))
                 (rev closed) (so_stop_starts st, so_stop_events st) of
                 (stop_starts, stop_events) \<Rightarrow>
                   st\<lparr>so_pool := pool, so_stop_starts := stop_starts,
                     so_stop_events := stop_events\<rparr>)
            (sparse_reuse_closes inp opts stop_mode index
              (\<lambda>start_index closed. closed @ [start_index]) (so_pool st) [])
        else
          map_option
            (\<lambda>(candidate, pool).
               case (case stop_mode of
                       FallbackSameApp \<Rightarrow>
                         (case candidate of
                            None \<Rightarrow> None
                          | Some start_index \<Rightarrow>
                              if \<not> (is_reresume (so_track st) ! start_index
                                    \<and> timestamp_ns inp ! index - timestamp_ns inp ! start_index
                                        < proximity_ns)
                              then Some start_index else None)
                     | _ \<Rightarrow> candidate) of
                 None \<Rightarrow> st\<lparr>so_pool := pool\<rparr>
               | Some start_index \<Rightarrow>
                   st\<lparr>so_pool := sparse_close start_index pool,
                     so_stop_starts := so_stop_starts st @ [start_index],
                     so_stop_events := so_stop_events st @ [index]\<rparr>)
            (sparse_matched_start inp opts stop_mode index (so_pool st)))"

definition sorted_step ::
    "match_input \<Rightarrow> bool list \<Rightarrow> bool list \<Rightarrow> match_options \<Rightarrow> int \<Rightarrow> nat \<Rightarrow> sorted_state
      \<Rightarrow> sorted_state option" where
  "sorted_step inp eligible_opener native_resumed opts proximity_ns index st =
     map_option
       (\<lambda>st.
          let st = (if eligible_opener ! index
                    then st\<lparr>so_starts := so_starts st @ [index],
                           so_pool := sparse_open index (app_codes inp ! index) (so_pool st)\<rparr>
                    else st)
          in st\<lparr>so_track :=
                 track_reresume inp eligible_opener native_resumed proximity_ns index
                   (so_track st)\<rparr>)
       (case sparse_stop_mode_of inp opts index of
          None \<Rightarrow> Some st
        | Some stop_mode \<Rightarrow> sorted_stop inp opts proximity_ns stop_mode index st)"

definition sorted_finish ::
    "match_input \<Rightarrow> match_options \<Rightarrow> nat \<Rightarrow> sorted_state \<Rightarrow> match_update_indices option" where
  "sorted_finish inp opts len st =
     map_option
       (\<lambda>(stop_starts, stop_events, missing, reasons, missing_rs).
          \<lparr>start_indices = so_starts st, stop_start_indices = stop_starts,
           stop_event_indices = stop_events, missing_indices = missing,
           stop_reasons = reasons, missing_reasons = missing_rs,
           stop_timestamps_ns = replicate (length stop_starts) None\<rparr>)
       (if 0 < len then
          map_option
            (\<lambda>(pool, final_stops, final_missing).
               let (stop_starts, stop_events) =
                     fold (\<lambda>(start_index, stop_index) (stop_starts, stop_events).
                             (stop_starts @ [start_index], stop_events @ [stop_index]))
                       (rev final_stops) (so_stop_starts st, so_stop_events st);
                   missing = rev final_missing
               in (stop_starts, stop_events, missing,
                   vec_resize (so_reasons st) (length stop_starts) EndOfStream,
                   vec_resize [] (length missing) Unobserved))
            (finish_open_starts (len - 1) (duration_ok inp opts True (len - 1))
               (\<lambda>start_index stop_index (final_stops, final_missing).
                  (final_stops @ [(start_index, stop_index)], final_missing))
               (\<lambda>start_index (final_stops, final_missing).
                  (final_stops, final_missing @ [start_index]))
               (so_pool st) ([], []))
        else Some (so_stop_starts st, so_stop_events st, [], so_reasons st, []))"

definition match_sorted_app_usage_update_indices_with_proximity ::
    "match_input \<Rightarrow> bool list \<Rightarrow> bool list \<Rightarrow> match_options \<Rightarrow> int
      \<Rightarrow> match_update_indices matcher_result" where
  "match_sorted_app_usage_update_indices_with_proximity inp eligible_opener native_resumed opts
       proximity_ns =
     (let len = length (app_codes inp);
          max_app_code = max_or_zero (app_codes inp)
      in case alloc_app_slots max_app_code of
           Inl e \<Rightarrow> Inl e
         | Inr app_slots \<Rightarrow>
        (case sparse_new len (app_codes inp) of
           Inl e \<Rightarrow> Inl e
         | Inr open_starts \<Rightarrow>
        (case Option.bind
                (fold_opt (sorted_step inp eligible_opener native_resumed opts proximity_ns) [0..<len]
                  \<lparr>so_pool = open_starts, so_starts = [], so_stop_starts = [], so_stop_events = [],
                   so_reasons = [], so_track = reresume_init app_slots len\<rparr>)
                (sorted_finish inp opts len) of
           None \<Rightarrow> Inl NoReturn
         | Some out \<Rightarrow> Inr out)))"

section \<open>The entry points\<close>

definition match_app_usage_update_indices_with_proximity_openers_core ::
    "match_input \<Rightarrow> bool list \<Rightarrow> match_options \<Rightarrow> int \<Rightarrow> match_update_indices matcher_result" where
  "match_app_usage_update_indices_with_proximity_openers_core inp eligible_opener opts
       proximity_ns =
     (case validate_lengths inp of
        Inl e \<Rightarrow> Inl e
      | Inr _ \<Rightarrow>
          if length eligible_opener \<noteq> length (app_codes inp) then Inl length_error
          else if proximity_ns < 0
          then Inl (MatcherError ''proximity_ns must be non-negative'')
          else if proximity_ns = 0
          then match_app_usage_update_indices_core (inp\<lparr>resumed := eligible_opener\<rparr>) opts
          else if windows_sorted (timestamp_ns inp)
          then match_sorted_app_usage_update_indices_with_proximity inp eligible_opener
                 (resumed inp) opts proximity_ns
          else match_legacy_app_usage_update_indices_with_proximity inp eligible_opener
                 (resumed inp) opts proximity_ns)"

definition match_app_usage_update_indices_with_proximity_core ::
    "match_input \<Rightarrow> match_options \<Rightarrow> int \<Rightarrow> match_update_indices matcher_result" where
  "match_app_usage_update_indices_with_proximity_core inp opts proximity_ns =
     match_app_usage_update_indices_with_proximity_openers_core inp (resumed inp) opts proximity_ns"

section \<open>Re-resumes, read off the stream\<close>

text \<open>
  The vectors record, per app, the newest event so far; so a start is a re-resume iff its row is a
  native resume and the app's previous row is one of its own stops less than the grace ago.
\<close>

definition previous_same_app :: "match_input \<Rightarrow> nat \<Rightarrow> int \<Rightarrow> nat option" where
  "previous_same_app inp n code = find (\<lambda>k. app_codes inp ! k = code) (rev [0..<n])"

definition reresumed :: "match_input \<Rightarrow> bool list \<Rightarrow> int \<Rightarrow> nat \<Rightarrow> bool" where
  "reresumed inp native_resumed proximity_ns j \<longleftrightarrow>
     native_resumed ! j
     \<and> (case previous_same_app inp j (app_codes inp ! j) of
          None \<Rightarrow> False
        | Some k \<Rightarrow> same_stop inp ! k
            \<and> timestamp_ns inp ! j - timestamp_ns inp ! k < proximity_ns)"

definition track_inv ::
    "match_input \<Rightarrow> bool list \<Rightarrow> bool list \<Rightarrow> int \<Rightarrow> nat \<Rightarrow> reresume_state \<Rightarrow> bool" where
  "track_inv inp eligible native_resumed proximity_ns n t \<longleftrightarrow>
     length (is_reresume t) = length (app_codes inp)
     \<and> length (last_was_same_stop t) = length (last_event_ns t)
     \<and> (\<forall>i < length (app_codes inp). 0 \<le> app_codes inp ! i
          \<and> nat (app_codes inp ! i) < length (last_event_ns t))
     \<and> (\<forall>c < length (last_event_ns t).
          case previous_same_app inp n (int c) of
            None \<Rightarrow> last_event_ns t ! c = None
          | Some k \<Rightarrow> last_event_ns t ! c = Some (timestamp_ns inp ! k)
              \<and> last_was_same_stop t ! c = same_stop inp ! k)
     \<and> (\<forall>j < n. eligible ! j \<longrightarrow>
          is_reresume t ! j = reresumed inp native_resumed proximity_ns j)"

lemma previous_same_app_Suc:
  "previous_same_app inp (Suc n) code =
     (if app_codes inp ! n = code then Some n else previous_same_app inp n code)"
  by (simp add: previous_same_app_def)

lemma track_inv_init:
  assumes "\<forall>c \<in> set (app_codes inp). 0 \<le> c"
  shows "track_inv inp eligible native_resumed proximity_ns 0
    (reresume_init (nat (max_or_zero (app_codes inp)) + 1) (length (app_codes inp)))"
proof -
  have "0 \<le> app_codes inp ! i \<and> nat (app_codes inp ! i) < Suc (nat (max_or_zero (app_codes inp)))"
    if "i < length (app_codes inp)" for i
    using that assms max_or_zero_ge [of "app_codes inp ! i" "app_codes inp"] nth_mem [OF that]
    by fastforce
  then show ?thesis
    by (auto simp: track_inv_def reresume_init_def previous_same_app_def nth_replicate
        simp del: replicate_Suc)
qed

lemma track_reresume_inv:
  assumes inv: "track_inv inp eligible native_resumed proximity_ns n t"
    and n: "n < length (app_codes inp)"
  shows "track_inv inp eligible native_resumed proximity_ns (Suc n)
    (track_reresume inp eligible native_resumed proximity_ns n t)"
proof -
  let ?slot = "nat (app_codes inp ! n)"
  have slot: "?slot < length (last_event_ns t)" "int ?slot = app_codes inp ! n"
    using inv n by (auto simp: track_inv_def)
  have here: "case previous_same_app inp n (app_codes inp ! n) of
            None \<Rightarrow> last_event_ns t ! ?slot = None
          | Some k \<Rightarrow> last_event_ns t ! ?slot = Some (timestamp_ns inp ! k)
              \<and> last_was_same_stop t ! ?slot = same_stop inp ! k"
    using inv slot by (auto simp: track_inv_def)
  have re: "(native_resumed ! n \<and> (case last_event_ns t ! ?slot of None \<Rightarrow> False
      | Some prev_ns \<Rightarrow> last_was_same_stop t ! ?slot
          \<and> timestamp_ns inp ! n - prev_ns < proximity_ns))
    = reresumed inp native_resumed proximity_ns n"
    using here by (auto simp: reresumed_def split: option.splits)
  let ?T = "track_reresume inp eligible native_resumed proximity_ns n t"
  have T: "last_event_ns ?T = (last_event_ns t)[?slot := Some (timestamp_ns inp ! n)]"
    "last_was_same_stop ?T = (last_was_same_stop t)[?slot := same_stop inp ! n]"
    "is_reresume ?T = (if eligible ! n
       then (is_reresume t)[n := reresumed inp native_resumed proximity_ns n] else is_reresume t)"
    unfolding re [symmetric] by (simp_all add: track_reresume_def Let_def)
  have last: "case previous_same_app inp (Suc n) (int c) of
            None \<Rightarrow> last_event_ns ?T ! c = None
          | Some k \<Rightarrow> last_event_ns ?T ! c = Some (timestamp_ns inp ! k)
              \<and> last_was_same_stop ?T ! c = same_stop inp ! k"
    if c: "c < length (last_event_ns t)" for c
  proof (cases "c = ?slot")
    case True
    with slot inv show ?thesis by (simp add: T previous_same_app_Suc track_inv_def)
  next
    case False
    then have "app_codes inp ! n \<noteq> int c" using slot(2) by auto
    with False inv c show ?thesis
      by (auto simp: T previous_same_app_Suc track_inv_def split: option.splits)
  qed
  have flag: "is_reresume ?T ! j = reresumed inp native_resumed proximity_ns j"
    if "j < Suc n" "eligible ! j" for j
    using that inv n by (cases "j = n") (auto simp: T track_inv_def)
  show ?thesis
    unfolding track_inv_def using inv n last flag by (auto simp: T track_inv_def)
qed

section \<open>Both matchers follow the specification\<close>

text \<open>The start a fallback stop may not close: a re-resume inside the grace window.\<close>

definition held_open ::
    "match_input \<Rightarrow> match_options \<Rightarrow> bool list \<Rightarrow> int \<Rightarrow> nat \<Rightarrow> nat \<Rightarrow> bool" where
  "held_open inp opts native_resumed proximity_ns i j \<longleftrightarrow>
     sparse_stop_mode_of inp opts i = Some FallbackSameApp
     \<and> reresumed inp native_resumed proximity_ns j
     \<and> timestamp_ns inp ! i - timestamp_ns inp ! j < proximity_ns"

text \<open>The reference search is the backward search for a compatible start, unless that one is held.\<close>

lemma legacy_search_Cons:
  "legacy_search inp opts proximity_ns reres i opens (p # ps) =
     (if \<not> is_compatible_open_start_for_stop inp opts i (opens ! p)
      then legacy_search inp opts proximity_ns reres i opens ps
      else if sparse_stop_mode_of inp opts i = Some FallbackSameApp \<and> reres ! (opens ! p)
          \<and> timestamp_ns inp ! i - timestamp_ns inp ! (opens ! p) < proximity_ns
      then None else Some p)"
  by (auto simp: is_compatible_open_start_for_stop_def sparse_stop_mode_of_def Let_def)

lemma legacy_search_find:
  assumes "\<forall>p \<in> set ps. reres ! (opens ! p) = reresumed inp native_resumed proximity_ns (opens ! p)"
  shows "legacy_search inp opts proximity_ns reres i opens ps =
     (case find (\<lambda>p. is_compatible_open_start_for_stop inp opts i (opens ! p)) ps of
        None \<Rightarrow> None
      | Some p \<Rightarrow>
          if held_open inp opts native_resumed proximity_ns i (opens ! p) then None else Some p)"
  using assms
proof (induction ps)
  case Nil
  show ?case by simp
next
  case (Cons p ps)
  let ?IH = "legacy_search inp opts proximity_ns reres i opens ps"
  have IH: "?IH = (case find (\<lambda>p. is_compatible_open_start_for_stop inp opts i (opens ! p)) ps of
        None \<Rightarrow> None
      | Some p \<Rightarrow>
          if held_open inp opts native_resumed proximity_ns i (opens ! p) then None else Some p)"
    using Cons by simp
  have reres: "reres ! (opens ! p) = reresumed inp native_resumed proximity_ns (opens ! p)"
    using Cons.prems by simp
  show ?case
    using IH by (simp add: legacy_search_Cons held_open_def reres del: legacy_search.simps)
qed

abbreviation legacy_run ::
    "match_input \<Rightarrow> bool list \<Rightarrow> bool list \<Rightarrow> match_options \<Rightarrow> int \<Rightarrow> nat \<Rightarrow> legacy_state" where
  "legacy_run inp eligible native_resumed opts proximity_ns n \<equiv>
     fold (legacy_step inp eligible native_resumed opts proximity_ns) [0..<n]
       \<lparr>lg_open = [], lg_starts = [], lg_stop_starts = [], lg_stop_events = [], lg_reasons = [],
        lg_track = reresume_init (nat (max_or_zero (app_codes inp)) + 1)
          (length (app_codes inp))\<rparr>"

definition legacy_rel ::
    "match_input \<Rightarrow> bool list \<Rightarrow> bool list \<Rightarrow> match_options \<Rightarrow> int \<Rightarrow> nat \<Rightarrow> legacy_state \<Rightarrow> bool" where
  "legacy_rel inp eligible native_resumed opts proximity_ns n st \<longleftrightarrow>
     (\<exists>closed.
        fused_run inp opts eligible (held_open inp opts native_resumed proximity_ns) n
          = (lg_open st, closed)
        \<and> lg_starts st = filter (\<lambda>i. eligible ! i) [0..<n]
        \<and> log_of inp (lg_stop_starts st) (lg_stop_events st) (lg_reasons st) closed
        \<and> track_inv inp eligible native_resumed proximity_ns n (lg_track st))"

lemma fold_push_triples:
  "fold (\<lambda>j (ss, es, rs). (ss @ [j], es @ [i], rs @ [f j])) cs (ss, es, rs)
   = (ss @ cs, es @ replicate (length cs) i, rs @ map f cs)"
  by (induction cs arbitrary: ss es rs) (auto simp: replicate_app_Cons_same)

text \<open>One iteration of the reference matcher, in the specification's terms.\<close>

lemma legacy_step_spec:
  fixes n :: nat and opts :: match_options
  assumes dist: "distinct (lg_open st)"
    and reres: "\<forall>j \<in> set (lg_open st).
        is_reresume (lg_track st) ! j = reresumed inp native_resumed proximity_ns j"
  defines "cs \<equiv> fused_closes inp opts (held_open inp opts native_resumed proximity_ns n)
      (lg_open st) n"
  shows "legacy_step inp eligible native_resumed opts proximity_ns n st =
     \<lparr>lg_open = filter (\<lambda>j. j \<notin> set cs) (lg_open st) @ (if eligible ! n then [n] else []),
      lg_starts = lg_starts st @ (if eligible ! n then [n] else []),
      lg_stop_starts = lg_stop_starts st @ cs,
      lg_stop_events = lg_stop_events st @ replicate (length cs) n,
      lg_reasons = lg_reasons st @ map (legacy_close_reason inp n) cs,
      lg_track = track_reresume inp eligible native_resumed proximity_ns n (lg_track st)\<rparr>"
proof -
  let ?c = "is_compatible_open_start_for_stop inp opts n"
  let ?ps = "rev [0..<length (lg_open st)]"
  let ?search = "legacy_search inp opts proximity_ns (is_reresume (lg_track st)) n (lg_open st) ?ps"
  have search: "?search = (case find (\<lambda>p. ?c (lg_open st ! p)) ?ps of
        None \<Rightarrow> None
      | Some p \<Rightarrow> if held_open inp opts native_resumed proximity_ns n (lg_open st ! p)
          then None else Some p)"
    using reres by (intro legacy_search_find) auto
  have reuse: "filter (\<lambda>j. \<not> ?c j) (lg_open st) = filter (\<lambda>j. j \<notin> set cs) (lg_open st)"
    "filter ?c (lg_open st) = cs" if "allow_stop_event_reuse opts"
    using that by (auto simp: cs_def fused_closes_def intro!: filter_cong)
  have none: "cs = []" if "\<not> allow_stop_event_reuse opts" "?search = None"
    using that find_rev_position_Some [of ?c "lg_open st"] find_rev_position [of ?c "lg_open st"]
    unfolding search cs_def
    by (auto simp: fused_closes_def find_None_iff split: option.splits if_splits
        dest!: find_SomeD)
  have some: "cs = [lg_open st ! p]"
    "vec_remove (lg_open st) p = filter (\<lambda>j. j \<noteq> lg_open st ! p) (lg_open st)"
    if nr: "\<not> allow_stop_event_reuse opts" and p: "?search = Some p" for p
  proof -
    from p have f: "find (\<lambda>p. ?c (lg_open st ! p)) ?ps = Some p"
      and h: "\<not> held_open inp opts native_resumed proximity_ns n (lg_open st ! p)"
      unfolding search by (auto split: option.splits if_splits)
    with find_rev_position_Some [OF f] nr dist show "cs = [lg_open st ! p]"
      "vec_remove (lg_open st) p = filter (\<lambda>j. j \<noteq> lg_open st ! p) (lg_open st)"
      by (auto simp: cs_def fused_closes_def vec_remove_filter)
  qed
  have no_mode: "cs = []" if "sparse_stop_mode_of inp opts n = None"
    unfolding cs_def using that by (rule fused_closes_no_mode)
  consider (a) "sparse_stop_mode_of inp opts n \<noteq> None" "allow_stop_event_reuse opts"
    | (b) "sparse_stop_mode_of inp opts n \<noteq> None" "\<not> allow_stop_event_reuse opts"
        "?search = None"
    | (c) p where "sparse_stop_mode_of inp opts n \<noteq> None" "\<not> allow_stop_event_reuse opts"
        "?search = Some p"
    | (d) "sparse_stop_mode_of inp opts n = None"
    by blast
  then show ?thesis
  proof cases
    case a
    with reuse show ?thesis
      by (auto simp: legacy_step_def Let_def close_reused_starts_filter no_mode_iff
          fold_push_triples)
  next
    case b
    with none show ?thesis by (auto simp: legacy_step_def Let_def no_mode_iff)
  next
    case c
    with some show ?thesis by (auto simp: legacy_step_def Let_def no_mode_iff)
  next
    case d
    with no_mode show ?thesis by (auto simp: legacy_step_def Let_def no_mode_iff)
  qed
qed

text \<open>The output both matchers give.\<close>

definition fused_report ::
    "match_input \<Rightarrow> match_options \<Rightarrow> bool list \<Rightarrow> (nat \<Rightarrow> nat \<Rightarrow> bool) \<Rightarrow> match_update_indices" where
  "fused_report inp opts eligible held =
     (case fused_run inp opts eligible held (length (app_codes inp)) of (opens, closed) \<Rightarrow>
        let ends = map (\<lambda>j. (j, length (app_codes inp) - 1)) (filter (closes_at_end inp opts) opens);
            missing = filter (\<lambda>j. \<not> closes_at_end inp opts j) opens
        in \<lparr>start_indices = openers_of inp eligible,
            stop_start_indices = map fst (closed @ ends),
            stop_event_indices = map snd (closed @ ends),
            missing_indices = missing,
            stop_reasons = map (reason_of inp) closed @ replicate (length ends) EndOfStream,
            missing_reasons = replicate (length missing) Unobserved,
            stop_timestamps_ns = replicate (length (closed @ ends)) None\<rparr>)"

lemma fused_report_log:
  "\<exists>log ends. reports_log inp eligible log ends (fused_missing inp opts eligible held)
       (fused_report inp opts eligible held)
     \<and> log @ ends = fused_closed inp opts eligible held"
proof -
  obtain opens closed where
    "fused_run inp opts eligible held (length (app_codes inp)) = (opens, closed)"
    by (cases "fused_run inp opts eligible held (length (app_codes inp))")
  then show ?thesis
    by (intro exI [of _ closed]
        exI [of _ "map (\<lambda>j. (j, length (app_codes inp) - 1)) (filter (closes_at_end inp opts) opens)"])
      (simp add: reports_log_def fused_report_def fused_closed_def fused_missing_def Let_def)
qed

lemma fused_report_well_reported:
  "well_reported (openers_of inp eligible) (fused_report inp opts eligible held)"
proof -
  obtain log ends where "reports_log inp eligible log ends (fused_missing inp opts eligible held)
      (fused_report inp opts eligible held)" "log @ ends = fused_closed inp opts eligible held"
    using fused_report_log by blast
  then show ?thesis
    using fused_partition [of inp opts eligible held] by (metis reports_log_well_reported)
qed

lemma legacy_step_rel:
  assumes n: "n < length (app_codes inp)"
    and rel: "legacy_rel inp eligible native_resumed opts proximity_ns n st"
  shows "legacy_rel inp eligible native_resumed opts proximity_ns (Suc n)
    (legacy_step inp eligible native_resumed opts proximity_ns n st)"
proof -
  let ?held = "held_open inp opts native_resumed proximity_ns"
  obtain closed where R:
    "fused_run inp opts eligible ?held n = (lg_open st, closed)"
    "lg_starts st = filter (\<lambda>i. eligible ! i) [0..<n]"
    "log_of inp (lg_stop_starts st) (lg_stop_events st) (lg_reasons st) closed"
    "track_inv inp eligible native_resumed proximity_ns n (lg_track st)"
    using rel by (auto simp: legacy_rel_def)
  have inv: "fused_inv inp opts eligible n (lg_open st, closed)"
    using fused_run_inv [of inp opts eligible n ?held] by (simp add: R(1))
  then have dist: "distinct (lg_open st)" using strict_sorted_iff by (auto simp: fused_inv_def)
  have reres: "\<forall>j \<in> set (lg_open st).
      is_reresume (lg_track st) ! j = reresumed inp native_resumed proximity_ns j"
    using R(4) inv by (auto simp: track_inv_def fused_inv_def)
  note step = legacy_step_spec [OF dist reres, of eligible opts n]
  let ?cs = "fused_closes inp opts (?held n) (lg_open st) n"
  have "log_of inp (lg_stop_starts st @ ?cs) (lg_stop_events st @ replicate (length ?cs) n)
      (lg_reasons st @ map (legacy_close_reason inp n) ?cs) (closed @ map (\<lambda>j. (j, n)) ?cs)"
    using R(3) by (auto simp: log_of_def comp_def map_replicate_const)
  then show ?thesis
    unfolding legacy_rel_def step
    using R track_reresume_inv [OF R(4) n]
    by (simp add: fused_run_Suc fused_step_def Let_def)
qed

lemma finish_fold_report:
  "fold (\<lambda>j (ss, es, rs, ms, mrs).
           if c j then (ss @ [j], es @ [l], rs @ [EndOfStream], ms, mrs)
           else (ss, es, rs, ms @ [j], mrs @ [Unobserved])) js (ss, es, rs, ms, mrs)
   = (ss @ filter c js, es @ replicate (length (filter c js)) l,
      rs @ replicate (length (filter c js)) EndOfStream,
      ms @ filter (\<lambda>j. \<not> c j) js, mrs @ replicate (length (filter (\<lambda>j. \<not> c j) js)) Unobserved)"
  by (induction js arbitrary: ss es rs ms mrs) (auto simp: replicate_app_Cons_same)

lemma closes_at_end_eq:
  "closes_at_end inp opts =
     (\<lambda>j. j < length (app_codes inp) - 1 \<and> duration_ok inp opts True (length (app_codes inp) - 1) j)"
  by (auto simp: closes_at_end_def fun_eq_iff Let_def)

lemma match_legacy_spec:
  assumes nonneg: "\<forall>c \<in> set (app_codes inp). 0 \<le> c"
  shows "match_legacy_app_usage_update_indices_with_proximity inp eligible native_resumed opts
      proximity_ns
    = Inr (fused_report inp opts eligible (held_open inp opts native_resumed proximity_ns))"
proof -
  let ?n = "length (app_codes inp)"
  let ?held = "held_open inp opts native_resumed proximity_ns"
  let ?st = "legacy_run inp eligible native_resumed opts proximity_ns ?n"
  have "legacy_rel inp eligible native_resumed opts proximity_ns ?n ?st"
  proof (rule fold_upt_invariant)
    show "legacy_rel inp eligible native_resumed opts proximity_ns 0
        \<lparr>lg_open = [], lg_starts = [], lg_stop_starts = [], lg_stop_events = [], lg_reasons = [],
         lg_track = reresume_init (nat (max_or_zero (app_codes inp)) + 1) ?n\<rparr>"
      unfolding legacy_rel_def
      using track_inv_init [OF nonneg] log_of_Nil by (intro exI [of _ "[]"]) simp
  qed (rule legacy_step_rel)
  then obtain closed where R:
    "fused_run inp opts eligible ?held ?n = (lg_open ?st, closed)"
    "lg_starts ?st = openers_of inp eligible"
    "log_of inp (lg_stop_starts ?st) (lg_stop_events ?st) (lg_reasons ?st) closed"
    by (auto simp: legacy_rel_def)
  have "legacy_finish inp opts ?n ?st = fused_report inp opts eligible ?held"
  proof (cases "0 < ?n")
    case True
    then show ?thesis
      unfolding legacy_finish_def fused_report_def R(1) closes_at_end_eq
      using R(2,3)
      by (simp add: Let_def finish_fold_report log_of_def comp_def map_replicate_const)
  next
    case False
    then show ?thesis
      unfolding legacy_finish_def fused_report_def R(1)
      using R(2,3) by (simp add: Let_def log_of_def reresume_init_def)
  qed
  then show ?thesis
    using nonneg
    by (auto simp: match_legacy_app_usage_update_indices_with_proximity_def Let_def not_le)
qed

section \<open>The optimised matcher computes the same report\<close>

definition sorted_rel ::
    "match_input \<Rightarrow> bool list \<Rightarrow> bool list \<Rightarrow> match_options \<Rightarrow> int \<Rightarrow> nat \<Rightarrow> sorted_state \<Rightarrow> bool" where
  "sorted_rel inp eligible native_resumed opts proximity_ns n st \<longleftrightarrow>
     (\<exists>opens closed.
        fused_run inp opts eligible (held_open inp opts native_resumed proximity_ns) n
          = (opens, closed)
        \<and> sparse_repr (app_codes inp) (so_pool st) opens n
        \<and> so_starts st = filter (\<lambda>i. eligible ! i) [0..<n]
        \<and> log_of inp (so_stop_starts st) (so_stop_events st) (so_reasons st) closed
        \<and> track_inv inp eligible native_resumed proximity_ns n (so_track st))"

lemma fold_push_one: "fold (\<lambda>j closed. closed @ [j]) cs acc = acc @ cs"
  by (induction cs arbitrary: acc) auto

lemma sorted_stop_repr:
  fixes i :: nat and opts :: match_options
  assumes ord: "ordered_input inp" and i: "i < length (app_codes inp)"
    and r: "sparse_repr (app_codes inp) (so_pool st) opens i"
    and mode: "sparse_stop_mode_of inp opts i = Some mode"
    and log: "log_of inp (so_stop_starts st) (so_stop_events st) (so_reasons st) log"
    and reres: "\<forall>j \<in> set opens.
        is_reresume (so_track st) ! j = reresumed inp native_resumed proximity_ns j"
  defines "cs \<equiv> fused_closes inp opts (held_open inp opts native_resumed proximity_ns i) opens i"
  shows "\<exists>st'. sorted_stop inp opts proximity_ns mode i st = Some st'
    \<and> sparse_repr (app_codes inp) (so_pool st') (filter (\<lambda>j. j \<notin> set cs) opens) i
    \<and> so_starts st' = so_starts st \<and> so_track st' = so_track st
    \<and> log_of inp (so_stop_starts st') (so_stop_events st') (so_reasons st')
        (log @ map (\<lambda>j. (j, i)) cs)"
proof (cases "allow_stop_event_reuse opts")
  case True
  let ?c = "is_compatible_open_start_for_stop inp opts i"
  obtain pool' where pool':
    "sparse_reuse_closes inp opts mode i (\<lambda>j closed. closed @ [j]) (so_pool st) []
     = Some (pool', fold (\<lambda>j closed. closed @ [j]) (filter ?c (rev opens)) [])"
    "sparse_repr (app_codes inp) pool' (filter (\<lambda>j. \<not> ?c j) opens) i"
    using sparse_reuse_closes_repr [OF ord i r mode, of "\<lambda>j closed. closed @ [j]" "[]"]
    by (elim exE conjE)
  have cs: "cs = filter ?c opens"
    using True by (simp add: cs_def fused_closes_def)
  have rest: "filter (\<lambda>j. j \<in> set opens \<longrightarrow> \<not> ?c j) opens = filter (\<lambda>j. \<not> ?c j) opens"
    by (rule filter_cong) auto
  let ?st' = "st\<lparr>so_pool := pool', so_stop_starts := so_stop_starts st @ cs,
      so_stop_events := so_stop_events st @ replicate (length cs) i,
      so_reasons := classify_new_closes inp i (so_reasons st) (so_stop_starts st @ cs)\<rparr>"
  have "rev (filter ?c (rev opens)) = cs" "length (filter ?c opens) = length cs"
    by (simp_all add: cs rev_filter [symmetric])
  with True pool'(1) have "sorted_stop inp opts proximity_ns mode i st = Some ?st'"
    by (simp add: sorted_stop_def fold_push_one fold_push_pairs)
  then show ?thesis
    using log_of_append [OF log, of cs i] pool'(2)
    by (intro exI [of _ ?st'] conjI) (simp_all add: cs rest)
next
  case False
  let ?find = "find (is_compatible_open_start_for_stop inp opts i) (rev opens)"
  let ?held = "held_open inp opts native_resumed proximity_ns i"
  obtain pool' where pool':
    "sparse_matched_start inp opts mode i (so_pool st) = Some (?find, pool')"
    "sparse_repr (app_codes inp) pool' opens i"
    using sparse_matched_start_repr [OF ord i r mode] by blast
  let ?matched = "case ?find of None \<Rightarrow> None | Some j \<Rightarrow> if ?held j then None else Some j"
  have matched: "(case mode of
                       FallbackSameApp \<Rightarrow>
                         (case ?find of
                            None \<Rightarrow> None
                          | Some start_index \<Rightarrow>
                              if \<not> (is_reresume (so_track st) ! start_index
                                    \<and> timestamp_ns inp ! i - timestamp_ns inp ! start_index
                                        < proximity_ns)
                              then Some start_index else None)
                     | _ \<Rightarrow> ?find) = ?matched"
    using mode reres
    by (auto simp: held_open_def split: sparse_stop_mode.split option.split dest!: find_SomeD)
  show ?thesis
  proof (cases ?matched)
    case None
    let ?st' = "st\<lparr>so_pool := pool',
        so_reasons := classify_new_closes inp i (so_reasons st) (so_stop_starts st)\<rparr>"
    have "cs = []"
      using None False by (auto simp: cs_def fused_closes_def split: option.splits if_splits)
    moreover have "sorted_stop inp opts proximity_ns mode i st = Some ?st'"
      using pool'(1) False None by (simp add: sorted_stop_def matched)
    ultimately show ?thesis
      using log_of_append [OF log, of "[]" i] pool'(2)
      by (intro exI [of _ ?st'] conjI) simp_all
  next
    case (Some j)
    then have find: "?find = Some j" and held: "\<not> ?held j"
      by (auto split: option.splits if_splits)
    let ?st' = "st\<lparr>so_pool := sparse_close j pool', so_stop_starts := so_stop_starts st @ [j],
        so_stop_events := so_stop_events st @ [i],
        so_reasons := classify_new_closes inp i (so_reasons st) (so_stop_starts st @ [j])\<rparr>"
    have cs: "cs = [j]"
      using find held False by (simp add: cs_def fused_closes_def)
    have j: "j \<in> set opens" using find_SomeD [OF find] by simp
    have "distinct opens" using r strict_sorted_iff by (auto simp: sparse_repr_def)
    then have "remove1 j opens = filter (\<lambda>i. i \<noteq> j) opens"
      by (simp add: distinct_remove1_removeAll removeAll_filter_not_eq eq_commute)
    moreover have "sorted_stop inp opts proximity_ns mode i st = Some ?st'"
      using pool'(1) False Some by (simp add: sorted_stop_def matched)
    ultimately show ?thesis
      using log_of_append [OF log, of "[j]" i] sparse_close_repr [OF pool'(2) j]
      by (intro exI [of _ ?st'] conjI) (simp_all add: cs)
  qed
qed

lemma sorted_step_rel:
  assumes ord: "ordered_input inp" and i: "i < length (app_codes inp)"
    and rel: "sorted_rel inp eligible native_resumed opts proximity_ns i st"
  shows "\<exists>st'. sorted_step inp eligible native_resumed opts proximity_ns i st = Some st'
    \<and> sorted_rel inp eligible native_resumed opts proximity_ns (Suc i) st'"
proof -
  let ?held = "held_open inp opts native_resumed proximity_ns"
  obtain opens closed where R:
    "fused_run inp opts eligible ?held i = (opens, closed)"
    "sparse_repr (app_codes inp) (so_pool st) opens i"
    "so_starts st = filter (\<lambda>i. eligible ! i) [0..<i]"
    "log_of inp (so_stop_starts st) (so_stop_events st) (so_reasons st) closed"
    "track_inv inp eligible native_resumed proximity_ns i (so_track st)"
    using rel by (auto simp: sorted_rel_def)
  have inv: "fused_inv inp opts eligible i (opens, closed)"
    using fused_run_inv [of inp opts eligible i ?held] by (simp add: R(1))
  have reres: "\<forall>j \<in> set opens.
      is_reresume (so_track st) ! j = reresumed inp native_resumed proximity_ns j"
    using R(5) inv by (auto simp: track_inv_def fused_inv_def)
  let ?cs = "fused_closes inp opts (?held i) opens i"
  let ?opens = "filter (\<lambda>j. j \<notin> set ?cs) opens"
  obtain st1 where st1:
    "(case sparse_stop_mode_of inp opts i of None \<Rightarrow> Some st
      | Some stop_mode \<Rightarrow> sorted_stop inp opts proximity_ns stop_mode i st) = Some st1"
    "sparse_repr (app_codes inp) (so_pool st1) ?opens i"
    "so_starts st1 = so_starts st" "so_track st1 = so_track st"
    "log_of inp (so_stop_starts st1) (so_stop_events st1) (so_reasons st1)
       (closed @ map (\<lambda>j. (j, i)) ?cs)"
  proof (cases "sparse_stop_mode_of inp opts i")
    case None
    then have "?cs = []" by (rule fused_closes_no_mode)
    with None R that [of st] show ?thesis by simp
  next
    case (Some mode)
    with sorted_stop_repr [OF ord i R(2) Some R(4) reres] that show ?thesis by auto
  qed
  show ?thesis
    using st1 R(1,3) sparse_open_repr [OF st1(2) i] sparse_skip_repr [OF st1(2) i]
      track_reresume_inv [OF R(5) i]
    by (auto simp: sorted_step_def sorted_rel_def Let_def fused_run_Suc fused_step_def)
qed

lemma finish_fold_buffers:
  "fold (\<lambda>j. if c j then (\<lambda>(ss, ms). (ss @ [(j, l)], ms)) else (\<lambda>(ss, ms). (ss, ms @ [j])))
     js (ss, ms)
   = (ss @ map (\<lambda>j. (j, l)) (filter c js), ms @ filter (\<lambda>j. \<not> c j) js)"
  by (induction js arbitrary: ss ms) auto

lemma fold_push_log:
  "fold (\<lambda>(j, e) (ss, es). (ss @ [j], es @ [e])) log (ss, es)
   = (ss @ map fst log, es @ map snd log)"
  by (induction log arbitrary: ss es) auto

lemma match_sorted_spec:
  assumes ord: "ordered_input inp"
  shows "match_sorted_app_usage_update_indices_with_proximity inp eligible native_resumed opts
      proximity_ns
    = Inr (fused_report inp opts eligible (held_open inp opts native_resumed proximity_ns))"
proof -
  let ?n = "length (app_codes inp)"
  let ?held = "held_open inp opts native_resumed proximity_ns"
  have nonneg: "\<forall>c \<in> set (app_codes inp). 0 \<le> c" and len: "?n \<le> 2 ^ 31"
    using ord by (auto simp: ordered_input_def)
  have max: "0 \<le> max_or_zero (app_codes inp)"
    using nonneg max_or_zero_ge [of _ "app_codes inp"]
    by (cases "app_codes inp") (fastforce simp: max_or_zero_def)+
  obtain pool where pool: "sparse_new ?n (app_codes inp) = Inr pool"
    using sparse_new_Inr_iff nonneg by blast
  have slots: "nat (max_or_zero (app_codes inp) + 1) = nat (max_or_zero (app_codes inp)) + 1"
    using max by (simp add: nat_add_distrib)
  let ?init = "\<lparr>so_pool = pool, so_starts = [], so_stop_starts = [], so_stop_events = [],
      so_reasons = [], so_track = reresume_init (nat (max_or_zero (app_codes inp)) + 1) ?n\<rparr>"
  have "sorted_rel inp eligible native_resumed opts proximity_ns 0 ?init"
    unfolding sorted_rel_def
    using sparse_new_repr [OF pool len] log_of_Nil track_inv_init [OF nonneg] by simp
  then obtain st where st:
    "fold_opt (sorted_step inp eligible native_resumed opts proximity_ns) [0..<?n] ?init = Some st"
    "sorted_rel inp eligible native_resumed opts proximity_ns ?n st"
    using fold_opt_upt_invariant [of "sorted_rel inp eligible native_resumed opts proximity_ns"
        ?init ?n "sorted_step inp eligible native_resumed opts proximity_ns"]
      sorted_step_rel [OF ord] by blast
  obtain opens closed where R:
    "fused_run inp opts eligible ?held ?n = (opens, closed)"
    "sparse_repr (app_codes inp) (so_pool st) opens ?n"
    "so_starts st = openers_of inp eligible"
    "log_of inp (so_stop_starts st) (so_stop_events st) (so_reasons st) closed"
    using st(2) by (auto simp: sorted_rel_def)
  let ?c = "closes_at_end inp opts"
  have "sorted_finish inp opts ?n st = Some (fused_report inp opts eligible ?held)"
  proof (cases "0 < ?n")
    case True
    obtain pool' where "finish_open_starts (?n - 1) (duration_ok inp opts True (?n - 1))
        (\<lambda>j e (ss, ms). (ss @ [(j, e)], ms)) (\<lambda>j (ss, ms). (ss, ms @ [j])) (so_pool st) ([], [])
      = Some (pool', fold (\<lambda>j. if ?c j then (\<lambda>(ss, ms). (ss @ [(j, ?n - 1)], ms))
             else (\<lambda>(ss, ms). (ss, ms @ [j]))) (rev opens) ([], []))"
      unfolding closes_at_end_eq
      using finish_open_starts_repr [OF R(2), of "?n - 1" "duration_ok inp opts True (?n - 1)"
          "\<lambda>j e (ss, ms). (ss @ [(j, e)], ms)" "\<lambda>j (ss, ms). (ss, ms @ [j])" "([], [])"]
      by (elim exE)
    with True R(3,4) show ?thesis
      by (simp add: sorted_finish_def fused_report_def R(1) finish_fold_buffers fold_push_log
          log_of_def vec_resize_def comp_def map_replicate_const rev_map rev_filter Let_def)
  next
    case False
    then have "opens = []" "closed = []" using R(1) by simp_all
    with False R(1,3,4) show ?thesis
      by (simp add: sorted_finish_def log_of_def fused_report_def Let_def)
  qed
  with st(1) pool max slots show ?thesis
    by (simp add: match_sorted_app_usage_update_indices_with_proximity_def Let_def
        alloc_app_slots_def)
qed

end
