(* ===== verification/Gesis.thy ===== *)
theory Gesis
  imports Fused_Spec
begin

text \<open>
  The GESIS episode rule (\<open>match_app_usage_gesis_with_openers_indices_core\<close>): every eligible start
  gets an end, chosen in three tiers. The stop-candidate table is built backward with a map from app
  code to the next pool row; the rule itself is one loop over the rows. The only arithmetic is
  saturating \<open>i64\<close> arithmetic.
\<close>

section \<open>The rule\<close>

record gesis_input =
  gs_codes :: "int list"
  gs_timestamp_ns :: "int list"
  gs_eligible :: "bool list"
  gs_classified_start :: "bool list"
  gs_is_stop :: "bool list"
  gs_matchable :: "bool list"
  gs_pseudo :: "bool list"

definition gesis_aligned :: "gesis_input \<Rightarrow> bool" where
  "gesis_aligned inp \<longleftrightarrow>
     (let len = length (gs_codes inp) in
      \<not> (length (gs_timestamp_ns inp) \<noteq> len \<or> length (gs_eligible inp) \<noteq> len
         \<or> length (gs_classified_start inp) \<noteq> len \<or> length (gs_is_stop inp) \<noteq> len
         \<or> length (gs_matchable inp) \<noteq> len \<or> length (gs_pseudo inp) \<noteq> len))"

text \<open>One iteration of the backward pass that marks the stop candidates.\<close>

definition gesis_candidate_step ::
    "gesis_input \<Rightarrow> nat \<Rightarrow> bool list \<times> (int \<rightharpoonup> nat) \<Rightarrow> bool list \<times> (int \<rightharpoonup> nat)" where
  "gesis_candidate_step inp index = (\<lambda>(is_stop_candidate, next_pool_row).
     if \<not> gs_matchable inp ! index
        \<or> \<not> gs_classified_start inp ! index \<and> \<not> gs_is_stop inp ! index
     then (is_stop_candidate, next_pool_row)
     else
       (let followed_by_stop =
              (case next_pool_row (gs_codes inp ! index) of
                 None \<Rightarrow> False
               | Some next_row \<Rightarrow> gs_is_stop inp ! next_row)
        in (is_stop_candidate[index := \<not> followed_by_stop],
            next_pool_row(gs_codes inp ! index \<mapsto> index))))"

definition gesis_candidates :: "gesis_input \<Rightarrow> bool list" where
  "gesis_candidates inp =
     (let len = length (gs_codes inp) in
      fst (fold (gesis_candidate_step inp) (rev [0..<len]) (replicate len False, Map.empty)))"

text \<open>The end of one episode: the closing row if there is one, an explicit end if not, the tier.\<close>

definition gesis_end ::
    "gesis_input \<Rightarrow> bool list \<Rightarrow> int \<Rightarrow> nat \<Rightarrow> nat
      \<Rightarrow> nat option \<times> int option \<times> episode_close_reason" where
  "gesis_end inp is_stop_candidate max_timeout_ns event_threshold index =
     (let len = length (gs_codes inp);
          package = gs_codes inp ! index;
          start_ns = gs_timestamp_ns inp ! index;
          candidate =
            find (\<lambda>probe. is_stop_candidate ! probe \<and> gs_codes inp ! probe = package)
              [index + 1..<len];
          events_between = map_option (\<lambda>stop. stop - index - 1) candidate;
          next_global = index + 1;
          next_global_within_timeout =
            next_global < len
            \<and> i64_saturating_sub (gs_timestamp_ns inp ! next_global) start_ns \<le> max_timeout_ns;
          fallback =
            (if next_global_within_timeout then (Some next_global, None, GesisNextGlobalEvent)
             else (None, Some (i64_saturating_add start_ns max_timeout_ns), GesisTimeout))
      in case (candidate, events_between) of
           (Some stop, Some between) \<Rightarrow>
             if between \<le> event_threshold then (Some stop, None, GesisOriginalStop) else fallback
         | _ \<Rightarrow> fallback)"

definition gesis_step ::
    "gesis_input \<Rightarrow> bool list \<Rightarrow> int \<Rightarrow> nat \<Rightarrow> nat \<Rightarrow> match_update_indices \<Rightarrow> match_update_indices" where
  "gesis_step inp is_stop_candidate max_timeout_ns event_threshold index out =
     (if \<not> gs_eligible inp ! index \<or> gs_pseudo inp ! index then out
      else
        (case gesis_end inp is_stop_candidate max_timeout_ns event_threshold index of
           (stop_index, stop_ns, reason) \<Rightarrow>
             out\<lparr>start_indices := start_indices out @ [index],
               stop_start_indices := stop_start_indices out @ [index],
               stop_event_indices := stop_event_indices out @
                 [case stop_index of None \<Rightarrow> index | Some stop \<Rightarrow> stop],
               stop_timestamps_ns := stop_timestamps_ns out @ [stop_ns],
               stop_reasons := stop_reasons out @ [reason]\<rparr>))"

definition empty_update :: match_update_indices where
  "empty_update =
     \<lparr>start_indices = [], stop_start_indices = [], stop_event_indices = [], missing_indices = [],
      stop_reasons = [], missing_reasons = [], stop_timestamps_ns = []\<rparr>"

definition match_app_usage_gesis_with_openers_indices_core ::
    "gesis_input \<Rightarrow> int \<Rightarrow> nat \<Rightarrow> match_update_indices matcher_result" where
  "match_app_usage_gesis_with_openers_indices_core inp max_timeout_ns event_threshold =
     (if \<not> gesis_aligned inp then Inl length_error
      else Inr (fold
        (gesis_step inp (gesis_candidates inp) max_timeout_ns event_threshold)
        [0..<length (gs_codes inp)] empty_update))"

definition match_app_usage_gesis_indices_core ::
    "gesis_input \<Rightarrow> int \<Rightarrow> nat \<Rightarrow> match_update_indices matcher_result" where
  "match_app_usage_gesis_indices_core inp max_timeout_ns event_threshold =
     match_app_usage_gesis_with_openers_indices_core
       (inp\<lparr>gs_eligible := gs_classified_start inp\<rparr>) max_timeout_ns event_threshold"

section \<open>The stop-candidate table\<close>

text \<open>
  The rows of the pool, and the rows of the reference's stop table: a pool row stays unless the
  next pool row of the same app is a stop.
\<close>

definition gesis_pool_row :: "gesis_input \<Rightarrow> nat \<Rightarrow> bool" where
  "gesis_pool_row inp k \<longleftrightarrow>
     gs_matchable inp ! k \<and> (gs_classified_start inp ! k \<or> gs_is_stop inp ! k)"

definition gesis_next_pool_row :: "gesis_input \<Rightarrow> nat \<Rightarrow> int \<Rightarrow> nat option" where
  "gesis_next_pool_row inp k code =
     find (\<lambda>m. gesis_pool_row inp m \<and> gs_codes inp ! m = code) [k..<length (gs_codes inp)]"

definition gesis_stop_row :: "gesis_input \<Rightarrow> nat \<Rightarrow> bool" where
  "gesis_stop_row inp k \<longleftrightarrow>
     gesis_pool_row inp k
     \<and> (case gesis_next_pool_row inp (Suc k) (gs_codes inp ! k) of
          None \<Rightarrow> True
        | Some m \<Rightarrow> \<not> gs_is_stop inp ! m)"

lemma gesis_next_pool_row_step:
  "k < length (gs_codes inp) \<Longrightarrow>
     gesis_next_pool_row inp k code =
       (if gesis_pool_row inp k \<and> gs_codes inp ! k = code then Some k
        else gesis_next_pool_row inp (Suc k) code)"
  by (simp add: gesis_next_pool_row_def upt_conv_Cons)

text \<open>The backward pass after the rows from \<open>k\<close> on.\<close>

lemma gesis_candidate_pass:
  assumes "k \<le> length (gs_codes inp)"
  shows "fold (gesis_candidate_step inp) (rev [k..<length (gs_codes inp)])
      (replicate (length (gs_codes inp)) False, Map.empty)
    = (map (\<lambda>i. k \<le> i \<and> gesis_stop_row inp i) [0..<length (gs_codes inp)],
       gesis_next_pool_row inp k)"
  using assms
proof (induction rule: inc_induct)
  case base
  show ?case by (auto simp: gesis_next_pool_row_def fun_eq_iff intro!: nth_equalityI)
next
  case (step k)
  let ?n = "length (gs_codes inp)"
  have upt: "rev [k..<?n] = rev [Suc k..<?n] @ [k]" using step.hyps by (simp add: upt_conv_Cons)
  have fst_keep: "map (\<lambda>i. Suc k \<le> i \<and> gesis_stop_row inp i) [0..<?n]
      = map (\<lambda>i. k \<le> i \<and> gesis_stop_row inp i) [0..<?n]" if "\<not> gesis_stop_row inp k"
    using that by (auto simp: Suc_le_eq order_le_less)
  have fst_set: "(map (\<lambda>i. Suc k \<le> i \<and> gesis_stop_row inp i) [0..<?n])[k := gesis_stop_row inp k]
      = map (\<lambda>i. k \<le> i \<and> gesis_stop_row inp i) [0..<?n]"
    using step.hyps
    by (intro nth_equalityI) (auto simp: nth_list_update Suc_le_eq order_le_less)
  have snd: "gesis_next_pool_row inp k =
      (if gesis_pool_row inp k then (gesis_next_pool_row inp (Suc k))(gs_codes inp ! k \<mapsto> k)
       else gesis_next_pool_row inp (Suc k))"
    using step.hyps by (auto simp: fun_eq_iff gesis_next_pool_row_step)
  show ?case
  proof (cases "gesis_pool_row inp k")
    case True
    then have "gesis_stop_row inp k \<longleftrightarrow> \<not> (case gesis_next_pool_row inp (Suc k) (gs_codes inp ! k) of
        None \<Rightarrow> False | Some m \<Rightarrow> gs_is_stop inp ! m)"
      by (auto simp: gesis_stop_row_def split: option.split)
    then have "gesis_candidate_step inp k (c, gesis_next_pool_row inp (Suc k))
        = (c[k := gesis_stop_row inp k],
           (gesis_next_pool_row inp (Suc k))(gs_codes inp ! k \<mapsto> k))" for c
      using True
      by (auto simp: gesis_candidate_step_def gesis_pool_row_def Let_def split: option.split)
    then show ?thesis
      unfolding upt fold_append comp_apply step.IH by (simp only: fold.simps id_apply comp_apply fst_set snd True if_True)
  next
    case False
    then have keep: "\<not> gesis_stop_row inp k" by (simp add: gesis_stop_row_def)
    have "gesis_candidate_step inp k p = p" for p
      using False by (cases p) (auto simp: gesis_candidate_step_def gesis_pool_row_def)
    then show ?thesis
      unfolding upt fold_append comp_apply step.IH
      by (simp only: fold.simps id_apply comp_apply fst_keep [OF keep] snd False if_False)
  qed
qed

lemma gesis_candidates_spec:
  "gesis_candidates inp = map (gesis_stop_row inp) [0..<length (gs_codes inp)]"
  using gesis_candidate_pass [of 0 inp] by (simp add: gesis_candidates_def)

section \<open>The report\<close>

abbreviation gesis_openers :: "gesis_input \<Rightarrow> nat list" where
  "gesis_openers inp \<equiv>
     filter (\<lambda>i. gs_eligible inp ! i \<and> \<not> gs_pseudo inp ! i) [0..<length (gs_codes inp)]"

definition gesis_episode ::
    "gesis_input \<Rightarrow> int \<Rightarrow> nat \<Rightarrow> nat \<Rightarrow> nat option \<times> int option \<times> episode_close_reason" where
  "gesis_episode inp = gesis_end inp (gesis_candidates inp)"

definition gesis_report :: "gesis_input \<Rightarrow> int \<Rightarrow> nat \<Rightarrow> nat list \<Rightarrow> match_update_indices" where
  "gesis_report inp timeout threshold js =
     \<lparr>start_indices = js, stop_start_indices = js,
      stop_event_indices =
        map (\<lambda>j. case fst (gesis_episode inp timeout threshold j) of None \<Rightarrow> j | Some e \<Rightarrow> e) js,
      missing_indices = [],
      stop_reasons = map (\<lambda>j. snd (snd (gesis_episode inp timeout threshold j))) js,
      missing_reasons = [],
      stop_timestamps_ns = map (\<lambda>j. fst (snd (gesis_episode inp timeout threshold j))) js\<rparr>"

lemma gesis_loop:
  "fold (gesis_step inp (gesis_candidates inp) timeout threshold) [0..<n] empty_update
     = gesis_report inp timeout threshold
         (filter (\<lambda>i. gs_eligible inp ! i \<and> \<not> gs_pseudo inp ! i) [0..<n])"
proof (induction n)
  case 0
  show ?case by (simp add: gesis_report_def empty_update_def)
next
  case (Suc n)
  show ?case
    unfolding fold_upt_Suc Suc
    by (cases "gesis_episode inp timeout threshold n")
      (simp add: gesis_step_def gesis_report_def gesis_episode_def)
qed

lemma gesis_run:
  "match_app_usage_gesis_with_openers_indices_core inp timeout threshold =
     (if gesis_aligned inp then Inr (gesis_report inp timeout threshold (gesis_openers inp))
      else Inl length_error)"
  by (simp add: match_app_usage_gesis_with_openers_indices_core_def gesis_loop)

lemma gesis_report_well_reported:
  "well_reported js (gesis_report inp timeout threshold js)"
  by (simp add: well_reported_def gesis_report_def)

interpretation gesis: episode_rule
  "\<lambda>(inp, timeout, threshold).
     match_app_usage_gesis_with_openers_indices_core inp timeout threshold"
  "\<lambda>(inp, timeout, threshold). gesis_aligned inp"
  "\<lambda>(inp, timeout, threshold). gesis_openers inp"
  by unfold_locales (auto simp: gesis_run gesis_report_well_reported split: if_splits)

section \<open>The three tiers\<close>

text \<open>The nearest stop row of the start's app after the start.\<close>

definition gesis_nearest_stop :: "gesis_input \<Rightarrow> nat \<Rightarrow> nat \<Rightarrow> bool" where
  "gesis_nearest_stop inp j e \<longleftrightarrow>
     j < e \<and> e < length (gs_codes inp) \<and> gesis_stop_row inp e
     \<and> gs_codes inp ! e = gs_codes inp ! j
     \<and> (\<forall>k. j < k \<and> k < e \<longrightarrow>
          \<not> (gesis_stop_row inp k \<and> gs_codes inp ! k = gs_codes inp ! j))"

lemma find_upt_Some:
  "find P [a..<b] = Some e \<longleftrightarrow> a \<le> e \<and> e < b \<and> P e \<and> (\<forall>k. a \<le> k \<and> k < e \<longrightarrow> \<not> P k)"
  (is "?L \<longleftrightarrow> ?R")
proof
  assume ?L
  then obtain i where i: "i < b - a" "P (a + i)" "e = a + i" "\<forall>m<i. \<not> P (a + m)"
    by (auto simp: find_Some_iff)
  have "\<not> P k" if "a \<le> k" "k < e" for k
    using i(3,4) that by (metis add_less_cancel_left le_Suc_ex)
  with i show ?R by auto
next
  assume R: ?R
  then show ?L
    by (auto simp: find_Some_iff intro!: exI [of _ "e - a"])
qed

lemma find_upt_None: "find P [a..<b] = None \<longleftrightarrow> (\<forall>k. a \<le> k \<and> k < b \<longrightarrow> \<not> P k)"
  by (auto simp: find_None_iff)

text \<open>The tier a start falls in: within the threshold of its nearest stop row, else before the
  timeout of the next row, else neither.\<close>

fun gesis_tier ::
    "gesis_input \<Rightarrow> int \<Rightarrow> nat \<Rightarrow> nat \<Rightarrow> nat \<Rightarrow> int option \<Rightarrow> episode_close_reason \<Rightarrow> bool" where
  "gesis_tier inp timeout threshold j e ns GesisOriginalStop \<longleftrightarrow>
     gesis_nearest_stop inp j e \<and> e - j - 1 \<le> threshold \<and> ns = None"
| "gesis_tier inp timeout threshold j e ns GesisNextGlobalEvent \<longleftrightarrow>
     (\<forall>s. gesis_nearest_stop inp j s \<longrightarrow> threshold < s - j - 1)
     \<and> e = Suc j \<and> e < length (gs_codes inp)
     \<and> i64_saturating_sub (gs_timestamp_ns inp ! e) (gs_timestamp_ns inp ! j) \<le> timeout
     \<and> ns = None"
| "gesis_tier inp timeout threshold j e ns GesisTimeout \<longleftrightarrow>
     (\<forall>s. gesis_nearest_stop inp j s \<longrightarrow> threshold < s - j - 1)
     \<and> (Suc j < length (gs_codes inp) \<longrightarrow>
          timeout
            < i64_saturating_sub (gs_timestamp_ns inp ! Suc j) (gs_timestamp_ns inp ! j))
     \<and> e = j \<and> ns = Some (i64_saturating_add (gs_timestamp_ns inp ! j) timeout)"
| "gesis_tier inp timeout threshold j e ns _ \<longleftrightarrow> False"

lemma gesis_nearest_stop_unique:
  assumes "gesis_nearest_stop inp j e" "gesis_nearest_stop inp j e'"
  shows "e = e'"
proof (rule linorder_cases [of e e'])
  assume "e < e'"
  with assms show ?thesis unfolding gesis_nearest_stop_def by blast
next
  assume "e' < e"
  with assms show ?thesis unfolding gesis_nearest_stop_def by blast
qed

lemma gesis_nearest_stop_find:
  assumes "j < length (gs_codes inp)"
  shows "find (\<lambda>probe. gesis_candidates inp ! probe \<and> gs_codes inp ! probe = gs_codes inp ! j)
      [Suc j..<length (gs_codes inp)] = r
    \<longleftrightarrow> (case r of None \<Rightarrow> \<forall>e. \<not> gesis_nearest_stop inp j e
         | Some e \<Rightarrow> gesis_nearest_stop inp j e)"
proof -
  let ?n = "length (gs_codes inp)"
  let ?P = "\<lambda>k. gesis_stop_row inp k \<and> gs_codes inp ! k = gs_codes inp ! j"
  have "find (\<lambda>probe. gesis_candidates inp ! probe \<and> gs_codes inp ! probe = gs_codes inp ! j)
      [Suc j..<?n] = find ?P [Suc j..<?n]"
    by (rule find_cong) (auto simp: gesis_candidates_spec)
  moreover have some: "find ?P [Suc j..<?n] = Some e \<longleftrightarrow> gesis_nearest_stop inp j e" for e
    unfolding find_upt_Some gesis_nearest_stop_def by (auto simp: Suc_le_eq)
  moreover have "find ?P [Suc j..<?n] = None \<longleftrightarrow> (\<forall>e. \<not> gesis_nearest_stop inp j e)"
    using some by (metis not_Some_eq)
  ultimately show ?thesis by (auto split: option.split)
qed

lemma gesis_episode_tier:
  assumes j: "j < length (gs_codes inp)"
  shows "gesis_tier inp timeout threshold j
     (case fst (gesis_episode inp timeout threshold j) of None \<Rightarrow> j | Some e \<Rightarrow> e)
     (fst (snd (gesis_episode inp timeout threshold j)))
     (snd (snd (gesis_episode inp timeout threshold j)))"
proof -
  let ?find = "find (\<lambda>probe. gesis_candidates inp ! probe
      \<and> gs_codes inp ! probe = gs_codes inp ! j) [Suc j..<length (gs_codes inp)]"
  show ?thesis
  proof (cases ?find)
    case None
    then have "\<forall>e. \<not> gesis_nearest_stop inp j e"
      using gesis_nearest_stop_find [OF j, of None] by simp
    with None show ?thesis by (auto simp: gesis_episode_def gesis_end_def Let_def)
  next
    case (Some s)
    then have s: "gesis_nearest_stop inp j s"
      using gesis_nearest_stop_find [OF j, of "Some s"] by simp
    have only: "gesis_nearest_stop inp j s' \<longleftrightarrow> s' = s" for s'
      using gesis_nearest_stop_unique [OF s] s by blast
    show ?thesis
      by (auto simp: gesis_episode_def gesis_end_def Let_def Some only)
  qed
qed

text \<open>Which tier a start falls in is decided by the input alone.\<close>

lemma gesis_tier_unique:
  assumes "gesis_tier inp timeout threshold j e ns r" "gesis_tier inp timeout threshold j e' ns' r'"
  shows "e = e' \<and> ns = ns' \<and> r = r'"
  using assms
  by (cases r; cases r'; auto dest: gesis_nearest_stop_unique)

end
