(* ===== verification/Forward_Pairing.thy ===== *)
theory Forward_Pairing
  imports Gesis
begin

text \<open>
  Forward pairing at the app-episode level
  (\<open>match_app_usage_forward_pairing_with_openers_indices_core\<close>): an episode ends at the first later
  row that turns the screen off, pauses the same app or resumes another one; with no such row it has
  no end.
\<close>

section \<open>The rule\<close>

record pairing_input =
  fp_codes :: "int list"
  fp_timestamp_ns :: "int list"
  fp_eligible :: "bool list"
  fp_resumed :: "bool list"
  fp_paused :: "bool list"
  fp_screen_off :: "bool list"
  fp_pseudo :: "bool list"

definition pairing_aligned :: "pairing_input \<Rightarrow> bool" where
  "pairing_aligned inp \<longleftrightarrow>
     (let len = length (fp_codes inp) in
      \<not> (length (fp_timestamp_ns inp) \<noteq> len \<or> length (fp_eligible inp) \<noteq> len
         \<or> length (fp_resumed inp) \<noteq> len \<or> length (fp_paused inp) \<noteq> len
         \<or> length (fp_screen_off inp) \<noteq> len \<or> length (fp_pseudo inp) \<noteq> len))"

definition pairing_closes :: "pairing_input \<Rightarrow> int \<Rightarrow> nat \<Rightarrow> bool" where
  "pairing_closes inp package probe \<longleftrightarrow>
     fp_screen_off inp ! probe
     \<or> (fp_paused inp ! probe \<and> fp_codes inp ! probe = package)
     \<or> (fp_resumed inp ! probe \<and> fp_codes inp ! probe \<noteq> package)"

definition pairing_closer :: "pairing_input \<Rightarrow> nat \<Rightarrow> nat option" where
  "pairing_closer inp index =
     find (pairing_closes inp (fp_codes inp ! index)) [index + 1..<length (fp_codes inp)]"

definition pairing_reason :: "pairing_input \<Rightarrow> nat \<Rightarrow> episode_close_reason" where
  "pairing_reason inp stop =
     (if fp_screen_off inp ! stop then ScreenNonInteractive
      else if fp_paused inp ! stop then SamePackageBackgrounded
      else ForegroundHandover)"

definition pairing_step ::
    "pairing_input \<Rightarrow> nat \<Rightarrow> match_update_indices \<Rightarrow> match_update_indices" where
  "pairing_step inp index out =
     (if \<not> fp_eligible inp ! index \<or> fp_pseudo inp ! index then out
      else
        (let out = out\<lparr>start_indices := start_indices out @ [index]\<rparr> in
         case pairing_closer inp index of
           Some stop \<Rightarrow>
             out\<lparr>stop_start_indices := stop_start_indices out @ [index],
               stop_event_indices := stop_event_indices out @ [stop],
               stop_reasons := stop_reasons out @ [pairing_reason inp stop]\<rparr>
         | None \<Rightarrow>
             out\<lparr>missing_indices := missing_indices out @ [index],
               missing_reasons := missing_reasons out @ [Unobserved]\<rparr>))"

definition match_app_usage_forward_pairing_with_openers_indices_core ::
    "pairing_input \<Rightarrow> match_update_indices matcher_result" where
  "match_app_usage_forward_pairing_with_openers_indices_core inp =
     (if \<not> pairing_aligned inp then Inl length_error
      else
        (let out = fold (pairing_step inp) [0..<length (fp_codes inp)] empty_update in
         Inr (out\<lparr>stop_timestamps_ns := replicate (length (stop_start_indices out)) None\<rparr>)))"

definition match_app_usage_forward_pairing_indices_core ::
    "pairing_input \<Rightarrow> match_update_indices matcher_result" where
  "match_app_usage_forward_pairing_indices_core inp =
     match_app_usage_forward_pairing_with_openers_indices_core
       (inp\<lparr>fp_eligible := fp_resumed inp\<rparr>)"

section \<open>The report\<close>

abbreviation pairing_openers :: "pairing_input \<Rightarrow> nat list" where
  "pairing_openers inp \<equiv>
     filter (\<lambda>i. fp_eligible inp ! i \<and> \<not> fp_pseudo inp ! i) [0..<length (fp_codes inp)]"

definition pairing_report :: "pairing_input \<Rightarrow> nat list \<Rightarrow> match_update_indices" where
  "pairing_report inp js =
     (let closed = filter (\<lambda>j. pairing_closer inp j \<noteq> None) js;
          open_ended = filter (\<lambda>j. pairing_closer inp j = None) js;
          ends = map (\<lambda>j. the (pairing_closer inp j)) closed
      in \<lparr>start_indices = js, stop_start_indices = closed, stop_event_indices = ends,
          missing_indices = open_ended, stop_reasons = map (pairing_reason inp) ends,
          missing_reasons = replicate (length open_ended) Unobserved,
          stop_timestamps_ns = replicate (length closed) None\<rparr>)"

lemma pairing_loop:
  "fold (pairing_step inp) [0..<n] empty_update
   = (pairing_report inp (filter (\<lambda>i. fp_eligible inp ! i \<and> \<not> fp_pseudo inp ! i) [0..<n]))
       \<lparr>stop_timestamps_ns := []\<rparr>"
proof (induction n)
  case 0
  show ?case by (simp add: pairing_report_def empty_update_def Let_def)
next
  case (Suc n)
  show ?case
    unfolding fold_upt_Suc Suc
    by (cases "pairing_closer inp n")
      (simp_all add: pairing_step_def pairing_report_def Let_def replicate_append_same)
qed

lemma pairing_run:
  "match_app_usage_forward_pairing_with_openers_indices_core inp =
     (if pairing_aligned inp then Inr (pairing_report inp (pairing_openers inp))
      else Inl length_error)"
  using pairing_loop [of inp "length (fp_codes inp)"]
  by (simp add: match_app_usage_forward_pairing_with_openers_indices_core_def Let_def
      pairing_report_def)

lemma pairing_report_well_reported: "well_reported js (pairing_report inp js)"
proof -
  have "mset (filter (\<lambda>j. pairing_closer inp j \<noteq> None) js)
      + mset (filter (\<lambda>j. pairing_closer inp j = None) js) = mset js"
    by (induction js) auto
  then show ?thesis by (simp add: well_reported_def pairing_report_def Let_def)
qed

interpretation pairing: episode_rule
  match_app_usage_forward_pairing_with_openers_indices_core pairing_aligned pairing_openers
  by unfold_locales (auto simp: pairing_run pairing_report_well_reported split: if_splits)

lemma pairing_closer_Some:
  "pairing_closer inp j = Some e \<longleftrightarrow>
     j < e \<and> e < length (fp_codes inp) \<and> pairing_closes inp (fp_codes inp ! j) e
     \<and> (\<forall>k. j < k \<and> k < e \<longrightarrow> \<not> pairing_closes inp (fp_codes inp ! j) k)"
  by (auto simp: pairing_closer_def find_upt_Some Suc_le_eq)

lemma pairing_closer_None:
  "pairing_closer inp j = None \<longleftrightarrow>
     (\<forall>k. j < k \<and> k < length (fp_codes inp) \<longrightarrow> \<not> pairing_closes inp (fp_codes inp ! j) k)"
  by (auto simp: pairing_closer_def find_upt_None Suc_le_eq)

end
