(* ===== verification/Split_Sessions.thy ===== *)
theory Split_Sessions
  imports Matcher_Base "HOL-Library.Product_Lexorder"
begin

text \<open>
  \<open>split_overlapping_sessions\<close>: a sweep over the starts and stops of app sessions that cuts each
  session into the stretches where it is the newest open session (primary) and where it is not
  (secondary). The cursors \<open>ps\<close> and \<open>pe\<close> into the two sorted index vectors are the lists of the
  indices not yet passed; the ordered set of open sessions is a set of pairs, ordered
  lexicographically as the pairs in the source are.
\<close>

section \<open>The sweep\<close>

datatype usage_layer = Primary | Secondary

record layered_session =
  ls_session :: nat
  ls_start :: int
  ls_stop :: int
  ls_layer :: usage_layer

record sweep_state =
  sw_open :: "(int \<times> nat) set"
  sw_active :: "(int \<times> usage_layer) option list"
  sw_out :: "layered_session list"

text \<open>A row is emitted only for a stretch of positive width.\<close>

fun push_segment ::
    "nat \<Rightarrow> int \<Rightarrow> int \<times> usage_layer \<Rightarrow> layered_session list \<Rightarrow> layered_session list" where
  "push_segment session timestamp (segment_start, layer) out =
     (if segment_start < timestamp
      then out @ [\<lparr>ls_session = session, ls_start = segment_start, ls_stop = timestamp,
                   ls_layer = layer\<rparr>]
      else out)"

text \<open>The closure \<open>transition\<close>.\<close>

definition layer_transition :: "nat \<Rightarrow> usage_layer \<Rightarrow> int \<Rightarrow> sweep_state \<Rightarrow> sweep_state" where
  "layer_transition session next_layer timestamp st =
     (case sw_active st ! session of
        None \<Rightarrow> st
      | Some (segment_start, previous_layer) \<Rightarrow>
          if previous_layer = next_layer then st
          else st\<lparr>sw_out := push_segment session timestamp (segment_start, previous_layer) (sw_out st),
                 sw_active := (sw_active st)[session := Some (timestamp, next_layer)]\<rparr>)"

definition stop_session :: "int list \<Rightarrow> int \<Rightarrow> nat \<Rightarrow> sweep_state \<Rightarrow> sweep_state" where
  "stop_session starts timestamp i st =
     (let st =
            (case sw_active st ! i of
               None \<Rightarrow> st
             | Some segment \<Rightarrow>
                 st\<lparr>sw_active := (sw_active st)[i := None],
                   sw_out := push_segment i timestamp segment (sw_out st)\<rparr>)
      in st\<lparr>sw_open := sw_open st - {(starts ! i, i)}\<rparr>)"

definition start_session ::
    "int list \<Rightarrow> int list \<Rightarrow> int \<Rightarrow> nat \<Rightarrow> (int \<times> nat) set \<times> nat list \<Rightarrow> (int \<times> nat) set \<times> nat list" where
  "start_session starts stops timestamp i = (\<lambda>(open_set, started_now).
     if timestamp < stops ! i then (insert (starts ! i, i) open_set, started_now @ [i])
     else (open_set, started_now))"

definition newest_open :: "(int \<times> nat) set \<Rightarrow> nat option" where
  "newest_open open_set = (if open_set = {} then None else Some (snd (Max open_set)))"

definition transition_active ::
    "nat option \<Rightarrow> usage_layer \<Rightarrow> int \<Rightarrow> sweep_state \<Rightarrow> sweep_state" where
  "transition_active primary layer timestamp st =
     (case primary of
        None \<Rightarrow> st
      | Some index \<Rightarrow>
          if sw_active st ! index \<noteq> None then layer_transition index layer timestamp st else st)"

definition activate :: "nat option \<Rightarrow> int \<Rightarrow> nat \<Rightarrow> sweep_state \<Rightarrow> sweep_state" where
  "activate current_primary timestamp index st =
     st\<lparr>sw_active := (sw_active st)[index :=
          Some (timestamp, if Some index = current_primary then Primary else Secondary)]\<rparr>"

text \<open>One iteration of the sweep, at one instant: the stops, the starts, then the layer changes.\<close>

definition sweep_boundary ::
    "int list \<Rightarrow> int list \<Rightarrow> int \<Rightarrow> nat list \<Rightarrow> nat list \<Rightarrow> sweep_state \<Rightarrow> sweep_state" where
  "sweep_boundary starts stops timestamp starting stopping st =
     (let previous_primary = newest_open (sw_open st);
          st = fold (stop_session starts timestamp) stopping st;
          (open_set, started_now) =
            fold (start_session starts stops timestamp) starting (sw_open st, []);
          st = st\<lparr>sw_open := open_set\<rparr>;
          current_primary = newest_open open_set;
          st =
            (if previous_primary \<noteq> current_primary
             then transition_active current_primary Primary timestamp
                    (transition_active previous_primary Secondary timestamp st)
             else st)
      in fold (activate current_primary timestamp) started_now st)"

definition next_boundary :: "int list \<Rightarrow> int list \<Rightarrow> nat list \<Rightarrow> nat list \<Rightarrow> int option" where
  "next_boundary starts stops ps pe =
     (case (ps, pe) of
        (i # _, j # _) \<Rightarrow> Some (min (starts ! i) (stops ! j))
      | (i # _, []) \<Rightarrow> Some (starts ! i)
      | ([], j # _) \<Rightarrow> Some (stops ! j)
      | ([], []) \<Rightarrow> None)"

function sweep ::
    "int list \<Rightarrow> int list \<Rightarrow> nat list \<Rightarrow> nat list \<Rightarrow> sweep_state \<Rightarrow> sweep_state" where
  "sweep starts stops ps pe st =
     (case next_boundary starts stops ps pe of
        None \<Rightarrow> st
      | Some timestamp \<Rightarrow>
          sweep starts stops (dropWhile (\<lambda>i. starts ! i \<le> timestamp) ps)
            (dropWhile (\<lambda>i. stops ! i \<le> timestamp) pe)
            (sweep_boundary starts stops timestamp (takeWhile (\<lambda>i. starts ! i \<le> timestamp) ps)
               (takeWhile (\<lambda>i. stops ! i \<le> timestamp) pe) st))"
  by pat_completeness auto

text \<open>The next boundary is the first of some pending list, which therefore shrinks.\<close>

lemma next_boundary_progress:
  assumes "next_boundary starts stops ps pe = Some t"
  shows "length (dropWhile (\<lambda>i. starts ! i \<le> t) ps) + length (dropWhile (\<lambda>i. stops ! i \<le> t) pe)
    < length ps + length pe"
proof -
  have le: "length (dropWhile (\<lambda>i. starts ! i \<le> t) ps) \<le> length ps"
    "length (dropWhile (\<lambda>i. stops ! i \<le> t) pe) \<le> length pe"
    by (rule length_dropWhile_le)+
  have tl: "length (dropWhile (\<lambda>i. starts ! i \<le> t) (tl ps)) \<le> length (tl ps)"
    "length (dropWhile (\<lambda>i. stops ! i \<le> t) (tl pe)) \<le> length (tl pe)"
    by (rule length_dropWhile_le)+
  show ?thesis
    using assms le tl by (cases ps; cases pe) (auto simp: next_boundary_def min_def split: if_splits)
qed

termination sweep
  by (relation "measure (\<lambda>(starts, stops, ps, pe, st). length ps + length pe)")
    (simp_all add: next_boundary_progress)

declare sweep.simps [simp del]

definition split_error :: matcher_failure where
  "split_error = MatcherError ''starts and stops must have the same length''"

definition inverted_error :: matcher_failure where
  "inverted_error = MatcherError ''stop must be >= start for every session''"

definition zero_width_rows :: "int list \<Rightarrow> int list \<Rightarrow> layered_session list" where
  "zero_width_rows starts stops =
     map (\<lambda>i. \<lparr>ls_session = i, ls_start = starts ! i, ls_stop = stops ! i, ls_layer = Primary\<rparr>)
       (filter (\<lambda>i. starts ! i = stops ! i) [0..<length starts])"

definition split_overlapping_sessions ::
    "int list \<Rightarrow> int list \<Rightarrow> layered_session list matcher_result" where
  "split_overlapping_sessions starts stops =
     (if length starts \<noteq> length stops then Inl split_error
      else if \<exists>i \<in> {..<length starts}. stops ! i < starts ! i then Inl inverted_error
      else
        (let n = length starts;
             by_start = sort_key (\<lambda>i. (starts ! i, i)) [0..<n];
             by_stop = sort_key (\<lambda>i. (stops ! i, i)) [0..<n];
             st = sweep starts stops by_start by_stop
                    \<lparr>sw_open = {}, sw_active = replicate n None, sw_out = []\<rparr>
         in Inr (sort_key (\<lambda>r. (ls_session r, ls_start r))
                  (sw_out st @ zero_width_rows starts stops))))"

section \<open>What the sweep means at an instant\<close>

text \<open>A session is open on \<open>[start, stop)\<close>; its layer there depends on the sessions open with it.\<close>

definition opened :: "int list \<Rightarrow> int list \<Rightarrow> int \<Rightarrow> nat \<Rightarrow> bool" where
  "opened starts stops \<tau> i \<longleftrightarrow> i < length starts \<and> starts ! i \<le> \<tau> \<and> \<tau> < stops ! i"

definition open_pairs :: "int list \<Rightarrow> int list \<Rightarrow> int \<Rightarrow> (int \<times> nat) set" where
  "open_pairs starts stops \<tau> = (\<lambda>i. (starts ! i, i)) ` {i. opened starts stops \<tau> i}"

definition layer_at :: "int list \<Rightarrow> int list \<Rightarrow> int \<Rightarrow> nat \<Rightarrow> usage_layer" where
  "layer_at starts stops \<tau> i =
     (if newest_open (open_pairs starts stops \<tau>) = Some i then Primary else Secondary)"

text \<open>The rows of a session that cover an instant, and the newest session open there.\<close>

definition rows_at :: "layered_session list \<Rightarrow> nat \<Rightarrow> int \<Rightarrow> layered_session list" where
  "rows_at out i \<tau> =
     filter (\<lambda>r. ls_session r = i \<and> ls_start r \<le> \<tau> \<and> \<tau> < ls_stop r) out"

definition newest_at :: "int list \<Rightarrow> int list \<Rightarrow> int \<Rightarrow> nat \<Rightarrow> bool" where
  "newest_at starts stops \<tau> i \<longleftrightarrow>
     (\<forall>j < length starts. starts ! j \<le> \<tau> \<and> \<tau> < stops ! j \<longrightarrow>
        starts ! j < starts ! i \<or> starts ! j = starts ! i \<and> j \<le> i)"

lemma finite_open_pairs [simp]: "finite (open_pairs starts stops \<tau>)"
proof -
  have "{i. opened starts stops \<tau> i} \<subseteq> {..<length starts}" by (auto simp: opened_def)
  then show ?thesis unfolding open_pairs_def by (intro finite_imageI) (rule finite_subset, auto)
qed

lemma newest_open_iff:
  "newest_open (open_pairs starts stops \<tau>) = Some i \<longleftrightarrow>
     opened starts stops \<tau> i
     \<and> (\<forall>j. opened starts stops \<tau> j \<longrightarrow> (starts ! j, j) \<le> (starts ! i, i))" (is "?L \<longleftrightarrow> ?R")
proof
  assume ?L
  then have ne: "open_pairs starts stops \<tau> \<noteq> {}" and m: "snd (Max (open_pairs starts stops \<tau>)) = i"
    by (auto simp: newest_open_def split: if_splits)
  have "Max (open_pairs starts stops \<tau>) \<in> open_pairs starts stops \<tau>" using ne by simp
  then have max: "Max (open_pairs starts stops \<tau>) = (starts ! i, i)" and "opened starts stops \<tau> i"
    using m by (auto simp: open_pairs_def)
  moreover have "(starts ! j, j) \<le> (starts ! i, i)" if "opened starts stops \<tau> j" for j
    unfolding max [symmetric] using that
    by (intro Max_ge finite_open_pairs) (auto simp: open_pairs_def)
  ultimately show ?R by blast
next
  assume R: ?R
  have "(starts ! i, i) \<in> open_pairs starts stops \<tau>" using R by (auto simp: open_pairs_def)
  moreover have "Max (open_pairs starts stops \<tau>) = (starts ! i, i)"
    using R
    by (intro Max_eqI finite_open_pairs) (auto simp: open_pairs_def)
  ultimately show ?L by (auto simp: newest_open_def)
qed

text \<open>The layers the emitted rows give a session at an instant, and those its open segment will.\<close>

definition row_layers :: "layered_session list \<Rightarrow> nat \<Rightarrow> int \<Rightarrow> usage_layer multiset" where
  "row_layers out i \<tau> =
     image_mset ls_layer
       (filter_mset (\<lambda>r. ls_session r = i \<and> ls_start r \<le> \<tau> \<and> \<tau> < ls_stop r) (mset out))"

fun segment_layers :: "(int \<times> usage_layer) option \<Rightarrow> int \<Rightarrow> int \<Rightarrow> usage_layer multiset" where
  "segment_layers None t \<tau> = {#}"
| "segment_layers (Some (s, l)) t \<tau> = (if s \<le> \<tau> \<and> \<tau> < t then {#l#} else {#})"

definition view_at :: "sweep_state \<Rightarrow> int \<Rightarrow> nat \<Rightarrow> int \<Rightarrow> usage_layer multiset" where
  "view_at st t i \<tau> = row_layers (sw_out st) i \<tau> + segment_layers (sw_active st ! i) t \<tau>"

lemma row_layers_push:
  "row_layers (push_segment i t seg out) j \<tau> =
     row_layers out j \<tau> + (if j = i then segment_layers (Some seg) t \<tau> else {#})"
  by (cases seg) (auto simp: row_layers_def)

declare push_segment.simps [simp del]

text \<open>Closing a segment at the present instant moves it to the rows; nothing else changes.\<close>

lemma stop_session_view [simp]:
  "i < length (sw_active st) \<Longrightarrow> view_at (stop_session starts t i st) t j \<tau> = view_at st t j \<tau>"
  by (cases "j = i"; cases "sw_active st ! i")
    (auto simp: stop_session_def view_at_def row_layers_push Let_def ac_simps)

lemma layer_transition_view [simp]:
  "i < length (sw_active st) \<Longrightarrow> view_at (layer_transition i l t st) t j \<tau> = view_at st t j \<tau>"
  by (cases "j = i"; cases "sw_active st ! i")
    (auto simp: layer_transition_def view_at_def row_layers_push ac_simps)

lemma transition_active_view [simp]:
  "(\<forall>i. p = Some i \<longrightarrow> i < length (sw_active st)) \<Longrightarrow>
     view_at (transition_active p l t st) t j \<tau> = view_at st t j \<tau>"
  by (auto simp: transition_active_def split: option.split)

lemma activate_view [simp]:
  "i < length (sw_active st) \<Longrightarrow> sw_active st ! i = None \<Longrightarrow>
     view_at (activate p t i st) t j \<tau> = view_at st t j \<tau>"
  by (cases "j = i") (auto simp: activate_def view_at_def)

subsection \<open>The loops over the sessions of one instant\<close>

lemma stop_session_fields:
  "sw_open (stop_session starts t i st) = sw_open st - {(starts ! i, i)}"
  "length (sw_active (stop_session starts t i st)) = length (sw_active st)"
  "i < length (sw_active st) \<Longrightarrow>
     sw_active (stop_session starts t i st) ! j = (if j = i then None else sw_active st ! j)"
  by (cases "sw_active st ! i"; auto simp: stop_session_def Let_def nth_list_update)+

lemma stop_sessions:
  assumes "\<forall>i \<in> set is. i < length (sw_active st)"
  shows "sw_open (fold (stop_session starts t) is st)
      = sw_open st - (\<lambda>i. (starts ! i, i)) ` set is
    \<and> length (sw_active (fold (stop_session starts t) is st)) = length (sw_active st)
    \<and> (\<forall>j. sw_active (fold (stop_session starts t) is st) ! j
          = (if j \<in> set is then None else sw_active st ! j))
    \<and> (\<forall>j \<tau>. view_at (fold (stop_session starts t) is st) t j \<tau> = view_at st t j \<tau>)"
  using assms
proof (induction "is" arbitrary: st)
  case Nil
  then show ?case by simp
next
  case (Cons i "is")
  have i: "i < length (sw_active st)" using Cons.prems by simp
  from Cons.IH [of "stop_session starts t i st"] Cons.prems
  show ?case
    by (simp add: stop_session_fields [OF] stop_session_fields(3) [OF i] i)
      (auto simp: stop_session_fields)
qed

lemma start_sessions:
  "fold (start_session starts stops t) is (S, acc) =
     (S \<union> (\<lambda>i. (starts ! i, i)) ` {i \<in> set is. t < stops ! i},
      acc @ filter (\<lambda>i. t < stops ! i) is)"
  by (induction "is" arbitrary: S acc) (auto simp: start_session_def)

lemma activate_sessions:
  assumes "\<forall>i \<in> set is. i < length (sw_active st) \<and> sw_active st ! i = None" "distinct is"
  shows "sw_open (fold (activate p t) is st) = sw_open st
    \<and> sw_out (fold (activate p t) is st) = sw_out st
    \<and> length (sw_active (fold (activate p t) is st)) = length (sw_active st)
    \<and> (\<forall>j. sw_active (fold (activate p t) is st) ! j
          = (if j \<in> set is then Some (t, if Some j = p then Primary else Secondary)
             else sw_active st ! j))
    \<and> (\<forall>j \<tau>. view_at (fold (activate p t) is st) t j \<tau> = view_at st t j \<tau>)"
  using assms
proof (induction "is" arbitrary: st)
  case Nil
  then show ?case by simp
next
  case (Cons i "is")
  have nth: "sw_active (activate p t i st) ! j
      = (if j = i then Some (t, if Some i = p then Primary else Secondary) else sw_active st ! j)" for j
    using Cons.prems by (simp add: activate_def nth_list_update)
  have len: "length (sw_active (activate p t i st)) = length (sw_active st)"
    "sw_open (activate p t i st) = sw_open st" "sw_out (activate p t i st) = sw_out st"
    by (simp_all add: activate_def)
  have "\<forall>j \<in> set is. j < length (sw_active (activate p t i st))
      \<and> sw_active (activate p t i st) ! j = None"
    using Cons.prems by (auto simp: nth len)
  from Cons.IH [OF this] Cons.prems show ?case by (auto simp: nth len)
qed

lemma transition_active_fields:
  "sw_open (transition_active p l t st) = sw_open st"
  "length (sw_active (transition_active p l t st)) = length (sw_active st)"
  by (auto simp: transition_active_def layer_transition_def split: option.split)

lemma transition_active_nth:
  assumes "\<forall>i. p = Some i \<longrightarrow> i < length (sw_active st)"
  shows "map_option snd (sw_active (transition_active p l t st) ! j) =
     (if p = Some j \<and> sw_active st ! j \<noteq> None then Some l else map_option snd (sw_active st ! j))"
    and "\<forall>s k. sw_active (transition_active p l t st) ! j = Some (s, k) \<longrightarrow>
       s = t \<or> map_option fst (sw_active st ! j) = Some s"
  using assms
  by (auto simp: transition_active_def layer_transition_def nth_list_update split: option.split)

section \<open>The invariant of the sweep\<close>

text \<open>
  With every boundary before \<open>t\<close> processed: the set holds the sessions open at \<open>t - 1\<close>, a session
  has a segment iff it is open there, with its layer there, and up to \<open>t\<close> the rows and the segment
  together give each session its layer at every instant it is open, once.
\<close>

definition sweep_inv :: "int list \<Rightarrow> int list \<Rightarrow> int \<Rightarrow> sweep_state \<Rightarrow> bool" where
  "sweep_inv starts stops t st \<longleftrightarrow>
     length (sw_active st) = length starts
     \<and> sw_open st = open_pairs starts stops (t - 1)
     \<and> (\<forall>i < length starts. \<forall>\<tau>.
          view_at st t i \<tau> =
            (if \<tau> < t \<and> opened starts stops \<tau> i then {#layer_at starts stops \<tau> i#} else {#}))
     \<and> (\<forall>i < length starts. (sw_active st ! i = None \<longleftrightarrow> \<not> opened starts stops (t - 1) i)
          \<and> (\<forall>s l. sw_active st ! i = Some (s, l) \<longrightarrow>
               s < t \<and> l = layer_at starts stops (t - 1) i))"

lemma view_extend:
  assumes "\<forall>s l. sw_active st ! i = Some (s, l) \<longrightarrow> s \<le> t" "t \<le> t'"
    and "view_at st t i \<tau> = (if \<tau> < t \<and> P \<tau> then {#f \<tau>#} else {#})"
  shows "view_at st t' i \<tau> =
    (if \<tau> < t then (if P \<tau> then {#f \<tau>#} else {#})
     else if \<tau> < t' then image_mset snd (mset_set (set_option (sw_active st ! i))) else {#})"
  using assms by (cases "sw_active st ! i") (auto simp: view_at_def split: if_splits)

text \<open>Between two boundaries nothing changes.\<close>

lemma opened_gap:
  assumes "\<forall>i < length starts. starts ! i < t \<or> t' \<le> starts ! i"
    and "\<forall>i < length starts. stops ! i < t \<or> t' \<le> stops ! i"
    and "t - 1 \<le> \<tau>" "\<tau> < t'"
  shows "opened starts stops \<tau> i \<longleftrightarrow> opened starts stops (t - 1) i"
  using assms unfolding opened_def by (cases "i < length starts") force+

lemma layer_gap:
  assumes "\<And>i. opened starts stops \<tau> i \<longleftrightarrow> opened starts stops \<tau>' i"
  shows "layer_at starts stops \<tau> i = layer_at starts stops \<tau>' i"
    and "open_pairs starts stops \<tau> = open_pairs starts stops \<tau>'"
  using assms by (simp_all add: layer_at_def open_pairs_def)

lemma sweep_inv_advance:
  assumes inv: "sweep_inv starts stops t st" and le: "t \<le> t'"
    and gap: "\<forall>i < length starts. starts ! i < t \<or> t' \<le> starts ! i"
      "\<forall>i < length starts. stops ! i < t \<or> t' \<le> stops ! i"
  shows "sweep_inv starts stops t' st"
proof -
  have same: "opened starts stops \<tau> i \<longleftrightarrow> opened starts stops (t - 1) i"
    if "t - 1 \<le> \<tau>" "\<tau> < t'" for \<tau> i
    using opened_gap [OF gap that] .
  have layer: "layer_at starts stops \<tau> i = layer_at starts stops (t - 1) i"
    "open_pairs starts stops \<tau> = open_pairs starts stops (t - 1)"
    if "t - 1 \<le> \<tau>" "\<tau> < t'" for \<tau> i
    using layer_gap [of starts stops \<tau> "t - 1"] same [OF that] by blast+
  have view: "view_at st t' i \<tau> =
      (if \<tau> < t' \<and> opened starts stops \<tau> i then {#layer_at starts stops \<tau> i#} else {#})"
    if i: "i < length starts" for i \<tau>
  proof -
    have act: "sw_active st ! i = None \<longleftrightarrow> \<not> opened starts stops (t - 1) i"
      "\<And>s l. sw_active st ! i = Some (s, l) \<Longrightarrow> s < t \<and> l = layer_at starts stops (t - 1) i"
      and v: "view_at st t i \<tau> = (if \<tau> < t \<and> opened starts stops \<tau> i
          then {#layer_at starts stops \<tau> i#} else {#})"
      using inv i by (auto simp: sweep_inv_def)
    have "view_at st t' i \<tau> =
      (if \<tau> < t then (if opened starts stops \<tau> i then {#layer_at starts stops \<tau> i#} else {#})
       else if \<tau> < t' then image_mset snd (mset_set (set_option (sw_active st ! i))) else {#})"
      using act(2) le v by (intro view_extend) force+
    then show ?thesis
      using act le same [of \<tau> i] layer(1) [of \<tau> i]
      by (cases "sw_active st ! i") (auto dest: spec)
  qed
  have "t' - 1 \<ge> t - 1" using le by simp
  then show ?thesis
    using inv le view same [of "t' - 1"] layer [of "t' - 1"]
    by (auto simp: sweep_inv_def)
qed

lemma open_pairs_step:
  assumes wf: "\<forall>i < length starts. starts ! i \<le> stops ! i"
    and starting: "set starting = {i. i < length starts \<and> starts ! i = t}"
    and stopping: "set stopping = {i. i < length starts \<and> stops ! i = t}"
  shows "open_pairs starts stops (t - 1) - (\<lambda>i. (starts ! i, i)) ` set stopping
      \<union> (\<lambda>i. (starts ! i, i)) ` {i \<in> set starting. t < stops ! i} = open_pairs starts stops t"
proof -
  have "inj (\<lambda>i. (starts ! i, i))" by (auto simp: inj_def)
  then have "open_pairs starts stops (t - 1) - (\<lambda>i. (starts ! i, i)) ` set stopping
      \<union> (\<lambda>i. (starts ! i, i)) ` {i \<in> set starting. t < stops ! i}
    = (\<lambda>i. (starts ! i, i)) `
        ({i. opened starts stops (t - 1) i} - set stopping \<union> {i \<in> set starting. t < stops ! i})"
    by (simp add: open_pairs_def image_Un image_set_diff)
  also have "{i. opened starts stops (t - 1) i} - set stopping \<union> {i \<in> set starting. t < stops ! i}
      = {i. opened starts stops t i}"
    unfolding starting stopping opened_def by auto
  finally show ?thesis by (simp add: open_pairs_def)
qed

lemma newest_open_bound:
  "newest_open (open_pairs starts stops \<tau>) = Some i \<Longrightarrow> i < length starts"
  by (simp add: newest_open_iff opened_def)

lemma sweep_boundary_inv:
  assumes inv: "sweep_inv starts stops t st"
    and wf: "\<forall>i < length starts. starts ! i \<le> stops ! i"
    and starting: "set starting = {i. i < length starts \<and> starts ! i = t}" "distinct starting"
    and stopping: "set stopping = {i. i < length starts \<and> stops ! i = t}"
  shows "sweep_inv starts stops (t + 1) (sweep_boundary starts stops t starting stopping st)"
proof -
  let ?n = "length starts"
  let ?prev = "newest_open (open_pairs starts stops (t - 1))"
  let ?cur = "newest_open (open_pairs starts stops t)"
  let ?started = "filter (\<lambda>i. t < stops ! i) starting"
  have len: "length (sw_active st) = ?n" and op: "sw_open st = open_pairs starts stops (t - 1)"
    and view: "\<And>i \<tau>. i < ?n \<Longrightarrow> view_at st t i \<tau> = (if \<tau> < t \<and> opened starts stops \<tau> i
          then {#layer_at starts stops \<tau> i#} else {#})"
    and none: "\<And>i. i < ?n \<Longrightarrow> sw_active st ! i = None \<longleftrightarrow> \<not> opened starts stops (t - 1) i"
    and some: "\<And>i s l. i < ?n \<Longrightarrow> sw_active st ! i = Some (s, l) \<Longrightarrow>
          s < t \<and> l = layer_at starts stops (t - 1) i"
    using inv by (auto simp: sweep_inv_def)
  define st1 where "st1 = fold (stop_session starts t) stopping st"
  have st1: "sw_open st1 = sw_open st - (\<lambda>i. (starts ! i, i)) ` set stopping"
    "length (sw_active st1) = ?n"
    "\<And>j. sw_active st1 ! j = (if j \<in> set stopping then None else sw_active st ! j)"
    "\<And>j \<tau>. view_at st1 t j \<tau> = view_at st t j \<tau>"
    using stop_sessions [of stopping st starts t] by (simp_all add: st1_def stopping len)
  define st2 where "st2 = st1\<lparr>sw_open := open_pairs starts stops t\<rparr>"
  have st2: "length (sw_active st2) = ?n" "sw_active st2 = sw_active st1" "sw_out st2 = sw_out st1"
    using st1 by (simp_all add: st2_def)
  define st3 where "st3 =
      (if ?prev \<noteq> ?cur then transition_active ?cur Primary t (transition_active ?prev Secondary t st2)
       else st2)"
  have view2: "view_at st2 t j \<tau> = view_at st t j \<tau>" for j \<tau>
    using st1(4) by (simp add: view_at_def st2(2,3))
  have b: "\<forall>i. ?prev = Some i \<longrightarrow> i < ?n" "\<forall>i. ?cur = Some i \<longrightarrow> i < ?n"
    using newest_open_bound by blast+
  have st3: "sw_open st3 = open_pairs starts stops t" "length (sw_active st3) = ?n"
    "\<And>j \<tau>. view_at st3 t j \<tau> = view_at st t j \<tau>"
    using b st2 view2 by (auto simp: st3_def st2_def transition_active_fields)
  have act3: "map_option snd (sw_active st3 ! j) =
      (if ?prev = ?cur then map_option snd (sw_active st1 ! j)
       else if sw_active st1 ! j = None then None
       else if ?cur = Some j then Some Primary
       else if ?prev = Some j then Some Secondary
       else map_option snd (sw_active st1 ! j))" for j
  proof -
    let ?a = "transition_active ?prev Secondary t st2"
    have a: "map_option snd (sw_active ?a ! j) =
       (if ?prev = Some j \<and> sw_active st1 ! j \<noteq> None then Some Secondary
        else map_option snd (sw_active st1 ! j))"
      using transition_active_nth(1) [of ?prev st2 Secondary t j] b st2
      by (cases "sw_active st1 ! j") simp_all
    then have an: "sw_active ?a ! j = None \<longleftrightarrow> sw_active st1 ! j = None"
      by (cases "sw_active ?a ! j"; cases "sw_active st1 ! j") (auto split: if_splits)
    have c: "map_option snd (sw_active (transition_active ?cur Primary t ?a) ! j) =
       (if ?cur = Some j \<and> sw_active ?a ! j \<noteq> None then Some Primary
        else map_option snd (sw_active ?a ! j))"
      using transition_active_nth(1) [of ?cur ?a Primary t j] b st2
      by (simp add: transition_active_fields)
    show ?thesis
      by (auto simp: st3_def c an a st2(2))
  qed
  have time3: "s = t \<or> map_option fst (sw_active st1 ! j) = Some s"
    if "sw_active st3 ! j = Some (s, l)" for j s l
  proof (cases "?prev = ?cur")
    case True
    with that show ?thesis by (simp add: st3_def st2(2))
  next
    case False
    let ?a = "transition_active ?prev Secondary t st2"
    have "s = t \<or> map_option fst (sw_active ?a ! j) = Some s"
      using transition_active_nth(2) [of ?cur ?a Primary t j] b st2 that False
      by (simp add: transition_active_fields st3_def)
    moreover have "s = t \<or> map_option fst (sw_active st1 ! j) = Some s"
      if "map_option fst (sw_active ?a ! j) = Some s"
      using transition_active_nth(2) [of ?prev st2 Secondary t j] b st2 that by auto
    ultimately show ?thesis by blast
  qed
  have started_none: "sw_active st3 ! i = None" if "i \<in> set ?started" for i
  proof -
    have "i < ?n" "starts ! i = t" using that starting by auto
    then have "sw_active st1 ! i = None" using none [of i] by (simp add: st1(3) opened_def)
    then have "map_option snd (sw_active st3 ! i) = None" by (simp add: act3)
    then show ?thesis by simp
  qed
  define st4 where "st4 = fold (activate ?cur t) ?started st3"
  have st4: "sw_open st4 = open_pairs starts stops t" "length (sw_active st4) = ?n"
    "\<And>j. sw_active st4 ! j = (if j \<in> set ?started
        then Some (t, if Some j = ?cur then Primary else Secondary) else sw_active st3 ! j)"
    "\<And>j \<tau>. view_at st4 t j \<tau> = view_at st t j \<tau>"
    using activate_sessions [of ?started st3 ?cur t] started_none starting st3
    by (simp_all add: st4_def)
  have boundary: "sweep_boundary starts stops t starting stopping st = st4"
    using open_pairs_step [OF wf starting(1) stopping] st1(1)
    by (simp add: sweep_boundary_def start_sessions st4_def st3_def st2_def st1_def op Let_def)
  have active: "(sw_active st4 ! i = None \<longleftrightarrow> \<not> opened starts stops t i)
      \<and> (\<forall>s l. sw_active st4 ! i = Some (s, l) \<longrightarrow> s \<le> t \<and> l = layer_at starts stops t i)"
    if i: "i < ?n" for i
  proof (cases "starts ! i = t")
    case True
    show ?thesis
    proof (cases "t < stops ! i")
      case st: True
      then have "i \<in> set ?started" using True i starting by simp
      then show ?thesis
        using st True i by (auto simp: st4(3) opened_def layer_at_def eq_commute)
    next
      case False
      then have "i \<notin> set ?started" by simp
      moreover have "sw_active st1 ! i = None"
        using none [OF i] True by (simp add: st1(3) opened_def)
      then have "map_option snd (sw_active st3 ! i) = None" by (simp add: act3)
      ultimately show ?thesis using False by (auto simp: st4(3) opened_def)
    qed
  next
    case False
    then have ns: "i \<notin> set ?started" using starting by auto
    have st1i: "sw_active st1 ! i = (if stops ! i = t then None else sw_active st ! i)"
      using i by (simp add: st1(3) stopping)
    have n3: "sw_active st3 ! i = None \<longleftrightarrow> sw_active st1 ! i = None"
      using act3 [of i] by (cases "sw_active st3 ! i"; cases "sw_active st1 ! i")
        (auto split: if_splits)
    have op': "opened starts stops t i \<longleftrightarrow> sw_active st1 ! i \<noteq> None"
      using none [OF i] i False by (auto simp: st1i opened_def)
    have "s \<le> t \<and> l = layer_at starts stops t i" if s: "sw_active st3 ! i = Some (s, l)" for s l
    proof -
      obtain s0 l0 where s0: "sw_active st1 ! i = Some (s0, l0)" using n3 s by auto
      then have l0: "s0 < t" "l0 = layer_at starts stops (t - 1) i"
        using some [OF i] by (auto simp: st1i split: if_splits)
      have "s \<le> t" using time3 [OF s] s0 l0(1) by auto
      moreover have "l = layer_at starts stops t i"
        using act3 [of i] s s0 l0(2) by (auto simp: layer_at_def split: if_splits)
      ultimately show ?thesis by blast
    qed
    then show ?thesis using ns n3 op' by (auto simp: st4(3))
  qed
  have view4: "view_at st4 (t + 1) i \<tau> = (if \<tau> < t + 1 \<and> opened starts stops \<tau> i
      then {#layer_at starts stops \<tau> i#} else {#})" if i: "i < ?n" for i \<tau>
  proof -
    have "view_at st4 (t + 1) i \<tau> =
      (if \<tau> < t then (if opened starts stops \<tau> i then {#layer_at starts stops \<tau> i#} else {#})
       else if \<tau> < t + 1 then image_mset snd (mset_set (set_option (sw_active st4 ! i))) else {#})"
      using active [OF i] view [OF i] by (intro view_extend) (auto simp: st4(4))
    moreover have "\<tau> = t" if "\<not> \<tau> < t" "\<tau> < t + 1" using that by simp
    ultimately show ?thesis
      using active [OF i] by (cases "sw_active st4 ! i") auto
  qed
  show ?thesis
    unfolding boundary sweep_inv_def using st4(1,2) active view4 by (force simp: zless_add1_eq)
qed

section \<open>The sweep runs to the end\<close>

text \<open>The pending indices: sorted, and exactly those whose boundary is at or after \<open>t\<close>.\<close>

definition pending :: "int list \<Rightarrow> int \<Rightarrow> nat list \<Rightarrow> bool" where
  "pending bounds t ps \<longleftrightarrow>
     sorted (map (\<lambda>i. bounds ! i) ps) \<and> distinct ps
     \<and> set ps = {i. i < length bounds \<and> t \<le> bounds ! i}"

lemma sorted_takeWhile_set:
  "sorted (map f xs) \<Longrightarrow>
     set (takeWhile (\<lambda>x. f x \<le> t) xs) = {x \<in> set xs. f x \<le> (t :: int)}
     \<and> set (dropWhile (\<lambda>x. f x \<le> t) xs) = {x \<in> set xs. t < f x}"
  by (induction xs) force+

lemma pending_step:
  assumes p: "pending bounds t ps" and le: "t \<le> t'"
    and none: "\<forall>i < length bounds. bounds ! i < t \<or> t' \<le> bounds ! i"
  shows "pending bounds (t' + 1) (dropWhile (\<lambda>i. bounds ! i \<le> t') ps)"
    and "set (takeWhile (\<lambda>i. bounds ! i \<le> t') ps) = {i. i < length bounds \<and> bounds ! i = t'}"
    and "distinct (takeWhile (\<lambda>i. bounds ! i \<le> t') ps)"
proof -
  have s: "sorted (map (\<lambda>i. bounds ! i) ps)" and d: "distinct ps"
    and set: "set ps = {i. i < length bounds \<and> t \<le> bounds ! i}"
    using p by (auto simp: pending_def)
  have "map (\<lambda>i. bounds ! i) (dropWhile (\<lambda>i. bounds ! i \<le> t') ps)
      = dropWhile (\<lambda>x. x \<le> t') (map (\<lambda>i. bounds ! i) ps)"
    by (simp add: dropWhile_map comp_def)
  then have "sorted (map (\<lambda>i. bounds ! i) (dropWhile (\<lambda>i. bounds ! i \<le> t') ps))"
    using s by (simp add: sorted_dropWhile)
  moreover have "set (dropWhile (\<lambda>i. bounds ! i \<le> t') ps)
      = {i. i < length bounds \<and> t' + 1 \<le> bounds ! i}"
    using sorted_takeWhile_set [OF s, of t'] le set by force
  ultimately show "pending bounds (t' + 1) (dropWhile (\<lambda>i. bounds ! i \<le> t') ps)"
    unfolding pending_def using distinct_dropWhile [OF d] by blast
  show "set (takeWhile (\<lambda>i. bounds ! i \<le> t') ps) = {i. i < length bounds \<and> bounds ! i = t'}"
    using sorted_takeWhile_set [OF s, of t'] none le set by force
  show "distinct (takeWhile (\<lambda>i. bounds ! i \<le> t') ps)" using d by (rule distinct_takeWhile)
qed

lemma pending_first:
  assumes "pending bounds t (i # ps)"
  shows "t \<le> bounds ! i \<and> (\<forall>j < length bounds. bounds ! j < t \<or> bounds ! i \<le> bounds ! j)"
proof -
  have le: "bounds ! i \<le> bounds ! j" if "j \<in> set (i # ps)" for j
    using assms that by (auto simp: pending_def)
  have "set (i # ps) = {j. j < length bounds \<and> t \<le> bounds ! j}"
    using assms unfolding pending_def by blast
  then have mem: "j \<in> set (i # ps) \<longleftrightarrow> j < length bounds \<and> t \<le> bounds ! j" for j by blast
  have "t \<le> bounds ! i" using mem [of i] by simp
  moreover have "bounds ! j < t \<or> bounds ! i \<le> bounds ! j" if "j < length bounds" for j
    using that mem [of j] le [of j] by linarith
  ultimately show ?thesis by blast
qed

lemma next_boundary_gap:
  assumes "next_boundary starts stops ps pe = Some t'" "length starts = length stops"
    and "pending starts t ps" "pending stops t pe"
  shows "t \<le> t' \<and> (\<forall>i < length starts. starts ! i < t \<or> t' \<le> starts ! i)
    \<and> (\<forall>i < length stops. stops ! i < t \<or> t' \<le> stops ! i)"
proof (cases ps)
  case ps: Nil
  then have none: "\<forall>i < length starts. starts ! i < t"
    using assms(3) by (auto simp: pending_def not_le)
  show ?thesis
  proof (cases pe)
    case Nil
    with ps assms(1) show ?thesis by (simp add: next_boundary_def)
  next
    case (Cons j pe')
    with pending_first [of stops t j pe'] assms none ps show ?thesis
      by (auto simp: next_boundary_def)
  qed
next
  case ps: (Cons i ps')
  note f = pending_first [OF assms(3) [unfolded ps]]
  show ?thesis
  proof (cases pe)
    case Nil
    then have none: "\<forall>i < length stops. stops ! i < t"
      using assms(4) by (auto simp: pending_def not_le)
    with f assms ps Nil show ?thesis by (auto simp: next_boundary_def)
  next
    case (Cons j pe')
    note g = pending_first [OF assms(4) [unfolded Cons]]
    have "t' = min (starts ! i) (stops ! j)" using assms(1) ps Cons by (simp add: next_boundary_def)
    then have "t' \<le> starts ! i" "t' \<le> stops ! j" "t \<le> t'" using f g by auto
    then show ?thesis using f g by (meson order_trans)
  qed
qed

lemma sweep_final:
  assumes wf: "length starts = length stops" "\<forall>i < length starts. starts ! i \<le> stops ! i"
    and "pending starts t ps" "pending stops t pe" "sweep_inv starts stops t st"
  shows "\<exists>T. sweep_inv starts stops T (sweep starts stops ps pe st)
    \<and> (\<forall>i < length starts. stops ! i < T)"
  using assms
proof (induction starts stops ps pe st arbitrary: t rule: sweep.induct)
  case (1 starts stops ps pe st)
  show ?case
  proof (cases "next_boundary starts stops ps pe")
    case None
    then have "ps = []" "pe = []" by (auto simp: next_boundary_def split: list.splits)
    then have "\<forall>i < length starts. stops ! i < t"
      using 1(2,5) by (auto simp: pending_def not_le)
    with None 1(6) show ?thesis by (subst sweep.simps) auto
  next
    case (Some t')
    let ?st = "sweep_boundary starts stops t' (takeWhile (\<lambda>i. starts ! i \<le> t') ps)
        (takeWhile (\<lambda>i. stops ! i \<le> t') pe) st"
    have gap: "t \<le> t'" "\<forall>i < length starts. starts ! i < t \<or> t' \<le> starts ! i"
      "\<forall>i < length stops. stops ! i < t \<or> t' \<le> stops ! i"
      using next_boundary_gap [OF Some 1(2,4,5)] by blast+
    have inv: "sweep_inv starts stops t' st"
      using gap 1(2) by (intro sweep_inv_advance [OF 1(6)]) auto
    have "sweep_inv starts stops (t' + 1) ?st"
      using pending_step [OF 1(4) gap(1,2)] pending_step [OF 1(5) gap(1,3)] 1(2,3)
      by (intro sweep_boundary_inv [OF inv]) auto
    from 1(1) [OF Some 1(2,3) pending_step(1) [OF 1(4) gap(1,2)] pending_step(1) [OF 1(5) gap(1,3)]
        this] Some
    show ?thesis by (subst sweep.simps) simp
  qed
qed

section \<open>Only stretches of positive width are emitted by the sweep\<close>

definition wide :: "nat \<Rightarrow> layered_session list \<Rightarrow> bool" where
  "wide n out \<longleftrightarrow> (\<forall>r \<in> set out. ls_session r < n \<and> ls_start r < ls_stop r)"

lemma wide_push: "i < n \<Longrightarrow> wide n out \<Longrightarrow> wide n (push_segment i t seg out)"
  by (cases seg) (auto simp: wide_def push_segment.simps)

lemma stop_sessions_wide:
  "\<forall>i \<in> set is. i < n \<Longrightarrow> wide n (sw_out st) \<Longrightarrow>
     wide n (sw_out (fold (stop_session starts t) is st))"
  by (induction "is" arbitrary: st)
    (simp_all add: stop_session_def Let_def wide_push split: option.split)

lemma transition_active_wide:
  "\<forall>i. p = Some i \<longrightarrow> i < n \<Longrightarrow> wide n (sw_out st) \<Longrightarrow> wide n (sw_out (transition_active p l t st))"
  by (auto simp: transition_active_def layer_transition_def wide_push split: option.split)

lemma activate_sessions_out: "sw_out (fold (activate p t) is st) = sw_out st"
  by (induction "is" arbitrary: st) (simp_all add: activate_def)

lemma newest_open_fst:
  "newest_open S = Some i \<Longrightarrow> finite S \<Longrightarrow> S \<subseteq> UNIV \<times> {..<n} \<Longrightarrow> i < n"
  using Max_in [of S] by (fastforce simp: newest_open_def split: if_splits)

lemma sweep_boundary_wide:
  assumes "\<forall>i \<in> set stopping. i < n" "\<forall>i \<in> set starting. i < n"
    and "wide n (sw_out st)" "finite (sw_open st)" "sw_open st \<subseteq> UNIV \<times> {..<n}"
  shows "wide n (sw_out (sweep_boundary starts stops t starting stopping st))
    \<and> finite (sw_open (sweep_boundary starts stops t starting stopping st))
    \<and> sw_open (sweep_boundary starts stops t starting stopping st) \<subseteq> UNIV \<times> {..<n}"
proof -
  let ?st1 = "fold (stop_session starts t) stopping st"
  let ?S = "sw_open ?st1 \<union> (\<lambda>i. (starts ! i, i)) ` {i \<in> set starting. t < stops ! i}"
  have "sw_open (fold (stop_session starts t) is st) \<subseteq> sw_open st" for "is" st
    by (induction "is" arbitrary: st) (force simp: stop_session_def Let_def split: option.splits)+
  then have op1: "sw_open ?st1 \<subseteq> sw_open st" .
  then have fin: "finite ?S" using assms(4) by (auto intro: finite_subset)
  have sub: "?S \<subseteq> UNIV \<times> {..<n}" using op1 assms(2,5) by auto
  have act: "sw_open (fold (activate p t) is st) = sw_open st" for p "is" st
    by (induction "is" arbitrary: st) (simp_all add: activate_def)
  show ?thesis
    using stop_sessions_wide [OF assms(1,3), of starts t] fin sub
      newest_open_fst [OF _ assms(4,5)] newest_open_fst [OF _ fin sub]
    by (auto simp: sweep_boundary_def Let_def start_sessions activate_sessions_out act
        transition_active_fields intro!: transition_active_wide)
qed

lemma sweep_wide:
  assumes "\<forall>i \<in> set ps. i < n" "\<forall>i \<in> set pe. i < n"
    and "wide n (sw_out st)" "finite (sw_open st)" "sw_open st \<subseteq> UNIV \<times> {..<n}"
  shows "wide n (sw_out (sweep starts stops ps pe st))"
  using assms
proof (induction starts stops ps pe st rule: sweep.induct)
  case (1 starts stops ps pe st)
  show ?case
  proof (cases "next_boundary starts stops ps pe")
    case None
    with 1 show ?thesis by (subst sweep.simps) simp
  next
    case (Some t)
    let ?st = "sweep_boundary starts stops t (takeWhile (\<lambda>i. starts ! i \<le> t) ps)
        (takeWhile (\<lambda>i. stops ! i \<le> t) pe) st"
    have "wide n (sw_out ?st) \<and> finite (sw_open ?st) \<and> sw_open ?st \<subseteq> UNIV \<times> {..<n}"
      using 1 by (intro sweep_boundary_wide) (auto dest: set_takeWhileD)
    moreover have "\<forall>i \<in> set (dropWhile (\<lambda>i. starts ! i \<le> t) ps). i < n"
      "\<forall>i \<in> set (dropWhile (\<lambda>i. stops ! i \<le> t) pe). i < n"
      using 1(2,3) by (auto dest: set_dropWhileD)
    ultimately show ?thesis using 1(1) [OF Some] Some by (subst sweep.simps) simp
  qed
qed

section \<open>The whole operation\<close>

lemma pending_init:
  fixes bounds :: "int list"
  assumes "\<forall>x \<in> set bounds. t \<le> x"
  shows "pending bounds t (sort_key (\<lambda>i. (bounds ! i, i)) [0..<length bounds])"
proof -
  let ?ps = "sort_key (\<lambda>i. (bounds ! i, i)) [0..<length bounds]"
  have "sorted (map (\<lambda>i. (bounds ! i, i)) ?ps)" by (rule sorted_sort_key)
  then have "sorted (map (\<lambda>i. bounds ! i) ?ps)"
    unfolding sorted_map by (rule sorted_wrt_mono_rel [rotated]) auto
  then show ?thesis using assms by (auto simp: pending_def)
qed

lemma split_rows:
  assumes len: "length starts = length stops"
    and wf: "\<forall>i < length starts. starts ! i \<le> stops ! i"
  shows "\<exists>rows. split_overlapping_sessions starts stops
      = Inr (sort_key (\<lambda>r. (ls_session r, ls_start r)) (rows @ zero_width_rows starts stops))
    \<and> wide (length starts) rows
    \<and> (\<forall>i < length starts. \<forall>\<tau>. row_layers rows i \<tau> =
         (if opened starts stops \<tau> i then {#layer_at starts stops \<tau> i#} else {#}))"
proof -
  let ?n = "length starts"
  let ?ps = "sort_key (\<lambda>i. (starts ! i, i)) [0..<?n]"
  let ?pe = "sort_key (\<lambda>i. (stops ! i, i)) [0..<?n]"
  let ?init = "\<lparr>sw_open = {}, sw_active = replicate ?n None, sw_out = []\<rparr>"
  define t where "t = Min (insert 0 (set starts))"
  have lo: "\<forall>x \<in> set starts. t \<le> x" by (simp add: t_def)
  moreover have "\<forall>x \<in> set stops. t \<le> x"
  proof
    fix x
    assume "x \<in> set stops"
    then obtain i where i: "i < ?n" "x = stops ! i" using len by (auto simp: in_set_conv_nth)
    then have "t \<le> starts ! i" using lo by simp
    then show "t \<le> x" using wf i by force
  qed
  ultimately have pend: "pending starts t ?ps" "pending stops t ?pe"
    using pending_init [of starts t] pending_init [of stops t] len by simp_all
  have closed: "\<not> opened starts stops \<tau> i" if "\<tau> < t" for \<tau> i
    using lo that by (force simp: opened_def dest!: nth_mem)
  have "sweep_inv starts stops t ?init"
    using closed closed [of "t - 1"]
    by (auto simp: sweep_inv_def open_pairs_def view_at_def row_layers_def)
  then obtain T where T: "sweep_inv starts stops T (sweep starts stops ?ps ?pe ?init)"
    "\<forall>i < ?n. stops ! i < T"
    using sweep_final [OF len wf pend] by blast
  let ?st = "sweep starts stops ?ps ?pe ?init"
  have rows: "row_layers (sw_out ?st) i \<tau> =
      (if opened starts stops \<tau> i then {#layer_at starts stops \<tau> i#} else {#})" if i: "i < ?n" for i \<tau>
  proof -
    have "\<not> opened starts stops (T - 1) i" using T(2) i by (force simp: opened_def)
    then have "sw_active ?st ! i = None" using T(1) i by (simp add: sweep_inv_def)
    then have "row_layers (sw_out ?st) i \<tau> = view_at ?st T i \<tau>" by (simp add: view_at_def)
    moreover have "opened starts stops \<tau> i \<Longrightarrow> \<tau> < T" using T(2) i by (force simp: opened_def)
    ultimately show ?thesis using T(1) i by (auto simp: sweep_inv_def)
  qed
  have "wide ?n (sw_out ?st)" using len by (intro sweep_wide) (auto simp: wide_def)
  moreover have "split_overlapping_sessions starts stops
      = Inr (sort_key (\<lambda>r. (ls_session r, ls_start r))
          (sw_out ?st @ zero_width_rows starts stops))"
    using len wf by (force simp: split_overlapping_sessions_def Let_def not_less)
  ultimately show ?thesis using rows by (intro exI [of _ "sw_out ?st"]) blast
qed

lemma rows_at_layers:
  assumes "row_layers rows i \<tau> = L"
  shows "mset (map ls_layer (rows_at
      (sort_key (\<lambda>r. (ls_session r, ls_start r)) (rows @ zero_width_rows starts stops)) i \<tau>)) = L"
proof -
  let ?P = "\<lambda>r. ls_session r = i \<and> ls_start r \<le> \<tau> \<and> \<tau> < ls_stop r"
  have "filter ?P (zero_width_rows starts stops) = []"
    by (auto simp: filter_empty_conv zero_width_rows_def)
  then have "filter_mset ?P (mset (zero_width_rows starts stops)) = {#}"
    by (metis mset.simps(1) mset_filter)
  with assms show ?thesis by (simp add: row_layers_def rows_at_def)
qed

lemma layer_at_newest:
  "opened starts stops \<tau> i \<Longrightarrow>
     layer_at starts stops \<tau> i = Primary \<longleftrightarrow> newest_at starts stops \<tau> i"
  by (auto simp: layer_at_def newest_open_iff opened_def less_le newest_at_def)

text \<open>Every instant of a session is in exactly one of its rows, primary iff the session is the newest.\<close>

lemma split_rows_pointwise:
  assumes "length starts = length stops" "\<forall>i < length starts. starts ! i \<le> stops ! i"
  shows "\<exists>out. split_overlapping_sessions starts stops = Inr out
    \<and> (\<forall>i < length starts. \<forall>\<tau>.
         if starts ! i \<le> \<tau> \<and> \<tau> < stops ! i
         then \<exists>r. rows_at out i \<tau> = [r] \<and> (ls_layer r = Primary \<longleftrightarrow> newest_at starts stops \<tau> i)
         else rows_at out i \<tau> = [])"
proof -
  obtain rows where R: "split_overlapping_sessions starts stops
      = Inr (sort_key (\<lambda>r. (ls_session r, ls_start r)) (rows @ zero_width_rows starts stops))"
    "\<forall>i < length starts. \<forall>\<tau>. row_layers rows i \<tau> =
         (if opened starts stops \<tau> i then {#layer_at starts stops \<tau> i#} else {#})"
    using split_rows [OF assms] by blast
  let ?out = "sort_key (\<lambda>r. (ls_session r, ls_start r)) (rows @ zero_width_rows starts stops)"
  have "if opened starts stops \<tau> i
      then \<exists>r. rows_at ?out i \<tau> = [r] \<and> (ls_layer r = Primary \<longleftrightarrow> newest_at starts stops \<tau> i)
      else rows_at ?out i \<tau> = []" if i: "i < length starts" for i \<tau>
  proof (cases "opened starts stops \<tau> i")
    case True
    then have "mset (map ls_layer (rows_at ?out i \<tau>)) = {#layer_at starts stops \<tau> i#}"
      using rows_at_layers [OF R(2) [rule_format, OF i]] by (simp only: if_True)
    then have "map ls_layer (rows_at ?out i \<tau>) = [layer_at starts stops \<tau> i]" by (rule mset_singleD)
    then obtain r where "rows_at ?out i \<tau> = [r]" "ls_layer r = layer_at starts stops \<tau> i"
      by (auto simp only: map_eq_Cons_conv map_is_Nil_conv)
    with True layer_at_newest [OF True] show ?thesis by simp
  next
    case False
    then have "mset (map ls_layer (rows_at ?out i \<tau>)) = {#}"
      using rows_at_layers [OF R(2) [rule_format, OF i]] by (simp only: if_False)
    then have "rows_at ?out i \<tau> = []" by (simp only: mset_zero_iff map_is_Nil_conv)
    with False show ?thesis by (simp only: if_False)
  qed
  then have "\<forall>i < length starts. \<forall>\<tau>.
         if starts ! i \<le> \<tau> \<and> \<tau> < stops ! i
         then \<exists>r. rows_at ?out i \<tau> = [r] \<and> (ls_layer r = Primary \<longleftrightarrow> newest_at starts stops \<tau> i)
         else rows_at ?out i \<tau> = []"
    by (simp add: opened_def)
  with R(1) show ?thesis by (intro exI conjI)
qed

end
