(* ===== verification/Matcher_Properties.thy ===== *)
theory Matcher_Properties
  imports Matcher_Proximity Forward_Pairing Split_Sessions
begin

text \<open>
  What the app-usage matcher promises its callers, stated over the entry points: the optimised
  matchers agree with the reference ones, every opened episode is reported exactly once, every close
  is justified by a row of the stream, the teardown grace, and the errors.
\<close>

section \<open>Inputs the proximity entry point accepts\<close>

definition proximity_input :: "match_input \<Rightarrow> bool list \<Rightarrow> int \<Rightarrow> bool" where
  "proximity_input inp eligible proximity_ns \<longleftrightarrow>
     aligned inp \<and> length eligible = length (app_codes inp) \<and> 0 < proximity_ns
     \<and> (\<forall>c \<in> set (app_codes inp). 0 \<le> c) \<and> length (app_codes inp) \<le> 2 ^ 31"

lemma proximity_entry:
  assumes "proximity_input inp eligible proximity_ns"
  shows "match_app_usage_update_indices_with_proximity_openers_core inp eligible opts proximity_ns
    = Inr (fused_report inp opts eligible (held_open inp opts (resumed inp) proximity_ns))"
  using assms match_legacy_spec match_sorted_spec [of inp]
  by (auto simp: match_app_usage_update_indices_with_proximity_openers_core_def proximity_input_def
      validate_lengths_aligned windows_sorted_iff ordered_input_def)

interpretation proximity: episode_rule
  "\<lambda>(inp, eligible, opts, proximity_ns).
     match_app_usage_update_indices_with_proximity_openers_core inp eligible opts proximity_ns"
  "\<lambda>(inp, eligible, opts, proximity_ns). proximity_input inp eligible proximity_ns"
  "\<lambda>(inp, eligible, opts, proximity_ns). openers_of inp eligible"
  by unfold_locales
    (auto simp: proximity_entry fused_report_well_reported)

interpretation update_core: episode_rule
  "\<lambda>(inp, opts). match_app_usage_update_indices_core inp opts"
  "\<lambda>(inp, opts). ordered_input inp"
  "\<lambda>(inp, opts). openers_of inp (resumed inp)"
proof (unfold_locales, goal_cases)
  case (1 i)
  then show ?case by (cases i) simp
next
  case (2 i)
  then show ?case using match_app_usage_update_indices_core_spec by (cases i) fastforce
next
  case (3 i out)
  obtain inp opts where i: "i = (inp, opts)" by (cases i)
  with 3 match_app_usage_update_indices_core_spec [of inp opts] obtain log ends where
    R: "reports_log inp (resumed inp) log ends (missing_indices out) out"
      "mset (log @ ends) = mset (fused_closed inp opts (resumed inp) never_held)"
      "mset (missing_indices out) = mset (fused_missing inp opts (resumed inp) never_held)"
    by auto
  have "mset (map fst (log @ ends)) + mset (missing_indices out)
      = mset (openers_of inp (resumed inp))"
    using R(2,3) fused_partition [of inp opts "resumed inp" never_held] by (metis mset_map)
  then show ?case using reports_log_well_reported [OF R(1)] i by simp
qed

section \<open>What a close has to be justified by\<close>

definition close_justified ::
    "match_input \<Rightarrow> match_options \<Rightarrow> nat \<Rightarrow> nat \<Rightarrow> episode_close_reason \<Rightarrow> bool" where
  "close_justified inp opts j e reason \<longleftrightarrow>
     j < e \<and> e < length (app_codes inp)
     \<and> (case reason of
          SameAppStop \<Rightarrow>
            same_stop inp ! e \<and> app_codes inp ! j = app_codes inp ! e \<and> duration_ok inp opts True e j
        | OtherAppStop \<Rightarrow>
            other_stop inp ! e \<and> app_codes inp ! j \<noteq> app_codes inp ! e \<and> \<not> background inp ! j
            \<and> duration_ok inp opts True e j
        | ActivityStoppedFallback \<Rightarrow>
            stopped inp ! e \<and> use_activity_stopped_as_fallback opts
            \<and> \<not> same_stop inp ! e \<and> \<not> other_stop inp ! e
            \<and> app_codes inp ! j = app_codes inp ! e
            \<and> duration_ok inp opts (apply_threshold_to_fallback opts) e j
        | EndOfStream \<Rightarrow> e = length (app_codes inp) - 1 \<and> duration_ok inp opts True e j
        | _ \<Rightarrow> False)"

lemma compatible_justified:
  assumes "is_compatible_open_start_for_stop inp opts e j" "j < e" "e < length (app_codes inp)"
  shows "close_justified inp opts j e (legacy_close_reason inp e j)"
  using assms
  by (auto simp: is_compatible_open_start_for_stop_def legacy_close_reason_def close_justified_def
      Let_def split: if_splits)

text \<open>The run's log of closes: each by a later compatible event, none held back.\<close>

lemma fused_run_log_valid:
  assumes "fused_run inp opts eligible held n = (opens, closed)" "(j, e) \<in> set closed"
  shows "j < e \<and> e < n \<and> is_compatible_open_start_for_stop inp opts e j
    \<and> (\<not> allow_stop_event_reuse opts \<longrightarrow> \<not> held e j)"
  using assms
proof (induction n arbitrary: opens closed)
  case 0
  then show ?case by simp
next
  case (Suc n)
  obtain opens' closed' where run: "fused_run inp opts eligible held n = (opens', closed')"
    by (cases "fused_run inp opts eligible held n")
  let ?cs = "fused_closes inp opts (held n) opens' n"
  have closed: "closed = closed' @ map (\<lambda>j. (j, n)) ?cs"
    using Suc.prems(1) by (simp add: fused_run_Suc run fused_step_def Let_def)
  show ?case
  proof (cases "(j, e) \<in> set closed'")
    case True
    with Suc.IH [OF run] show ?thesis by auto
  next
    case False
    then have "e = n" "j \<in> set ?cs" using Suc.prems(2) closed by auto
    moreover have "j < n" if "j \<in> set opens'"
      using fused_run_inv [of inp opts eligible n held] that by (auto simp: run fused_inv_def)
    moreover have "\<not> held n j" if "j \<in> set ?cs" "\<not> allow_stop_event_reuse opts"
      using that by (auto simp: fused_closes_def split: option.splits if_splits)
    ultimately show ?thesis
      using fused_closes_subset fused_closes_compatible by fastforce
  qed
qed

text \<open>A report read back: the log of closes, then the ends of the stream.\<close>

definition report_entry ::
    "match_input \<Rightarrow> match_options \<Rightarrow> nat list \<Rightarrow> (nat \<times> nat) list \<Rightarrow> nat \<Rightarrow> nat \<Rightarrow> nat
      \<Rightarrow> episode_close_reason \<Rightarrow> bool" where
  "report_entry inp opts opens closed k j e reason \<longleftrightarrow>
     k < length closed \<and> (j, e) = closed ! k \<and> reason = legacy_close_reason inp e j
     \<or> length closed \<le> k \<and> closes_at_end inp opts j \<and> j \<in> set opens
       \<and> e = length (app_codes inp) - 1 \<and> reason = EndOfStream"

lemma fused_report_entry:
  assumes run: "fused_run inp opts eligible held (length (app_codes inp)) = (opens, closed)"
    and k: "k < length (stop_start_indices (fused_report inp opts eligible held))"
  shows "report_entry inp opts opens closed k
      (stop_start_indices (fused_report inp opts eligible held) ! k)
      (stop_event_indices (fused_report inp opts eligible held) ! k)
      (stop_reasons (fused_report inp opts eligible held) ! k)"
proof (cases "k < length closed")
  case True
  then show ?thesis
    by (simp add: report_entry_def fused_report_def run Let_def nth_append case_prod_beta)
next
  case False
  let ?ends = "filter (closes_at_end inp opts) opens"
  have "k - length closed < length ?ends"
    using k False by (simp add: fused_report_def run Let_def)
  then have "?ends ! (k - length closed) \<in> set ?ends" by (rule nth_mem)
  with False k show ?thesis
    by (auto simp: report_entry_def fused_report_def run Let_def nth_append)
qed

lemma report_entry_cases:
  assumes "fused_run inp opts eligible held (length (app_codes inp)) = (opens, closed)"
    and "report_entry inp opts opens closed k j e reason"
  shows "(j, e) \<in> set closed \<and> reason = legacy_close_reason inp e j
      \<and> j < e \<and> e < length (app_codes inp)
      \<and> is_compatible_open_start_for_stop inp opts e j
      \<and> (\<not> allow_stop_event_reuse opts \<longrightarrow> \<not> held e j)
    \<or> closes_at_end inp opts j \<and> e = length (app_codes inp) - 1 \<and> reason = EndOfStream"
proof -
  consider "(j, e) \<in> set closed" "reason = legacy_close_reason inp e j"
    | "closes_at_end inp opts j" "e = length (app_codes inp) - 1" "reason = EndOfStream"
    using assms(2) by (auto simp: report_entry_def)
  then show ?thesis using fused_run_log_valid [OF assms(1)] by cases blast+
qed

lemma fused_report_justified:
  assumes "k < length (stop_start_indices (fused_report inp opts eligible held))"
  shows "close_justified inp opts (stop_start_indices (fused_report inp opts eligible held) ! k)
    (stop_event_indices (fused_report inp opts eligible held) ! k)
    (stop_reasons (fused_report inp opts eligible held) ! k)"
proof -
  obtain opens closed where
    run: "fused_run inp opts eligible held (length (app_codes inp)) = (opens, closed)"
    by (cases "fused_run inp opts eligible held (length (app_codes inp))")
  from report_entry_cases [OF run fused_report_entry [OF run assms]] show ?thesis
    using compatible_justified
    by (elim disjE conjE) (auto simp: close_justified_def closes_at_end_def Let_def)
qed

section \<open>Comparing the outputs of two matchers\<close>

text \<open>Closes with distinct starts scatter to the same column in any order.\<close>

lemma scatter_stops_mset:
  assumes "mset log = mset log'" "distinct (map fst log)"
  shows "scatter_stops inp log col = scatter_stops inp log' col"
proof (rule nth_equalityI, simp)
  fix j
  assume "j < length (scatter_stops inp log col)"
  then have j: "j < length col" by simp
  have d: "distinct (map fst log')" using assms by (metis mset_eq_imp_distinct_iff mset_map)
  have "map_of log j = Some e \<longleftrightarrow> map_of log' j = Some e" for e
    using assms d by (metis map_of_eq_Some_iff mset_eq_setD)
  then have "map_of log j = map_of log' j" by (metis option.exhaust)
  then show "scatter_stops inp log col ! j = scatter_stops inp log' col ! j"
    using j assms(2) d by (simp add: nth_scatter_stops)
qed

text \<open>The opener column is only read through the opener flags.\<close>

lemma compatible_resumed [simp]:
  "is_compatible_open_start_for_stop (inp\<lparr>resumed := r\<rparr>) opts = is_compatible_open_start_for_stop inp opts"
  by (simp add: is_compatible_open_start_for_stop_def fun_eq_iff)

lemma fused_run_resumed [simp]:
  "fused_run (inp\<lparr>resumed := r\<rparr>) opts = fused_run inp opts"
proof -
  have "fused_closes (inp\<lparr>resumed := r\<rparr>) opts = fused_closes inp opts"
    by (simp add: fused_closes_def fun_eq_iff)
  then have "fused_step (inp\<lparr>resumed := r\<rparr>) opts = fused_step inp opts"
    by (simp add: fused_step_def fun_eq_iff)
  then show ?thesis by (intro ext) (simp add: fused_run_def)
qed

lemma fused_closed_resumed [simp]:
  "fused_closed (inp\<lparr>resumed := r\<rparr>) opts = fused_closed inp opts"
  "fused_missing (inp\<lparr>resumed := r\<rparr>) opts = fused_missing inp opts"
proof -
  have "closes_at_end (inp\<lparr>resumed := r\<rparr>) opts = closes_at_end inp opts"
    by (simp add: closes_at_end_def fun_eq_iff Let_def)
  then show "fused_closed (inp\<lparr>resumed := r\<rparr>) opts = fused_closed inp opts"
    "fused_missing (inp\<lparr>resumed := r\<rparr>) opts = fused_missing inp opts"
    by (intro ext; simp add: fused_closed_def fused_missing_def)+
qed

lemma ordered_input_resumed:
  "length r = length (resumed inp) \<Longrightarrow> ordered_input (inp\<lparr>resumed := r\<rparr>) = ordered_input inp"
  by (simp add: ordered_input_def aligned_def)

text \<open>Only the open starts of the events passed are asked whether they are held.\<close>

lemma fused_run_held_cong:
  assumes "\<And>i j. j < i \<Longrightarrow> i < n \<Longrightarrow> held i j = held' i j"
  shows "fused_run inp opts eligible held n = fused_run inp opts eligible held' n"
  using assms
proof (induction n)
  case 0
  show ?case by simp
next
  case (Suc n)
  obtain opens closed where run: "fused_run inp opts eligible held' n = (opens, closed)"
    by (cases "fused_run inp opts eligible held' n")
  have "\<forall>j \<in> set opens. j < n"
    using fused_run_inv [of inp opts eligible n held'] by (simp add: run fused_inv_def)
  then have "fused_closes inp opts (held n) opens n = fused_closes inp opts (held' n) opens n"
    using Suc.prems [of _ n]
    by (auto simp: fused_closes_def split: option.split dest!: find_SomeD)
  then show ?case using Suc.IH Suc.prems by (simp add: fused_run_Suc run fused_step_def)
qed

text \<open>With no grace and a stream in time order nothing is held.\<close>

lemma held_open_zero:
  assumes "ordered_input inp" "j < length (app_codes inp)"
  shows "\<not> held_open inp opts native 0 i j"
proof -
  have "timestamp_ns inp ! k \<le> timestamp_ns inp ! j"
    if "previous_same_app inp j (app_codes inp ! j) = Some k" for k
    using that assms ordered_input_mono [of inp k j]
    by (auto simp: previous_same_app_def dest!: find_SomeD)
  then show ?thesis by (force simp: held_open_def reresumed_def split: option.splits)
qed

lemma fused_closed_held_zero:
  assumes "ordered_input inp"
  shows "fused_closed inp opts eligible (held_open inp opts native 0) =
      fused_closed inp opts eligible never_held"
    and "fused_missing inp opts eligible (held_open inp opts native 0) =
      fused_missing inp opts eligible never_held"
proof -
  have "fused_run inp opts eligible (held_open inp opts native 0) (length (app_codes inp))
      = fused_run inp opts eligible never_held (length (app_codes inp))"
    using held_open_zero [OF assms] by (intro fused_run_held_cong) auto
  then show "fused_closed inp opts eligible (held_open inp opts native 0) =
      fused_closed inp opts eligible never_held"
    "fused_missing inp opts eligible (held_open inp opts native 0) =
      fused_missing inp opts eligible never_held"
    by (simp_all add: fused_closed_def fused_missing_def)
qed

text \<open>The pairs of a report are its log.\<close>

lemma fused_report_pairs:
  "zip (stop_start_indices (fused_report inp opts eligible held))
       (stop_event_indices (fused_report inp opts eligible held)) = fused_closed inp opts eligible held"
  "missing_indices (fused_report inp opts eligible held) = fused_missing inp opts eligible held"
proof -
  obtain opens closed where run:
    "fused_run inp opts eligible held (length (app_codes inp)) = (opens, closed)"
    by (cases "fused_run inp opts eligible held (length (app_codes inp))")
  let ?log = "closed @ map (\<lambda>j. (j, length (app_codes inp) - 1)) (filter (closes_at_end inp opts) opens)"
  have "stop_start_indices (fused_report inp opts eligible held) = map fst ?log"
    "stop_event_indices (fused_report inp opts eligible held) = map snd ?log"
    by (simp_all add: fused_report_def run Let_def)
  then show "zip (stop_start_indices (fused_report inp opts eligible held))
       (stop_event_indices (fused_report inp opts eligible held)) = fused_closed inp opts eligible held"
    unfolding fused_closed_def run prod.case by (simp only: zip_map_fst_snd)
  show "missing_indices (fused_report inp opts eligible held) = fused_missing inp opts eligible held"
    by (simp add: fused_report_def fused_missing_def run Let_def)
qed

section \<open>The properties\<close>


abbreviation demo_input :: match_input where
  "demo_input \<equiv> \<lparr>app_codes = [0, 0, 0, 0, 1, 0], timestamp_ns = [0, 10, 12, 14, 20, 30],
     resumed = [True, False, True, False, True, False],
     same_stop = [False, True, False, False, False, True],
     other_stop = [False, False, False, False, False, False],
     stopped = [False, False, False, True, False, False],
     background = [False, False, False, False, False, False]\<rparr>"

abbreviation demo_options :: "bool \<Rightarrow> match_options" where
  "demo_options reuse \<equiv> \<lparr>allow_stop_event_reuse = reuse, use_activity_stopped_as_fallback = True,
     apply_threshold_to_fallback = False, long_duration_threshold_ns = 100\<rparr>"


text \<open>C7: every opened episode is reported exactly once. The matcher returns; the starts it reports
  are the eligible rows in stream order; each of them is either paired with one end or listed as
  missing one, never both and never twice; and the reason vectors are as long as the index vectors
  they annotate.\<close>

theorem proximity_exactly_once:
  assumes "proximity_input inp eligible proximity_ns"
  shows "\<exists>out. match_app_usage_update_indices_with_proximity_openers_core inp eligible opts
        proximity_ns = Inr out
    \<and> start_indices out = filter (\<lambda>i. eligible ! i) [0..<length (app_codes inp)]
    \<and> distinct (stop_start_indices out @ missing_indices out)
    \<and> set (stop_start_indices out) \<union> set (missing_indices out) = set (start_indices out)
    \<and> length (stop_event_indices out) = length (stop_start_indices out)
    \<and> length (stop_reasons out) = length (stop_start_indices out)
    \<and> length (missing_reasons out) = length (missing_indices out)"
  using proximity.total_report [of "(inp, eligible, opts, proximity_ns)"]
    proximity.outcome_unique [of "(inp, eligible, opts, proximity_ns)"]
    proximity.outcome_complete [of "(inp, eligible, opts, proximity_ns)"] assms
  by (auto simp: well_reported_def)

theorem proximity_exactly_once_witness:
  "\<exists>out. match_app_usage_update_indices_with_proximity_openers_core demo_input
        (resumed demo_input) (demo_options True) 5 = Inr out
    \<and> start_indices out = [0, 2, 4]
    \<and> distinct (stop_start_indices out @ missing_indices out)"
  using proximity_exactly_once [of demo_input "resumed demo_input" 5 "demo_options True"]
  by (auto simp: proximity_input_def aligned_def upt_conv_Cons)

text \<open>C10: every end is justified by the row it names. The end is a later row; a same-app stop
  carries the start's app, an other-app stop another app and the start is not a background app, a
  fallback stop is a stopped row of the app that is no other kind of stop and only when the option
  allows it, an end of stream is the last row; and the duration is non-negative and, except for a
  fallback stop with the option off, within the threshold.\<close>

theorem proximity_closes_justified:
  assumes "proximity_input inp eligible proximity_ns"
  shows "\<exists>out. match_app_usage_update_indices_with_proximity_openers_core inp eligible opts
        proximity_ns = Inr out
    \<and> (\<forall>k < length (stop_start_indices out).
         close_justified inp opts (stop_start_indices out ! k) (stop_event_indices out ! k)
           (stop_reasons out ! k))"
  using proximity_entry [OF assms] fused_report_justified by simp

theorem proximity_closes_justified_witness:
  "\<exists>out. match_app_usage_update_indices_with_proximity_openers_core demo_input
        (resumed demo_input) (demo_options True) 5 = Inr out
    \<and> (\<forall>k < length (stop_start_indices out).
         close_justified demo_input (demo_options True) (stop_start_indices out ! k)
           (stop_event_indices out ! k) (stop_reasons out ! k))"
  by (rule proximity_closes_justified) (simp add: proximity_input_def aligned_def)

text \<open>C11: without stop-event reuse an event ends at most one episode: two closes of a report by
  observed stops name different events.\<close>

theorem proximity_one_close_per_stop:
  assumes "proximity_input inp eligible proximity_ns" "\<not> allow_stop_event_reuse opts"
  shows "\<exists>out. match_app_usage_update_indices_with_proximity_openers_core inp eligible opts
        proximity_ns = Inr out
    \<and> (\<forall>k < length (stop_start_indices out). \<forall>m < k.
         stop_reasons out ! k \<noteq> EndOfStream \<and> stop_reasons out ! m \<noteq> EndOfStream \<longrightarrow>
           stop_event_indices out ! k \<noteq> stop_event_indices out ! m)"
proof -
  let ?held = "held_open inp opts (resumed inp) proximity_ns"
  let ?out = "fused_report inp opts eligible ?held"
  obtain opens closed where
    run: "fused_run inp opts eligible ?held (length (app_codes inp)) = (opens, closed)"
    by (cases "fused_run inp opts eligible ?held (length (app_codes inp))")
  have dist: "distinct (map snd closed)"
    using fused_run_inv [of inp opts eligible "length (app_codes inp)" ?held] assms(2)
    by (simp add: run fused_inv_def)
  have entry: "k < length closed \<and> stop_event_indices ?out ! k = map snd closed ! k"
    if "k < length (stop_start_indices ?out)" "stop_reasons ?out ! k \<noteq> EndOfStream" for k
    using fused_report_entry [OF run that(1)] that(2)
    by (auto simp: report_entry_def) (metis snd_conv)
  have "stop_event_indices ?out ! k \<noteq> stop_event_indices ?out ! m"
    if "k < length (stop_start_indices ?out)" "m < k"
      "stop_reasons ?out ! k \<noteq> EndOfStream" "stop_reasons ?out ! m \<noteq> EndOfStream" for k m
    using entry [of k] entry [of m] that dist
    by (metis (no_types, lifting) length_map less_irrefl nth_eq_iff_index_eq order.strict_trans)
  then show ?thesis using proximity_entry [OF assms(1)] by blast
qed

theorem proximity_one_close_per_stop_witness:
  "\<exists>out. match_app_usage_update_indices_with_proximity_openers_core demo_input
        (resumed demo_input) (demo_options False) 5 = Inr out
    \<and> (\<forall>k < length (stop_start_indices out). \<forall>m < k.
         stop_reasons out ! k \<noteq> EndOfStream \<and> stop_reasons out ! m \<noteq> EndOfStream \<longrightarrow>
           stop_event_indices out ! k \<noteq> stop_event_indices out ! m)"
  by (rule proximity_one_close_per_stop) (simp_all add: proximity_input_def aligned_def)

text \<open>The teardown grace. Without stop-event reuse, an activity-stopped fallback never ends an
  episode whose start resumed the app within the grace after the app's own stop and which is itself
  younger than the grace; such an episode stays open for the next genuine stop.\<close>

lemma proximity_teardown_grace:
  assumes "proximity_input inp eligible proximity_ns" "\<not> allow_stop_event_reuse opts"
  shows "\<exists>out. match_app_usage_update_indices_with_proximity_openers_core inp eligible opts
        proximity_ns = Inr out
    \<and> (\<forall>k < length (stop_start_indices out).
         stop_reasons out ! k = ActivityStoppedFallback \<longrightarrow>
           \<not> (reresumed inp (resumed inp) proximity_ns (stop_start_indices out ! k)
              \<and> timestamp_ns inp ! (stop_event_indices out ! k)
                  - timestamp_ns inp ! (stop_start_indices out ! k) < proximity_ns))"
proof -
  let ?held = "held_open inp opts (resumed inp) proximity_ns"
  obtain opens closed where
    run: "fused_run inp opts eligible ?held (length (app_codes inp)) = (opens, closed)"
    by (cases "fused_run inp opts eligible ?held (length (app_codes inp))")
  have fallback: "sparse_stop_mode_of inp opts e = Some FallbackSameApp"
    if "is_compatible_open_start_for_stop inp opts e j"
      "legacy_close_reason inp e j = ActivityStoppedFallback" for j e
    using that
    by (auto simp: is_compatible_open_start_for_stop_def legacy_close_reason_def Let_def
        sparse_stop_mode_of_def split: if_splits)
  show ?thesis
    using proximity_entry [OF assms(1)] report_entry_cases [OF run fused_report_entry [OF run]]
      fallback assms(2)
    by (fastforce simp: held_open_def)
qed

lemma proximity_teardown_grace_witness:
  "\<exists>out. match_app_usage_update_indices_with_proximity_openers_core demo_input
        (resumed demo_input) (demo_options False) 5 = Inr out
    \<and> (\<forall>k < length (stop_start_indices out).
         stop_reasons out ! k = ActivityStoppedFallback \<longrightarrow>
           \<not> (reresumed demo_input (resumed demo_input) 5 (stop_start_indices out ! k)
              \<and> timestamp_ns demo_input ! (stop_event_indices out ! k)
                  - timestamp_ns demo_input ! (stop_start_indices out ! k) < 5))"
  by (rule proximity_teardown_grace) (simp_all add: proximity_input_def aligned_def)

text \<open>A zero grace, for which the entry point takes another code path, changes nothing else: on a
  stream in time order it reports the same pairs of start and end and the same missing starts as the
  reference matcher with a grace of zero, if not in the same order.\<close>

lemma zero_proximity_same_report:
  assumes "ordered_input inp" "length eligible = length (app_codes inp)"
  shows "\<exists>out ref. match_app_usage_update_indices_with_proximity_openers_core inp eligible opts 0
        = Inr out
    \<and> match_legacy_app_usage_update_indices_with_proximity inp eligible (resumed inp) opts 0 = Inr ref
    \<and> start_indices out = start_indices ref
    \<and> mset (zip (stop_start_indices out) (stop_event_indices out))
        = mset (zip (stop_start_indices ref) (stop_event_indices ref))
    \<and> mset (missing_indices out) = mset (missing_indices ref)"
proof -
  let ?inp = "inp\<lparr>resumed := eligible\<rparr>"
  let ?ref = "fused_report inp opts eligible (held_open inp opts (resumed inp) 0)"
  have "ordered_input ?inp"
    using assms by (simp add: ordered_input_resumed ordered_input_def aligned_def)
  from match_app_usage_update_indices_core_spec [OF this, of opts] obtain out log ends where
    out: "match_app_usage_update_indices_core ?inp opts = Inr out"
      "reports_log ?inp eligible log ends (missing_indices out) out"
      "mset (log @ ends) = mset (fused_closed inp opts eligible never_held)"
      "mset (missing_indices out) = mset (fused_missing inp opts eligible never_held)"
    by auto
  have "zip (stop_start_indices out) (stop_event_indices out) = log @ ends"
    using out(2) by (simp only: reports_log_def zip_map_fst_snd)
  moreover have "start_indices out = start_indices ?ref"
    using out(2) by (auto simp: reports_log_def fused_report_def Let_def split: prod.split)
  moreover have "match_legacy_app_usage_update_indices_with_proximity inp eligible (resumed inp) opts 0
      = Inr ?ref"
    using assms by (intro match_legacy_spec) (simp add: ordered_input_def)
  moreover have "match_app_usage_update_indices_with_proximity_openers_core inp eligible opts 0
      = Inr out"
    using assms out(1)
    by (simp add: match_app_usage_update_indices_with_proximity_openers_core_def
        validate_lengths_aligned ordered_input_def)
  ultimately show ?thesis
    using out(3,4) fused_closed_held_zero [OF assms(1)]
    by (auto simp: fused_report_pairs intro!: exI [of _ out] exI [of _ ?ref])
qed

lemma zero_proximity_same_report_witness:
  "\<exists>out ref. match_app_usage_update_indices_with_proximity_openers_core demo_input
        (resumed demo_input) (demo_options True) 0 = Inr out
    \<and> match_legacy_app_usage_update_indices_with_proximity demo_input (resumed demo_input)
        (resumed demo_input) (demo_options True) 0 = Inr ref
    \<and> start_indices out = start_indices ref
    \<and> mset (zip (stop_start_indices out) (stop_event_indices out))
        = mset (zip (stop_start_indices ref) (stop_event_indices ref))
    \<and> mset (missing_indices out) = mset (missing_indices ref)"
  by (rule zero_proximity_same_report) (simp_all add: ordered_input_def aligned_def)

text \<open>C12: the dense and the sparse matcher agree. On a stream in time order both return, and writing
  the ends the sparse one reports into a column of -1 gives the dense stop column; the dense start
  column and missing flags are the sparse start and missing indices.\<close>

theorem dense_sparse_agree:
  assumes "ordered_input inp"
  shows "\<exists>dense out. match_app_usage_core inp opts = Inr dense
    \<and> match_app_usage_update_indices_core inp opts = Inr out
    \<and> out_stop_ns dense =
        scatter_stops inp (zip (stop_start_indices out) (stop_event_indices out))
          (replicate (length (app_codes inp)) (-1))
    \<and> out_start_ns dense =
        map (\<lambda>i. if i \<in> set (start_indices out) then timestamp_ns inp ! i else -1)
          [0..<length (app_codes inp)]
    \<and> out_missing dense =
        map (\<lambda>i. i \<in> set (missing_indices out)) [0..<length (app_codes inp)]"
proof -
  let ?log = "fused_closed inp opts (resumed inp) never_held"
  obtain out log ends where
    out: "match_app_usage_update_indices_core inp opts = Inr out"
      "reports_log inp (resumed inp) log ends (missing_indices out) out"
      "mset (log @ ends) = mset ?log"
      "mset (missing_indices out) = mset (fused_missing inp opts (resumed inp) never_held)"
    using match_app_usage_update_indices_core_spec [OF assms] by blast
  have al: "aligned inp" using assms by (simp add: ordered_input_def)
  have "zip (stop_start_indices out) (stop_event_indices out) = log @ ends"
    using out(2) by (simp only: reports_log_def zip_map_fst_snd)
  then have stops: "scatter_stops inp (zip (stop_start_indices out) (stop_event_indices out))
      (replicate (length (app_codes inp)) (-1))
    = scatter_stops inp ?log (replicate (length (app_codes inp)) (-1))"
    using scatter_stops_mset [OF out(3) [symmetric] fused_closed_distinct] by metis
  have starts: "set (start_indices out) = {i. i < length (app_codes inp) \<and> resumed inp ! i}"
    using out(2) by (auto simp: reports_log_def)
  have missing: "set (missing_indices out) = set (fused_missing inp opts (resumed inp) never_held)"
    using out(4) by (metis set_mset_mset)
  show ?thesis
    using match_app_usage_core_spec [OF al, of opts] out(1) stops
    by (auto simp: starts missing)
qed

theorem dense_sparse_agree_witness:
  "\<exists>dense out. match_app_usage_core demo_input (demo_options True) = Inr dense
    \<and> match_app_usage_update_indices_core demo_input (demo_options True) = Inr out
    \<and> out_stop_ns dense =
        scatter_stops demo_input (zip (stop_start_indices out) (stop_event_indices out))
          (replicate (length (app_codes demo_input)) (-1))"
  using dense_sparse_agree [of demo_input "demo_options True"]
  by (auto simp: ordered_input_def aligned_def)

text \<open>C17: how the entry point fails. Vectors of different lengths are refused before anything else,
  then a negative grace, then a negative app code: with a zero grace, out of time order, or when some
  code is at least -1, it is refused with the crate's error.\<close>

theorem proximity_errors:
  "(\<not> (aligned inp \<and> length eligible = length (app_codes inp)) \<longrightarrow>
      match_app_usage_update_indices_with_proximity_openers_core inp eligible opts proximity_ns
        = Inl length_error)
   \<and> (aligned inp \<and> length eligible = length (app_codes inp) \<and> proximity_ns < 0 \<longrightarrow>
      match_app_usage_update_indices_with_proximity_openers_core inp eligible opts proximity_ns
        = Inl (MatcherError ''proximity_ns must be non-negative''))
   \<and> (aligned inp \<and> length eligible = length (app_codes inp) \<and> 0 \<le> proximity_ns
      \<and> (\<exists>c \<in> set (app_codes inp). c < 0)
      \<and> (proximity_ns = 0 \<or> \<not> sorted (timestamp_ns inp) \<or> (\<exists>c \<in> set (app_codes inp). -1 \<le> c)) \<longrightarrow>
      match_app_usage_update_indices_with_proximity_openers_core inp eligible opts proximity_ns
        = Inl negative_code_error)"
proof -
  have max: "\<not> max_or_zero (app_codes inp) < -1" if "c \<in> set (app_codes inp)" "-1 \<le> c" for c
    using max_or_zero_ge [OF that(1)] that(2) by simp
  show ?thesis
    using max
    by (auto simp: match_app_usage_update_indices_with_proximity_openers_core_def
        validate_lengths_aligned windows_sorted_iff Let_def alloc_app_slots_def sparse_new_def
        match_legacy_app_usage_update_indices_with_proximity_def
        match_sorted_app_usage_update_indices_with_proximity_def aligned_def
        match_app_usage_update_indices_core_def)
qed

theorem proximity_errors_witness:
  "match_app_usage_update_indices_with_proximity_openers_core demo_input [] (demo_options True) 5
      = Inl length_error
   \<and> match_app_usage_update_indices_with_proximity_openers_core demo_input (resumed demo_input)
        (demo_options True) (-1) = Inl (MatcherError ''proximity_ns must be non-negative'')
   \<and> match_app_usage_update_indices_with_proximity_openers_core
        (demo_input\<lparr>app_codes := [0, -1, 0, 0, 1, 0]\<rparr>) (resumed demo_input)
        (demo_options True) 5 = Inl negative_code_error"
  using proximity_errors [of demo_input "[]" "demo_options True" 5]
    proximity_errors [of demo_input "resumed demo_input" "demo_options True" "-1"]
    proximity_errors [of "demo_input\<lparr>app_codes := [0, -1, 0, 0, 1, 0]\<rparr>" "resumed demo_input"
      "demo_options True" 5]
  by (simp add: aligned_def)

text \<open>C16: a defect on inputs the crate means to refuse. When every app code is below -1 and the
  stream is in time order, the optimised matcher sizes its per-app vectors from the maximum code
  before it validates the codes, and panics; the same codes out of time order, or given to the
  reference matcher, are refused with the error for negative codes.\<close>

theorem sorted_negative_codes_panic:
  assumes "aligned inp" "length eligible = length (app_codes inp)" "0 < proximity_ns"
    and "sorted (timestamp_ns inp)" "app_codes inp \<noteq> []" "\<forall>c \<in> set (app_codes inp). c < -1"
  shows "match_app_usage_update_indices_with_proximity_openers_core inp eligible opts proximity_ns
      = Inl Panic
    \<and> match_legacy_app_usage_update_indices_with_proximity inp eligible (resumed inp) opts
        proximity_ns = Inl negative_code_error"
proof -
  have fold: "fold max cs c \<in> set (c # cs)" for c :: int and cs
    by (induction cs arbitrary: c) (auto simp: max_def split: if_splits)
  then have "max_or_zero (app_codes inp) \<in> set (app_codes inp)"
    using assms(5) by (auto simp: max_or_zero_def split: list.split)
  then have "max_or_zero (app_codes inp) < -1" using assms(6) by blast
  moreover have "\<exists>c \<in> set (app_codes inp). c < 0" using assms(5,6)
    by (cases "app_codes inp") auto
  ultimately show ?thesis
    using assms
    by (simp add: match_app_usage_update_indices_with_proximity_openers_core_def
        validate_lengths_aligned windows_sorted_iff alloc_app_slots_def Let_def
        match_sorted_app_usage_update_indices_with_proximity_def
        match_legacy_app_usage_update_indices_with_proximity_def)
qed

abbreviation negative_input :: match_input where
  "negative_input \<equiv> \<lparr>app_codes = [-2], timestamp_ns = [0], resumed = [True], same_stop = [False],
     other_stop = [False], stopped = [False], background = [False]\<rparr>"

theorem sorted_negative_codes_panic_witness:
  "match_app_usage_update_indices_with_proximity_openers_core negative_input [True]
      (demo_options True) 5 = Inl Panic
    \<and> match_legacy_app_usage_update_indices_with_proximity negative_input [True] [True]
        (demo_options True) 5 = Inl negative_code_error"
  using sorted_negative_codes_panic [of negative_input "[True]" 5 "demo_options True"]
  by (simp add: aligned_def)

section \<open>Close reasons\<close>

text \<open>C18: the decoder of lineage strings inverts the encoder: it accepts exactly the strings the
  encoder writes and gives back the reason each was written for, so no two reasons share a string.\<close>

theorem lineage_roundtrip:
  "from_lineage_reason v = Some r \<longleftrightarrow> v = lineage_reason r"
  by (rule from_lineage_reason_Some)

text \<open>Output labels say when an end was not seen. A label begins with "assumed_" exactly for the
  four reasons whose end no row carries, and an output label is never a lineage string, so the two
  vocabularies cannot be confused.\<close>

lemma labels_mark_inferred_ends:
  "(prefix ''assumed_'' (output_label r) \<longleftrightarrow> end_is_inferred r) \<and> output_label r \<noteq> lineage_reason s"
  using assumed_prefix_iff output_label_not_lineage by blast

section \<open>GESIS\<close>

text \<open>C15: GESIS always answers. On aligned vectors it reports every eligible row that is not the
  system package exactly once, each with an end; it never reports a missing end.\<close>

theorem gesis_always_answers:
  assumes "gesis_aligned inp"
  shows "\<exists>out. match_app_usage_gesis_with_openers_indices_core inp timeout threshold = Inr out
    \<and> start_indices out = gesis_openers inp \<and> stop_start_indices out = gesis_openers inp
    \<and> missing_indices out = [] \<and> length (stop_timestamps_ns out) = length (stop_start_indices out)
    \<and> length (stop_reasons out) = length (stop_start_indices out)"
proof -
  obtain out where out: "match_app_usage_gesis_with_openers_indices_core inp timeout threshold
      = Inr out" "well_reported (gesis_openers inp) out"
    using gesis.total_report [of "(inp, timeout, threshold)"] assms by auto
  then have "missing_indices out = []" "stop_start_indices out = gesis_openers inp"
    using assms by (auto simp: gesis_run gesis_report_def)
  with out show ?thesis by (auto simp: well_reported_def)
qed

abbreviation demo_gesis :: gesis_input where
  "demo_gesis \<equiv> \<lparr>gs_codes = [1, 2, 1, 1], gs_timestamp_ns = [0, 5, 7, 9],
     gs_eligible = [True, True, False, False], gs_classified_start = [True, True, False, False],
     gs_is_stop = [False, False, True, True], gs_matchable = [True, True, True, True],
     gs_pseudo = [False, False, False, False]\<rparr>"

theorem gesis_always_answers_witness:
  "\<exists>out. match_app_usage_gesis_with_openers_indices_core demo_gesis 600 10 = Inr out
    \<and> missing_indices out = []"
  using gesis_always_answers [of demo_gesis 600 10] by (auto simp: gesis_aligned_def)

text \<open>C13: the three tiers of GESIS. An episode ends at its nearest stop row when at most the threshold
  of events lie between; else at the next row when that comes no later than the timeout; else at start
  plus timeout, saturating, with the start row as anchor. The nearest stop row is one of the pool not
  followed by a stop of the same app, so a run of stops counts from its last one.\<close>

theorem gesis_tiers:
  assumes "gesis_aligned inp"
  shows "\<exists>out. match_app_usage_gesis_with_openers_indices_core inp timeout threshold = Inr out
    \<and> (\<forall>k < length (stop_start_indices out).
         gesis_tier inp timeout threshold (stop_start_indices out ! k) (stop_event_indices out ! k)
           (stop_timestamps_ns out ! k) (stop_reasons out ! k))"
proof -
  let ?out = "gesis_report inp timeout threshold (gesis_openers inp)"
  have "gesis_tier inp timeout threshold (stop_start_indices ?out ! k) (stop_event_indices ?out ! k)
      (stop_timestamps_ns ?out ! k) (stop_reasons ?out ! k)"
    if "k < length (stop_start_indices ?out)" for k
  proof -
    have "gesis_openers inp ! k < length (gs_codes inp)"
      using that nth_mem [of k "gesis_openers inp"] by (simp add: gesis_report_def)
    from gesis_episode_tier [OF this, of timeout threshold] that show ?thesis
      by (simp add: gesis_report_def)
  qed
  then show ?thesis using assms by (simp add: gesis_run)
qed

theorem gesis_tiers_witness:
  "\<exists>out. match_app_usage_gesis_with_openers_indices_core demo_gesis 600 10 = Inr out
    \<and> (\<forall>k < length (stop_start_indices out).
         gesis_tier demo_gesis 600 10 (stop_start_indices out ! k) (stop_event_indices out ! k)
           (stop_timestamps_ns out ! k) (stop_reasons out ! k))"
  by (rule gesis_tiers) (simp add: gesis_aligned_def)

section \<open>Forward pairing\<close>

text \<open>C14: forward pairing ends an episode at the first later row that turns the screen off, pauses the
  same app or resumes another app, with the reason for that row, and calls it missing exactly when no
  such row follows.\<close>

theorem pairing_first_closer:
  assumes "pairing_aligned inp"
  shows "\<exists>out. match_app_usage_forward_pairing_with_openers_indices_core inp = Inr out
    \<and> start_indices out = pairing_openers inp
    \<and> distinct (stop_start_indices out @ missing_indices out)
    \<and> set (stop_start_indices out) \<union> set (missing_indices out) = set (pairing_openers inp)
    \<and> (\<forall>k < length (stop_start_indices out).
         let j = stop_start_indices out ! k; e = stop_event_indices out ! k in
           j < e \<and> e < length (fp_codes inp) \<and> pairing_closes inp (fp_codes inp ! j) e
           \<and> (\<forall>m. j < m \<and> m < e \<longrightarrow> \<not> pairing_closes inp (fp_codes inp ! j) m)
           \<and> stop_reasons out ! k = pairing_reason inp e)
    \<and> (\<forall>j \<in> set (missing_indices out). \<forall>m. j < m \<and> m < length (fp_codes inp) \<longrightarrow>
         \<not> pairing_closes inp (fp_codes inp ! j) m)"
proof -
  let ?out = "pairing_report inp (pairing_openers inp)"
  have run: "match_app_usage_forward_pairing_with_openers_indices_core inp = Inr ?out"
    using assms by (simp add: pairing_run)
  have closer: "pairing_closer inp (stop_start_indices ?out ! k) = Some (stop_event_indices ?out ! k)
      \<and> stop_reasons ?out ! k = pairing_reason inp (stop_event_indices ?out ! k)"
    if "k < length (stop_start_indices ?out)" for k
  proof -
    have "stop_start_indices ?out ! k \<in> set (stop_start_indices ?out)" using that by simp
    then have "pairing_closer inp (stop_start_indices ?out ! k) \<noteq> None"
      by (simp add: pairing_report_def Let_def)
    with that show ?thesis by (auto simp: pairing_report_def Let_def)
  qed
  have missing: "pairing_closer inp j = None" if "j \<in> set (missing_indices ?out)" for j
    using that by (simp add: pairing_report_def Let_def)
  have starts: "start_indices ?out = pairing_openers inp"
    by (simp add: pairing_report_def Let_def)
  have ends: "let j = stop_start_indices ?out ! k; e = stop_event_indices ?out ! k in
      j < e \<and> e < length (fp_codes inp) \<and> pairing_closes inp (fp_codes inp ! j) e
      \<and> (\<forall>m. j < m \<and> m < e \<longrightarrow> \<not> pairing_closes inp (fp_codes inp ! j) m)
      \<and> stop_reasons ?out ! k = pairing_reason inp e"
    if "k < length (stop_start_indices ?out)" for k
    using closer [OF that] by (simp add: pairing_closer_Some Let_def)
  have open_ended: "\<forall>m. j < m \<and> m < length (fp_codes inp) \<longrightarrow>
      \<not> pairing_closes inp (fp_codes inp ! j) m" if "j \<in> set (missing_indices ?out)" for j
    using missing [OF that] by (simp add: pairing_closer_None)
  show ?thesis
    using run starts ends open_ended pairing.outcome_unique [OF assms run]
      pairing.outcome_complete [OF assms run] by blast
qed

abbreviation demo_pairing :: pairing_input where
  "demo_pairing \<equiv> \<lparr>fp_codes = [1, 2, 2], fp_timestamp_ns = [0, 5, 7],
     fp_eligible = [True, True, False], fp_resumed = [True, True, False],
     fp_paused = [False, False, False], fp_screen_off = [False, False, False],
     fp_pseudo = [False, False, False]\<rparr>"

theorem pairing_first_closer_witness:
  "\<exists>out. match_app_usage_forward_pairing_with_openers_indices_core demo_pairing = Inr out
    \<and> start_indices out = [0, 1]
    \<and> set (stop_start_indices out) \<union> set (missing_indices out) = {0, 1}"
  using pairing_first_closer [of demo_pairing]
  by (auto simp: pairing_aligned_def upt_conv_Cons)

section \<open>Layers of overlapping sessions\<close>

text \<open>C8: at every instant a session is open on \<open>[start, stop)\<close>, exactly one of its rows covers that
  instant, and that row is primary iff no open session starts later (or as late with a higher index);
  at every other instant no row of the session covers it. The sweep always ends.\<close>

theorem split_layers_pointwise:
  assumes "length starts = length stops" "\<forall>i < length starts. starts ! i \<le> stops ! i"
  shows "\<exists>out. split_overlapping_sessions starts stops = Inr out
    \<and> (\<forall>i < length starts. \<forall>\<tau>.
         if starts ! i \<le> \<tau> \<and> \<tau> < stops ! i
         then \<exists>r. rows_at out i \<tau> = [r] \<and> (ls_layer r = Primary \<longleftrightarrow> newest_at starts stops \<tau> i)
         else rows_at out i \<tau> = [])"
  using split_rows_pointwise [OF assms] .

theorem split_layers_pointwise_witness:
  "\<exists>out. split_overlapping_sessions [0, 5] [10, 8] = Inr out
    \<and> (\<exists>r. rows_at out 0 6 = [r] \<and> ls_layer r = Secondary)"
proof -
  have len: "length [0, 5 :: int] = length [10, 8 :: int]" by simp
  have wf: "\<forall>i < length [0, 5 :: int]. [0, 5 :: int] ! i \<le> [10, 8] ! i" by (simp add: nth_Cons')
  have newer: "\<not> newest_at [0, 5] [10, 8] 6 0"
    unfolding newest_at_def by (intro notI) (drule spec [of _ 1], simp)
  have "0 < length [0, 5 :: int]" "[0, 5 :: int] ! 0 \<le> 6 \<and> 6 < [10, 8 :: int] ! 0" by simp_all
  note pos = this
  from split_layers_pointwise [OF len wf] obtain out where
    out: "split_overlapping_sessions [0, 5] [10, 8] = Inr out" and
    "\<forall>i < length [0, 5 :: int]. \<forall>\<tau>. if [0, 5] ! i \<le> \<tau> \<and> \<tau> < [10, 8] ! i
       then \<exists>r. rows_at out i \<tau> = [r] \<and> (ls_layer r = Primary \<longleftrightarrow> newest_at [0, 5] [10, 8] \<tau> i)
       else rows_at out i \<tau> = []"
    by (elim exE conjE) (rule that)
  then have "if [0, 5] ! 0 \<le> (6 :: int) \<and> (6 :: int) < [10, 8] ! 0
       then \<exists>r. rows_at out 0 6 = [r] \<and> (ls_layer r = Primary \<longleftrightarrow> newest_at [0, 5] [10, 8] 6 0)
       else rows_at out 0 6 = []"
    using pos(1) by blast
  with pos(2) obtain r where "rows_at out 0 6 = [r]"
    "ls_layer r = Primary \<longleftrightarrow> newest_at [0, 5] [10, 8] 6 0"
    by auto
  with out show ?thesis using newer by (cases "ls_layer r") auto
qed

text \<open>The rows of a split come ordered by session and then by start; the sweep's own rows have a
  positive width; and a session of zero width, which no instant covers, still has exactly one row, a
  primary one.\<close>

lemma split_rows_ordered:
  assumes "length starts = length stops" "\<forall>i < length starts. starts ! i \<le> stops ! i"
  shows "\<exists>out. split_overlapping_sessions starts stops = Inr out
    \<and> sorted_wrt (\<lambda>a b. ls_session a < ls_session b
         \<or> ls_session a = ls_session b \<and> ls_start a \<le> ls_start b) out
    \<and> (\<forall>r \<in> set out. ls_session r < length starts \<and>
         (ls_start r < ls_stop r \<or> starts ! ls_session r = stops ! ls_session r \<and>
            r = \<lparr>ls_session = ls_session r, ls_start = starts ! ls_session r,
                 ls_stop = stops ! ls_session r, ls_layer = Primary\<rparr>))
    \<and> (\<forall>i < length starts. starts ! i = stops ! i \<longrightarrow>
         filter (\<lambda>r. ls_session r = i \<and> ls_start r = ls_stop r) out
           = [\<lparr>ls_session = i, ls_start = starts ! i, ls_stop = stops ! i, ls_layer = Primary\<rparr>])"
proof -
  obtain rows where R: "split_overlapping_sessions starts stops
      = Inr (sort_key (\<lambda>r. (ls_session r, ls_start r)) (rows @ zero_width_rows starts stops))"
    "wide (length starts) rows"
    using split_rows [OF assms] by blast
  let ?key = "\<lambda>r. (ls_session r, ls_start r)"
  let ?out = "sort_key ?key (rows @ zero_width_rows starts stops)"
  have "sorted (map ?key ?out)" by (rule sorted_sort_key)
  then have sorted: "sorted_wrt (\<lambda>a b. ls_session a < ls_session b
         \<or> ls_session a = ls_session b \<and> ls_start a \<le> ls_start b) ?out"
    unfolding sorted_map by (rule sorted_wrt_mono_rel [rotated]) auto
  have rows: "\<forall>r \<in> set ?out. ls_session r < length starts \<and>
         (ls_start r < ls_stop r \<or> starts ! ls_session r = stops ! ls_session r \<and>
            r = \<lparr>ls_session = ls_session r, ls_start = starts ! ls_session r,
                 ls_stop = stops ! ls_session r, ls_layer = Primary\<rparr>)"
    using R(2) by (auto simp: wide_def zero_width_rows_def)
  have zero: "filter (\<lambda>r. ls_session r = i \<and> ls_start r = ls_stop r) ?out
      = [\<lparr>ls_session = i, ls_start = starts ! i, ls_stop = stops ! i, ls_layer = Primary\<rparr>]"
    if i: "i < length starts" "starts ! i = stops ! i" for i
  proof -
    let ?P = "\<lambda>r :: layered_session. ls_session r = i \<and> ls_start r = ls_stop r"
    have "filter ?P rows = []" using R(2) by (auto simp: filter_empty_conv wide_def)
    moreover have "filter ?P (zero_width_rows starts stops)
        = map (\<lambda>i. \<lparr>ls_session = i, ls_start = starts ! i, ls_stop = stops ! i, ls_layer = Primary\<rparr>)
            (filter (\<lambda>k. k = i) [0..<length starts])"
      using i(2) by (auto simp: zero_width_rows_def filter_map comp_def
          intro!: map_cong filter_cong)
    moreover have "filter (\<lambda>k. k = i) [0..<length starts] = [i]"
      using i(1) by (rule filter_upt_single)
    ultimately have one: "filter ?P (rows @ zero_width_rows starts stops)
        = [\<lparr>ls_session = i, ls_start = starts ! i, ls_stop = stops ! i, ls_layer = Primary\<rparr>]"
      by simp
    have "mset (filter ?P ?out) = mset (filter ?P (rows @ zero_width_rows starts stops))"
      by (simp only: mset_filter mset_sort)
    then show ?thesis unfolding one by (intro mset_singleD) simp
  qed
  show ?thesis using R(1) sorted rows zero by blast
qed

lemma split_rows_ordered_witness:
  "\<exists>out. split_overlapping_sessions [0, 5, 7] [10, 8, 7] = Inr out
    \<and> filter (\<lambda>r. ls_session r = 2 \<and> ls_start r = ls_stop r) out
        = [\<lparr>ls_session = 2, ls_start = 7, ls_stop = 7, ls_layer = Primary\<rparr>]"
proof -
  have wf: "\<forall>i < length [0, 5, 7 :: int]. [0, 5, 7 :: int] ! i \<le> [10, 8, 7] ! i"
    by (simp add: nth_Cons' )
  have two: "2 < length [0, 5, 7 :: int]" "[0, 5, 7 :: int] ! 2 = [10, 8, 7] ! 2" by simp_all
  from split_rows_ordered [OF _ wf] two show ?thesis by fastforce
qed

text \<open>The split refuses vectors of different lengths and a session that stops before it starts,
  each with the crate's error.\<close>

lemma split_refuses_bad_bounds:
  "(length starts \<noteq> length stops \<longrightarrow> split_overlapping_sessions starts stops = Inl split_error)
   \<and> (length starts = length stops \<and> i < length starts \<and> stops ! i < starts ! i \<longrightarrow>
        split_overlapping_sessions starts stops = Inl inverted_error)"
  by (auto simp: split_overlapping_sessions_def)

lemma split_refuses_bad_bounds_witness:
  "split_overlapping_sessions [1] [] = Inl split_error
   \<and> split_overlapping_sessions [0, 3] [1, 2] = Inl inverted_error"
  using split_refuses_bad_bounds [of "[1]" "[]" 0] split_refuses_bad_bounds [of "[0, 3]" "[1, 2]" 1]
  by simp

end
