(* ===== verification/Float_Seconds.thy ===== *)
theory Float_Seconds
  imports Complex_Main Prelude
begin

text \<open>
  The \<open>f64\<close> arithmetic of \<open>eyes_complement.rs\<close>: option values in seconds and hours are turned into
  \<open>i64\<close> nanoseconds, and episode durations back into seconds. A finite \<open>f64\<close> is the rational it
  denotes; a product, a quotient or a conversion from \<open>i64\<close> is the exact result rounded to 53
  significant bits, ties to even, as IEEE 754 prescribes. Two things are left out: the subnormal
  range, whose values are far below half a nanosecond, and infinities, which the validator of the
  source refuses as options.
\<close>

fun bit_len :: "int \<Rightarrow> int" where
  "bit_len n = (if n \<le> 0 then 0 else 1 + bit_len (n div 2))"

declare bit_len.simps [simp del]

definition pow2 :: "int \<Rightarrow> rat" where
  "pow2 e = (if 0 \<le> e then 2 ^ nat e else 1 / 2 ^ nat (- e))"

definition round_half_even :: "rat \<Rightarrow> int" where
  "round_half_even x =
     (let f = \<lfloor>x\<rfloor>; d = x - of_int f in
      if d < 1 / 2 then f else if 1 / 2 < d then f + 1 else if even f then f else f + 1)"

definition f64_exponent :: "rat \<Rightarrow> int" where
  "f64_exponent x =
     (case quotient_of \<bar>x\<bar> of (p, q) \<Rightarrow>
        let e = bit_len p - bit_len q in
        if pow2 e \<le> \<bar>x\<bar> then e else e - 1)"

definition round_f64 :: "rat \<Rightarrow> rat" where
  "round_f64 x =
     (if x = 0 then 0
      else let u = pow2 (f64_exponent x - 52) in of_int (round_half_even (x / u)) * u)"

definition f64_mul :: "rat \<Rightarrow> rat \<Rightarrow> rat" where
  "f64_mul a b = round_f64 (a * b)"

definition f64_div :: "rat \<Rightarrow> rat \<Rightarrow> rat" where
  "f64_div a b = round_f64 (a / b)"

definition i64_as_f64 :: "int \<Rightarrow> rat" where
  "i64_as_f64 n = round_f64 (of_int n)"

text \<open>\<open>f64::round\<close>, half away from zero, and the casts to \<open>i64\<close>, which saturate.\<close>

definition f64_round :: "rat \<Rightarrow> int" where
  "f64_round x = (if 0 \<le> x then \<lfloor>x + 1 / 2\<rfloor> else - \<lfloor>1 / 2 - x\<rfloor>)"

definition f64_as_i64 :: "rat \<Rightarrow> int" where
  "f64_as_i64 x = clamp_i64 (if 0 \<le> x then \<lfloor>x\<rfloor> else - \<lfloor>- x\<rfloor>)"

definition seconds_to_ns :: "rat \<Rightarrow> int" where
  "seconds_to_ns seconds = clamp_i64 (f64_round (f64_mul seconds 1000000000))"

definition seconds_between :: "int \<Rightarrow> int \<Rightarrow> rat" where
  "seconds_between start end_ns = f64_div (i64_as_f64 (i64_sub end_ns start)) 1000000000"

lemma pow2_pos [simp]: "0 < pow2 e"
  by (simp add: pow2_def)

lemma round_half_even_nonneg: "0 \<le> x \<Longrightarrow> 0 \<le> round_half_even x"
  by (auto simp: round_half_even_def Let_def)

lemma round_f64_nonneg: "0 \<le> x \<Longrightarrow> 0 \<le> round_f64 x"
  by (auto simp: round_f64_def Let_def intro!: mult_nonneg_nonneg round_half_even_nonneg
      divide_nonneg_pos less_imp_le [OF pow2_pos])

lemma seconds_to_ns_nonneg: "0 \<le> s \<Longrightarrow> 0 \<le> seconds_to_ns s"
proof -
  assume "0 \<le> s"
  then have "0 \<le> f64_mul s 1000000000" unfolding f64_mul_def by (intro round_f64_nonneg) simp
  then show ?thesis
    by (simp add: seconds_to_ns_def f64_round_def clamp_i64_def i64_min_def i64_max_def)
qed

lemma seconds_to_ns_range: "in_i64 (seconds_to_ns s)"
  by (simp add: seconds_to_ns_def clamp_i64_range)

lemma seconds_between_nonneg:
  "in_i64 (e - s) \<Longrightarrow> s \<le> e \<Longrightarrow> 0 \<le> seconds_between s e"
  by (simp add: seconds_between_def f64_div_def i64_as_f64_def i64_sub_exact round_f64_nonneg)

lemma seconds_between_self: "seconds_between s s = 0"
  by (simp add: seconds_between_def f64_div_def i64_as_f64_def i64_sub_exact round_f64_def
      in_i64_def i64_min_def i64_max_def)

text \<open>The default thresholds, in nanoseconds.\<close>

lemma seconds_to_ns_values:
  "seconds_to_ns 1 = 1000000000" "seconds_to_ns 2 = 2000000000" "seconds_to_ns 5 = 5000000000"
  "seconds_to_ns 10 = 10000000000" "seconds_to_ns 60 = 60000000000"
  "seconds_to_ns (f64_mul 3 3600) = 10800000000000"
  by (code_simp, code_simp, code_simp, code_simp, code_simp, code_simp)

end
