(* ===== verification/Eyes_Types.thy ===== *)
theory Eyes_Types
  imports Float_Seconds "HOL-Library.Option_ord" "HOL-Library.Product_Lexorder"
    "HOL-Library.List_Lexorder" "HOL-Library.Char_ord"
begin

text \<open>
  The vocabulary of the EYES segmentation (\<open>rust/chronicle_chrono_kernel_wasm/src/eyes_complement.rs\<close>):
  events, options, device-state blocks, episodes, usage chunks and fragments, and the signals the
  interaction strings are classified into (through \<open>normalize_interaction_type\<close> of \<open>lib.rs\<close>).

  A string is a list of characters, ordered lexicographically as Rust orders its bytes; a field of
  type \<open>Option<i64>\<close> is an \<open>int option\<close>, with \<open>None\<close> least as Rust derives it.
\<close>

section \<open>Interaction types\<close>

definition interaction_aliases :: "(string \<times> string) list" where
  "interaction_aliases =
     [(''Instance of Usage for an App'', ''App Usage''),
      (''Screen Usage'', ''Screen Usage''),
      (''Activity Resumed for a Filtered App'', ''Filtered App Resumed''),
      (''Activity Paused for a Filtered App'', ''Filtered App Paused''),
      (''Instance of Usage for a Filtered App'', ''Filtered App Usage''),
      (''Missing End of Usage after an App Starts Being Used'', ''End of Usage Missing''),
      (''Unknown importance: 1'', ''Activity Resumed''),
      (''Move to Foreground'', ''Activity Resumed''),
      (''Unknown importance: 2'', ''Activity Paused''),
      (''Move to Background'', ''Activity Paused''),
      (''Unknown importance: 3'', ''End of Day''),
      (''Unknown importance: 4'', ''Continue Previous Day''),
      (''Unknown importance: 5'', ''Configuration Change''),
      (''Unknown importance: 6'', ''System Interaction''),
      (''Unknown importance: 7'', ''User Interaction''),
      (''Unknown importance: 8'', ''Shortcut Invocation''),
      (''Unknown importance: 9'', ''Chooser Action''),
      (''Unknown importance: 10'', ''Notification Seen''),
      (''Unknown importance: 11'', ''Standby Bucket Changed''),
      (''Unknown importance: 12'', ''Notification Interruption''),
      (''Unknown importance: 13'', ''Slice Pinned Priv''),
      (''Unknown importance: 14'', ''Slice Pinned App''),
      (''Unknown importance: 15'', ''Screen Interactive''),
      (''Unknown importance: 16'', ''Screen Non-Interactive''),
      (''Screen Non-interactive'', ''Screen Non-Interactive''),
      (''Unknown importance: 17'', ''Keyguard Shown''),
      (''Unknown importance: 18'', ''Keyguard Hidden''),
      (''Unknown importance: 19'', ''Foreground Service Start''),
      (''Unknown importance: 20'', ''Foreground Service Stop''),
      (''Unknown importance: 21'', ''Continuing Foreground Service''),
      (''Unknown importance: 22'', ''Rollover Foreground Service''),
      (''Unknown importance: 23'', ''Activity Stopped''),
      (''Unknown importance: 24'', ''Activity Destroyed''),
      (''Unknown importance: 25'', ''Flush to Disk''),
      (''Unknown importance: 26'', ''Device Shutdown''),
      (''Unknown importance: 27'', ''Device Startup''),
      (''Unknown importance: 28'', ''User Unlocked''),
      (''Unknown importance: 29'', ''User Stopped''),
      (''Unknown importance: 30'', ''Locus ID Set''),
      (''Unknown importance: 31'', ''App Component Used'')]"

definition normalize_interaction_type :: "string \<Rightarrow> string" where
  "normalize_interaction_type v =
     (case map_of interaction_aliases v of Some canonical \<Rightarrow> canonical | None \<Rightarrow> v)"

definition canonical_interaction_types :: "string list" where
  "canonical_interaction_types =
     [''Activity Destroyed'', ''Activity Paused'', ''Activity Resumed'', ''Activity Stopped'',
      ''App Component Used'', ''App Usage'', ''Chooser Action'', ''Configuration Change'',
      ''Continue Previous Day'', ''Continuing Foreground Service'', ''Device Shutdown'',
      ''Device Startup'', ''End of Day'', ''End of Usage Missing'', ''Filtered App Paused'',
      ''Filtered App Resumed'', ''Filtered App Usage'', ''Flush to Disk'',
      ''Foreground Service Start'', ''Foreground Service Stop'', ''Keyguard Hidden'',
      ''Keyguard Shown'', ''Locus ID Set'', ''Notification Interruption'', ''Notification Seen'',
      ''Rollover Foreground Service'', ''Screen Interactive'', ''Screen Non-Interactive'',
      ''Screen Usage'', ''Shortcut Invocation'', ''Slice Pinned App'', ''Slice Pinned Priv'',
      ''Standby Bucket Changed'', ''System Interaction'', ''User Interaction'', ''User Stopped'',
      ''User Unlocked'']"

definition is_recognized_interaction_type :: "string \<Rightarrow> bool" where
  "is_recognized_interaction_type v \<longleftrightarrow>
     normalize_interaction_type v \<noteq> v \<or> v \<in> set canonical_interaction_types"

section \<open>Events and options\<close>

record eyes_event =
  ev_timestamp_ns :: int
  ev_interaction_type :: string
  ev_package :: string

datatype eyes_duration_mode = TripletStructured | PauseBound

record eyes_options =
  proximity_interval_seconds :: rat
  duration_mode :: eyes_duration_mode
  block_glue_seconds :: rat
  gap_silence_hours :: rat
  gap_reboot_neighbor_seconds :: rat
  gap_reconcile_seconds :: rat
  pickup_minimum_seconds :: rat
  pickup_active_hole_seconds :: rat
  fau_block_minimum_seconds :: rat

definition default_options :: eyes_options where
  "default_options =
     \<lparr>proximity_interval_seconds = 2, duration_mode = TripletStructured, block_glue_seconds = 60,
      gap_silence_hours = 3, gap_reboot_neighbor_seconds = 1, gap_reconcile_seconds = 10,
      pickup_minimum_seconds = 5, pickup_active_hole_seconds = 5, fau_block_minimum_seconds = 5\<rparr>"

section \<open>Device-state blocks\<close>

datatype eyes_block_type = Shutdown | Idle | Glance | Gap | Active

text \<open>The derived order of the source: by position in the declaration.\<close>

fun block_type_rank :: "eyes_block_type \<Rightarrow> nat" where
  "block_type_rank Shutdown = 0"
| "block_type_rank Idle = 1"
| "block_type_rank Glance = 2"
| "block_type_rank Gap = 3"
| "block_type_rank Active = 4"

lemma block_type_rank_inj: "block_type_rank a = block_type_rank b \<Longrightarrow> a = b"
  by (cases a; cases b) simp_all

instantiation eyes_block_type :: linorder
begin

definition less_eq_eyes_block_type :: "eyes_block_type \<Rightarrow> eyes_block_type \<Rightarrow> bool" where
  "less_eq_eyes_block_type a b \<longleftrightarrow> block_type_rank a \<le> block_type_rank b"

definition less_eyes_block_type :: "eyes_block_type \<Rightarrow> eyes_block_type \<Rightarrow> bool" where
  "less_eyes_block_type a b \<longleftrightarrow> block_type_rank a < block_type_rank b"

instance
  by standard
    (auto simp: less_eq_eyes_block_type_def less_eyes_block_type_def dest: block_type_rank_inj)

end

fun block_label :: "eyes_block_type \<Rightarrow> string" where
  "block_label Shutdown = ''SHUTDOWN''"
| "block_label Idle = ''IDLE''"
| "block_label Glance = ''GLANCE''"
| "block_label Gap = ''GAP''"
| "block_label Active = ''ACTIVE''"

datatype eyes_block_kind = Paired | StartOnly | EndOnly | Empty

record eyes_block =
  block_type :: eyes_block_type
  start_ns :: "int option"
  end_ns :: "int option"

definition block_kind :: "eyes_block \<Rightarrow> eyes_block_kind" where
  "block_kind b =
     (case (start_ns b, end_ns b) of
        (Some _, Some _) \<Rightarrow> Paired
      | (Some _, None) \<Rightarrow> StartOnly
      | (None, Some _) \<Rightarrow> EndOnly
      | (None, None) \<Rightarrow> Empty)"

definition duration_ns :: "eyes_block \<Rightarrow> int option" where
  "duration_ns b =
     (case (start_ns b, end_ns b) of
        (Some s, Some e) \<Rightarrow> Some (i64_sub e s)
      | _ \<Rightarrow> None)"

definition duration_seconds_truncated :: "eyes_block \<Rightarrow> int option" where
  "duration_seconds_truncated b = map_option (\<lambda>ns. trunc_div ns 1000000000) (duration_ns b)"

definition paired :: "eyes_block \<Rightarrow> (int \<times> int) option" where
  "paired b =
     (case (start_ns b, end_ns b) of
        (Some s, Some e) \<Rightarrow> if s < e then Some (s, e) else None
      | _ \<Rightarrow> None)"

record eyes_pickup_row =
  pk_type :: eyes_block_type
  pk_start :: int
  pk_end :: int

definition pickup_duration_ns :: "eyes_pickup_row \<Rightarrow> int" where
  "pickup_duration_ns r = i64_sub (pk_end r) (pk_start r)"

section \<open>Episodes, chunks, fragments\<close>

datatype eyes_resume_inference = ResumeObserved | MissingActivityResumed

datatype eyes_pause_inference =
    PauseUnobserved
  | PauseObserved
  | MatchingPreviousBlock
  | MatchingCurrentBlock
  | NextBlockPausedInference

datatype eyes_end_inference =
    EndUnobserved
  | ObservedStop
  | NextBlockStoppedInference
  | MissingStop
  | AppKilled
  | SystemShutDown
  | PauseFallback

record eyes_app_episode =
  ep_package :: string
  ep_resume :: "int option"
  ep_pause :: "int option"
  ep_stop :: "int option"
  ep_resume_inference :: eyes_resume_inference
  ep_pause_inference :: eyes_pause_inference
  ep_end_inference :: eyes_end_inference
  ep_duration_seconds :: rat

record eyes_app_usage_chunk =
  ck_package :: string
  ck_start :: int
  ck_end :: int
  ck_episodes :: "nat list"

record eyes_final_app_usage =
  fu_package :: string
  fu_chunk :: nat
  fu_start :: int
  fu_end :: int
  fu_status :: eyes_block_type

definition fragment_duration_ns :: "eyes_final_app_usage \<Rightarrow> int" where
  "fragment_duration_ns r = i64_sub (fu_end r) (fu_start r)"

section \<open>Signals\<close>

datatype eyes_signal =
    DeviceShutdown
  | UserStopped
  | DeviceStartup
  | UserUnlocked
  | ScreenNonInteractiveSignal
  | KeyguardShown
  | ScreenInteractive
  | KeyguardHidden
  | ActivityResumed
  | ActivityPaused
  | ActivityStopped
  | OtherSignal

definition classify :: "string \<Rightarrow> eyes_signal" where
  "classify interaction_type =
     (let canonical =
            (if interaction_type = ''Screen Non-interactive'' then ''Screen Non-Interactive''
             else normalize_interaction_type interaction_type)
      in if canonical = ''Device Shutdown'' then DeviceShutdown
         else if canonical = ''User Stopped'' then UserStopped
         else if canonical = ''Device Startup'' then DeviceStartup
         else if canonical = ''User Unlocked'' then UserUnlocked
         else if canonical = ''Screen Non-Interactive'' then ScreenNonInteractiveSignal
         else if canonical = ''Keyguard Shown'' then KeyguardShown
         else if canonical = ''Screen Interactive'' then ScreenInteractive
         else if canonical = ''Keyguard Hidden'' then KeyguardHidden
         else if canonical = ''Activity Resumed'' then ActivityResumed
         else if canonical = ''Activity Paused'' then ActivityPaused
         else if canonical = ''Activity Stopped'' then ActivityStopped
         else OtherSignal)"

definition opens_shutdown :: "eyes_signal \<Rightarrow> bool" where
  "opens_shutdown s \<longleftrightarrow> (case s of DeviceShutdown \<Rightarrow> True | UserStopped \<Rightarrow> True | _ \<Rightarrow> False)"

definition closes_shutdown :: "eyes_signal \<Rightarrow> bool" where
  "closes_shutdown s \<longleftrightarrow> (case s of DeviceStartup \<Rightarrow> True | UserUnlocked \<Rightarrow> True | _ \<Rightarrow> False)"

definition opens_idle :: "eyes_signal \<Rightarrow> bool" where
  "opens_idle s \<longleftrightarrow>
     (case s of ScreenNonInteractiveSignal \<Rightarrow> True | KeyguardShown \<Rightarrow> True | _ \<Rightarrow> False)"

definition closes_idle :: "eyes_signal \<Rightarrow> bool" where
  "closes_idle s \<longleftrightarrow> (case s of ScreenInteractive \<Rightarrow> True | KeyguardHidden \<Rightarrow> True | _ \<Rightarrow> False)"

definition is_shutdown_class_reboot :: "eyes_signal \<Rightarrow> bool" where
  "is_shutdown_class_reboot s \<longleftrightarrow>
     (case s of DeviceShutdown \<Rightarrow> True | UserStopped \<Rightarrow> True | _ \<Rightarrow> False)"

definition is_startup_class_reboot :: "eyes_signal \<Rightarrow> bool" where
  "is_startup_class_reboot s \<longleftrightarrow>
     (case s of DeviceStartup \<Rightarrow> True | UserUnlocked \<Rightarrow> True | _ \<Rightarrow> False)"

definition is_triplet_reboot :: "eyes_signal \<Rightarrow> bool" where
  "is_triplet_reboot s \<longleftrightarrow>
     (case s of
        DeviceShutdown \<Rightarrow> True | DeviceStartup \<Rightarrow> True | UserUnlocked \<Rightarrow> True | UserStopped \<Rightarrow> True
      | _ \<Rightarrow> False)"

section \<open>Facts\<close>

lemma paired_Some:
  "paired b = Some (s, e) \<longleftrightarrow> start_ns b = Some s \<and> end_ns b = Some e \<and> s < e"
  by (auto simp: paired_def split: option.splits)

text \<open>The span of a block as a set of instants.\<close>

definition covers :: "eyes_block \<Rightarrow> int \<Rightarrow> bool" where
  "covers b \<tau> \<longleftrightarrow> (case paired b of None \<Rightarrow> False | Some (s, e) \<Rightarrow> s \<le> \<tau> \<and> \<tau> < e)"

lemma covers_Some: "paired b = Some (s, e) \<Longrightarrow> covers b \<tau> \<longleftrightarrow> s \<le> \<tau> \<and> \<tau> < e"
  by (simp add: covers_def)

lemma covers_iff: "covers b \<tau> \<longleftrightarrow> (\<exists>s e. paired b = Some (s, e) \<and> s \<le> \<tau> \<and> \<tau> < e)"
  by (auto simp: covers_def split: option.split)

text \<open>The timestamps the segmentation is specified for: non-negative nanoseconds of an \<open>i64\<close>, whose
  differences do not wrap.\<close>

definition epoch_ns :: "int \<Rightarrow> bool" where
  "epoch_ns t \<longleftrightarrow> 0 \<le> t \<and> t \<le> i64_max"

lemma epoch_diff: "epoch_ns a \<Longrightarrow> epoch_ns b \<Longrightarrow> in_i64 (b - a)"
  by (simp add: epoch_ns_def in_i64_def i64_min_def i64_max_def)

lemma epoch_sub [simp]: "epoch_ns a \<Longrightarrow> epoch_ns b \<Longrightarrow> i64_sub b a = b - a"
  by (simp add: i64_sub_exact epoch_diff)

lemma epoch_in_i64: "epoch_ns a \<Longrightarrow> in_i64 a"
  by (simp add: epoch_ns_def in_i64_def i64_min_def i64_max_def)

text \<open>Events as the segmentation hands them to its parts: in time order.\<close>

definition in_time_order :: "eyes_event list \<Rightarrow> bool" where
  "in_time_order events \<longleftrightarrow>
     sorted (map ev_timestamp_ns events) \<and> (\<forall>ev \<in> set events. epoch_ns (ev_timestamp_ns ev))"

end
