(* ===== verification/Eyes_Blocks.thy ===== *)
theory Eyes_Blocks
  imports Eyes_Types "HOL-Library.Sublist"
begin

text \<open>
  How the device-state blocks are built from the event stream: the bracket streams of SHUTDOWN and
  IDLE with their pairwise glue and pairing, the gap segments, and the glances
  (\<open>glue_pairwise\<close>, \<open>build_bracket_blocks\<close>, \<open>bracket_stream\<close>, \<open>detect_gap_segments\<close>,
  \<open>push_gap_segment\<close>, \<open>build_glance_blocks\<close>). Events and signals are parallel lists.
\<close>

section \<open>Bracket streams\<close>

datatype bracket_role = Open | Close

fun glue_pairwise :: "int \<Rightarrow> (int \<times> bracket_role) list \<Rightarrow> (int \<times> bracket_role) list" where
  "glue_pairwise glue_ns ((timestamp, role) # (next_timestamp, next_role) # rest) =
     (let delta = i64_sub next_timestamp timestamp in
      if next_role = role \<and> 0 \<le> delta \<and> delta \<le> glue_ns
      then (case role of Open \<Rightarrow> next_timestamp | Close \<Rightarrow> timestamp, role)
             # glue_pairwise glue_ns rest
      else (timestamp, role) # glue_pairwise glue_ns ((next_timestamp, next_role) # rest))"
| "glue_pairwise glue_ns stream = stream"

definition bracket_step ::
    "eyes_block_type \<Rightarrow> bool \<Rightarrow> int \<times> bracket_role \<Rightarrow> eyes_block list \<times> int option
      \<Rightarrow> eyes_block list \<times> int option" where
  "bracket_step btype close_requires_strictly_after = (\<lambda>(timestamp, role) (blocks, pending).
     case role of
       Open \<Rightarrow>
         (case pending of
            None \<Rightarrow> blocks
          | Some previous \<Rightarrow>
              blocks @ [\<lparr>block_type = btype, start_ns = Some previous, end_ns = None\<rparr>],
          Some timestamp)
     | Close \<Rightarrow>
         (let pairs =
                (case pending of
                   None \<Rightarrow> False
                 | Some start \<Rightarrow>
                     if close_requires_strictly_after then start < timestamp
                     else start \<le> timestamp)
          in if pairs
             then (blocks @ [\<lparr>block_type = btype, start_ns = pending, end_ns = Some timestamp\<rparr>],
                   None)
             else (blocks @ [\<lparr>block_type = btype, start_ns = None, end_ns = Some timestamp\<rparr>],
                   pending)))"

definition build_bracket_blocks ::
    "(int \<times> bracket_role) list \<Rightarrow> eyes_block_type \<Rightarrow> bool \<Rightarrow> eyes_block list" where
  "build_bracket_blocks glued btype close_requires_strictly_after =
     (case fold (bracket_step btype close_requires_strictly_after) glued ([], None) of
        (blocks, pending) \<Rightarrow>
          (case pending of
             None \<Rightarrow> blocks
           | Some start \<Rightarrow>
               blocks @ [\<lparr>block_type = btype, start_ns = Some start, end_ns = None\<rparr>]))"

definition bracket_stream ::
    "eyes_event list \<Rightarrow> eyes_signal list \<Rightarrow> (eyes_signal \<Rightarrow> bool) \<Rightarrow> (eyes_signal \<Rightarrow> bool)
      \<Rightarrow> (int \<times> bracket_role) list" where
  "bracket_stream events signals opens closes =
     List.map_filter
       (\<lambda>(event, signal).
          if opens signal then Some (ev_timestamp_ns event, Open)
          else if closes signal then Some (ev_timestamp_ns event, Close)
          else None)
       (zip events signals)"

section \<open>Gap segments\<close>

definition push_gap_segment :: "int \<Rightarrow> int \<Rightarrow> (int \<times> int) list \<Rightarrow> (int \<times> int) list" where
  "push_gap_segment start end_time segments =
     (if end_time \<le> start then segments
      else if segments \<noteq> [] \<and> start < snd (last segments)
      then (if snd (last segments) < end_time
            then butlast segments @ [(fst (last segments), end_time)]
            else segments)
      else segments @ [(start, end_time)])"

abbreviation ts_at :: "eyes_event list \<Rightarrow> nat \<Rightarrow> int" where
  "ts_at events i \<equiv> ev_timestamp_ns (events ! i)"

text \<open>The first event at least the neighbour threshold later, and the last one at least that much
  earlier, the event itself aside.\<close>

definition gap_forward :: "eyes_event list \<Rightarrow> int \<Rightarrow> nat \<Rightarrow> nat option" where
  "gap_forward events neighbour_ns index =
     (case find (\<lambda>k. neighbour_ns \<le> i64_sub (ts_at events k) (ts_at events index))
             [index..<length events] of
        Some far \<Rightarrow> if index < far then Some far else None
      | None \<Rightarrow> None)"

definition gap_backward :: "eyes_event list \<Rightarrow> int \<Rightarrow> nat \<Rightarrow> nat option" where
  "gap_backward events neighbour_ns index =
     (case find (\<lambda>k. neighbour_ns \<le> i64_sub (ts_at events index) (ts_at events k))
             (rev [0..<Suc index]) of
        Some far \<Rightarrow> if far < index then Some far else None
      | None \<Rightarrow> None)"

text \<open>One iteration: the next cursor and the segments. The predecessor becomes the present event.\<close>

definition gap_step ::
    "eyes_event list \<Rightarrow> eyes_signal list \<Rightarrow> int \<Rightarrow> int \<Rightarrow> nat \<Rightarrow> int option \<Rightarrow> (int \<times> int) list
      \<Rightarrow> nat \<times> (int \<times> int) list" where
  "gap_step events signals silence_ns neighbour_ns index previous segments =
     (let timestamp = ts_at events index in
      case previous of
        None \<Rightarrow> (Suc index, segments)
      | Some previous_timestamp \<Rightarrow>
          if silence_ns \<le> i64_sub timestamp previous_timestamp
          then (Suc index, push_gap_segment previous_timestamp timestamp segments)
          else if is_shutdown_class_reboot (signals ! index)
          then (case gap_forward events neighbour_ns index of
                  Some far \<Rightarrow> (far, push_gap_segment timestamp (ts_at events far) segments)
                | None \<Rightarrow> (Suc index, segments))
          else if is_startup_class_reboot (signals ! index)
          then (case gap_backward events neighbour_ns index of
                  Some far \<Rightarrow> (Suc index, push_gap_segment (ts_at events far) timestamp segments)
                | None \<Rightarrow> (Suc index, segments))
          else (Suc index, segments))"

lemma gap_step_progress: "index < fst (gap_step events signals s n index previous segments)"
  by (auto simp: gap_step_def gap_forward_def Let_def split: option.split if_splits)

function gap_loop ::
    "eyes_event list \<Rightarrow> eyes_signal list \<Rightarrow> int \<Rightarrow> int \<Rightarrow> nat \<Rightarrow> int option \<Rightarrow> (int \<times> int) list
      \<Rightarrow> (int \<times> int) list" where
  "gap_loop events signals silence_ns neighbour_ns index previous segments =
     (if index < length events
      then gap_loop events signals silence_ns neighbour_ns
             (fst (gap_step events signals silence_ns neighbour_ns index previous segments))
             (Some (ts_at events index))
             (snd (gap_step events signals silence_ns neighbour_ns index previous segments))
      else segments)"
  by pat_completeness auto

termination gap_loop
proof (relation "measure (\<lambda>(events, _, _, _, index, _). length events - index)")
  fix events :: "eyes_event list" and signals silence_ns neighbour_ns index previous segments
  assume i: "index < length events"
  then show "((events, signals, silence_ns, neighbour_ns,
      fst (gap_step events signals silence_ns neighbour_ns index previous segments),
      Some (ts_at events index),
      snd (gap_step events signals silence_ns neighbour_ns index previous segments)),
     events, signals, silence_ns, neighbour_ns, index, previous, segments)
    \<in> measure (\<lambda>(events, _, _, _, index, _). length events - index)"
    using gap_step_progress [of index events signals silence_ns neighbour_ns previous segments]
    by simp
qed simp

declare gap_loop.simps [simp del]

definition detect_gap_segments ::
    "eyes_event list \<Rightarrow> eyes_signal list \<Rightarrow> eyes_options \<Rightarrow> (int \<times> int) list" where
  "detect_gap_segments events signals opts =
     gap_loop events signals (seconds_to_ns (f64_mul (gap_silence_hours opts) 3600))
       (seconds_to_ns (gap_reboot_neighbor_seconds opts)) 0 None []"

section \<open>Glances\<close>

datatype glance_signal = Wake | Sleep | Unlock | Cancel

fun glance_source :: "eyes_signal \<Rightarrow> (nat \<times> glance_signal) option" where
  "glance_source ScreenInteractive = Some (0, Wake)"
| "glance_source ScreenNonInteractiveSignal = Some (0, Sleep)"
| "glance_source KeyguardHidden = Some (0, Unlock)"
| "glance_source DeviceShutdown = Some (1, Cancel)"
| "glance_source UserStopped = Some (1, Cancel)"
| "glance_source _ = None"

text \<open>The union of the idle, shutdown and gap streams, in the order of (timestamp, stream, position).\<close>

definition glance_stream ::
    "eyes_event list \<Rightarrow> eyes_signal list \<Rightarrow> (int \<times> int) list
      \<Rightarrow> (int \<times> nat \<times> nat \<times> glance_signal) list" where
  "glance_stream events signals gap_segments =
     sort_key (\<lambda>(timestamp, source, order, _). (timestamp, source, order))
       (List.map_filter
          (\<lambda>(order, event, signal).
             map_option (\<lambda>(source, sig). (ev_timestamp_ns event, source, order, sig))
               (glance_source signal))
          (List.enumerate 0 (zip events signals))
        @ map (\<lambda>(index, start, _). (start, 2, index, Cancel)) (List.enumerate 0 gap_segments))"

definition glance_step ::
    "int \<times> glance_signal \<Rightarrow> eyes_block list \<times> int option \<Rightarrow> eyes_block list \<times> int option" where
  "glance_step = (\<lambda>(timestamp, sig) (blocks, pending_start).
     case sig of
       Wake \<Rightarrow> (blocks, Some timestamp)
     | Unlock \<Rightarrow>
         (blocks,
          case pending_start of
            None \<Rightarrow> None
          | Some start \<Rightarrow> if start \<le> timestamp then None else Some start)
     | Sleep \<Rightarrow>
         (case pending_start of
            None \<Rightarrow> blocks
          | Some start \<Rightarrow>
              if start < timestamp
              then blocks @ [\<lparr>block_type = Glance, start_ns = Some start, end_ns = Some timestamp\<rparr>]
              else blocks,
          None)
     | Cancel \<Rightarrow> (blocks, None))"

definition build_glance_blocks ::
    "eyes_event list \<Rightarrow> eyes_signal list \<Rightarrow> (int \<times> int) list \<Rightarrow> eyes_block list" where
  "build_glance_blocks events signals gap_segments =
     fst (fold glance_step
       (map (\<lambda>(timestamp, _, _, sig). (timestamp, sig))
         (glance_stream events signals gap_segments)) ([], None))"

section \<open>Gap segments are ordered and cover every long silence\<close>

definition ordered_segments :: "(int \<times> int) list \<Rightarrow> bool" where
  "ordered_segments segs \<longleftrightarrow>
     sorted_wrt (\<lambda>a b. snd a \<le> fst b) segs \<and> (\<forall>(s, e) \<in> set segs. s < e)"

definition segment_covers :: "(int \<times> int) list \<Rightarrow> int \<Rightarrow> int \<Rightarrow> bool" where
  "segment_covers segs a b \<longleftrightarrow> (\<exists>(s, e) \<in> set segs. s \<le> a \<and> b \<le> e)"

lemma push_gap_cases:
  obtains (skip) "end_time \<le> start" "push_gap_segment start end_time segs = segs"
  | (inside) xs s e where "segs = xs @ [(s, e)]" "start < end_time" "end_time \<le> e" "start < e"
      "push_gap_segment start end_time segs = segs"
  | (extend) xs s e where "segs = xs @ [(s, e)]" "start < e" "e < end_time"
      "push_gap_segment start end_time segs = xs @ [(s, end_time)]"
  | (new) xs s e where "segs = xs @ [(s, e)]" "start < end_time" "e \<le> start"
      "push_gap_segment start end_time segs = segs @ [(start, end_time)]"
  | (first) "segs = []" "start < end_time" "push_gap_segment start end_time segs = [(start, end_time)]"
proof (cases segs rule: rev_cases)
  case Nil
  with that(1,5) show ?thesis by (cases "end_time \<le> start") (simp_all add: push_gap_segment_def)
next
  case (snoc xs p)
  obtain s e where p: "p = (s, e)" by (cases p)
  consider "end_time \<le> start" | "start < end_time" "end_time \<le> e" "start < e"
    | "start < e" "e < end_time" | "start < end_time" "e \<le> start"
    by linarith
  then show ?thesis
  proof cases
    case 1
    with that(1) show ?thesis by (simp add: push_gap_segment_def)
  next
    case 2
    with that(2) [of xs s e] show ?thesis by (simp add: push_gap_segment_def snoc p)
  next
    case 3
    with that(3) [of xs s e] show ?thesis by (simp add: push_gap_segment_def snoc p)
  next
    case 4
    with that(4) [of xs s e] show ?thesis by (simp add: push_gap_segment_def snoc p)
  qed
qed

lemma push_gap_ordered:
  assumes "ordered_segments segs"
  shows "ordered_segments (push_gap_segment start end_time segs)"
proof (cases rule: push_gap_cases [where start = start and end_time = end_time and segs = segs])
  case (new xs s e)
  then have "\<forall>x \<in> set xs. snd x \<le> s" "s < e"
    using assms by (auto simp: ordered_segments_def sorted_wrt_append)
  then have "\<forall>x \<in> set segs. snd x \<le> start" using new by force
  with new assms show ?thesis by (auto simp: ordered_segments_def sorted_wrt_append)
qed (use assms in \<open>auto simp: ordered_segments_def sorted_wrt_append\<close>)

text \<open>A push keeps what was covered, and covers its own span when it starts after every segment.\<close>

lemma push_gap_keeps:
  assumes "segment_covers segs a b"
  shows "segment_covers (push_gap_segment start end_time segs) a b"
  using assms
  by (cases rule: push_gap_cases [where start = start and end_time = end_time and segs = segs])
    (auto simp: segment_covers_def)

lemma push_gap_covers:
  assumes "\<forall>(s, e) \<in> set segs. s \<le> start" "start < end_time"
  shows "segment_covers (push_gap_segment start end_time segs) start end_time"
  using assms
  by (cases rule: push_gap_cases [where start = start and end_time = end_time and segs = segs])
    (auto simp: segment_covers_def)

lemma push_gap_bounds:
  assumes "(s, e) \<in> set (push_gap_segment start end_time segs)"
  shows "(\<exists>e'. (s, e') \<in> set segs) \<or> s = start" and "(\<exists>s'. (s', e) \<in> set segs) \<or> e = end_time"
  using assms
  by (cases rule: push_gap_cases [where start = start and end_time = end_time and segs = segs];
      auto)+

text \<open>The invariant of the cursor loop on events in time order.\<close>

definition gap_inv ::
    "eyes_event list \<Rightarrow> int \<Rightarrow> nat \<Rightarrow> int option \<Rightarrow> (int \<times> int) list \<Rightarrow> bool" where
  "gap_inv events silence_ns index previous segs \<longleftrightarrow>
     ordered_segments segs
     \<and> (case previous of
          None \<Rightarrow> index = 0 \<and> segs = []
        | Some p \<Rightarrow>
            0 < index \<and> p \<in> ev_timestamp_ns ` set events
            \<and> (\<forall>(s, e) \<in> set segs. s \<le> p)
            \<and> (index < length events \<longrightarrow> p \<le> ts_at events index)
            \<and> (\<forall>k. Suc k < index \<and> Suc k < length events
                 \<and> silence_ns \<le> ts_at events (Suc k) - ts_at events k
                 \<and> ts_at events k < ts_at events (Suc k) \<longrightarrow>
                 segment_covers segs (ts_at events k) (ts_at events (Suc k)))
            \<and> (index < length events \<and> p \<noteq> ts_at events (index - 1)
                 \<and> silence_ns \<le> ts_at events index - ts_at events (index - 1)
                 \<and> ts_at events (index - 1) < ts_at events index \<longrightarrow>
                 segment_covers segs (ts_at events (index - 1)) (ts_at events index)))
     \<and> (\<forall>(s, e) \<in> set segs. s \<in> ev_timestamp_ns ` set events \<and> e \<in> ev_timestamp_ns ` set events)"

lemma segment_covers_mono:
  assumes "segment_covers segs a b" "a \<le> a'" "b' \<le> b"
  shows "segment_covers segs a' b'"
proof -
  obtain s e where "(s, e) \<in> set segs" "s \<le> a" "b \<le> e"
    using assms(1) by (auto simp: segment_covers_def)
  then show ?thesis
    unfolding segment_covers_def using assms(2,3) by (intro bexI [of _ "(s, e)"]) auto
qed

lemma ts_mono: "in_time_order events \<Longrightarrow> i \<le> j \<Longrightarrow> j < length events \<Longrightarrow> ts_at events i \<le> ts_at events j"
  using sorted_nth_mono [of "map ev_timestamp_ns events" i j] by (simp add: in_time_order_def)

lemma ts_epoch: "in_time_order events \<Longrightarrow> i < length events \<Longrightarrow> epoch_ns (ts_at events i)"
  by (simp add: in_time_order_def)

text \<open>A long silence: two consecutive events at least the threshold apart.\<close>

definition long_silence :: "eyes_event list \<Rightarrow> int \<Rightarrow> nat \<Rightarrow> bool" where
  "long_silence events silence_ns k \<longleftrightarrow>
     Suc k < length events \<and> ts_at events k < ts_at events (Suc k)
     \<and> silence_ns \<le> ts_at events (Suc k) - ts_at events k"

text \<open>What one iteration establishes, for the segments it may have pushed.\<close>

lemma gap_inv_next:
  assumes ord: "in_time_order events" and i: "index < length events"
    and next_index: "index < next_index" "next_index \<le> length events"
    and segs: "ordered_segments segs'" "\<forall>(s, e) \<in> set segs'. s \<le> ts_at events index"
      "\<forall>(s, e) \<in> set segs'. s \<in> ev_timestamp_ns ` set events \<and> e \<in> ev_timestamp_ns ` set events"
    and covered: "\<And>k. Suc k \<le> index \<Longrightarrow> long_silence events silence_ns k \<Longrightarrow>
      segment_covers segs' (ts_at events k) (ts_at events (Suc k))"
    and jumped: "\<And>k. index \<le> k \<Longrightarrow> Suc index < next_index \<Longrightarrow> Suc k \<le> next_index \<Longrightarrow>
      long_silence events silence_ns k \<Longrightarrow>
      segment_covers segs' (ts_at events k) (ts_at events (Suc k))"
  shows "gap_inv events silence_ns next_index (Some (ts_at events index)) segs'"
proof -
  have all: "segment_covers segs' (ts_at events k) (ts_at events (Suc k))"
    if "Suc k < next_index" "long_silence events silence_ns k" for k
    using covered [of k] jumped [of k] that by (cases "Suc k \<le> index") auto
  have last: "segment_covers segs' (ts_at events (next_index - 1)) (ts_at events next_index)"
    if "ts_at events index \<noteq> ts_at events (next_index - 1)"
      "long_silence events silence_ns (next_index - 1)"
  proof -
    have "next_index - 1 \<noteq> index" using that(1) by metis
    then show ?thesis using jumped [of "next_index - 1"] that(2) next_index by simp
  qed
  show ?thesis
    unfolding gap_inv_def
    using segs next_index i all last ts_mono [OF ord, of index next_index]
    by (auto simp: long_silence_def less_imp_le)
qed

lemma gap_step_inv:
  assumes ord: "in_time_order events" and i: "index < length events"
    and inv: "gap_inv events silence_ns index previous segs"
  shows "gap_inv events silence_ns
      (fst (gap_step events signals silence_ns neighbour_ns index previous segs))
      (Some (ts_at events index))
      (snd (gap_step events signals silence_ns neighbour_ns index previous segs))"
proof (cases previous)
  case None
  then have "index = 0" "segs = []" using inv by (auto simp: gap_inv_def)
  with None i show ?thesis
    using gap_inv_next [OF ord i, of "Suc index" "[]" silence_ns]
    by (simp add: gap_step_def ordered_segments_def Suc_le_eq)
next
  case (Some p)
  let ?t = "ts_at events index"
  have p: "p \<le> ?t" "p \<in> ev_timestamp_ns ` set events" "0 < index"
    and starts: "\<forall>(s, e) \<in> set segs. s \<le> p" and ordered: "ordered_segments segs"
    and ends: "\<forall>(s, e) \<in> set segs. s \<in> ev_timestamp_ns ` set events
      \<and> e \<in> ev_timestamp_ns ` set events"
    using inv i Some by (auto simp: gap_inv_def)
  have old: "segment_covers segs (ts_at events k) (ts_at events (Suc k))"
    if "Suc k < index \<or> Suc k = index \<and> p \<noteq> ts_at events k" "long_silence events silence_ns k" for k
    using inv that i Some by (auto simp: gap_inv_def long_silence_def)
  have ep: "epoch_ns p" "epoch_ns ?t" using ord p(2) i by (auto simp: in_time_order_def)
  have sub: "i64_sub ?t p = ?t - p" using ep by simp
  have mem: "ts_at events k \<in> ev_timestamp_ns ` set events" if "k < length events" for k
    using that by simp
  have push: "ordered_segments (push_gap_segment a b segs)"
    "\<forall>(s, e) \<in> set (push_gap_segment a b segs). s \<le> ?t"
    "\<forall>(s, e) \<in> set (push_gap_segment a b segs). s \<in> ev_timestamp_ns ` set events
       \<and> e \<in> ev_timestamp_ns ` set events"
    if ab: "a \<le> ?t" "a \<in> ev_timestamp_ns ` set events" "b \<in> ev_timestamp_ns ` set events" for a b
  proof -
    have "s \<le> ?t \<and> s \<in> ev_timestamp_ns ` set events \<and> e \<in> ev_timestamp_ns ` set events"
      if "(s, e) \<in> set (push_gap_segment a b segs)" for s e
      using push_gap_bounds [OF that] ab starts ends p(1) by fastforce
    then show "ordered_segments (push_gap_segment a b segs)"
      "\<forall>(s, e) \<in> set (push_gap_segment a b segs). s \<le> ?t"
      "\<forall>(s, e) \<in> set (push_gap_segment a b segs). s \<in> ev_timestamp_ns ` set events
       \<and> e \<in> ev_timestamp_ns ` set events"
      using push_gap_ordered [OF ordered] by auto
  qed
  have none: "\<forall>(s, e) \<in> set segs. s \<le> ?t" using starts p(1) by fastforce
  show ?thesis
  proof (cases "silence_ns \<le> ?t - p")
    case True
    have cov: "segment_covers (push_gap_segment p ?t segs) (ts_at events k) (ts_at events (Suc k))"
      if "Suc k \<le> index" "long_silence events silence_ns k" for k
    proof (cases "Suc k = index \<and> p = ts_at events k")
      case True
      with that push_gap_covers [OF starts, of ?t] show ?thesis by (auto simp: long_silence_def)
    next
      case False
      with that old show ?thesis by (intro push_gap_keeps old) auto
    qed
    have "gap_inv events silence_ns (Suc index) (Some ?t) (push_gap_segment p ?t segs)"
      using cov push [OF p(1,2) mem [OF i]] i by (intro gap_inv_next [OF ord i]) auto
    then show ?thesis using True by (simp add: gap_step_def Some sub)
  next
    case False
    have cov: "segment_covers segs (ts_at events k) (ts_at events (Suc k))"
      if "Suc k \<le> index" "long_silence events silence_ns k" for k
    proof (cases "Suc k = index")
      case True
      with that(2) False have "p \<noteq> ts_at events k" by (auto simp: long_silence_def)
      with True that(2) show ?thesis by (intro old) simp_all
    next
      case False
      with that show ?thesis by (intro old) simp_all
    qed
    have keep: "gap_inv events silence_ns (Suc index) (Some ?t) segs"
      using cov ordered none ends i by (intro gap_inv_next [OF ord i]) auto
    have behind: "gap_inv events silence_ns (Suc index) (Some ?t)
        (push_gap_segment (ts_at events far) ?t segs)" if "far < index" for far
      using cov push [of "ts_at events far" ?t] that i ts_mono [OF ord, of far index] mem
      by (intro gap_inv_next [OF ord i]) (auto intro: push_gap_keeps)
    have ahead: "gap_inv events silence_ns far (Some ?t)
        (push_gap_segment ?t (ts_at events far) segs)" if far: "index < far" "far < length events" for far
    proof (rule gap_inv_next [OF ord i])
      show "index < far" "far \<le> length events" using far by auto
      show "ordered_segments (push_gap_segment ?t (ts_at events far) segs)"
        "\<forall>(s, e) \<in> set (push_gap_segment ?t (ts_at events far) segs). s \<le> ?t"
        "\<forall>(s, e) \<in> set (push_gap_segment ?t (ts_at events far) segs).
           s \<in> ev_timestamp_ns ` set events \<and> e \<in> ev_timestamp_ns ` set events"
        using push [of ?t "ts_at events far"] far i by auto
      fix k
      show "segment_covers (push_gap_segment ?t (ts_at events far) segs) (ts_at events k)
          (ts_at events (Suc k))" if "Suc k \<le> index" "long_silence events silence_ns k"
        using cov [OF that] by (rule push_gap_keeps)
      assume k: "index \<le> k" "Suc index < far" "Suc k \<le> far" "long_silence events silence_ns k"
      have "?t \<le> ts_at events k" "ts_at events (Suc k) \<le> ts_at events far"
        using k far by (auto intro!: ts_mono [OF ord])
      moreover from this k(4) have "?t < ts_at events far" by (auto simp: long_silence_def)
      ultimately show "segment_covers (push_gap_segment ?t (ts_at events far) segs)
          (ts_at events k) (ts_at events (Suc k))"
        using push_gap_covers [OF none] segment_covers_mono by blast
    qed
    have "index < far \<and> far < length events"
      if "gap_forward events neighbour_ns index = Some far" for far
      using that by (auto simp: gap_forward_def split: option.splits if_splits dest!: find_SomeD)
    moreover have "far < index" if "gap_backward events neighbour_ns index = Some far" for far
      using that by (auto simp: gap_backward_def split: option.splits if_splits)
    ultimately show ?thesis
      using False keep behind ahead
      by (auto simp: gap_step_def Some sub Let_def split: option.split)
  qed
qed

lemma gap_loop_inv:
  assumes "in_time_order events" "gap_inv events silence_ns index previous segs"
  shows "\<exists>index' previous'. length events \<le> index'
    \<and> gap_inv events silence_ns index' previous'
        (gap_loop events signals silence_ns neighbour_ns index previous segs)"
  using assms
proof (induction events signals silence_ns neighbour_ns index previous segs rule: gap_loop.induct)
  case (1 events signals silence_ns neighbour_ns index previous segs)
  show ?case
  proof (cases "index < length events")
    case True
    with 1 gap_step_inv [OF 1(2) True 1(3)] show ?thesis by (subst gap_loop.simps) simp
  next
    case False
    then show ?thesis using 1(3) by (subst gap_loop.simps) (auto simp: not_less)
  qed
qed

lemma detect_gap_inv:
  assumes "in_time_order events"
  shows "\<exists>index previous. length events \<le> index
    \<and> gap_inv events (seconds_to_ns (f64_mul (gap_silence_hours opts) 3600)) index previous
        (detect_gap_segments events signals opts)"
  unfolding detect_gap_segments_def
  by (rule gap_loop_inv [OF assms]) (simp add: gap_inv_def ordered_segments_def)

section \<open>Brackets: nothing is lost\<close>

lemma glue_pairwise_subseq: "subseq (glue_pairwise glue_ns stream) stream"
  by (induction glue_ns stream rule: glue_pairwise.induct)
    (auto simp: Let_def split: bracket_role.split)

text \<open>The starts and ends of the blocks are the opens and closes of the stream, each once and in
  order; a paired block never ends before it starts.\<close>

definition bracket_rel ::
    "eyes_block_type \<Rightarrow> bool \<Rightarrow> (int \<times> bracket_role) list \<Rightarrow> eyes_block list \<times> int option \<Rightarrow> bool" where
  "bracket_rel btype strict glued st \<longleftrightarrow>
     (case st of (blocks, pending) \<Rightarrow>
        List.map_filter start_ns blocks @ (case pending of None \<Rightarrow> [] | Some t \<Rightarrow> [t])
          = map fst (filter (\<lambda>(t, r). r = Open) glued)
        \<and> List.map_filter end_ns blocks = map fst (filter (\<lambda>(t, r). r = Close) glued)
        \<and> (\<forall>b \<in> set blocks. block_type b = btype \<and> block_kind b \<noteq> Empty
             \<and> (\<forall>s e. start_ns b = Some s \<and> end_ns b = Some e \<longrightarrow>
                  (if strict then s < e else s \<le> e))))"

lemma bracket_step_rel:
  assumes "bracket_rel btype strict glued st"
  shows "bracket_rel btype strict (glued @ [p]) (bracket_step btype strict p st)"
  using assms
  by (cases p; cases st; cases "snd p"; cases "snd st")
    (auto simp: bracket_rel_def bracket_step_def Let_def map_filter_single block_kind_def
      List.map_filter_simps)

lemma bracket_fold_rel:
  "bracket_rel btype strict glued (fold (bracket_step btype strict) glued ([], None))"
proof (induction glued rule: rev_induct)
  case Nil
  show ?case by (simp add: bracket_rel_def List.map_filter_simps)
next
  case (snoc p glued)
  then show ?case by (simp add: bracket_step_rel)
qed

lemma build_bracket_blocks_facts:
  "List.map_filter start_ns (build_bracket_blocks glued btype strict)
     = map fst (filter (\<lambda>(t, r). r = Open) glued)"
  "List.map_filter end_ns (build_bracket_blocks glued btype strict)
     = map fst (filter (\<lambda>(t, r). r = Close) glued)"
  "\<forall>b \<in> set (build_bracket_blocks glued btype strict). block_type b = btype \<and> block_kind b \<noteq> Empty
     \<and> (\<forall>s e. start_ns b = Some s \<and> end_ns b = Some e \<longrightarrow> (if strict then s < e else s \<le> e))"
proof -
  obtain blocks pending where st: "fold (bracket_step btype strict) glued ([], None) = (blocks, pending)"
    by (cases "fold (bracket_step btype strict) glued ([], None)")
  then have rel: "bracket_rel btype strict glued (blocks, pending)"
    using bracket_fold_rel [of btype strict glued] by simp
  have out: "build_bracket_blocks glued btype strict = blocks @
      (case pending of None \<Rightarrow> [] | Some t \<Rightarrow> [\<lparr>block_type = btype, start_ns = Some t, end_ns = None\<rparr>])"
    by (simp add: build_bracket_blocks_def st split: option.split)
  show "List.map_filter start_ns (build_bracket_blocks glued btype strict)
     = map fst (filter (\<lambda>(t, r). r = Open) glued)"
    "List.map_filter end_ns (build_bracket_blocks glued btype strict)
     = map fst (filter (\<lambda>(t, r). r = Close) glued)"
    using rel unfolding out bracket_rel_def
    by (cases pending; simp add: map_filter_single List.map_filter_simps)+
  show "\<forall>b \<in> set (build_bracket_blocks glued btype strict). block_type b = btype \<and> block_kind b \<noteq> Empty
     \<and> (\<forall>s e. start_ns b = Some s \<and> end_ns b = Some e \<longrightarrow> (if strict then s < e else s \<le> e))"
    using rel unfolding out bracket_rel_def by (cases pending) (simp_all add: block_kind_def)
qed

section \<open>Glances are adjacent wakes and sleeps\<close>

fun glance_pairs :: "(int \<times> glance_signal) list \<Rightarrow> eyes_block list" where
  "glance_pairs ((t, sig) # (t', sig') # rest) =
     (if sig = Wake \<and> sig' = Sleep \<and> t < t'
      then [\<lparr>block_type = Glance, start_ns = Some t, end_ns = Some t'\<rparr>] else [])
     @ glance_pairs ((t', sig') # rest)"
| "glance_pairs _ = []"

lemma glance_fold:
  assumes "sorted (map fst ((case pending of None \<Rightarrow> [] | Some t0 \<Rightarrow> [(t0, Wake)]) @ xs))"
  shows "fst (fold glance_step xs (blocks, pending))
    = blocks @ glance_pairs ((case pending of None \<Rightarrow> [] | Some t0 \<Rightarrow> [(t0, Wake)]) @ xs)"
  using assms
proof (induction xs arbitrary: blocks pending)
  case Nil
  then show ?case by (simp split: option.split)
next
  case (Cons x xs)
  obtain t sig where x: "x = (t, sig)" by (cases x)
  have skip: "glance_pairs ((t, sig) # xs) = glance_pairs xs" if "sig \<noteq> Wake"
    using that by (cases xs) auto
  have s: "sorted (map fst xs)" "\<forall>y \<in> fst ` set xs. t \<le> y"
    using Cons.prems by (auto simp: x split: option.splits)
  show ?case
  proof (cases "sig = Wake")
    case True
    have "fst (fold glance_step xs (blocks, Some t)) = blocks @ glance_pairs ((t, Wake) # xs)"
      using Cons.IH [of "Some t" blocks] s by auto
    then show ?thesis by (auto simp: x True glance_step_def split: option.split)
  next
    case False
    have end_pending: "fst (fold glance_step xs (bs, None)) = bs @ glance_pairs xs" for bs
      using Cons.IH [of None bs] s(1) by simp
    have le: "t0 \<le> t" if "pending = Some t0" for t0 using Cons.prems that by (simp add: x)
    show ?thesis
      using False skip end_pending le
      by (cases pending; cases sig) (simp_all add: x glance_step_def)
  qed
qed

lemma glance_stream_sorted:
  "sorted (map fst (map (\<lambda>(timestamp, _, _, sig). (timestamp, sig)) (glance_stream events signals gaps)))"
proof -
  let ?key = "\<lambda>(timestamp :: int, source :: nat, order :: nat, _ :: glance_signal).
      (timestamp, source, order)"
  have "sorted (map ?key (glance_stream events signals gaps))"
    unfolding glance_stream_def by (rule sorted_sort_key)
  then have "sorted_wrt (\<lambda>a b. fst a \<le> fst b) (glance_stream events signals gaps)"
    unfolding sorted_map by (rule sorted_wrt_mono_rel [rotated]) (auto simp: less_eq_prod_def)
  then show ?thesis by (simp add: sorted_map comp_def case_prod_beta sorted_wrt_map)
qed

lemma build_glance_blocks_pairs:
  "build_glance_blocks events signals gaps =
     glance_pairs (map (\<lambda>(timestamp, _, _, sig). (timestamp, sig)) (glance_stream events signals gaps))"
  using glance_fold [of None "map (\<lambda>(timestamp, _, _, sig). (timestamp, sig))
      (glance_stream events signals gaps)" "[]"] glance_stream_sorted [of events signals gaps]
  by (simp add: build_glance_blocks_def)

lemma glance_pairs_iff:
  "b \<in> set (glance_pairs xs) \<longleftrightarrow>
     (\<exists>i. Suc i < length xs \<and> snd (xs ! i) = Wake \<and> snd (xs ! Suc i) = Sleep
        \<and> fst (xs ! i) < fst (xs ! Suc i)
        \<and> b = \<lparr>block_type = Glance, start_ns = Some (fst (xs ! i)),
               end_ns = Some (fst (xs ! Suc i))\<rparr>)"
proof (induction xs rule: glance_pairs.induct)
  case (1 t sig t' sig' rest)
  have split: "(\<exists>i. P i) \<longleftrightarrow> P 0 \<or> (\<exists>i. P (Suc i))" for P :: "nat \<Rightarrow> bool"
    by (metis not0_implies_Suc)
  show ?case
    unfolding glance_pairs.simps set_append Un_iff 1 by (subst (2) split, simp, blast)
qed auto

end
