(* ===== verification/Interval_Cut.thy ===== *)
theory Interval_Cut
  imports Prelude
begin

text \<open>
  The contract of an operation that cuts a window \<open>[a, b)\<close> into pieces against a timeline: every
  piece has a positive width, and an instant is covered by exactly one piece when it is in the
  window and the timeline includes it, by none otherwise. What follows for every such operation: the
  pieces lie in the window, no two overlap, and their widths add up to the included part of the
  window. The carving of shutdowns out of idle blocks and the tagging of usage chunks both provide
  it.
\<close>

locale interval_cut =
  fixes pieces :: "'s \<Rightarrow> int \<Rightarrow> int \<Rightarrow> 'p list"
    and span :: "'p \<Rightarrow> int \<times> int"
    and admissible :: "'s \<Rightarrow> bool"
    and included :: "'s \<Rightarrow> int \<Rightarrow> bool"
  assumes positive: "admissible s \<Longrightarrow> p \<in> set (pieces s a b) \<Longrightarrow> fst (span p) < snd (span p)"
    and exact: "admissible s \<Longrightarrow>
      length (filter (\<lambda>p. fst (span p) \<le> \<tau> \<and> \<tau> < snd (span p)) (pieces s a b))
        = (if a \<le> \<tau> \<and> \<tau> < b \<and> included s \<tau> then 1 else 0)"
begin

lemma covered_iff:
  assumes "admissible s"
  shows "(\<exists>p \<in> set (pieces s a b). fst (span p) \<le> \<tau> \<and> \<tau> < snd (span p)) \<longleftrightarrow>
    a \<le> \<tau> \<and> \<tau> < b \<and> included s \<tau>"
proof -
  have "(\<exists>p \<in> set (pieces s a b). fst (span p) \<le> \<tau> \<and> \<tau> < snd (span p)) \<longleftrightarrow>
      filter (\<lambda>p. fst (span p) \<le> \<tau> \<and> \<tau> < snd (span p)) (pieces s a b) \<noteq> []"
    by (auto simp: filter_empty_conv)
  also have "\<dots> \<longleftrightarrow> length (filter (\<lambda>p. fst (span p) \<le> \<tau> \<and> \<tau> < snd (span p)) (pieces s a b)) \<noteq> 0"
    by simp
  finally show ?thesis using exact [OF assms, of \<tau> a b] by auto
qed

lemma inside_window:
  assumes "admissible s" "p \<in> set (pieces s a b)"
  shows "a \<le> fst (span p) \<and> snd (span p) \<le> b"
proof -
  have pos: "fst (span p) < snd (span p)" using positive [OF assms] .
  then have "a \<le> fst (span p)" using covered_iff [OF assms(1), of a b "fst (span p)"] assms(2) by auto
  moreover have "snd (span p) - 1 < b"
    using covered_iff [OF assms(1), of a b "snd (span p) - 1"] assms(2) pos by force
  ultimately show ?thesis by simp
qed

lemma covers_only_included:
  assumes "admissible s" "p \<in> set (pieces s a b)" "fst (span p) \<le> \<tau>" "\<tau> < snd (span p)"
  shows "included s \<tau>"
  using covered_iff [OF assms(1), of a b \<tau>] assms(2-) by blast

lemma no_overlap:
  assumes adm: "admissible s" and ij: "i < j" "j < length (pieces s a b)"
    and \<tau>: "fst (span (pieces s a b ! i)) \<le> \<tau>" "\<tau> < snd (span (pieces s a b ! i))"
  shows "\<not> (fst (span (pieces s a b ! j)) \<le> \<tau> \<and> \<tau> < snd (span (pieces s a b ! j)))"
proof
  let ?P = "\<lambda>p. fst (span p) \<le> \<tau> \<and> \<tau> < snd (span p)"
  assume j: "?P (pieces s a b ! j)"
  have "{i, j} \<subseteq> {k. k < length (pieces s a b) \<and> ?P (pieces s a b ! k)}" using ij \<tau> j by auto
  then have "card {i, j} \<le> card {k. k < length (pieces s a b) \<and> ?P (pieces s a b ! k)}"
    by (intro card_mono) auto
  then have "2 \<le> length (filter ?P (pieces s a b))" using ij by (simp add: length_filter_conv_card)
  then show False using exact [OF adm, of \<tau> a b] by (auto split: if_splits)
qed

text \<open>Counting the covered instants both ways.\<close>

lemma width_count:
  assumes "\<forall>p \<in> set ps. a \<le> fst (span p) \<and> fst (span p) < snd (span p) \<and> snd (span p) \<le> b"
  shows "(\<Sum>p\<leftarrow>ps. snd (span p) - fst (span p))
    = (\<Sum>\<tau> \<in> {a..<b}. int (length (filter (\<lambda>p. fst (span p) \<le> \<tau> \<and> \<tau> < snd (span p)) ps)))"
  using assms
proof (induction ps)
  case Nil
  show ?case by simp
next
  case (Cons p ps)
  have "{\<tau> \<in> {a..<b}. fst (span p) \<le> \<tau> \<and> \<tau> < snd (span p)} = {fst (span p)..<snd (span p)}"
    using Cons.prems by auto
  then have "(\<Sum>\<tau> \<in> {a..<b}. if fst (span p) \<le> \<tau> \<and> \<tau> < snd (span p) then 1 else 0)
      = int (card {fst (span p)..<snd (span p)})"
    by (simp add: sum.If_cases Int_def)
  also have "\<dots> = snd (span p) - fst (span p)" using Cons.prems by simp
  finally have "snd (span p) - fst (span p)
      = (\<Sum>\<tau> \<in> {a..<b}. if fst (span p) \<le> \<tau> \<and> \<tau> < snd (span p) then 1 else 0)" by simp
  then have "(\<Sum>p\<leftarrow>p # ps. snd (span p) - fst (span p))
      = (\<Sum>\<tau> \<in> {a..<b}. (if fst (span p) \<le> \<tau> \<and> \<tau> < snd (span p) then 1 else 0)
           + int (length (filter (\<lambda>p. fst (span p) \<le> \<tau> \<and> \<tau> < snd (span p)) ps)))"
    using Cons by (simp add: sum.distrib)
  also have "\<dots> = (\<Sum>\<tau> \<in> {a..<b}. int (length (filter (\<lambda>p. fst (span p) \<le> \<tau> \<and> \<tau> < snd (span p)) (p # ps))))"
    by (intro sum.cong) auto
  finally show ?case .
qed

lemma total_width:
  assumes "admissible s"
  shows "(\<Sum>p\<leftarrow>pieces s a b. snd (span p) - fst (span p))
    = int (card {\<tau> \<in> {a..<b}. included s \<tau>})"
proof -
  have "(\<Sum>p\<leftarrow>pieces s a b. snd (span p) - fst (span p))
    = (\<Sum>\<tau> \<in> {a..<b}. int (length (filter (\<lambda>p. fst (span p) \<le> \<tau> \<and> \<tau> < snd (span p)) (pieces s a b))))"
    using inside_window [OF assms] positive [OF assms] by (intro width_count) blast
  also have "\<dots> = (\<Sum>\<tau> \<in> {a..<b}. if included s \<tau> then 1 else 0)"
    by (intro sum.cong) (auto simp: exact [OF assms])
  finally show ?thesis by (simp add: sum.If_cases Int_def)
qed

end

text \<open>Pieces in order without overlap cover an instant at most once.\<close>

lemma ordered_count:
  fixes span :: "'p \<Rightarrow> int \<times> int"
  assumes "sorted_wrt (\<lambda>p q. snd (span p) \<le> fst (span q)) ps"
  shows "length (filter (\<lambda>p. fst (span p) \<le> \<tau> \<and> \<tau> < snd (span p)) ps)
    = (if \<exists>p \<in> set ps. fst (span p) \<le> \<tau> \<and> \<tau> < snd (span p) then 1 else 0)"
  using assms
proof (induction ps)
  case (Cons p ps)
  show ?case
  proof (cases "fst (span p) \<le> \<tau> \<and> \<tau> < snd (span p)")
    case True
    then have "\<forall>q \<in> set ps. \<not> (fst (span q) \<le> \<tau> \<and> \<tau> < snd (span q))" using Cons.prems by fastforce
    with True show ?thesis by (simp add: filter_empty_conv)
  next
    case False
    with Cons show ?thesis by auto
  qed
qed simp

end
