(* ===== verification/Eyes_Reconcile.thy ===== *)
theory Eyes_Reconcile
  imports Eyes_Blocks Interval_Cut
begin

text \<open>
  The reconciliation of bracket blocks with gap blocks, the carving of SHUTDOWN out of IDLE, the
  exclusion of glances, and the block set they make (\<open>reconcile_with_gaps\<close>,
  \<open>exclude_shutdown_from_idle\<close>, \<open>exclude_overlapping_blocks\<close>, \<open>build_block_set\<close>).
\<close>

section \<open>Reconciliation\<close>

definition skippable :: "int \<Rightarrow> eyes_block \<Rightarrow> bool" where
  "skippable tolerance_seconds b =
     (case duration_seconds_truncated b of
        None \<Rightarrow> False
      | Some seconds \<Rightarrow> seconds \<noteq> 0 \<and> seconds \<le> tolerance_seconds)"

text \<open>One iteration of the two-pointer merge, over the cursors and the two mutable vectors.\<close>

definition reconcile_step ::
    "int \<Rightarrow> eyes_block_type \<Rightarrow> bool \<Rightarrow> nat \<Rightarrow> nat \<Rightarrow> eyes_block list \<Rightarrow> eyes_block list
      \<Rightarrow> nat \<times> nat \<times> eyes_block list \<times> eyes_block list" where
  "reconcile_step tolerance_ns claim_type guard_unclaimed bi gi brackets gaps =
     (let tolerance_seconds = trunc_div tolerance_ns 1000000000;
          bracket = brackets ! bi;
          gap = gaps ! gi
      in if skippable tolerance_seconds bracket then (Suc bi, gi, brackets, gaps)
         else if skippable tolerance_seconds gap then (bi, Suc gi, brackets, gaps)
         else case (start_ns gap, end_ns gap) of
           (Some gap_start, Some gap_end) \<Rightarrow>
             (let claimable = (\<not> guard_unclaimed \<or> block_type gap = Gap);
                  claimed = gaps[gi := gap\<lparr>block_type := claim_type\<rparr>]
              in case (start_ns bracket, end_ns bracket) of
                   (None, Some bracket_end) \<Rightarrow>
                     if i64_abs (i64_sub bracket_end gap_end) \<le> tolerance_ns
                     then (Suc bi, Suc gi,
                           if claimable then brackets[bi := bracket\<lparr>start_ns := Some gap_start\<rparr>]
                           else brackets,
                           if claimable then claimed else gaps)
                     else if bracket_end < gap_end then (Suc bi, gi, brackets, gaps)
                     else (bi, Suc gi, brackets, gaps)
                 | (Some bracket_start, None) \<Rightarrow>
                     if i64_abs (i64_sub bracket_start gap_start) \<le> tolerance_ns
                     then (Suc bi, Suc gi,
                           if claimable then brackets[bi := bracket\<lparr>end_ns := Some gap_end\<rparr>]
                           else brackets,
                           if claimable then claimed else gaps)
                     else if bracket_start < gap_start then (Suc bi, gi, brackets, gaps)
                     else (bi, Suc gi, brackets, gaps)
                 | (Some bracket_start, Some bracket_end) \<Rightarrow>
                     if i64_sub bracket_start tolerance_ns \<le> gap_start
                        \<and> gap_end \<le> i64_add bracket_end tolerance_ns
                     then (bi, Suc gi, brackets, if claimable then claimed else gaps)
                     else if bracket_end < gap_end then (Suc bi, gi, brackets, gaps)
                     else (bi, Suc gi, brackets, gaps)
                 | (None, None) \<Rightarrow> (Suc bi, gi, brackets, gaps))
         | _ \<Rightarrow> (bi, Suc gi, brackets, gaps))"

lemma reconcile_step_lengths:
  "reconcile_step tol c g bi gi brackets gaps = (bi', gi', brackets', gaps') \<Longrightarrow>
     length brackets' = length brackets \<and> length gaps' = length gaps
     \<and> bi \<le> bi' \<and> gi \<le> gi' \<and> bi + gi < bi' + gi' \<and> bi' \<le> Suc bi \<and> gi' \<le> Suc gi"
  by (auto simp: reconcile_step_def Let_def split: option.splits if_splits)

function reconcile_loop ::
    "int \<Rightarrow> eyes_block_type \<Rightarrow> bool \<Rightarrow> nat \<Rightarrow> nat \<Rightarrow> eyes_block list \<Rightarrow> eyes_block list
      \<Rightarrow> eyes_block list \<times> eyes_block list" where
  "reconcile_loop tolerance_ns claim_type guard_unclaimed bi gi brackets gaps =
     (if bi < length brackets \<and> gi < length gaps
      then (case reconcile_step tolerance_ns claim_type guard_unclaimed bi gi brackets gaps of
              (bi', gi', brackets', gaps') \<Rightarrow>
                reconcile_loop tolerance_ns claim_type guard_unclaimed bi' gi' brackets' gaps')
      else (brackets, gaps))"
  by pat_completeness auto

lemma reconcile_step_measure:
  assumes "(bi', gi', brackets', gaps') = reconcile_step tol c g bi gi brackets gaps"
    and "bi < length brackets" "gi < length gaps"
  shows "length brackets' - bi' + (length gaps' - gi') < length brackets - bi + (length gaps - gi)"
proof -
  have "length brackets' = length brackets \<and> length gaps' = length gaps
     \<and> bi \<le> bi' \<and> gi \<le> gi' \<and> bi + gi < bi' + gi'"
    using reconcile_step_lengths [OF assms(1) [symmetric]] by blast
  with assms(2,3) show ?thesis by linarith
qed

termination reconcile_loop
  by (relation "measure (\<lambda>(_, _, _, bi, gi, brackets, gaps).
        (length brackets - bi) + (length gaps - gi))")
    (simp, clarify, unfold in_measure prod.case, rule reconcile_step_measure)

declare reconcile_loop.simps [simp del]

definition reconcile_with_gaps ::
    "eyes_block list \<Rightarrow> eyes_block list \<Rightarrow> int \<Rightarrow> eyes_block_type \<Rightarrow> bool
      \<Rightarrow> eyes_block list \<times> eyes_block list" where
  "reconcile_with_gaps brackets gaps tolerance_ns claim_type guard_unclaimed =
     reconcile_loop tolerance_ns claim_type guard_unclaimed 0 0 brackets gaps"

section \<open>Carving shutdowns out of idles\<close>

abbreviation idle_piece :: "int \<Rightarrow> int \<Rightarrow> eyes_block" where
  "idle_piece s e \<equiv> \<lparr>block_type = Idle, start_ns = Some s, end_ns = Some e\<rparr>"

fun carve_spans :: "(int \<times> int) list \<Rightarrow> int \<Rightarrow> int \<Rightarrow> eyes_block list" where
  "carve_spans [] cursor end_time = (if cursor < end_time then [idle_piece cursor end_time] else [])"
| "carve_spans ((shutdown_start, shutdown_end) # spans) cursor end_time =
     (if shutdown_end \<le> cursor then carve_spans spans cursor end_time
      else if end_time \<le> shutdown_start
      then (if cursor < end_time then [idle_piece cursor end_time] else [])
      else
        (let piece = (if cursor < shutdown_start
                      then [idle_piece cursor (min shutdown_start end_time)] else []);
             cursor = max cursor shutdown_end
         in if end_time \<le> cursor then piece else piece @ carve_spans spans cursor end_time))"

definition shutdown_spans_of :: "eyes_block list \<Rightarrow> (int \<times> int) list" where
  "shutdown_spans_of shutdown =
     sort (List.map_filter paired (filter (\<lambda>b. block_type b = Shutdown) shutdown))"

definition exclude_shutdown_from_idle :: "eyes_block list \<Rightarrow> eyes_block list \<Rightarrow> eyes_block list" where
  "exclude_shutdown_from_idle idle shutdown =
     concat (map (\<lambda>b. if block_type b \<noteq> Idle then []
                      else (case paired b of
                              None \<Rightarrow> []
                            | Some (s, e) \<Rightarrow> carve_spans (shutdown_spans_of shutdown) s e)) idle)"

section \<open>Excluding glances, and the block set\<close>

definition exclude_overlapping_blocks :: "eyes_block list \<Rightarrow> eyes_block list \<Rightarrow> eyes_block list" where
  "exclude_overlapping_blocks blocks masks =
     (let mask_spans = List.map_filter paired masks in
      filter (\<lambda>b. case paired b of
                None \<Rightarrow> False
              | Some (s, e) \<Rightarrow>
                  \<not> (\<exists>(mask_start, mask_end) \<in> set mask_spans. s < mask_end \<and> mask_start < e))
        blocks)"

abbreviation block_key :: "eyes_block \<Rightarrow> int option \<times> int option \<times> eyes_block_type" where
  "block_key b \<equiv> (start_ns b, end_ns b, block_type b)"

definition gap_block :: "int \<times> int \<Rightarrow> eyes_block" where
  "gap_block = (\<lambda>(s, e). \<lparr>block_type = Gap, start_ns = Some s, end_ns = Some e\<rparr>)"

definition build_block_set ::
    "eyes_event list \<Rightarrow> eyes_signal list \<Rightarrow> eyes_options \<Rightarrow> eyes_block list" where
  "build_block_set events signals opts =
     (let glue_ns = seconds_to_ns (block_glue_seconds opts);
          tolerance_ns = seconds_to_ns (gap_reconcile_seconds opts);
          shutdown_stream = bracket_stream events signals opens_shutdown closes_shutdown;
          shutdown_blocks =
            build_bracket_blocks (glue_pairwise glue_ns shutdown_stream) Shutdown False;
          idle_stream = bracket_stream events signals opens_idle closes_idle;
          idle_blocks = build_bracket_blocks (glue_pairwise glue_ns idle_stream) Idle True;
          gap_segments = detect_gap_segments events signals opts;
          gap_blocks = map gap_block gap_segments;
          glance_blocks = build_glance_blocks events signals gap_segments;
          (shutdown_blocks, gap_blocks) =
            reconcile_with_gaps shutdown_blocks gap_blocks tolerance_ns Shutdown False;
          (idle_blocks, gap_blocks) =
            reconcile_with_gaps idle_blocks gap_blocks tolerance_ns Idle True;
          carved_idle = exclude_shutdown_from_idle idle_blocks shutdown_blocks;
          surviving_gaps = filter (\<lambda>b. block_type b = Gap) gap_blocks;
          mask = shutdown_blocks @ surviving_gaps;
          surviving_glances = exclude_overlapping_blocks glance_blocks mask
      in sort_key block_key (shutdown_blocks @ carved_idle @ surviving_glances @ surviving_gaps))"

section \<open>What reconciliation may change\<close>

text \<open>
  A gap keeps its span and at most changes its type to the claimed one, which under the guard it does
  only when still unclaimed. A bracket keeps its type, a complete one does not change at all, and a
  partial one is at most completed with the endpoint of a gap that was not skipped.
\<close>

lemma skippable_cong:
  "start_ns g = start_ns g' \<Longrightarrow> end_ns g = end_ns g' \<Longrightarrow> skippable tol g = skippable tol g'"
  by (simp add: skippable_def duration_seconds_truncated_def duration_ns_def)

definition gap_reconciled :: "eyes_block_type \<Rightarrow> bool \<Rightarrow> eyes_block \<Rightarrow> eyes_block \<Rightarrow> bool" where
  "gap_reconciled claim_type guard g g' \<longleftrightarrow>
     start_ns g' = start_ns g \<and> end_ns g' = end_ns g
     \<and> (block_type g' = block_type g
        \<or> block_type g' = claim_type \<and> (guard \<longrightarrow> block_type g = Gap))"

definition bracket_reconciled :: "eyes_block list \<Rightarrow> int \<Rightarrow> eyes_block \<Rightarrow> eyes_block \<Rightarrow> bool" where
  "bracket_reconciled gaps tolerance_ns b b' \<longleftrightarrow>
     block_type b' = block_type b
     \<and> (b' = b
        \<or> (\<exists>g \<in> set gaps. \<exists>s e. start_ns g = Some s \<and> end_ns g = Some e
             \<and> \<not> skippable (trunc_div tolerance_ns 1000000000) g
             \<and> (start_ns b = None \<and> start_ns b' = Some s \<and> end_ns b' = end_ns b
                  \<and> (\<exists>t. end_ns b = Some t \<and> i64_abs (i64_sub t e) \<le> tolerance_ns)
                \<or> end_ns b = None \<and> end_ns b' = Some e \<and> start_ns b' = start_ns b
                  \<and> (\<exists>t. start_ns b = Some t \<and> i64_abs (i64_sub t s) \<le> tolerance_ns))))"

definition reconciled ::
    "int \<Rightarrow> eyes_block_type \<Rightarrow> bool \<Rightarrow> eyes_block list \<Rightarrow> eyes_block list
      \<Rightarrow> nat \<Rightarrow> eyes_block list \<Rightarrow> eyes_block list \<Rightarrow> bool" where
  "reconciled tol claim guard brackets0 gaps0 bi brackets gaps \<longleftrightarrow>
     list_all2 (gap_reconciled claim guard) gaps0 gaps
     \<and> list_all2 (bracket_reconciled gaps0 tol) brackets0 brackets
     \<and> (\<forall>i < length brackets0. bi \<le> i \<longrightarrow> brackets ! i = brackets0 ! i)"

lemma gap_reconciled_refl [simp]: "gap_reconciled c g b b"
  by (simp add: gap_reconciled_def)

lemma bracket_reconciled_refl [simp]: "bracket_reconciled gaps tol b b"
  by (simp add: bracket_reconciled_def)

lemma reconciled_init: "reconciled tol claim guard brackets gaps 0 brackets gaps"
  by (simp add: reconciled_def list_all2_same)

lemma reconciled_claim:
  assumes rel: "list_all2 (gap_reconciled claim guard) gaps0 gaps" and gi: "gi < length gaps"
    and claimable: "\<not> guard \<or> block_type (gaps ! gi) = Gap"
  shows "list_all2 (gap_reconciled claim guard) gaps0 (gaps[gi := (gaps ! gi)\<lparr>block_type := claim\<rparr>])"
proof -
  have "gap_reconciled claim guard (gaps0 ! gi) (gaps ! gi)"
    using rel gi by (simp add: list_all2_conv_all_nth)
  then have "gap_reconciled claim guard (gaps0 ! gi) ((gaps ! gi)\<lparr>block_type := claim\<rparr>)"
    using claimable by (auto simp: gap_reconciled_def)
  then show ?thesis
    using rel gi by (auto simp: list_all2_conv_all_nth nth_list_update)
qed

lemma reconciled_complete:
  assumes rel: "list_all2 (bracket_reconciled gaps0 tol) brackets0 brackets" and bi: "bi < length brackets"
    and b: "bracket_reconciled gaps0 tol (brackets0 ! bi) b'"
  shows "list_all2 (bracket_reconciled gaps0 tol) brackets0 (brackets[bi := b'])"
  using assms by (auto simp: list_all2_conv_all_nth nth_list_update)

lemma reconcile_step_reconciled:
  assumes rel: "reconciled tol claim guard brackets0 gaps0 bi brackets gaps"
    and bi: "bi < length brackets" and gi: "gi < length gaps"
    and step: "reconcile_step tol claim guard bi gi brackets gaps = (bi', gi', brackets', gaps')"
  shows "reconciled tol claim guard brackets0 gaps0 bi' brackets' gaps'"
proof -
  have L: "list_all2 (gap_reconciled claim guard) gaps0 gaps"
    "list_all2 (bracket_reconciled gaps0 tol) brackets0 brackets"
    and rest: "\<forall>i < length brackets0. bi \<le> i \<longrightarrow> brackets ! i = brackets0 ! i"
    using rel by (auto simp: reconciled_def)
  have len: "length brackets0 = length brackets" "length gaps0 = length gaps"
    using L by (auto dest: list_all2_lengthD)
  have b0: "brackets ! bi = brackets0 ! bi" using rest bi len by simp
  have g0: "gaps0 ! gi \<in> set gaps0" "start_ns (gaps0 ! gi) = start_ns (gaps ! gi)"
    "end_ns (gaps0 ! gi) = end_ns (gaps ! gi)"
    using L(1) gi len by (auto simp: list_all2_conv_all_nth gap_reconciled_def)
  have skip: "skippable (trunc_div tol 1000000000) (gaps0 ! gi)
      = skippable (trunc_div tol 1000000000) (gaps ! gi)"
    by (rule skippable_cong [OF g0(2,3)])
  have claim: "list_all2 (gap_reconciled claim guard) gaps0
      (gaps[gi := (gaps ! gi)\<lparr>block_type := claim\<rparr>])"
    if "\<not> guard \<or> block_type (gaps ! gi) = Gap"
    using reconciled_claim [OF L(1) gi that] .
  have fill_start: "list_all2 (bracket_reconciled gaps0 tol) brackets0
      (brackets[bi := (brackets ! bi)\<lparr>start_ns := Some s\<rparr>])"
    if "start_ns (brackets ! bi) = None" "end_ns (brackets ! bi) = Some t"
      "start_ns (gaps ! gi) = Some s" "end_ns (gaps ! gi) = Some e"
      "i64_abs (i64_sub t e) \<le> tol" "\<not> skippable (trunc_div tol 1000000000) (gaps ! gi)" for s e t
    using that g0 b0 skip
    by (intro reconciled_complete [OF L(2) bi]) (auto simp: bracket_reconciled_def)
  have fill_end: "list_all2 (bracket_reconciled gaps0 tol) brackets0
      (brackets[bi := (brackets ! bi)\<lparr>end_ns := Some e\<rparr>])"
    if "end_ns (brackets ! bi) = None" "start_ns (brackets ! bi) = Some t"
      "start_ns (gaps ! gi) = Some s" "end_ns (gaps ! gi) = Some e"
      "i64_abs (i64_sub t s) \<le> tol" "\<not> skippable (trunc_div tol 1000000000) (gaps ! gi)" for s e t
    using that g0 b0 skip
    by (intro reconciled_complete [OF L(2) bi]) (auto simp: bracket_reconciled_def)
  show ?thesis
    using step L claim fill_start fill_end rest len
    unfolding reconciled_def
    by (auto simp: reconcile_step_def Let_def split: option.splits if_splits)
qed

lemma reconcile_loop_reconciled:
  assumes "reconciled tol claim guard brackets0 gaps0 bi brackets gaps"
  shows "\<exists>bi'. reconciled tol claim guard brackets0 gaps0 bi'
    (fst (reconcile_loop tol claim guard bi gi brackets gaps))
    (snd (reconcile_loop tol claim guard bi gi brackets gaps))"
  using assms
proof (induction tol claim guard bi gi brackets gaps rule: reconcile_loop.induct)
  case (1 tol claim guard bi gi brackets gaps)
  show ?case
  proof (cases "bi < length brackets \<and> gi < length gaps")
    case True
    obtain bi' gi' brackets' gaps' where
      step: "reconcile_step tol claim guard bi gi brackets gaps = (bi', gi', brackets', gaps')"
      by (cases "reconcile_step tol claim guard bi gi brackets gaps")
    have "reconciled tol claim guard brackets0 gaps0 bi' brackets' gaps'"
      using reconcile_step_reconciled [OF 1(2) _ _ step] True by blast
    from 1(1) [OF True step [symmetric] refl refl this] True step
    show ?thesis by (subst reconcile_loop.simps) (simp add: reconcile_loop.simps [of tol claim guard bi])
  next
    case False
    with 1(2) show ?thesis by (subst (1 2) reconcile_loop.simps) auto
  qed
qed

lemma reconcile_with_gaps_reconciled:
  assumes "reconcile_with_gaps brackets gaps tol claim guard = (brackets', gaps')"
  shows "list_all2 (gap_reconciled claim guard) gaps gaps'"
    and "list_all2 (bracket_reconciled gaps tol) brackets brackets'"
  using reconcile_loop_reconciled [OF reconciled_init, of tol claim guard brackets gaps 0] assms
  by (auto simp: reconcile_with_gaps_def reconciled_def)

section \<open>Carving is interval subtraction\<close>

definition spans_in_order :: "(int \<times> int) list \<Rightarrow> bool" where
  "spans_in_order spans \<longleftrightarrow>
     sorted_wrt (\<lambda>x y. fst x \<le> fst y) spans \<and> (\<forall>(s, e) \<in> set spans. s < e)"

definition in_spans :: "(int \<times> int) list \<Rightarrow> int \<Rightarrow> bool" where
  "in_spans spans \<tau> \<longleftrightarrow> (\<exists>(s, e) \<in> set spans. s \<le> \<tau> \<and> \<tau> < e)"

abbreviation block_span :: "eyes_block \<Rightarrow> int \<times> int" where
  "block_span b \<equiv> (the (start_ns b), the (end_ns b))"

lemma in_spans_simps [simp]:
  "\<not> in_spans [] \<tau>"
  "in_spans ((s, e) # spans) \<tau> \<longleftrightarrow> s \<le> \<tau> \<and> \<tau> < e \<or> in_spans spans \<tau>"
  by (auto simp: in_spans_def)

lemma spans_in_order_Cons:
  "spans_in_order ((s, e) # spans) \<longleftrightarrow>
     s < e \<and> (\<forall>x \<in> set spans. s \<le> fst x) \<and> spans_in_order spans"
  by (auto simp: spans_in_order_def)

lemma carve_spans_positive:
  "p \<in> set (carve_spans spans a b) \<Longrightarrow>
     block_type p = Idle \<and> (\<exists>s e. start_ns p = Some s \<and> end_ns p = Some e \<and> s < e)"
  by (induction spans a b rule: carve_spans.induct) (auto simp: Let_def split: if_splits)

lemma carve_spans_exact:
  "spans_in_order spans \<Longrightarrow>
     length (filter (\<lambda>p. fst (block_span p) \<le> \<tau> \<and> \<tau> < snd (block_span p)) (carve_spans spans a b))
       = (if a \<le> \<tau> \<and> \<tau> < b \<and> \<not> in_spans spans \<tau> then 1 else 0)"
proof (induction spans a b rule: carve_spans.induct)
  case (1 cursor end_time)
  show ?case by simp
next
  case (2 shutdown_start shutdown_end spans cursor end_time)
  have pos: "shutdown_start < shutdown_end" and ord: "spans_in_order spans"
    and later: "\<not> in_spans spans \<tau>" if "\<tau> < shutdown_start" for \<tau>
    using 2(3) that by (force simp: spans_in_order_Cons in_spans_def)+
  have pos: "shutdown_start < shutdown_end" and ord: "spans_in_order spans"
    using 2(3) by (simp_all add: spans_in_order_Cons)
  consider (past) "shutdown_end \<le> cursor"
    | (beyond) "cursor < shutdown_end" "end_time \<le> shutdown_start"
    | (over) "cursor < shutdown_end" "shutdown_start < end_time" "end_time \<le> max cursor shutdown_end"
    | (split) "cursor < shutdown_end" "shutdown_start < end_time" "max cursor shutdown_end < end_time"
    by linarith
  then show ?case
  proof cases
    case past
    with 2(1) [OF past ord] show ?thesis by auto
  next
    case beyond
    with later show ?thesis by auto
  next
    case over
    with later pos show ?thesis by (auto simp: Let_def)
  next
    case split
    have "length (filter (\<lambda>p. fst (block_span p) \<le> \<tau> \<and> \<tau> < snd (block_span p))
          (carve_spans spans (max cursor shutdown_end) end_time))
        = (if max cursor shutdown_end \<le> \<tau> \<and> \<tau> < end_time \<and> \<not> in_spans spans \<tau> then 1 else 0)"
      using 2(2) [OF _ _ refl refl _ ord] split by simp
    with split later pos show ?thesis by (auto simp: Let_def)
  qed
qed

interpretation carve: interval_cut carve_spans block_span spans_in_order
  "\<lambda>spans \<tau>. \<not> in_spans spans \<tau>"
proof (unfold_locales, goal_cases)
  case (1 s p a b)
  then show ?case using carve_spans_positive by fastforce
next
  case (2 s \<tau> a b)
  then show ?case by (rule carve_spans_exact)
qed

lemma shutdown_spans_in_order: "spans_in_order (shutdown_spans_of blocks)"
proof -
  have "sorted (shutdown_spans_of blocks)" by (simp add: shutdown_spans_of_def)
  then have "sorted_wrt (\<lambda>x y. fst x \<le> fst y) (shutdown_spans_of blocks)"
    by (rule sorted_wrt_mono_rel [rotated]) (auto simp: less_eq_prod_def)
  moreover have "s < e" if "(s, e) \<in> set (shutdown_spans_of blocks)" for s e
    using that by (auto simp: shutdown_spans_of_def in_map_filter paired_Some)
  ultimately show ?thesis by (auto simp: spans_in_order_def)
qed

lemma in_shutdown_spans:
  "in_spans (shutdown_spans_of blocks) \<tau> \<longleftrightarrow> (\<exists>b \<in> set blocks. block_type b = Shutdown \<and> covers b \<tau>)"
proof -
  have "set (shutdown_spans_of blocks) = {p. \<exists>b \<in> set blocks. block_type b = Shutdown \<and> paired b = Some p}"
    by (auto simp: shutdown_spans_of_def in_map_filter)
  then show ?thesis unfolding in_spans_def covers_iff by auto
qed

lemma in_exclude_shutdown:
  "p \<in> set (exclude_shutdown_from_idle idle shutdown) \<longleftrightarrow>
     (\<exists>b \<in> set idle. block_type b = Idle \<and> (\<exists>s e. paired b = Some (s, e)
        \<and> p \<in> set (carve_spans (shutdown_spans_of shutdown) s e)))"
proof -
  have "p \<in> set (if block_type b \<noteq> Idle then []
                else (case paired b of None \<Rightarrow> []
                      | Some (s, e) \<Rightarrow> carve_spans (shutdown_spans_of shutdown) s e)) \<longleftrightarrow>
      block_type b = Idle \<and> (\<exists>s e. paired b = Some (s, e)
        \<and> p \<in> set (carve_spans (shutdown_spans_of shutdown) s e))" for b
    by (cases "paired b") auto
  then show ?thesis unfolding exclude_shutdown_from_idle_def set_concat set_map by blast
qed

text \<open>The carved blocks cover exactly the instants of the idles no shutdown covers.\<close>

lemma carved_covers:
  "(\<exists>p \<in> set (exclude_shutdown_from_idle idle shutdown). covers p \<tau>) \<longleftrightarrow>
     (\<exists>b \<in> set idle. block_type b = Idle \<and> covers b \<tau>)
     \<and> \<not> (\<exists>b \<in> set shutdown. block_type b = Shutdown \<and> covers b \<tau>)"
proof -
  have piece: "(\<exists>p \<in> set (carve_spans (shutdown_spans_of shutdown) s e). covers p \<tau>) \<longleftrightarrow>
      s \<le> \<tau> \<and> \<tau> < e \<and> \<not> in_spans (shutdown_spans_of shutdown) \<tau>" for s e
  proof -
    have "covers p \<tau> \<longleftrightarrow> fst (block_span p) \<le> \<tau> \<and> \<tau> < snd (block_span p)"
      if "p \<in> set (carve_spans (shutdown_spans_of shutdown) s e)" for p
      using carve_spans_positive [OF that] by (auto simp: covers_def paired_def)
    then show ?thesis using carve.covered_iff [OF shutdown_spans_in_order, of shutdown s e \<tau>] by auto
  qed
  have "(\<exists>p \<in> set (exclude_shutdown_from_idle idle shutdown). covers p \<tau>) \<longleftrightarrow>
      (\<exists>b \<in> set idle. block_type b = Idle \<and> (\<exists>s e. paired b = Some (s, e)
         \<and> (\<exists>p \<in> set (carve_spans (shutdown_spans_of shutdown) s e). covers p \<tau>)))"
    unfolding in_exclude_shutdown Bex_def by blast
  also have "\<dots> \<longleftrightarrow> (\<exists>b \<in> set idle. block_type b = Idle \<and> covers b \<tau>)
      \<and> \<not> in_spans (shutdown_spans_of shutdown) \<tau>"
    unfolding piece unfolding covers_iff by blast
  finally show ?thesis by (simp add: in_shutdown_spans)
qed

lemma carved_shape:
  "p \<in> set (exclude_shutdown_from_idle idle shutdown) \<Longrightarrow>
     block_type p = Idle \<and> (\<exists>s e. start_ns p = Some s \<and> end_ns p = Some e \<and> s < e)"
  by (auto simp: exclude_shutdown_from_idle_def split: option.splits if_splits
      dest!: carve_spans_positive)

section \<open>Excluded glances\<close>

lemma exclude_overlapping_iff:
  "b \<in> set (exclude_overlapping_blocks blocks masks) \<longleftrightarrow>
     b \<in> set blocks \<and> paired b \<noteq> None
     \<and> (\<forall>m \<in> set masks. \<forall>\<tau>. \<not> (covers b \<tau> \<and> covers m \<tau>))"
proof -
  have overlap: "s < m_end \<and> m_start < e \<longleftrightarrow> (\<exists>\<tau>. s \<le> \<tau> \<and> \<tau> < e \<and> m_start \<le> \<tau> \<and> \<tau> < m_end)"
    if "s < e" "m_start < m_end" for s e m_start m_end :: int
    using that by (auto intro!: exI [of _ "max s m_start"])
  have "(\<exists>(m_start, m_end) \<in> set (List.map_filter paired masks). s < m_end \<and> m_start < e) \<longleftrightarrow>
      (\<exists>m \<in> set masks. \<exists>\<tau>. covers b \<tau> \<and> covers m \<tau>)" if p: "paired b = Some (s, e)" for s e
  proof -
    have cut: "paired m = Some (m_start, m_end) \<and> s < m_end \<and> m_start < e \<longleftrightarrow>
        paired m = Some (m_start, m_end)
        \<and> (\<exists>\<tau>. s \<le> \<tau> \<and> \<tau> < e \<and> m_start \<le> \<tau> \<and> \<tau> < m_end)" for m m_start m_end
      using overlap [of s e m_start m_end] p by (auto simp: paired_Some)
    have "(\<exists>(m_start, m_end) \<in> set (List.map_filter paired masks). s < m_end \<and> m_start < e) \<longleftrightarrow>
        (\<exists>m \<in> set masks. \<exists>m_start m_end. paired m = Some (m_start, m_end) \<and> s < m_end \<and> m_start < e)"
      by (auto simp: in_map_filter Bex_def)
    also have "\<dots> \<longleftrightarrow> (\<exists>m \<in> set masks. \<exists>m_start m_end. paired m = Some (m_start, m_end)
        \<and> (\<exists>\<tau>. s \<le> \<tau> \<and> \<tau> < e \<and> m_start \<le> \<tau> \<and> \<tau> < m_end))"
      unfolding cut ..
    also have "\<dots> \<longleftrightarrow> (\<exists>m \<in> set masks. \<exists>\<tau>. covers b \<tau> \<and> covers m \<tau>)"
      unfolding covers_iff using p by auto
    finally show ?thesis .
  qed
  then show ?thesis
    by (cases "paired b") (auto simp: exclude_overlapping_blocks_def Let_def)
qed

section \<open>The shape of the block set\<close>

lemma bracket_reconciled_kind:
  "bracket_reconciled gaps tol b b' \<Longrightarrow> block_kind b \<noteq> Empty \<Longrightarrow> block_kind b' \<noteq> Empty"
  by (auto simp: bracket_reconciled_def block_kind_def split: option.splits)

lemma list_all2_right:
  "list_all2 P xs ys \<Longrightarrow> y \<in> set ys \<Longrightarrow> \<exists>x \<in> set xs. P x y"
  by (metis in_set_conv_nth list_all2_conv_all_nth)

lemma glance_type: "b \<in> set (build_glance_blocks events signals gaps) \<Longrightarrow>
    block_type b = Glance \<and> paired b \<noteq> None"
  by (auto simp: build_glance_blocks_pairs glance_pairs_iff paired_def)

text \<open>The bracket blocks of a pair of signal classes, and the four groups the block set is made of.\<close>

definition bracket_blocks_of ::
    "eyes_event list \<Rightarrow> eyes_signal list \<Rightarrow> eyes_options \<Rightarrow> (eyes_signal \<Rightarrow> bool) \<Rightarrow> (eyes_signal \<Rightarrow> bool)
      \<Rightarrow> eyes_block_type \<Rightarrow> bool \<Rightarrow> eyes_block list" where
  "bracket_blocks_of events signals opts opens closes btype strict =
     build_bracket_blocks
       (glue_pairwise (seconds_to_ns (block_glue_seconds opts)) (bracket_stream events signals opens closes))
       btype strict"

lemma bracket_reconciled_gaps:
  assumes "list_all2 (gap_reconciled claim guard) gaps gaps'" "bracket_reconciled gaps' tol b b'"
  shows "bracket_reconciled gaps tol b b'"
proof -
  have times: "\<exists>g \<in> set gaps. start_ns g = start_ns g' \<and> end_ns g = end_ns g'
      \<and> skippable (trunc_div tol 1000000000) g = skippable (trunc_div tol 1000000000) g'"
    if mem: "g' \<in> set gaps'" for g'
  proof -
    obtain g where "g \<in> set gaps" "gap_reconciled claim guard g g'"
      using list_all2_right [OF assms(1) mem] by blast
    then show ?thesis using skippable_cong [of g g'] by (auto simp: gap_reconciled_def)
  qed
  from assms(2) show ?thesis
    unfolding bracket_reconciled_def by (elim conjE disjE bexE) (use times in fastforce)+
qed

lemma build_block_set_parts:
  obtains shutdown idle gaps glances where
    "build_block_set events signals opts =
       sort_key block_key (shutdown @ exclude_shutdown_from_idle idle shutdown
         @ exclude_overlapping_blocks glances (shutdown @ gaps) @ gaps)"
    "\<forall>b \<in> set shutdown. block_type b = Shutdown \<and> block_kind b \<noteq> Empty"
    "\<forall>b \<in> set glances. block_type b = Glance"
    "\<forall>b \<in> set gaps. block_type b = Gap \<and>
       (\<exists>(s, e) \<in> set (detect_gap_segments events signals opts).
          start_ns b = Some s \<and> end_ns b = Some e)"
    "\<forall>b \<in> set shutdown. \<exists>b0 \<in> set (bracket_blocks_of events signals opts opens_shutdown closes_shutdown
         Shutdown False). bracket_reconciled (map gap_block (detect_gap_segments events signals opts))
       (seconds_to_ns (gap_reconcile_seconds opts)) b0 b"
    "\<forall>b \<in> set idle. \<exists>b0 \<in> set (bracket_blocks_of events signals opts opens_idle closes_idle
         Idle True). bracket_reconciled (map gap_block (detect_gap_segments events signals opts))
       (seconds_to_ns (gap_reconcile_seconds opts)) b0 b"
    "glances = build_glance_blocks events signals (detect_gap_segments events signals opts)"
proof -
  let ?tol = "seconds_to_ns (gap_reconcile_seconds opts)"
  let ?segs = "detect_gap_segments events signals opts"
  let ?sh0 = "bracket_blocks_of events signals opts opens_shutdown closes_shutdown Shutdown False"
  let ?id0 = "bracket_blocks_of events signals opts opens_idle closes_idle Idle True"
  obtain sh g1 where r1: "reconcile_with_gaps ?sh0 (map gap_block ?segs) ?tol Shutdown False = (sh, g1)"
    by (cases "reconcile_with_gaps ?sh0 (map gap_block ?segs) ?tol Shutdown False")
  obtain idb g2 where r2: "reconcile_with_gaps ?id0 g1 ?tol Idle True = (idb, g2)"
    by (cases "reconcile_with_gaps ?id0 g1 ?tol Idle True")
  let ?glances = "build_glance_blocks events signals ?segs"
  let ?gaps = "filter (\<lambda>b. block_type b = Gap) g2"
  have "build_block_set events signals opts =
       sort_key block_key (sh @ exclude_shutdown_from_idle idb sh
         @ exclude_overlapping_blocks ?glances (sh @ ?gaps) @ ?gaps)"
    using r1 r2 by (simp add: build_block_set_def bracket_blocks_of_def Let_def)
  moreover have "\<forall>b \<in> set sh. block_type b = Shutdown \<and> block_kind b \<noteq> Empty"
  proof
    fix b
    assume "b \<in> set sh"
    then obtain b0 where b0: "b0 \<in> set ?sh0" "bracket_reconciled (map gap_block ?segs) ?tol b0 b"
      using list_all2_right [OF reconcile_with_gaps_reconciled(2) [OF r1]] by blast
    then show "block_type b = Shutdown \<and> block_kind b \<noteq> Empty"
      using build_bracket_blocks_facts(3) bracket_reconciled_kind
      unfolding bracket_blocks_of_def by (metis bracket_reconciled_def)
  qed
  moreover have "\<forall>b \<in> set sh. \<exists>b0 \<in> set ?sh0. bracket_reconciled (map gap_block ?segs) ?tol b0 b"
    using list_all2_right [OF reconcile_with_gaps_reconciled(2) [OF r1]] by blast
  moreover have "\<forall>b \<in> set idb. \<exists>b0 \<in> set ?id0. bracket_reconciled (map gap_block ?segs) ?tol b0 b"
    using list_all2_right [OF reconcile_with_gaps_reconciled(2) [OF r2]]
      bracket_reconciled_gaps [OF reconcile_with_gaps_reconciled(1) [OF r1]] by blast
  moreover have "\<forall>b \<in> set ?gaps. block_type b = Gap \<and>
       (\<exists>(s, e) \<in> set ?segs. start_ns b = Some s \<and> end_ns b = Some e)"
  proof
    fix b
    assume b: "b \<in> set ?gaps"
    then obtain b1 where b1: "b1 \<in> set g1" "start_ns b = start_ns b1" "end_ns b = end_ns b1"
      using list_all2_right [OF reconcile_with_gaps_reconciled(1) [OF r2]]
      by (auto simp: gap_reconciled_def)
    obtain b0 where b0: "b0 \<in> set (map gap_block ?segs)" "gap_reconciled Shutdown False b0 b1"
      using list_all2_right [OF reconcile_with_gaps_reconciled(1) [OF r1] b1(1)] by blast
    then obtain x where "x \<in> set ?segs" "b0 = gap_block x" by auto
    with b0(2) b b1(2,3) show "block_type b = Gap \<and>
       (\<exists>(s, e) \<in> set ?segs. start_ns b = Some s \<and> end_ns b = Some e)"
      by (intro conjI bexI [of _ x]) (auto simp: gap_reconciled_def gap_block_def split: prod.splits)
  qed
  moreover have "\<forall>b \<in> set ?glances. block_type b = Glance" using glance_type by blast
  ultimately show ?thesis using that by blast
qed

lemma block_set_kinds:
  assumes "b \<in> set (build_block_set events signals opts)"
  shows "block_type b \<noteq> Active \<and> block_kind b \<noteq> Empty
    \<and> (block_kind b \<noteq> Paired \<longrightarrow> block_type b = Shutdown)"
proof -
  obtain sh idle gaps glances where P: "build_block_set events signals opts =
       sort_key block_key (sh @ exclude_shutdown_from_idle idle sh
         @ exclude_overlapping_blocks glances (sh @ gaps) @ gaps)"
    "\<forall>b \<in> set sh. block_type b = Shutdown \<and> block_kind b \<noteq> Empty"
    "\<forall>b \<in> set glances. block_type b = Glance"
    "\<forall>b \<in> set gaps. block_type b = Gap \<and>
       (\<exists>(s, e) \<in> set (detect_gap_segments events signals opts).
          start_ns b = Some s \<and> end_ns b = Some e)"
    by (rule build_block_set_parts, rule that)
  have "block_type x = Idle \<and> block_kind x = Paired" if "x \<in> set (exclude_shutdown_from_idle idle sh)" for x
    using carved_shape [OF that] by (auto simp: block_kind_def)
  moreover have "block_type x = Glance \<and> block_kind x = Paired"
    if "x \<in> set (exclude_overlapping_blocks glances (sh @ gaps))" for x
    using that P(3) by (auto simp: exclude_overlapping_iff paired_Some block_kind_def)
  moreover have "block_type x = Gap \<and> block_kind x = Paired" if "x \<in> set gaps" for x
    using that P(4) by (auto simp: block_kind_def)
  moreover have "b \<in> set sh \<or> b \<in> set (exclude_shutdown_from_idle idle sh)
      \<or> b \<in> set (exclude_overlapping_blocks glances (sh @ gaps)) \<or> b \<in> set gaps"
    using assms P(1) by auto
  ultimately show ?thesis using P(2) by fastforce
qed

lemma block_set_types: "\<forall>b \<in> set (build_block_set events signals opts). block_type b \<noteq> Active"
  using block_set_kinds by blast

end
