(* ===== verification/Eyes_Pickup.thy ===== *)
theory Eyes_Pickup
  imports Eyes_Reconcile
begin

text \<open>
  The pickups export (\<open>build_pickup_export\<close>): the paired blocks in order, an ACTIVE row in every hole
  between them at least as wide as the hole threshold, then the duration floor on every row.
\<close>

section \<open>The export\<close>

type_synonym usable_block = "int \<times> int \<times> eyes_block_type"

definition usable_blocks :: "eyes_block list \<Rightarrow> usable_block list" where
  "usable_blocks blocks =
     sort (List.map_filter
       (\<lambda>b. map_option (\<lambda>(s, e). (s, e, block_type b)) (paired b)) blocks)"

definition pickup_step ::
    "int \<Rightarrow> usable_block \<Rightarrow> eyes_pickup_row list \<times> int option \<Rightarrow> eyes_pickup_row list \<times> int option" where
  "pickup_step hole_ns = (\<lambda>(start, end_time, btype) (rows, running_end).
     (let rows =
            (case running_end of
               None \<Rightarrow> rows
             | Some previous_end \<Rightarrow>
                 if hole_ns \<le> i64_sub start previous_end
                 then rows @ [\<lparr>pk_type = Active, pk_start = previous_end, pk_end = start\<rparr>]
                 else rows)
      in (rows @ [\<lparr>pk_type = btype, pk_start = start, pk_end = end_time\<rparr>],
          Some (case running_end of
                  None \<Rightarrow> end_time | Some previous \<Rightarrow> max previous end_time))))"

definition build_pickup_export :: "eyes_block list \<Rightarrow> eyes_options \<Rightarrow> eyes_pickup_row list" where
  "build_pickup_export blocks opts =
     (let hole_ns = seconds_to_ns (pickup_active_hole_seconds opts);
          floor_seconds = f64_as_i64 (pickup_minimum_seconds opts);
          rows = fst (fold (pickup_step hole_ns) (usable_blocks blocks) ([], None))
      in filter (\<lambda>r. floor_seconds \<le> trunc_div (pickup_duration_ns r) 1000000000) rows)"

section \<open>The rows and the running end\<close>

text \<open>The blocks in the order they are consumed, with the differences of their bounds in range.\<close>

definition usable_order :: "usable_block list \<Rightarrow> bool" where
  "usable_order us \<longleftrightarrow>
     sorted (map fst us) \<and> (\<forall>(s, e, t) \<in> set us. s < e \<and> epoch_ns s \<and> epoch_ns e \<and> t \<noteq> Active)"

definition pickup_rel ::
    "int \<Rightarrow> usable_block list \<Rightarrow> eyes_pickup_row list \<times> int option \<Rightarrow> bool" where
  "pickup_rel hole_ns us st \<longleftrightarrow>
     (case st of (rows, running) \<Rightarrow>
        (running = None \<longleftrightarrow> us = [])
        \<and> (\<forall>m. running = Some m \<longrightarrow>
             (\<forall>(s, e, t) \<in> set us. e \<le> m) \<and> (\<exists>(s, e, t) \<in> set us. e = m))
        \<and> filter (\<lambda>r. pk_type r \<noteq> Active) rows
            = map (\<lambda>(s, e, t). \<lparr>pk_type = t, pk_start = s, pk_end = e\<rparr>) us
        \<and> (\<forall>r \<in> set rows. pk_type r = Active \<longrightarrow>
             hole_ns \<le> pk_end r - pk_start r
             \<and> (\<forall>(s, e, t) \<in> set us. e \<le> pk_start r \<or> pk_end r \<le> s)
             \<and> (\<exists>(s, e, t) \<in> set us. e = pk_start r) \<and> (\<exists>(s, e, t) \<in> set us. s = pk_end r)))"

lemma pickup_step_rel:
  assumes ord: "usable_order (us @ [u])" and rel: "pickup_rel hole_ns us st"
  shows "pickup_rel hole_ns (us @ [u]) (pickup_step hole_ns u st)"
proof -
  obtain s e t where u: "u = (s, e, t)" by (cases u)
  obtain rows running where st: "st = (rows, running)" by (cases st)
  have se: "s < e" "epoch_ns s" "t \<noteq> Active" and before: "\<forall>(s', e', t') \<in> set us. s' \<le> s"
    using ord by (auto simp: usable_order_def u sorted_append)
  have ep: "\<forall>(s', e', t') \<in> set us. epoch_ns e' \<and> epoch_ns s'"
    using ord by (auto simp: usable_order_def)
  show ?thesis
  proof (cases running)
    case None
    then have "us = []" using rel by (auto simp: pickup_rel_def st)
    with None rel se show ?thesis by (auto simp: pickup_rel_def pickup_step_def st u)
  next
    case (Some m)
    have m: "\<forall>(s', e', t') \<in> set us. e' \<le> m" "\<exists>(s', e', t') \<in> set us. e' = m" "us \<noteq> []"
      and keep: "filter (\<lambda>r. pk_type r \<noteq> Active) rows
          = map (\<lambda>(s, e, t). \<lparr>pk_type = t, pk_start = s, pk_end = e\<rparr>) us"
      and old: "\<forall>r \<in> set rows. pk_type r = Active \<longrightarrow>
          hole_ns \<le> pk_end r - pk_start r
          \<and> (\<forall>(s, e, t) \<in> set us. e \<le> pk_start r \<or> pk_end r \<le> s)
          \<and> (\<exists>(s, e, t) \<in> set us. e = pk_start r) \<and> (\<exists>(s, e, t) \<in> set us. s = pk_end r)"
      using rel Some by (auto simp: pickup_rel_def st)
    have "epoch_ns m" using m(2) ep by auto
    then have sub: "i64_sub s m = s - m" using se by simp
    have new: "hole_ns \<le> pk_end r - pk_start r
        \<and> (\<forall>(s, e, t) \<in> set (us @ [u]). e \<le> pk_start r \<or> pk_end r \<le> s)
        \<and> (\<exists>(s, e, t) \<in> set (us @ [u]). e = pk_start r)
        \<and> (\<exists>(s, e, t) \<in> set (us @ [u]). s = pk_end r)"
      if r: "r \<in> set rows" "pk_type r = Active" for r
    proof -
      obtain s' e' t' where "(s', e', t') \<in> set us" "s' = pk_end r" using old r by fastforce
      then have "pk_end r \<le> s" using before by auto
      with old r show ?thesis by (fastforce simp: u)
    qed
    have max: "(\<forall>(s', e', t') \<in> set (us @ [u]). e' \<le> max m e)
        \<and> (\<exists>(s', e', t') \<in> set (us @ [u]). e' = max m e)"
      using m(1,2) by (fastforce simp: u max_def)
    let ?rows = "rows @ (if hole_ns \<le> s - m
        then [\<lparr>pk_type = Active, pk_start = m, pk_end = s\<rparr>] else [])
        @ [\<lparr>pk_type = t, pk_start = s, pk_end = e\<rparr>]"
    have step: "pickup_step hole_ns u st = (?rows, Some (max m e))"
      by (simp add: pickup_step_def st u Some sub)
    have active: "hole_ns \<le> pk_end r - pk_start r
        \<and> (\<forall>(s, e, t) \<in> set (us @ [u]). e \<le> pk_start r \<or> pk_end r \<le> s)
        \<and> (\<exists>(s, e, t) \<in> set (us @ [u]). e = pk_start r)
        \<and> (\<exists>(s, e, t) \<in> set (us @ [u]). s = pk_end r)"
      if r: "r \<in> set ?rows" "pk_type r = Active" for r
    proof (cases "r \<in> set rows")
      case True
      then show ?thesis using new r(2) by blast
    next
      case False
      with r se(3) have "r = \<lparr>pk_type = Active, pk_start = m, pk_end = s\<rparr>" "hole_ns \<le> s - m"
        by (auto split: if_splits)
      then show ?thesis using m by (fastforce simp: u)
    qed
    have "filter (\<lambda>r. pk_type r \<noteq> Active) ?rows
        = map (\<lambda>(s, e, t). \<lparr>pk_type = t, pk_start = s, pk_end = e\<rparr>) (us @ [u])"
      using keep se(3) by (simp add: u)
    then show ?thesis
      unfolding pickup_rel_def step prod.case using max active by blast
  qed
qed

lemma pickup_fold_rel:
  "usable_order us \<Longrightarrow> pickup_rel hole_ns us (fold (pickup_step hole_ns) us ([], None))"
proof (induction us rule: rev_induct)
  case Nil
  show ?case by (simp add: pickup_rel_def)
next
  case (snoc u us)
  then have "usable_order us" by (auto simp: usable_order_def sorted_append)
  with snoc show ?case by (simp add: pickup_step_rel)
qed

lemma pickup_active_row:
  assumes "usable_order us" "r \<in> set (fst (fold (pickup_step hole_ns) us ([], None)))"
    "pk_type r = Active"
  shows "hole_ns \<le> pk_end r - pk_start r"
    "\<forall>(s, e, t) \<in> set us. e \<le> pk_start r \<or> pk_end r \<le> s"
    "\<exists>(s, e, t) \<in> set us. e = pk_start r" "\<exists>(s, e, t) \<in> set us. s = pk_end r"
proof -
  obtain rows running where f: "fold (pickup_step hole_ns) us ([], None) = (rows, running)"
    by (cases "fold (pickup_step hole_ns) us ([], None)")
  have "pickup_rel hole_ns us (rows, running)" using pickup_fold_rel [OF assms(1), of hole_ns] by (simp add: f)
  moreover have "r \<in> set rows" using assms(2) by (simp add: f)
  ultimately show "hole_ns \<le> pk_end r - pk_start r"
    "\<forall>(s, e, t) \<in> set us. e \<le> pk_start r \<or> pk_end r \<le> s"
    "\<exists>(s, e, t) \<in> set us. e = pk_start r" "\<exists>(s, e, t) \<in> set us. s = pk_end r"
    using assms(3) unfolding pickup_rel_def prod.case by blast+
qed

lemma pickup_rows_mono:
  "r \<in> set rows \<Longrightarrow> r \<in> set (fst (fold (pickup_step hole_ns) us (rows, running)))"
proof (induction us arbitrary: rows running)
  case Nil
  then show ?case by simp
next
  case (Cons u us)
  obtain rows' running' where "pickup_step hole_ns u (rows, running) = (rows', running')"
    by (cases "pickup_step hole_ns u (rows, running)")
  moreover from this have "r \<in> set rows'"
    using Cons.prems
    by (cases u) (auto simp: pickup_step_def Let_def split: option.splits if_splits)
  ultimately show ?case using Cons.IH by simp
qed

text \<open>A hole between the blocks, wide enough, becomes an ACTIVE row.\<close>

lemma pickup_hole_row:
  assumes ord: "usable_order us" and ab: "a < b" "hole_ns \<le> b - a"
    and a: "\<exists>(s, e, t) \<in> set us. e = a" and b: "\<exists>(s, e, t) \<in> set us. s = b"
    and hole: "\<forall>(s, e, t) \<in> set us. e \<le> a \<or> b \<le> s"
  shows "\<lparr>pk_type = Active, pk_start = a, pk_end = b\<rparr>
    \<in> set (fst (fold (pickup_step hole_ns) us ([], None)))"
proof -
  obtain pre u post where us: "us = pre @ u # post" "\<not> fst u < b" "\<forall>x \<in> set pre. fst x < b"
    using split_list_first_prop [of us "\<lambda>u. \<not> fst u < b"] b by fastforce
  have sorted: "sorted (map fst us)" using ord by (simp add: usable_order_def)
  have ub: "fst u = b"
  proof -
    obtain e t where bt: "(b, e, t) \<in> set us" using b by auto
    then have "(b, e, t) \<notin> set pre" using us(3) by auto
    with bt us(1) sorted have "fst u \<le> b" by (auto simp: sorted_append)
    with us(2) show ?thesis by simp
  qed
  have pre_ends: "\<forall>(s, e, t) \<in> set pre. e \<le> a"
  proof (clarify)
    fix s e t
    assume x: "(s, e, t) \<in> set pre"
    then have "(s, e, t) \<in> set us" by (simp add: us(1))
    with hole have "e \<le> a \<or> b \<le> s" by fast
    then show "e \<le> a" using x us(3) by force
  qed
  obtain s t where at: "(s, a, t) \<in> set us" using a by auto
  then have "s < b" using ord ab by (auto simp: usable_order_def)
  moreover have "b \<le> fst x" if "x \<in> set (u # post)" for x
    using sorted us(1) ub that by (auto simp: sorted_append)
  ultimately have at': "(s, a, t) \<in> set pre" using at us(1) by fastforce
  obtain rows running where f: "fold (pickup_step hole_ns) pre ([], None) = (rows, running)"
    by (cases "fold (pickup_step hole_ns) pre ([], None)")
  have "usable_order pre" using ord us(1) by (auto simp: usable_order_def sorted_append)
  from pickup_fold_rel [OF this, of hole_ns] have rel: "pickup_rel hole_ns pre (rows, running)"
    by (simp add: f)
  then obtain m where m: "running = Some m" "\<forall>(s, e, t) \<in> set pre. e \<le> m"
    "\<exists>(s, e, t) \<in> set pre. e = m"
    using at' by (cases running) (auto simp: pickup_rel_def)
  have "m = a" using m(2,3) pre_ends at' by fastforce
  moreover have "i64_sub b a = b - a"
  proof -
    have "epoch_ns a" "epoch_ns b" using ord a b by (auto simp: usable_order_def)
    then show ?thesis by simp
  qed
  ultimately obtain rows' running' where step: "pickup_step hole_ns u (rows, running) = (rows', running')"
    "\<lparr>pk_type = Active, pk_start = a, pk_end = b\<rparr> \<in> set rows'"
    using ab m(1) ub by (cases u) (simp add: pickup_step_def)
  then show ?thesis using pickup_rows_mono [of _ rows'] by (simp add: us(1) f)
qed

section \<open>The export of a block set\<close>

lemma usable_blocks_iff:
  "(s, e, t) \<in> set (usable_blocks blocks) \<longleftrightarrow>
     (\<exists>b \<in> set blocks. paired b = Some (s, e) \<and> block_type b = t)"
  by (auto simp: usable_blocks_def in_map_filter)

definition blocks_in_epoch :: "eyes_block list \<Rightarrow> bool" where
  "blocks_in_epoch blocks \<longleftrightarrow>
     (\<forall>b \<in> set blocks. block_type b \<noteq> Active
        \<and> (\<forall>s e. paired b = Some (s, e) \<longrightarrow> epoch_ns s \<and> epoch_ns e))"

lemma usable_blocks_order:
  assumes "blocks_in_epoch blocks"
  shows "usable_order (usable_blocks blocks)"
proof -
  have "sorted (usable_blocks blocks)" by (simp add: usable_blocks_def)
  then have "sorted (map fst (usable_blocks blocks))"
    unfolding sorted_map by (rule sorted_wrt_mono_rel [rotated]) (auto simp: less_eq_prod_def)
  then show ?thesis
    using assms
    by (auto simp: usable_order_def usable_blocks_iff blocks_in_epoch_def paired_Some)
qed

end
