(* ===== verification/Eyes_Triplets.thy ===== *)
theory Eyes_Triplets
  imports Eyes_Types
begin

text \<open>
  The reconstruction of app episodes from resume, pause and stop events
  (\<open>reconstruct_app_triplets\<close>, \<open>ensure_package\<close>, \<open>resolve_duration\<close> of \<open>eyes_complement.rs\<close>): an arena
  of blocks linked in creation order by \<open>next\<close>, three queues of arena indices per package, one
  handler per signal, and the repair of endpoints when the blocks are emitted. The walk along \<open>next\<close>
  is a loop that might not end; it is option valued, and \<open>None\<close> stands for running forever.
\<close>

section \<open>State\<close>

record triplet_block =
  tb_app :: string
  tb_resume :: "int option"
  tb_pause :: "int option"
  tb_stop :: "int option"
  tb_resume_inference :: eyes_resume_inference
  tb_pause_inference :: eyes_pause_inference
  tb_end_inference :: eyes_end_inference
  tb_next :: "nat option"

record package_queues =
  resume_queue :: "nat list"
  pause_queue :: "nat list"
  stop_queue :: "nat list"

record triplet_state =
  arena :: "triplet_block list"
  queues :: "string \<rightharpoonup> package_queues"
  package_order :: "string list"
  previous_linked :: "nat option"
  last_stop_block :: "nat option"

definition initial_triplets :: triplet_state where
  "initial_triplets =
     \<lparr>arena = [], queues = Map.empty, package_order = [], previous_linked = None,
      last_stop_block = None\<rparr>"

definition no_queues :: package_queues where
  "no_queues = \<lparr>resume_queue = [], pause_queue = [], stop_queue = []\<rparr>"

text \<open>\<open>queues[package]\<close>; every use follows \<open>ensure_package\<close>, so the entry is there.\<close>

definition package_queues_of :: "triplet_state \<Rightarrow> string \<Rightarrow> package_queues" where
  "package_queues_of st package =
     (case queues st package of None \<Rightarrow> no_queues | Some q \<Rightarrow> q)"

definition put_queues :: "string \<Rightarrow> package_queues \<Rightarrow> triplet_state \<Rightarrow> triplet_state" where
  "put_queues package q st = st\<lparr>queues := (queues st)(package \<mapsto> q)\<rparr>"

definition ensure_package :: "string \<Rightarrow> triplet_state \<Rightarrow> triplet_state" where
  "ensure_package package st =
     (case queues st package of
        None \<Rightarrow> st\<lparr>queues := (queues st)(package \<mapsto> no_queues),
                   package_order := package_order st @ [package]\<rparr>
      | Some _ \<Rightarrow> st)"

definition modify_block ::
    "nat \<Rightarrow> (triplet_block \<Rightarrow> triplet_block) \<Rightarrow> triplet_state \<Rightarrow> triplet_state" where
  "modify_block i f st = st\<lparr>arena := (arena st)[i := f (arena st ! i)]\<rparr>"

text \<open>Push a block and link the block created before it to the new one.\<close>

definition link_block :: "triplet_block \<Rightarrow> triplet_state \<Rightarrow> triplet_state" where
  "link_block b st =
     (let created = length (arena st);
          st = st\<lparr>arena := arena st @ [b]\<rparr>;
          st = (case previous_linked st of
                  None \<Rightarrow> st
                | Some previous \<Rightarrow> modify_block previous (\<lambda>b. b\<lparr>tb_next := Some created\<rparr>) st)
      in st\<lparr>previous_linked := Some created\<rparr>)"

section \<open>Handlers\<close>

definition in_proximity :: "int \<Rightarrow> int \<Rightarrow> int \<Rightarrow> bool" where
  "in_proximity proximity_ns left right \<longleftrightarrow> i64_abs (i64_sub right left) < proximity_ns"

definition on_resume :: "int \<Rightarrow> string \<Rightarrow> triplet_state \<Rightarrow> triplet_state" where
  "on_resume timestamp package st =
     (let created = length (arena st);
          st = link_block
                 \<lparr>tb_app = package, tb_resume = Some timestamp, tb_pause = None, tb_stop = None,
                  tb_resume_inference = ResumeObserved, tb_pause_inference = PauseUnobserved,
                  tb_end_inference = EndUnobserved, tb_next = None\<rparr> st;
          st = ensure_package package st;
          q = package_queues_of st package
      in put_queues package (q\<lparr>resume_queue := resume_queue q @ [created]\<rparr>) st)"

text \<open>\<open>while !queue.is_empty() { front = queue.remove(0); if front == target { break; } mark; push }\<close>\<close>

fun drain_until ::
    "(triplet_block \<Rightarrow> triplet_block) \<Rightarrow> nat \<Rightarrow> nat list \<Rightarrow> triplet_block list \<Rightarrow> nat list
      \<Rightarrow> nat list \<times> triplet_block list \<times> nat list" where
  "drain_until mark target [] blocks out = ([], blocks, out)"
| "drain_until mark target (front # queue) blocks out =
     (if front = target then (queue, blocks, out)
      else drain_until mark target queue (blocks[front := mark (blocks ! front)]) (out @ [front]))"

text \<open>\<open>while !queue.is_empty() { front = queue.remove(0); mark; push }\<close>\<close>

fun drain_all ::
    "(triplet_block \<Rightarrow> triplet_block) \<Rightarrow> nat list \<Rightarrow> triplet_block list \<Rightarrow> nat list
      \<Rightarrow> triplet_block list \<times> nat list" where
  "drain_all mark [] blocks out = (blocks, out)"
| "drain_all mark (front # queue) blocks out =
     drain_all mark queue (blocks[front := mark (blocks ! front)]) (out @ [front])"

definition on_pause :: "int \<Rightarrow> int \<Rightarrow> string \<Rightarrow> triplet_state \<Rightarrow> triplet_state" where
  "on_pause proximity_ns timestamp package st =
     (let st = ensure_package package st;
          q = package_queues_of st package;
          resume_len = length (resume_queue q)
      in if 2 \<le> resume_len
         then
           (let older = resume_queue q ! (resume_len - 2);
                newest = resume_queue q ! (resume_len - 1);
                to_older =
                  (tb_next (arena st ! older) = Some newest
                   \<and> (case tb_resume (arena st ! newest) of
                        None \<Rightarrow> False
                      | Some resume \<Rightarrow> in_proximity proximity_ns resume timestamp));
                target = (if to_older then older else newest);
                tag = (if to_older then MatchingPreviousBlock else MatchingCurrentBlock);
                st = modify_block target (\<lambda>b. b\<lparr>tb_pause_inference := tag\<rparr>) st;
                st = modify_block target (\<lambda>b. b\<lparr>tb_pause := Some timestamp\<rparr>) st;
                (rest, blocks, out) =
                  drain_until (\<lambda>b. b\<lparr>tb_pause_inference := NextBlockPausedInference\<rparr>) target
                    (resume_queue q) (arena st) (pause_queue q)
            in put_queues package (q\<lparr>resume_queue := rest, pause_queue := out @ [target]\<rparr>)
                 (st\<lparr>arena := blocks\<rparr>))
         else if resume_len = 1
         then
           (let block = hd (resume_queue q);
                st = modify_block block (\<lambda>b. b\<lparr>tb_pause := Some timestamp\<rparr>) st;
                st = modify_block block (\<lambda>b. b\<lparr>tb_pause_inference := PauseObserved\<rparr>) st
            in put_queues package
                 (q\<lparr>resume_queue := tl (resume_queue q), pause_queue := pause_queue q @ [block]\<rparr>) st)
         else
           (let created = length (arena st);
                st = link_block
                       \<lparr>tb_app = package, tb_resume = None, tb_pause = Some timestamp,
                        tb_stop = None, tb_resume_inference = MissingActivityResumed,
                        tb_pause_inference = PauseObserved, tb_end_inference = EndUnobserved,
                        tb_next = None\<rparr> st
            in put_queues package (q\<lparr>pause_queue := pause_queue q @ [created]\<rparr>) st))"

definition mark_unobserved :: "eyes_end_inference \<Rightarrow> triplet_block \<Rightarrow> triplet_block" where
  "mark_unobserved e b =
     (if tb_end_inference b = EndUnobserved then b\<lparr>tb_end_inference := e\<rparr> else b)"

definition set_stop :: "int \<Rightarrow> eyes_end_inference \<Rightarrow> triplet_block \<Rightarrow> triplet_block" where
  "set_stop timestamp e b = b\<lparr>tb_stop := Some timestamp, tb_end_inference := e\<rparr>"

definition on_stop :: "int \<Rightarrow> int \<Rightarrow> string \<Rightarrow> triplet_state \<Rightarrow> triplet_state" where
  "on_stop proximity_ns timestamp package st =
     (let st = ensure_package package st;
          q = package_queues_of st package
      in if resume_queue q = []
         then
           (if pause_queue q = []
            then
              (let created = length (arena st);
                   st = link_block
                          \<lparr>tb_app = package, tb_resume = None, tb_pause = None,
                           tb_stop = Some timestamp, tb_resume_inference = ResumeObserved,
                           tb_pause_inference = PauseUnobserved,
                           tb_end_inference = ObservedStop, tb_next = None\<rparr> st
               in put_queues package (q\<lparr>stop_queue := stop_queue q @ [created]\<rparr>) st)
            else
              (let current = last (pause_queue q);
                   st = modify_block current (set_stop timestamp ObservedStop) st;
                   st = st\<lparr>last_stop_block := Some current\<rparr>;
                   (rest, blocks, out) =
                     drain_until (mark_unobserved NextBlockStoppedInference) current
                       (pause_queue q) (arena st) (stop_queue q)
               in put_queues package (q\<lparr>pause_queue := rest, stop_queue := out @ [current]\<rparr>)
                    (st\<lparr>arena := blocks\<rparr>)))
         else
           (let newest = last (resume_queue q);
                near = (case tb_resume (arena st ! newest) of
                          None \<Rightarrow> False
                        | Some resume \<Rightarrow> in_proximity proximity_ns resume timestamp)
            in if near
               then
                 (let (current, q) =
                        (if pause_queue q \<noteq> []
                         then (last (pause_queue q), q\<lparr>pause_queue := butlast (pause_queue q)\<rparr>)
                         else (hd (resume_queue q), q\<lparr>resume_queue := tl (resume_queue q)\<rparr>));
                      st = modify_block current (set_stop timestamp ObservedStop) st;
                      st = st\<lparr>last_stop_block := Some current\<rparr>
                  in put_queues package (q\<lparr>stop_queue := stop_queue q @ [current]\<rparr>) st)
               else
                 (let carrier = (if resume_queue q \<noteq> [] then Some (last (resume_queue q))
                                 else if pause_queue q \<noteq> [] then Some (last (pause_queue q))
                                 else None);
                      st = (case carrier of
                              None \<Rightarrow> st
                            | Some i \<Rightarrow> modify_block i (set_stop timestamp AppKilled) st);
                      (blocks, out) =
                        drain_all (mark_unobserved AppKilled) (pause_queue q) (arena st)
                          (stop_queue q);
                      (blocks, out) =
                        drain_all (\<lambda>b. b\<lparr>tb_end_inference := AppKilled\<rparr>) (resume_queue q) blocks out
                  in put_queues package \<lparr>resume_queue = [], pause_queue = [], stop_queue = out\<rparr>
                       (st\<lparr>arena := blocks\<rparr>))))"

definition close_package :: "string \<Rightarrow> triplet_state \<Rightarrow> triplet_state" where
  "close_package package st =
     (let q = package_queues_of st package;
          mark = (\<lambda>b. b\<lparr>tb_end_inference := SystemShutDown\<rparr>);
          (blocks, out) = drain_all mark (pause_queue q) (arena st) (stop_queue q);
          (blocks, out) = drain_all mark (resume_queue q) blocks out
      in put_queues package \<lparr>resume_queue = [], pause_queue = [], stop_queue = out\<rparr>
           (st\<lparr>arena := blocks\<rparr>))"

definition on_reboot :: "int \<Rightarrow> triplet_state \<Rightarrow> triplet_state" where
  "on_reboot timestamp st =
     (let st = (case last_stop_block st of
                  None \<Rightarrow> st
                | Some current \<Rightarrow>
                    if tb_stop (arena st ! current) = None
                    then modify_block current (set_stop timestamp SystemShutDown) st
                    else st)
      in fold close_package (package_order st) st)"

definition triplet_step ::
    "int \<Rightarrow> eyes_event \<times> eyes_signal \<Rightarrow> triplet_state \<Rightarrow> triplet_state" where
  "triplet_step proximity_ns = (\<lambda>(event, signal) st.
     (let timestamp = ev_timestamp_ns event; package = ev_package event
      in if signal = ActivityResumed then on_resume timestamp package st
         else if signal = ActivityPaused then on_pause proximity_ns timestamp package st
         else if signal = ActivityStopped then on_stop proximity_ns timestamp package st
         else if is_triplet_reboot signal then on_reboot timestamp st
         else st))"

section \<open>Emission\<close>

definition emission_order :: "triplet_state \<Rightarrow> nat list" where
  "emission_order st =
     concat (map (\<lambda>p. resume_queue (package_queues_of st p)) (package_order st))
     @ concat (map (\<lambda>p. pause_queue (package_queues_of st p)) (package_order st))
     @ concat (map (\<lambda>p. stop_queue (package_queues_of st p)) (package_order st))"

partial_function (option) repair_walk ::
    "triplet_block list \<Rightarrow> string \<Rightarrow> nat option \<Rightarrow> nat option option" where
  [code]: "repair_walk blocks app cursor =
     (case cursor of
        None \<Rightarrow> Some None
      | Some candidate \<Rightarrow>
          if tb_stop (blocks ! candidate) \<noteq> None \<or> tb_app (blocks ! candidate) \<noteq> app
          then Some (Some candidate)
          else repair_walk blocks app (tb_next (blocks ! candidate)))"

definition anomalous_end :: "eyes_end_inference \<Rightarrow> bool" where
  "anomalous_end e \<longleftrightarrow>
     (case e of
        NextBlockStoppedInference \<Rightarrow> True | AppKilled \<Rightarrow> True | SystemShutDown \<Rightarrow> True
      | _ \<Rightarrow> False)"

definition resolve_duration ::
    "eyes_duration_mode \<Rightarrow> triplet_block list \<Rightarrow> nat \<Rightarrow> (triplet_block list \<times> rat) option" where
  "resolve_duration mode blocks i =
     (let b = blocks ! i
      in case tb_resume b of
           None \<Rightarrow> Some (blocks, 0)
         | Some resume \<Rightarrow>
             if mode = PauseBound
             then Some (blocks, case tb_pause b of None \<Rightarrow> 0 | Some pause \<Rightarrow> seconds_between resume pause)
             else if tb_end_inference b = ObservedStop \<and> tb_stop b \<noteq> None
             then Some (blocks, seconds_between resume (the (tb_stop b)))
             else if anomalous_end (tb_end_inference b)
             then
               (case tb_stop b of
                  Some stop \<Rightarrow> Some (blocks, seconds_between resume stop)
                | None \<Rightarrow>
                    (case repair_walk blocks (tb_app b) (tb_next b) of
                       None \<Rightarrow> None
                     | Some None \<Rightarrow>
                         (case tb_pause b of
                            Some pause \<Rightarrow>
                              Some (blocks[i := b\<lparr>tb_end_inference := PauseFallback\<rparr>],
                                    seconds_between resume pause)
                          | None \<Rightarrow> Some (blocks, 0))
                     | Some (Some candidate) \<Rightarrow>
                         (let c = blocks ! candidate;
                              b' = (if tb_app c = tb_app b
                                    then b\<lparr>tb_stop := tb_stop c,
                                           tb_end_inference := NextBlockStoppedInference\<rparr>
                                    else b\<lparr>tb_stop := tb_resume c, tb_end_inference := MissingStop\<rparr>)
                          in Some (blocks[i := b'],
                                   case tb_stop b' of
                                     None \<Rightarrow> 0 | Some stop \<Rightarrow> seconds_between resume stop))))
             else
               (case tb_pause b of
                  Some pause \<Rightarrow>
                    Some (blocks[i := b\<lparr>tb_end_inference := PauseFallback\<rparr>],
                          seconds_between resume pause)
                | None \<Rightarrow> Some (blocks, 0)))"

definition episode_of :: "triplet_block \<Rightarrow> rat \<Rightarrow> eyes_app_episode" where
  "episode_of b duration =
     \<lparr>ep_package = tb_app b, ep_resume = tb_resume b, ep_pause = tb_pause b, ep_stop = tb_stop b,
      ep_resume_inference = tb_resume_inference b, ep_pause_inference = tb_pause_inference b,
      ep_end_inference = tb_end_inference b, ep_duration_seconds = duration\<rparr>"

fun emit_episodes ::
    "eyes_duration_mode \<Rightarrow> nat list \<Rightarrow> triplet_block list \<Rightarrow> eyes_app_episode list option" where
  "emit_episodes mode [] blocks = Some []"
| "emit_episodes mode (i # indices) blocks =
     (case resolve_duration mode blocks i of
        None \<Rightarrow> None
      | Some (blocks, duration) \<Rightarrow>
          map_option ((#) (episode_of (blocks ! i) duration)) (emit_episodes mode indices blocks))"

definition run_triplets ::
    "int \<Rightarrow> (eyes_event \<times> eyes_signal) list \<Rightarrow> triplet_state" where
  "run_triplets proximity_ns evs = fold (triplet_step proximity_ns) evs initial_triplets"

definition reconstruct_app_triplets ::
    "eyes_event list \<Rightarrow> eyes_signal list \<Rightarrow> eyes_options \<Rightarrow> eyes_app_episode list option" where
  "reconstruct_app_triplets events signals opts =
     (let st = run_triplets (seconds_to_ns (proximity_interval_seconds opts)) (zip events signals)
      in emit_episodes (duration_mode opts) (emission_order st) (arena st))"

end
