(* ===== verification/Eyes_Triplet_Invariant.thy ===== *)
theory Eyes_Triplet_Invariant
  imports Eyes_Triplets
begin

text \<open>
  The invariant of the episode reconstruction: the queues partition the arena, each block sits in a
  queue of its own package whose kind tells how far the block has come, \<open>next\<close> links the blocks in
  creation order, and the times of a block are those of later events. Every handler keeps it.
\<close>

section \<open>The invariant\<close>

definition queue_indexes :: "package_queues \<Rightarrow> nat list" where
  "queue_indexes q = resume_queue q @ pause_queue q @ stop_queue q"

definition open_block :: "triplet_block \<Rightarrow> bool" where
  "open_block b \<longleftrightarrow> tb_stop b = None \<and> tb_end_inference b = EndUnobserved"

definition closed_block :: "triplet_block \<Rightarrow> bool" where
  "closed_block b \<longleftrightarrow>
     tb_end_inference b = ObservedStop \<and> tb_stop b \<noteq> None \<or> anomalous_end (tb_end_inference b)"

definition queues_ok :: "string \<Rightarrow> package_queues \<Rightarrow> triplet_block list \<Rightarrow> bool" where
  "queues_ok p q bs \<longleftrightarrow>
     distinct (queue_indexes q)
     \<and> (\<forall>i \<in> set (queue_indexes q). i < length bs \<and> tb_app (bs ! i) = p)
     \<and> (\<forall>i \<in> set (resume_queue q).
          open_block (bs ! i) \<and> tb_resume (bs ! i) \<noteq> None)
     \<and> (\<forall>i \<in> set (pause_queue q). open_block (bs ! i))
     \<and> (\<forall>i \<in> set (stop_queue q). closed_block (bs ! i))"

definition chain_ok :: "triplet_block list \<Rightarrow> bool" where
  "chain_ok bs \<longleftrightarrow>
     (\<forall>i < length bs. tb_next (bs ! i) = (if Suc i < length bs then Some (Suc i) else None))"

definition block_times :: "triplet_block \<Rightarrow> int set" where
  "block_times b = set_option (tb_resume b) \<union> set_option (tb_pause b) \<union> set_option (tb_stop b)"

text \<open>No block has a time before the resume of an earlier one, nor of its own.\<close>

definition times_ok :: "triplet_block list \<Rightarrow> bool" where
  "times_ok bs \<longleftrightarrow>
     (\<forall>i j. i \<le> j \<longrightarrow> j < length bs \<longrightarrow>
        (\<forall>r. tb_resume (bs ! i) = Some r \<longrightarrow> (\<forall>t \<in> block_times (bs ! j). r \<le> t)))"

definition triplet_inv :: "triplet_state \<Rightarrow> bool" where
  "triplet_inv st \<longleftrightarrow>
     distinct (package_order st)
     \<and> set (package_order st) = dom (queues st)
     \<and> (\<forall>p q. queues st p = Some q \<longrightarrow> queues_ok p q (arena st))
     \<and> (\<forall>i < length (arena st). \<exists>q. queues st (tb_app (arena st ! i)) = Some q
          \<and> i \<in> set (queue_indexes q))
     \<and> chain_ok (arena st)
     \<and> previous_linked st = (if arena st = [] then None else Some (length (arena st) - 1))
     \<and> (\<forall>i. last_stop_block st = Some i \<longrightarrow> i < length (arena st) \<and> tb_stop (arena st ! i) \<noteq> None)"

definition known_times :: "int set \<Rightarrow> triplet_block list \<Rightarrow> bool" where
  "known_times T bs \<longleftrightarrow> (\<forall>b \<in> set bs. block_times b \<subseteq> T)"

text \<open>What an update of a block leaves alone: all but its pause, its stop and their provenance.\<close>

definition same_opening :: "triplet_block \<Rightarrow> triplet_block \<Rightarrow> bool" where
  "same_opening b b' \<longleftrightarrow>
     tb_app b' = tb_app b \<and> tb_resume b' = tb_resume b \<and> tb_next b' = tb_next b
     \<and> tb_resume_inference b' = tb_resume_inference b"

text \<open>One handler on the blocks that exist: openings kept, a stop is never taken away, a new time is
  the event's, and only blocks of the package's queues change.\<close>

definition blocks_updated :: "int \<Rightarrow> nat set \<Rightarrow> triplet_block list \<Rightarrow> triplet_block list \<Rightarrow> bool" where
  "blocks_updated ts I bs bs' \<longleftrightarrow>
     length bs' = length bs
     \<and> (\<forall>i < length bs. same_opening (bs ! i) (bs' ! i)
          \<and> (tb_stop (bs ! i) \<noteq> None \<longrightarrow> tb_stop (bs' ! i) \<noteq> None)
          \<and> block_times (bs' ! i) \<subseteq> insert ts (block_times (bs ! i))
          \<and> (i \<notin> I \<longrightarrow> bs' ! i = bs ! i))"

lemma same_opening_refl [simp]: "same_opening b b"
  by (simp add: same_opening_def)

lemma blocks_updated_refl [simp]: "blocks_updated ts I bs bs"
  by (auto simp: blocks_updated_def)

lemma blocks_updated_trans:
  assumes "blocks_updated ts I bs bs'" "blocks_updated ts I bs' bs''"
  shows "blocks_updated ts I bs bs''"
proof -
  have "block_times (bs'' ! i) \<subseteq> insert ts (block_times (bs ! i))" if "i < length bs" for i
  proof -
    have "block_times (bs'' ! i) \<subseteq> insert ts (block_times (bs' ! i))"
      "block_times (bs' ! i) \<subseteq> insert ts (block_times (bs ! i))"
      using assms that by (auto simp: blocks_updated_def)
    then show ?thesis by blast
  qed
  with assms show ?thesis by (auto simp: blocks_updated_def same_opening_def)
qed

lemma blocks_updated_one:
  assumes "i \<in> I" "same_opening (bs ! i) b" "tb_stop (bs ! i) \<noteq> None \<longrightarrow> tb_stop b \<noteq> None"
    "block_times b \<subseteq> insert ts (block_times (bs ! i))"
  shows "blocks_updated ts I bs (bs[i := b])"
proof -
  have "bs[i := b] ! k = (if k = i then b else bs ! k)" if "k < length bs" for k
    using that by (simp add: nth_list_update)
  then have "same_opening (bs ! k) (bs[i := b] ! k)
      \<and> (tb_stop (bs ! k) \<noteq> None \<longrightarrow> tb_stop (bs[i := b] ! k) \<noteq> None)
      \<and> block_times (bs[i := b] ! k) \<subseteq> insert ts (block_times (bs ! k))
      \<and> (k \<notin> I \<longrightarrow> bs[i := b] ! k = bs ! k)" if "k < length bs" for k
    using assms that by (cases "k = i") auto
  then show ?thesis by (simp add: blocks_updated_def)
qed

section \<open>Draining a queue\<close>

definition mark_ok :: "int \<Rightarrow> (triplet_block \<Rightarrow> triplet_block) \<Rightarrow> bool" where
  "mark_ok ts mark \<longleftrightarrow>
     (\<forall>b. same_opening b (mark b) \<and> (tb_stop b \<noteq> None \<longrightarrow> tb_stop (mark b) \<noteq> None)
        \<and> block_times (mark b) \<subseteq> insert ts (block_times b))"

lemma mark_okI [intro]:
  "mark_ok ts (mark_unobserved e)" "mark_ok ts (\<lambda>b. b\<lparr>tb_end_inference := e\<rparr>)"
  "mark_ok ts (\<lambda>b. b\<lparr>tb_pause_inference := how\<rparr>)" "mark_ok ts (set_stop ts e)"
  by (auto simp: mark_ok_def mark_unobserved_def same_opening_def block_times_def set_stop_def)

lemma drain_all_spec:
  assumes "drain_all mark xs bs out = (bs', out')" "distinct xs" "\<forall>i \<in> set xs. i < length bs"
    "mark_ok ts mark"
  shows "out' = out @ xs \<and> length bs' = length bs
    \<and> (\<forall>i < length bs. bs' ! i = (if i \<in> set xs then mark (bs ! i) else bs ! i))"
  using assms
proof (induction xs arbitrary: bs out)
  case Nil
  then show ?case by simp
next
  case (Cons x xs)
  from Cons.IH [of "bs[x := mark (bs ! x)]" "out @ [x]"] Cons.prems
  show ?case by (auto simp: nth_list_update)
qed

lemma drain_until_spec:
  assumes "drain_until mark target xs bs out = (rest, bs', out')" "target \<in> set xs" "distinct xs"
    "\<forall>i \<in> set xs. i < length bs"
  obtains pre where "xs = pre @ target # rest" "out' = out @ pre" "length bs' = length bs"
    "\<forall>i < length bs. bs' ! i = (if i \<in> set pre then mark (bs ! i) else bs ! i)"
proof -
  have "\<exists>pre. xs = pre @ target # rest \<and> out' = out @ pre \<and> length bs' = length bs
    \<and> (\<forall>i < length bs. bs' ! i = (if i \<in> set pre then mark (bs ! i) else bs ! i))"
    using assms
  proof (induction xs arbitrary: bs out)
    case Nil
    then show ?case by simp
  next
    case (Cons x xs)
    show ?case
    proof (cases "x = target")
      case True
      with Cons.prems show ?thesis by (intro exI [of _ "[]"]) auto
    next
      case False
      then obtain pre where "xs = pre @ target # rest" "out' = (out @ [x]) @ pre"
        "length bs' = length bs"
        "\<forall>i < length bs. bs' ! i = (if i \<in> set pre then mark (bs[x := mark (bs ! x)] ! i)
            else bs[x := mark (bs ! x)] ! i)"
        using Cons.IH [of "bs[x := mark (bs ! x)]" "out @ [x]"] Cons.prems by auto
      with Cons.prems show ?thesis
        by (intro exI [of _ "x # pre"]) (auto simp: nth_list_update)
    qed
  qed
  then show thesis using that by blast
qed

lemma blocks_updated_marked:
  assumes "mark_ok ts mark" "length bs' = length bs"
    "\<forall>i < length bs. bs' ! i = (if i \<in> J then mark (bs ! i) else bs ! i)" "J \<subseteq> I"
  shows "blocks_updated ts I bs bs'"
  using assms by (auto simp: blocks_updated_def mark_ok_def)

section \<open>Updating the blocks of one package\<close>

lemma triplet_inv_queues:
  "triplet_inv st \<Longrightarrow> queues st p = Some q \<Longrightarrow> queues_ok p q (arena st)"
  by (simp add: triplet_inv_def)

lemma update_package:
  assumes inv: "triplet_inv st" and q: "queues st p = Some q"
    and upd: "blocks_updated ts (set (queue_indexes q)) (arena st) bs"
    and ok: "queues_ok p q' bs" and same: "set (queue_indexes q') = set (queue_indexes q)"
    and l: "l = last_stop_block st \<or> (\<exists>i. l = Some i \<and> i < length bs \<and> tb_stop (bs ! i) \<noteq> None)"
  shows "triplet_inv (put_queues p q' (st\<lparr>arena := bs, last_stop_block := l\<rparr>))"
proof -
  have len: "length bs = length (arena st)" using upd by (simp add: blocks_updated_def)
  have old: "same_opening (arena st ! i) (bs ! i)" "tb_stop (arena st ! i) \<noteq> None \<Longrightarrow> tb_stop (bs ! i) \<noteq> None"
    "i \<notin> set (queue_indexes q) \<Longrightarrow> bs ! i = arena st ! i" if "i < length (arena st)" for i
    using upd that by (auto simp: blocks_updated_def)
  have apps: "tb_app (arena st ! i) = p" if "i \<in> set (queue_indexes q)" for i
    using triplet_inv_queues [OF inv q] that by (simp add: queues_ok_def)
  have other: "queues_ok p2 q2 bs" if q2: "queues st p2 = Some q2" "p2 \<noteq> p" for p2 q2
  proof -
    have o: "queues_ok p2 q2 (arena st)" using triplet_inv_queues [OF inv q2(1)] .
    then have "\<forall>i \<in> set (queue_indexes q2). i < length (arena st) \<and> i \<notin> set (queue_indexes q)"
      using apps q2(2) by (auto simp: queues_ok_def)
    then have "\<forall>i \<in> set (queue_indexes q2). bs ! i = arena st ! i" using old(3) by blast
    then show ?thesis using o len by (auto simp: queues_ok_def queue_indexes_def)
  qed
  have member: "\<exists>q2. ((queues st)(p \<mapsto> q')) (tb_app (bs ! i)) = Some q2 \<and> i \<in> set (queue_indexes q2)"
    if i: "i < length (arena st)" for i
  proof -
    obtain q2 where "queues st (tb_app (arena st ! i)) = Some q2" "i \<in> set (queue_indexes q2)"
      using inv i by (auto simp: triplet_inv_def)
    then show ?thesis using old(1) [OF i] q same by (cases "tb_app (arena st ! i) = p") (auto simp: same_opening_def)
  qed
  have lsb: "\<forall>i. l = Some i \<longrightarrow> i < length bs \<and> tb_stop (bs ! i) \<noteq> None"
    using l inv old(2) len by (auto simp: triplet_inv_def)
  have chain: "chain_ok bs"
    using inv old(1) len by (auto simp: triplet_inv_def chain_ok_def same_opening_def)
  have empty: "bs = [] \<longleftrightarrow> arena st = []" using len by auto
  show ?thesis
    using inv other ok member lsb chain len q empty
    unfolding triplet_inv_def put_queues_def
    by auto
qed

section \<open>Linking a new block\<close>

definition link_last :: "triplet_block list \<Rightarrow> triplet_block list" where
  "link_last bs =
     (if bs = [] then []
      else bs[length bs - 1 := (last bs)\<lparr>tb_next := Some (length bs)\<rparr>])"

lemma length_link_last [simp]: "length (link_last bs) = length bs"
  by (simp add: link_last_def)

lemma link_last_nth:
  "i < length bs \<Longrightarrow>
    link_last bs ! i = (if Suc i = length bs then (bs ! i)\<lparr>tb_next := Some (length bs)\<rparr> else bs ! i)"
  by (auto simp: link_last_def nth_list_update last_conv_nth)

lemma link_block_arena:
  assumes "triplet_inv st"
  shows "arena (link_block b st) = link_last (arena st) @ [b]"
    "previous_linked (link_block b st) = Some (length (arena st))"
    "queues (link_block b st) = queues st" "package_order (link_block b st) = package_order st"
    "last_stop_block (link_block b st) = last_stop_block st"
  using assms
  by (auto simp: link_block_def Let_def triplet_inv_def modify_block_def link_last_def
      nth_append last_conv_nth list_update_append split: option.split)

lemma chain_ok_link: "chain_ok bs \<Longrightarrow> tb_next b = None \<Longrightarrow> chain_ok (link_last bs @ [b])"
  by (auto simp: chain_ok_def nth_append link_last_nth less_Suc_eq)

lemma link_last_fields:
  "i < length bs \<Longrightarrow>
     tb_app (link_last bs ! i) = tb_app (bs ! i) \<and> tb_resume (link_last bs ! i) = tb_resume (bs ! i)
     \<and> tb_pause (link_last bs ! i) = tb_pause (bs ! i) \<and> tb_stop (link_last bs ! i) = tb_stop (bs ! i)
     \<and> tb_end_inference (link_last bs ! i) = tb_end_inference (bs ! i)"
  by (simp add: link_last_nth)

lemma queues_ok_link:
  assumes "queues_ok p q bs"
  shows "queues_ok p q (link_last bs @ [b])"
proof -
  let ?bs = "link_last bs @ [b]"
  have in_range: "i < length bs" if "i \<in> set (queue_indexes q)" for i
    using assms that by (simp add: queues_ok_def)
  have same: "tb_app (?bs ! i) = tb_app (bs ! i)" "tb_resume (?bs ! i) = tb_resume (bs ! i)"
    "open_block (?bs ! i) = open_block (bs ! i)" "closed_block (?bs ! i) = closed_block (bs ! i)"
    if "i < length bs" for i
    using that by (simp_all add: nth_append link_last_fields open_block_def closed_block_def)
  have "i < length ?bs \<and> tb_app (?bs ! i) = p" if "i \<in> set (queue_indexes q)" for i
    using assms that same(1) [OF in_range [OF that]] in_range [OF that]
    by (simp add: queues_ok_def less_Suc_eq)
  moreover have "open_block (?bs ! i) \<and> tb_resume (?bs ! i) \<noteq> None" if "i \<in> set (resume_queue q)" for i
    using assms that same [OF in_range [of i]] by (simp add: queues_ok_def queue_indexes_def)
  moreover have "open_block (?bs ! i)" if "i \<in> set (pause_queue q)" for i
    using assms that same [OF in_range [of i]] by (simp add: queues_ok_def queue_indexes_def)
  moreover have "closed_block (?bs ! i)" if "i \<in> set (stop_queue q)" for i
    using assms that same [OF in_range [of i]] by (simp add: queues_ok_def queue_indexes_def)
  ultimately show ?thesis using assms by (simp add: queues_ok_def)
qed

lemma link_package:
  assumes inv: "triplet_inv st" and q: "queues st p = Some q" and b: "tb_app b = p" "tb_next b = None"
    and ok: "queues_ok p q' (link_last (arena st) @ [b])"
    and set: "set (queue_indexes q') = insert (length (arena st)) (set (queue_indexes q))"
  shows "triplet_inv (put_queues p q' (link_block b st))"
proof -
  let ?bs = "link_last (arena st) @ [b]"
  note a = link_block_arena [OF inv, of b]
  have other: "queues_ok p2 q2 ?bs" if "queues st p2 = Some q2" for p2 q2
    using queues_ok_link [OF triplet_inv_queues [OF inv that]] .
  have member: "\<exists>q2. ((queues st)(p \<mapsto> q')) (tb_app (?bs ! i)) = Some q2 \<and> i \<in> set (queue_indexes q2)"
    if i: "i < Suc (length (arena st))" for i
  proof (cases "i = length (arena st)")
    case True
    then show ?thesis using b set by (simp add: nth_append)
  next
    case False
    then have i: "i < length (arena st)" using i by simp
    then obtain q2 where "queues st (tb_app (arena st ! i)) = Some q2" "i \<in> set (queue_indexes q2)"
      using inv by (auto simp: triplet_inv_def)
    then show ?thesis using q set i
      by (cases "tb_app (arena st ! i) = p") (auto simp: nth_append link_last_fields)
  qed
  have chain: "chain_ok ?bs" using inv b by (simp add: triplet_inv_def chain_ok_link)
  have lsb: "\<forall>i. last_stop_block st = Some i \<longrightarrow> i < Suc (length (arena st)) \<and> tb_stop (?bs ! i) \<noteq> None"
    using inv by (auto simp: triplet_inv_def nth_append link_last_fields)
  show ?thesis
    using inv other ok member chain lsb q
    unfolding triplet_inv_def put_queues_def
    by (auto simp: a)
qed

lemma ensure_package_inv: "triplet_inv st \<Longrightarrow> triplet_inv (ensure_package p st)"
proof (cases "queues st p")
  case None
  assume inv: "triplet_inv st"
  have "queues_ok p no_queues bs" for bs
    by (simp add: queues_ok_def no_queues_def queue_indexes_def)
  moreover have "tb_app (arena st ! i) \<noteq> p" if "i < length (arena st)" for i
    using inv that None by (auto simp: triplet_inv_def)
  moreover have "p \<notin> set (package_order st)" using inv None by (auto simp: triplet_inv_def)
  ultimately show ?thesis
    using inv unfolding triplet_inv_def ensure_package_def None by auto
qed (simp add: ensure_package_def)

lemma ensure_package_facts:
  "arena (ensure_package p st) = arena st"
  "queues (ensure_package p st) p = Some (package_queues_of (ensure_package p st) p)"
  by (auto simp: ensure_package_def package_queues_of_def split: option.splits)

lemma ensure_package_link:
  assumes "triplet_inv st"
  shows "ensure_package p (link_block b st) = link_block b (ensure_package p st)"
  using assms
  by (auto simp: ensure_package_def link_block_def modify_block_def Let_def split: option.splits)

lemma initial_triplets_inv: "triplet_inv initial_triplets"
  by (simp add: triplet_inv_def initial_triplets_def chain_ok_def)

end
