(* ===== verification/Eyes_Triplet_Handlers.thy ===== *)
theory Eyes_Triplet_Handlers
  imports Eyes_Triplet_Invariant
begin

text \<open>
  Every handler of the episode reconstruction keeps the invariant, and either updates existing blocks
  with the event's time or creates exactly one block.
\<close>

definition handled ::
    "int \<Rightarrow> triplet_block option \<Rightarrow> triplet_state \<Rightarrow> triplet_state \<Rightarrow> bool" where
  "handled ts new st st' \<longleftrightarrow>
     triplet_inv st'
     \<and> (case new of
          None \<Rightarrow> blocks_updated ts UNIV (arena st) (arena st')
        | Some b \<Rightarrow> arena st' = link_last (arena st) @ [b] \<and> block_times b \<subseteq> {ts})"

lemma handled_ensure [simp]: "handled ts new (ensure_package p st) st' = handled ts new st st'"
  by (simp add: handled_def ensure_package_facts(1) split: option.split)

lemma pause_update_commute:
  "b\<lparr>tb_pause := x, tb_pause_inference := y\<rparr> = b\<lparr>tb_pause_inference := y, tb_pause := x\<rparr>"
  by (cases b) simp

lemma stop_update_commute:
  "st\<lparr>last_stop_block := x, arena := y\<rparr> = st\<lparr>arena := y, last_stop_block := x\<rparr>"
  by (cases st) simp

lemma blocks_updated_mono: "blocks_updated ts I bs bs' \<Longrightarrow> I \<subseteq> J \<Longrightarrow> blocks_updated ts J bs bs'"
  by (auto simp: blocks_updated_def)

lemma queues_okI:
  assumes ok: "queues_ok p q bs" and upd: "blocks_updated ts I bs bs'"
    and same: "mset (queue_indexes q') = mset (queue_indexes q)"
    and r: "\<And>i. i \<in> set (resume_queue q') \<Longrightarrow> i < length bs \<Longrightarrow> open_block (bs' ! i) \<and> tb_resume (bs ! i) \<noteq> None"
    and p: "\<And>i. i \<in> set (pause_queue q') \<Longrightarrow> i < length bs \<Longrightarrow> open_block (bs' ! i)"
    and s: "\<And>i. i \<in> set (stop_queue q') \<Longrightarrow> i < length bs \<Longrightarrow> closed_block (bs' ! i)"
  shows "queues_ok p q' bs'"
proof -
  have set: "set (queue_indexes q') = set (queue_indexes q)" using same by (rule mset_eq_setD)
  have in_range: "i < length bs \<and> tb_app (bs ! i) = p" if "i \<in> set (queue_indexes q')" for i
    using ok that set by (simp add: queues_ok_def)
  have keep: "tb_app (bs' ! i) = tb_app (bs ! i)" "tb_resume (bs' ! i) = tb_resume (bs ! i)"
    if "i < length bs" for i using upd that by (auto simp: blocks_updated_def same_opening_def)
  have len: "length bs' = length bs" using upd by (simp add: blocks_updated_def)
  have "distinct (queue_indexes q')" using ok same by (metis mset_eq_imp_distinct_iff queues_ok_def)
  moreover have "\<forall>i \<in> set (queue_indexes q'). i < length bs' \<and> tb_app (bs' ! i) = p"
    using in_range keep len by auto
  moreover have "\<forall>i \<in> set (resume_queue q'). open_block (bs' ! i) \<and> tb_resume (bs' ! i) \<noteq> None"
    using in_range keep r by (auto simp: queue_indexes_def)
  moreover have "\<forall>i \<in> set (pause_queue q'). open_block (bs' ! i)"
    using in_range p by (auto simp: queue_indexes_def)
  moreover have "\<forall>i \<in> set (stop_queue q'). closed_block (bs' ! i)"
    using in_range s by (auto simp: queue_indexes_def)
  ultimately show ?thesis by (simp add: queues_ok_def)
qed

lemma queues_ok_mem:
  assumes "queues_ok p q bs"
  shows "i \<in> set (resume_queue q) \<Longrightarrow> open_block (bs ! i)"
    "i \<in> set (resume_queue q) \<Longrightarrow> tb_resume (bs ! i) \<noteq> None"
    "i \<in> set (pause_queue q) \<Longrightarrow> open_block (bs ! i)"
    "i \<in> set (stop_queue q) \<Longrightarrow> closed_block (bs ! i)"
    "i \<in> set (queue_indexes q) \<Longrightarrow> i < length bs"
    "i \<in> set (resume_queue q) \<Longrightarrow> i < length bs" "i \<in> set (pause_queue q) \<Longrightarrow> i < length bs"
    "distinct (resume_queue q)" "distinct (pause_queue q)"
    "set (resume_queue q) \<inter> set (pause_queue q) = {}" "set (resume_queue q) \<inter> set (stop_queue q) = {}"
    "set (pause_queue q) \<inter> set (stop_queue q) = {}"
  using assms by (auto simp: queues_ok_def queue_indexes_def)

text \<open>The common end of a handler that moves blocks between the queues of its package.\<close>

lemma handled_update:
  assumes inv: "triplet_inv st" and q: "queues st p = Some q"
    and upd: "blocks_updated ts (set (queue_indexes q)) (arena st) bs"
    and ok: "queues_ok p q' bs" and same: "mset (queue_indexes q') = mset (queue_indexes q)"
    and l: "l = last_stop_block st \<or> (\<exists>i. l = Some i \<and> i < length bs \<and> tb_stop (bs ! i) \<noteq> None)"
  shows "handled ts None st (put_queues p q' (st\<lparr>arena := bs, last_stop_block := l\<rparr>))"
proof -
  have "triplet_inv (put_queues p q' (st\<lparr>arena := bs, last_stop_block := l\<rparr>))"
    using update_package [OF inv q upd ok _ l] mset_eq_setD [OF same] by blast
  moreover have "blocks_updated ts UNIV (arena st) bs" using upd by (rule blocks_updated_mono) simp
  ultimately show ?thesis by (simp add: handled_def put_queues_def)
qed

lemma handled_new:
  assumes inv: "triplet_inv st" and q: "queues st p = Some q" and b: "tb_app b = p" "tb_next b = None"
    and times: "block_times b \<subseteq> {ts}"
    and q': "q' = q\<lparr>resume_queue := resume_queue q @ [length (arena st)]\<rparr>
        \<and> open_block b \<and> tb_resume b \<noteq> None
      \<or> q' = q\<lparr>pause_queue := pause_queue q @ [length (arena st)]\<rparr> \<and> open_block b
      \<or> q' = q\<lparr>stop_queue := stop_queue q @ [length (arena st)]\<rparr> \<and> closed_block b"
  shows "handled ts (Some b) st (put_queues p q' (link_block b st))"
proof -
  let ?n = "length (arena st)" and ?bs = "link_last (arena st) @ [b]"
  have old: "queues_ok p q ?bs" by (rule queues_ok_link [OF triplet_inv_queues [OF inv q]])
  have fresh: "?n \<notin> set (queue_indexes q)"
    using queues_ok_mem(5) [OF triplet_inv_queues [OF inv q]] by blast
  have last: "?bs ! ?n = b" "?n < length ?bs" by (simp_all add: nth_append)
  have idx: "distinct (queue_indexes q')" "set (queue_indexes q') = insert ?n (set (queue_indexes q))"
    using q' old fresh by (auto simp: queues_ok_def queue_indexes_def)
  have all: "\<forall>i \<in> set (queue_indexes q'). i < length ?bs \<and> tb_app (?bs ! i) = p"
    using old idx(2) last b unfolding queues_ok_def by auto
  have sets: "set (resume_queue q') = set (resume_queue q) \<or>
      set (resume_queue q') = insert ?n (set (resume_queue q)) \<and> open_block b \<and> tb_resume b \<noteq> None"
    "set (pause_queue q') = set (pause_queue q) \<or>
      set (pause_queue q') = insert ?n (set (pause_queue q)) \<and> open_block b"
    "set (stop_queue q') = set (stop_queue q) \<or>
      set (stop_queue q') = insert ?n (set (stop_queue q)) \<and> closed_block b"
    using q' by auto
  have "\<forall>i \<in> set (resume_queue q'). open_block (?bs ! i) \<and> tb_resume (?bs ! i) \<noteq> None"
    using sets(1) old last(1) unfolding queues_ok_def by auto
  moreover have "\<forall>i \<in> set (pause_queue q'). open_block (?bs ! i)"
    using sets(2) old last(1) unfolding queues_ok_def by auto
  moreover have "\<forall>i \<in> set (stop_queue q'). closed_block (?bs ! i)"
    using sets(3) old last(1) unfolding queues_ok_def by auto
  ultimately have "queues_ok p q' ?bs" using idx(1) all unfolding queues_ok_def by blast
  then have "triplet_inv (put_queues p q' (link_block b st))"
    by (rule link_package [OF inv q b _ idx(2)])
  then show ?thesis using times by (simp add: handled_def put_queues_def link_block_arena [OF inv])
qed

section \<open>Resume\<close>

lemma on_resume_handled:
  assumes "triplet_inv st"
  shows "\<exists>b. handled ts (Some b) st (on_resume ts p st) \<and> tb_app b = p \<and> tb_resume b = Some ts"
proof -
  let ?b = "\<lparr>tb_app = p, tb_resume = Some ts, tb_pause = None, tb_stop = None,
      tb_resume_inference = ResumeObserved, tb_pause_inference = PauseUnobserved,
      tb_end_inference = EndUnobserved, tb_next = None\<rparr>"
  let ?st = "ensure_package p st"
  have inv: "triplet_inv ?st" by (rule ensure_package_inv [OF assms])
  have q: "queues ?st p = Some (package_queues_of ?st p)" by (rule ensure_package_facts)
  have "handled ts (Some ?b) ?st (put_queues p
      (package_queues_of ?st p\<lparr>resume_queue := resume_queue (package_queues_of ?st p) @ [length (arena ?st)]\<rparr>)
      (link_block ?b ?st))"
    by (rule handled_new [OF inv q]) (simp_all add: block_times_def open_block_def)
  moreover have "package_queues_of (link_block ?b ?st) p = package_queues_of ?st p"
    by (simp add: package_queues_of_def link_block_arena [OF inv])
  ultimately have "handled ts (Some ?b) ?st (on_resume ts p st)"
    by (simp add: on_resume_def Let_def ensure_package_link [OF assms] ensure_package_facts(1))
  then show ?thesis by (intro exI [of _ ?b]) (simp add: handled_def ensure_package_facts(1))
qed

section \<open>Pause\<close>

lemma pause_two_handled:
  assumes inv: "triplet_inv st" and q: "queues st p = Some q"
    and target: "target \<in> set (resume_queue q)"
    and drain: "drain_until (\<lambda>b. b\<lparr>tb_pause_inference := NextBlockPausedInference\<rparr>) target
      (resume_queue q) ((arena st)[target := (arena st ! target)\<lparr>tb_pause_inference := tag, tb_pause := Some ts\<rparr>])
      (pause_queue q) = (rest, bs, out)"
  shows "handled ts None st
    (put_queues p (q\<lparr>resume_queue := rest, pause_queue := out @ [target]\<rparr>) (st\<lparr>arena := bs\<rparr>))"
proof -
  let ?bs = "(arena st)[target := (arena st ! target)\<lparr>tb_pause_inference := tag, tb_pause := Some ts\<rparr>]"
  let ?q = "q\<lparr>resume_queue := rest, pause_queue := out @ [target]\<rparr>"
  let ?I = "set (queue_indexes q)"
  have ok: "queues_ok p q (arena st)" by (rule triplet_inv_queues [OF inv q])
  note mem = queues_ok_mem [OF ok]
  obtain pre where pre: "resume_queue q = pre @ target # rest" "out = pause_queue q @ pre"
    "length bs = length ?bs" and bs: "\<forall>i < length ?bs. bs ! i = (if i \<in> set pre
        then (?bs ! i)\<lparr>tb_pause_inference := NextBlockPausedInference\<rparr> else ?bs ! i)"
    by (rule drain_until_spec [OF drain target mem(8)]) (use mem(6) in auto)
  have "blocks_updated ts ?I (arena st) ?bs"
    by (rule blocks_updated_one)
      (use target in \<open>auto simp: queue_indexes_def same_opening_def block_times_def\<close>)
  moreover have "blocks_updated ts ?I ?bs bs"
    by (rule blocks_updated_marked [OF _ pre(3) bs]) (use pre(1) in \<open>auto simp: queue_indexes_def\<close>)
  ultimately have upd: "blocks_updated ts ?I (arena st) bs" by (rule blocks_updated_trans)
  have opened: "open_block (bs ! i) = open_block (arena st ! i)"
    "closed_block (bs ! i) = closed_block (arena st ! i)" if "i < length (arena st)" for i
    using bs that mem(6) [OF target] by (auto simp: open_block_def closed_block_def nth_list_update)
  have same: "mset (queue_indexes ?q) = mset (queue_indexes q)"
    by (simp add: queue_indexes_def pre)
  have "queues_ok p ?q bs"
    by (rule queues_okI [OF ok upd same])
      (use mem pre opened in \<open>auto simp: queue_indexes_def\<close>)
  from handled_update [OF inv q upd this same, of "last_stop_block st"] show ?thesis by simp
qed

lemma on_pause_handled:
  assumes "triplet_inv st"
  shows "\<exists>new. handled ts new st (on_pause prox ts p st) \<and> (\<forall>b. new = Some b \<longrightarrow> tb_resume b = None)"
proof -
  let ?st = "ensure_package p st"
  let ?q = "package_queues_of ?st p"
  have inv: "triplet_inv ?st" by (rule ensure_package_inv [OF assms])
  have q: "queues ?st p = Some ?q" by (rule ensure_package_facts)
  have ok: "queues_ok p ?q (arena ?st)" by (rule triplet_inv_queues [OF inv q])
  have lift: "\<exists>new. handled ts new ?st (on_pause prox ts p st) \<and> (\<forall>b. new = Some b \<longrightarrow> tb_resume b = None)
      \<Longrightarrow> ?thesis" by simp
  consider "2 \<le> length (resume_queue ?q)" | "length (resume_queue ?q) = 1" | "resume_queue ?q = []"
    by (cases "resume_queue ?q"; cases "tl (resume_queue ?q)") auto
  then show ?thesis
  proof cases
    case 1
    let ?older = "resume_queue ?q ! (length (resume_queue ?q) - 2)"
    let ?newest = "resume_queue ?q ! (length (resume_queue ?q) - 1)"
    let ?to_older = "tb_next (arena ?st ! ?older) = Some ?newest
      \<and> (case tb_resume (arena ?st ! ?newest) of None \<Rightarrow> False | Some r \<Rightarrow> in_proximity prox r ts)"
    define target where "target = (if ?to_older then ?older else ?newest)"
    define tag where "tag = (if ?to_older then MatchingPreviousBlock else MatchingCurrentBlock)"
    have target: "target \<in> set (resume_queue ?q)" using 1 by (simp add: target_def)
    then have range: "target < length (arena ?st)" using queues_ok_mem(6) [OF ok] by blast
    let ?bs = "(arena ?st)[target := (arena ?st ! target)\<lparr>tb_pause_inference := tag, tb_pause := Some ts\<rparr>]"
    have mods: "modify_block target (\<lambda>b. b\<lparr>tb_pause := Some ts\<rparr>)
        (modify_block target (\<lambda>b. b\<lparr>tb_pause_inference := tag\<rparr>) ?st) = ?st\<lparr>arena := ?bs\<rparr>"
      using range by (simp add: modify_block_def)
    obtain rest bs out where drain: "drain_until (\<lambda>b. b\<lparr>tb_pause_inference := NextBlockPausedInference\<rparr>)
        target (resume_queue ?q) ?bs (pause_queue ?q) = (rest, bs, out)" using prod_cases3 by blast
    have "on_pause prox ts p st
        = put_queues p (?q\<lparr>resume_queue := rest, pause_queue := out @ [target]\<rparr>) (?st\<lparr>arena := bs\<rparr>)"
      unfolding on_pause_def Let_def target_def [symmetric] tag_def [symmetric]
      using 1 by (simp add: mods drain)
    then show ?thesis using pause_two_handled [OF inv q target drain] by (intro lift) auto
  next
    case 2
    then obtain i where i: "resume_queue ?q = [i]" by (auto simp: length_Suc_conv)
    let ?bs = "(arena ?st)[i := (arena ?st ! i)\<lparr>tb_pause_inference := PauseObserved, tb_pause := Some ts\<rparr>]"
    let ?bs' = "(arena ?st)[i := (arena ?st ! i)\<lparr>tb_pause := Some ts, tb_pause_inference := PauseObserved\<rparr>]"
    have range: "i < length (arena ?st)" using queues_ok_mem(6) [OF ok] i by simp
    have "drain_until (\<lambda>b. b\<lparr>tb_pause_inference := NextBlockPausedInference\<rparr>) i
        (resume_queue ?q) ?bs (pause_queue ?q) = ([], ?bs, pause_queue ?q)" by (simp add: i)
    from pause_two_handled [OF inv q _ this] i
    have "handled ts None ?st (put_queues p (?q\<lparr>resume_queue := [], pause_queue := pause_queue ?q @ [i]\<rparr>)
        (?st\<lparr>arena := ?bs\<rparr>))" by simp
    moreover have "on_pause prox ts p st
        = put_queues p (?q\<lparr>resume_queue := [], pause_queue := pause_queue ?q @ [i]\<rparr>) (?st\<lparr>arena := ?bs\<rparr>)"
      using range by (simp add: on_pause_def Let_def i modify_block_def pause_update_commute)
    ultimately show ?thesis by (intro lift) auto
  next
    case 3
    let ?b = "\<lparr>tb_app = p, tb_resume = None, tb_pause = Some ts, tb_stop = None,
      tb_resume_inference = MissingActivityResumed, tb_pause_inference = PauseObserved,
      tb_end_inference = EndUnobserved, tb_next = None\<rparr>"
    have "handled ts (Some ?b) ?st (put_queues p
        (?q\<lparr>pause_queue := pause_queue ?q @ [length (arena ?st)]\<rparr>) (link_block ?b ?st))"
      by (rule handled_new [OF inv q]) (simp_all add: block_times_def open_block_def)
    then show ?thesis
      by (intro lift exI [of _ "Some ?b"]) (simp add: on_pause_def Let_def 3)
  qed
qed

section \<open>Stop\<close>

text \<open>One block leaves the open queues with an observed stop.\<close>

lemma close_one_handled:
  assumes inv: "triplet_inv st" and q: "queues st p = Some q"
    and i: "i \<in> set (queue_indexes q)"
    and same: "mset (queue_indexes q') = mset (queue_indexes q)"
    and r: "set (resume_queue q') \<subseteq> set (resume_queue q) - {i}"
    and pq: "set (pause_queue q') \<subseteq> set (pause_queue q) - {i}"
    and s: "set (stop_queue q') \<subseteq> insert i (set (stop_queue q))"
  shows "handled ts None st (put_queues p q'
    (st\<lparr>arena := (arena st)[i := set_stop ts ObservedStop (arena st ! i)], last_stop_block := Some i\<rparr>))"
proof -
  let ?bs = "(arena st)[i := set_stop ts ObservedStop (arena st ! i)]"
  have ok: "queues_ok p q (arena st)" by (rule triplet_inv_queues [OF inv q])
  note mem = queues_ok_mem [OF ok]
  have range: "i < length (arena st)" using mem(5) i by blast
  have upd: "blocks_updated ts (set (queue_indexes q)) (arena st) ?bs"
    by (rule blocks_updated_one [OF i]) (auto simp: same_opening_def set_stop_def block_times_def)
  have "queues_ok p q' ?bs"
  proof (rule queues_okI [OF ok upd same])
    fix k
    assume "k \<in> set (stop_queue q')" "k < length (arena st)"
    then show "closed_block (?bs ! k)"
      using s mem(4) by (cases "k = i") (auto simp: closed_block_def set_stop_def)
  next
    fix k
    assume k: "k \<in> set (resume_queue q')"
    then have "k \<noteq> i" "k \<in> set (resume_queue q)" using r by auto
    then show "open_block (?bs ! k) \<and> tb_resume (arena st ! k) \<noteq> None" using mem(1,2) by simp
  next
    fix k
    assume k: "k \<in> set (pause_queue q')"
    then have "k \<noteq> i" "k \<in> set (pause_queue q)" using pq by auto
    then show "open_block (?bs ! k)" using mem(3) by simp
  qed
  from handled_update [OF inv q upd this same, of "Some i"] range show ?thesis
    by (simp add: set_stop_def)
qed

lemma stop_paused_handled:
  assumes inv: "triplet_inv st" and q: "queues st p = Some q"
    and cur: "pause_queue q \<noteq> []" "c = last (pause_queue q)"
    and drain: "drain_until (mark_unobserved NextBlockStoppedInference) c (pause_queue q)
      ((arena st)[c := set_stop ts ObservedStop (arena st ! c)]) (stop_queue q) = (rest, bs, out)"
  shows "handled ts None st (put_queues p (q\<lparr>pause_queue := rest, stop_queue := out @ [c]\<rparr>)
    (st\<lparr>arena := bs, last_stop_block := Some c\<rparr>))"
proof -
  let ?bs = "(arena st)[c := set_stop ts ObservedStop (arena st ! c)]"
  let ?q = "q\<lparr>pause_queue := rest, stop_queue := out @ [c]\<rparr>"
  let ?I = "set (queue_indexes q)"
  have ok: "queues_ok p q (arena st)" by (rule triplet_inv_queues [OF inv q])
  note mem = queues_ok_mem [OF ok]
  have c: "c \<in> set (pause_queue q)" using cur by simp
  have range: "c < length (arena st)" using mem(7) [OF c] .
  obtain pre where pre: "pause_queue q = pre @ c # rest" "out = stop_queue q @ pre"
    "length bs = length ?bs" and bs: "\<forall>i < length ?bs. bs ! i = (if i \<in> set pre
        then mark_unobserved NextBlockStoppedInference (?bs ! i) else ?bs ! i)"
    by (rule drain_until_spec [OF drain c mem(9)]) (use mem(7) in auto)
  have dist: "distinct (pre @ c # rest)" using mem(9) unfolding pre(1) .
  then have c_pre: "c \<notin> set pre" by simp
  have "c = last (pre @ c # rest)" using cur(2) unfolding pre(1) [symmetric] .
  then have "c = last (c # rest)" by (simp only: last_append list.distinct if_False)
  then have rest: "rest = []" using dist by (cases "rest = []") (auto simp del: last_in_set, metis last_in_set)
  have "blocks_updated ts ?I (arena st) ?bs"
    by (rule blocks_updated_one)
      (use c in \<open>auto simp: queue_indexes_def same_opening_def set_stop_def block_times_def\<close>)
  moreover have "blocks_updated ts ?I ?bs bs"
    by (rule blocks_updated_marked [OF _ pre(3) bs]) (auto simp: queue_indexes_def pre(1))
  ultimately have upd: "blocks_updated ts ?I (arena st) bs" by (rule blocks_updated_trans)
  have same: "mset (queue_indexes ?q) = mset (queue_indexes q)"
    by (simp add: queue_indexes_def pre(1,2))
  have "queues_ok p ?q bs"
  proof (rule queues_okI [OF ok upd same])
    fix k
    assume k: "k \<in> set (stop_queue ?q)" "k < length (arena st)"
    consider "k \<in> set pre" | "k = c" | "k \<in> set (stop_queue q)" "k \<notin> set pre" "k \<noteq> c"
      using k(1) pre(2) by auto
    then show "closed_block (bs ! k)"
    proof cases
      case 1
      then have "open_block (arena st ! k)" using mem(3) by (simp add: pre(1))
      moreover have "k \<noteq> c" using 1 c_pre by blast
      ultimately show ?thesis using 1 bs k(2)
        by (auto simp: closed_block_def mark_unobserved_def anomalous_end_def open_block_def)
    next
      case 2
      then show ?thesis using bs k(2) c_pre by (auto simp: closed_block_def set_stop_def)
    next
      case 3
      then show ?thesis using bs k(2) mem(4) by auto
    qed
  next
    fix k
    assume k: "k \<in> set (resume_queue ?q)" "k < length (arena st)"
    then have "k \<notin> set (pause_queue q)" using mem(10) by auto
    then have "k \<noteq> c" "k \<notin> set pre" by (auto simp: pre(1))
    then show "open_block (bs ! k) \<and> tb_resume (arena st ! k) \<noteq> None"
      using bs k mem(1,2) by auto
  qed (simp add: rest)
  moreover have "tb_stop (bs ! c) \<noteq> None" using bs range c_pre by (auto simp: set_stop_def)
  ultimately show ?thesis
    using handled_update [OF inv q upd _ same, of "Some c"] range pre(3) by simp
qed

text \<open>Both open queues are emptied into the stop queue.\<close>

lemma drain_package:
  assumes ok: "queues_ok p q bs0" and upd0: "blocks_updated ts (set (queue_indexes q)) bs0 bs1"
    and stop: "\<forall>k \<in> set (stop_queue q). closed_block (bs1 ! k)"
    and pause: "\<forall>k \<in> set (pause_queue q). closed_block (mark1 (bs1 ! k))"
    and resume: "\<forall>k \<in> set (resume_queue q). closed_block (mark2 (bs1 ! k))"
    and marks: "mark_ok ts mark1" "mark_ok ts mark2"
    and d1: "drain_all mark1 (pause_queue q) bs1 (stop_queue q) = (bs2, out2)"
    and d2: "drain_all mark2 (resume_queue q) bs2 out2 = (bs3, out3)"
  shows "blocks_updated ts (set (queue_indexes q)) bs0 bs3"
    "mset (queue_indexes \<lparr>resume_queue = [], pause_queue = [], stop_queue = out3\<rparr>) = mset (queue_indexes q)"
    "queues_ok p \<lparr>resume_queue = [], pause_queue = [], stop_queue = out3\<rparr> bs3"
proof -
  let ?q = "\<lparr>resume_queue = [], pause_queue = [], stop_queue = out3\<rparr>"
  note mem = queues_ok_mem [OF ok]
  have len: "length bs1 = length bs0" using upd0 by (simp add: blocks_updated_def)
  have s1: "out2 = stop_queue q @ pause_queue q" "length bs2 = length bs1"
    "\<forall>i < length bs1. bs2 ! i = (if i \<in> set (pause_queue q) then mark1 (bs1 ! i) else bs1 ! i)"
    using drain_all_spec [OF d1 mem(9) _ marks(1)] mem(7) len by auto
  have s2: "out3 = out2 @ resume_queue q" "length bs3 = length bs2"
    "\<forall>i < length bs2. bs3 ! i = (if i \<in> set (resume_queue q) then mark2 (bs2 ! i) else bs2 ! i)"
    using drain_all_spec [OF d2 mem(8) _ marks(2)] mem(6) len s1(2) by auto
  have "blocks_updated ts (set (queue_indexes q)) bs1 bs2"
    by (rule blocks_updated_marked [OF marks(1) s1(2,3)]) (auto simp: queue_indexes_def)
  moreover have "blocks_updated ts (set (queue_indexes q)) bs2 bs3"
    by (rule blocks_updated_marked [OF marks(2) s2(2,3)]) (auto simp: queue_indexes_def)
  ultimately show upd: "blocks_updated ts (set (queue_indexes q)) bs0 bs3"
    using upd0 blocks_updated_trans by blast
  show same: "mset (queue_indexes ?q) = mset (queue_indexes q)"
    by (simp add: queue_indexes_def s1(1) s2(1))
  show "queues_ok p ?q bs3"
  proof (rule queues_okI [OF ok upd same])
    fix k
    assume k: "k \<in> set (stop_queue ?q)" "k < length bs0"
    have "bs3 ! k = (if k \<in> set (resume_queue q) then mark2 (bs1 ! k)
        else if k \<in> set (pause_queue q) then mark1 (bs1 ! k) else bs1 ! k)"
      using k(2) s1(2,3) s2(2,3) len mem(10) by auto
    then show "closed_block (bs3 ! k)" using k(1) stop pause resume by (auto simp: s1(1) s2(1))
  qed simp_all
qed

text \<open>A stop far from the newest resume closes every block of the package.\<close>

lemma stop_killed_handled:
  assumes inv: "triplet_inv st" and q: "queues st p = Some q" and rq: "resume_queue q \<noteq> []"
    and d1: "drain_all (mark_unobserved AppKilled) (pause_queue q)
      ((arena st)[last (resume_queue q) := set_stop ts AppKilled (arena st ! last (resume_queue q))])
      (stop_queue q) = (bs2, out2)"
    and d2: "drain_all (\<lambda>b. b\<lparr>tb_end_inference := AppKilled\<rparr>) (resume_queue q) bs2 out2 = (bs3, out3)"
  shows "handled ts None st
    (put_queues p \<lparr>resume_queue = [], pause_queue = [], stop_queue = out3\<rparr> (st\<lparr>arena := bs3\<rparr>))"
proof -
  let ?c = "last (resume_queue q)"
  let ?bs1 = "(arena st)[?c := set_stop ts AppKilled (arena st ! ?c)]"
  have ok: "queues_ok p q (arena st)" by (rule triplet_inv_queues [OF inv q])
  note mem = queues_ok_mem [OF ok]
  have c: "?c \<in> set (resume_queue q)" using rq by simp
  have upd1: "blocks_updated ts (set (queue_indexes q)) (arena st) ?bs1"
    by (rule blocks_updated_one)
      (use c in \<open>auto simp: queue_indexes_def same_opening_def set_stop_def block_times_def\<close>)
  have same1: "?bs1 ! k = arena st ! k" if "k \<notin> set (resume_queue q)" for k
    using c that by (metis nth_list_update_neq)
  note d = drain_package [OF ok upd1 _ _ _ _ _ d1 d2]
  have s: "\<forall>k \<in> set (stop_queue q). closed_block (?bs1 ! k)"
    using mem(4,11) same1 by (metis disjoint_iff)
  have pq: "\<forall>k \<in> set (pause_queue q). closed_block (mark_unobserved AppKilled (?bs1 ! k))"
  proof
    fix k
    assume k: "k \<in> set (pause_queue q)"
    then have "?bs1 ! k = arena st ! k" using mem(10) same1 by blast
    with mem(3) [OF k] show "closed_block (mark_unobserved AppKilled (?bs1 ! k))"
      by (simp add: closed_block_def mark_unobserved_def open_block_def anomalous_end_def)
  qed
  have r: "\<forall>k \<in> set (resume_queue q). closed_block ((?bs1 ! k)\<lparr>tb_end_inference := AppKilled\<rparr>)"
    by (simp add: closed_block_def anomalous_end_def)
  show ?thesis
    using handled_update [OF inv q d(1) d(3) d(2), of "last_stop_block st"] s pq r mark_okI by simp
qed

lemma on_stop_handled:
  assumes "triplet_inv st"
  shows "\<exists>new. handled ts new st (on_stop prox ts p st) \<and> (\<forall>b. new = Some b \<longrightarrow> tb_resume b = None)"
proof -
  let ?st = "ensure_package p st"
  let ?q = "package_queues_of ?st p"
  have inv: "triplet_inv ?st" by (rule ensure_package_inv [OF assms])
  have q: "queues ?st p = Some ?q" by (rule ensure_package_facts)
  have ok: "queues_ok p ?q (arena ?st)" by (rule triplet_inv_queues [OF inv q])
  note mem = queues_ok_mem [OF ok]
  have lift: "\<exists>new. handled ts new ?st (on_stop prox ts p st) \<and> (\<forall>b. new = Some b \<longrightarrow> tb_resume b = None)
      \<Longrightarrow> ?thesis" by simp
  let ?near = "case tb_resume (arena ?st ! last (resume_queue ?q)) of
      None \<Rightarrow> False | Some r \<Rightarrow> in_proximity prox r ts"
  consider (lone) "resume_queue ?q = []" "pause_queue ?q = []"
    | (paused) "resume_queue ?q = []" "pause_queue ?q \<noteq> []"
    | (near_pause) "resume_queue ?q \<noteq> []" ?near "pause_queue ?q \<noteq> []"
    | (near_resume) "resume_queue ?q \<noteq> []" ?near "pause_queue ?q = []"
    | (killed) "resume_queue ?q \<noteq> []" "\<not> ?near" by blast
  then show ?thesis
  proof cases
    case lone
    let ?b = "\<lparr>tb_app = p, tb_resume = None, tb_pause = None, tb_stop = Some ts,
      tb_resume_inference = ResumeObserved, tb_pause_inference = PauseUnobserved,
      tb_end_inference = ObservedStop, tb_next = None\<rparr>"
    have "handled ts (Some ?b) ?st (put_queues p
        (?q\<lparr>stop_queue := stop_queue ?q @ [length (arena ?st)]\<rparr>) (link_block ?b ?st))"
      by (rule handled_new [OF inv q]) (simp_all add: block_times_def closed_block_def)
    then show ?thesis
      by (intro lift exI [of _ "Some ?b"]) (simp add: on_stop_def Let_def lone)
  next
    case paused
    let ?c = "last (pause_queue ?q)"
    obtain rest bs out where drain: "drain_until (mark_unobserved NextBlockStoppedInference) ?c
        (pause_queue ?q) ((arena ?st)[?c := set_stop ts ObservedStop (arena ?st ! ?c)]) (stop_queue ?q)
        = (rest, bs, out)" using prod_cases3 by blast
    have "on_stop prox ts p st = put_queues p (?q\<lparr>pause_queue := rest, stop_queue := out @ [?c]\<rparr>)
        (?st\<lparr>arena := bs, last_stop_block := Some ?c\<rparr>)"
      using paused drain by (simp add: on_stop_def Let_def modify_block_def stop_update_commute)
    then show ?thesis using stop_paused_handled [OF inv q paused(2) refl drain]
      by (intro lift exI [of _ None]) simp
  next
    case near_pause
    let ?c = "last (pause_queue ?q)"
    let ?q' = "?q\<lparr>pause_queue := butlast (pause_queue ?q), stop_queue := stop_queue ?q @ [?c]\<rparr>"
    have split: "pause_queue ?q = butlast (pause_queue ?q) @ [?c]" using near_pause(3) by simp
    then have dist: "distinct (butlast (pause_queue ?q) @ [?c])" using mem(9) by metis
    have "mset (pause_queue ?q) = add_mset ?c (mset (butlast (pause_queue ?q)))"
      by (subst split) simp
    then have same: "mset (queue_indexes ?q') = mset (queue_indexes ?q)"
      by (simp add: queue_indexes_def)
    have c: "?c \<in> set (pause_queue ?q)" using near_pause(3) by simp
    have "handled ts None ?st (put_queues p ?q'
        (?st\<lparr>arena := (arena ?st)[?c := set_stop ts ObservedStop (arena ?st ! ?c)],
             last_stop_block := Some ?c\<rparr>))"
      by (rule close_one_handled [OF inv q _ same])
        (use c mem(10) dist in \<open>auto simp: queue_indexes_def dest: in_set_butlastD\<close>)
    moreover have "on_stop prox ts p st = put_queues p ?q'
        (?st\<lparr>arena := (arena ?st)[?c := set_stop ts ObservedStop (arena ?st ! ?c)],
             last_stop_block := Some ?c\<rparr>)"
      using near_pause by (simp add: on_stop_def Let_def modify_block_def)
    ultimately show ?thesis by (intro lift exI [of _ None]) simp
  next
    case near_resume
    obtain c rest where c: "resume_queue ?q = c # rest"
      using near_resume(1) by (cases "resume_queue ?q") auto
    let ?q' = "?q\<lparr>resume_queue := rest, stop_queue := stop_queue ?q @ [c]\<rparr>"
    have same: "mset (queue_indexes ?q') = mset (queue_indexes ?q)"
      by (simp add: queue_indexes_def c)
    have "handled ts None ?st (put_queues p ?q'
        (?st\<lparr>arena := (arena ?st)[c := set_stop ts ObservedStop (arena ?st ! c)],
             last_stop_block := Some c\<rparr>))"
      by (rule close_one_handled [OF inv q _ same])
        (use c mem(8) near_resume(3) in \<open>auto simp: queue_indexes_def\<close>)
    moreover have "on_stop prox ts p st = put_queues p ?q'
        (?st\<lparr>arena := (arena ?st)[c := set_stop ts ObservedStop (arena ?st ! c)],
             last_stop_block := Some c\<rparr>)"
      using near_resume by (simp add: on_stop_def Let_def modify_block_def c)
    ultimately show ?thesis by (intro lift exI [of _ None]) simp
  next
    case killed
    let ?bs1 = "(arena ?st)[last (resume_queue ?q) :=
        set_stop ts AppKilled (arena ?st ! last (resume_queue ?q))]"
    obtain bs2 out2 where d1: "drain_all (mark_unobserved AppKilled) (pause_queue ?q) ?bs1
        (stop_queue ?q) = (bs2, out2)" by fastforce
    obtain bs3 out3 where d2: "drain_all (\<lambda>b. b\<lparr>tb_end_inference := AppKilled\<rparr>) (resume_queue ?q) bs2 out2
        = (bs3, out3)" by fastforce
    let ?q' = "\<lparr>resume_queue = [], pause_queue = [], stop_queue = out3\<rparr>"
    have out: "on_stop prox ts p st = put_queues p ?q' (?st\<lparr>arena := bs3\<rparr>)"
      using killed d1 d2 by (simp add: on_stop_def Let_def modify_block_def)
    show ?thesis using stop_killed_handled [OF inv q killed(1) d1 d2] out
      by (intro lift exI [of _ None]) simp
  qed
qed

section \<open>Reboot\<close>

lemma handled_None_trans:
  "handled ts None st st' \<Longrightarrow> handled ts None st' st'' \<Longrightarrow> handled ts None st st''"
  by (auto simp: handled_def intro: blocks_updated_trans)

lemma close_package_handled:
  assumes inv: "triplet_inv st" and p: "p \<in> set (package_order st)"
  shows "handled ts None st (close_package p st)"
    "package_order (close_package p st) = package_order st"
proof -
  let ?q = "package_queues_of st p"
  let ?mark = "\<lambda>b. b\<lparr>tb_end_inference := SystemShutDown\<rparr> :: triplet_block"
  have q: "queues st p = Some ?q" using inv p
    by (auto simp: triplet_inv_def package_queues_of_def split: option.split)
  have ok: "queues_ok p ?q (arena st)" by (rule triplet_inv_queues [OF inv q])
  obtain bs2 out2 where d1: "drain_all ?mark (pause_queue ?q) (arena st) (stop_queue ?q) = (bs2, out2)"
    by fastforce
  obtain bs3 out3 where d2: "drain_all ?mark (resume_queue ?q) bs2 out2 = (bs3, out3)" by fastforce
  have closed: "closed_block (?mark b)" for b by (simp add: closed_block_def anomalous_end_def)
  note d = drain_package [OF ok blocks_updated_refl [of ts] _ _ _ _ _ d1 d2]
  have def_eq: "close_package p st
      = put_queues p \<lparr>resume_queue = [], pause_queue = [], stop_queue = out3\<rparr> (st\<lparr>arena := bs3\<rparr>)"
    by (simp add: close_package_def Let_def d1 d2)
  show "package_order (close_package p st) = package_order st" by (simp add: def_eq put_queues_def)
  show "handled ts None st (close_package p st)"
    using handled_update [OF inv q d(1) d(3) d(2), of "last_stop_block st"] closed
      queues_ok_mem(4) [OF ok] mark_okI by (simp add: def_eq)
qed

lemma close_packages_handled:
  "triplet_inv st \<Longrightarrow> set ps \<subseteq> set (package_order st) \<Longrightarrow> handled ts None st (fold close_package ps st)"
proof (induction ps arbitrary: st)
  case Nil
  then show ?case by (simp add: handled_def)
next
  case (Cons p ps)
  then have p: "p \<in> set (package_order st)" by simp
  note c = close_package_handled [OF Cons.prems(1) p]
  have "triplet_inv (close_package p st)" using c(1) by (simp add: handled_def)
  then have "handled ts None (close_package p st) (fold close_package ps (close_package p st))"
    using Cons.IH Cons.prems(2) c(2) by simp
  then show ?case using c(1) handled_None_trans by fastforce
qed

text \<open>The last stopped block always carries its stop, so a reboot never dates it again.\<close>

lemma reboot_keeps_last_stop:
  "triplet_inv st \<Longrightarrow> on_reboot ts st = fold close_package (package_order st) st"
  by (auto simp: on_reboot_def triplet_inv_def split: option.split)

lemma on_reboot_handled: "triplet_inv st \<Longrightarrow> handled ts None st (on_reboot ts st)"
  by (simp add: reboot_keeps_last_stop close_packages_handled)

section \<open>One event, and a run\<close>

lemma triplet_step_handled:
  assumes "triplet_inv st"
  shows "\<exists>new. handled (ev_timestamp_ns e) new st (triplet_step prox (e, s) st)
    \<and> (if s = ActivityResumed
        then \<exists>b. new = Some b \<and> tb_app b = ev_package e \<and> tb_resume b = Some (ev_timestamp_ns e)
        else \<forall>b. new = Some b \<longrightarrow> tb_resume b = None)"
proof -
  consider "s = ActivityResumed" | "s = ActivityPaused" | "s = ActivityStopped"
    | "s \<notin> {ActivityResumed, ActivityPaused, ActivityStopped}" by blast
  then show ?thesis
  proof cases
    case 1
    then show ?thesis using on_resume_handled [OF assms] by (simp add: triplet_step_def Let_def) metis
  next
    case 2
    then show ?thesis using on_pause_handled [OF assms] by (simp add: triplet_step_def Let_def)
  next
    case 3
    then show ?thesis using on_stop_handled [OF assms] by (simp add: triplet_step_def Let_def)
  next
    case 4
    have "handled ts None st st" for ts using assms by (simp add: handled_def)
    with 4 show ?thesis using on_reboot_handled [OF assms]
      by (intro exI [of _ None]) (simp add: triplet_step_def Let_def)
  qed
qed

text \<open>The openings: package and resume time of every block that has one, in creation order.\<close>

definition openings :: "triplet_block list \<Rightarrow> (string \<times> int) list" where
  "openings bs = List.map_filter (\<lambda>b. map_option (Pair (tb_app b)) (tb_resume b)) bs"

definition resume_events :: "(eyes_event \<times> eyes_signal) list \<Rightarrow> (string \<times> int) list" where
  "resume_events evs =
     List.map_filter (\<lambda>(e, s). if s = ActivityResumed then Some (ev_package e, ev_timestamp_ns e) else None) evs"

lemma openings_cong:
  assumes "length bs' = length bs" "\<And>i. i < length bs \<Longrightarrow>
    tb_app (bs' ! i) = tb_app (bs ! i) \<and> tb_resume (bs' ! i) = tb_resume (bs ! i)"
  shows "openings bs' = openings bs"
proof -
  let ?f = "\<lambda>b. map_option (Pair (tb_app b)) (tb_resume b)"
  have m: "map ?f bs' = map ?f bs" using assms by (intro nth_equalityI) auto
  have e: "List.map_filter ?f xs = List.map_filter id (map ?f xs)" for xs
    by (induction xs) (auto simp: List.map_filter_def)
  show ?thesis unfolding openings_def by (simp only: e m)
qed

lemma handled_openings:
  assumes "handled ts new st st'"
  shows "openings (arena st') = openings (arena st)
    @ (case new of None \<Rightarrow> [] | Some b \<Rightarrow> openings [b])"
proof (cases new)
  case None
  then show ?thesis using assms
    by (simp add: handled_def) (rule openings_cong, auto simp: blocks_updated_def same_opening_def)
next
  case (Some b)
  moreover have "openings (link_last (arena st)) = openings (arena st)"
    by (rule openings_cong) (simp_all add: link_last_fields)
  ultimately show ?thesis using assms by (simp add: handled_def openings_def)
qed

lemma handled_times:
  assumes h: "handled ts new st st'" and known: "known_times T (arena st)" "\<forall>t \<in> T. t \<le> ts"
    and ok: "times_ok (arena st)"
  shows "known_times (insert ts T) (arena st')" "times_ok (arena st')"
proof -
  let ?bs = "arena st" and ?bs' = "arena st'"
  have grow: "length ?bs \<le> length ?bs' \<and> length ?bs' \<le> Suc (length ?bs)"
    using h by (auto simp: handled_def blocks_updated_def split: option.splits)
  have old: "tb_resume (?bs' ! i) = tb_resume (?bs ! i)
      \<and> block_times (?bs' ! i) \<subseteq> insert ts (block_times (?bs ! i))" if "i < length ?bs" for i
  proof (cases new)
    case None
    then show ?thesis using h that by (simp add: handled_def blocks_updated_def same_opening_def)
  next
    case (Some b)
    then have "?bs' ! i = link_last ?bs ! i" using h that by (simp add: handled_def nth_append)
    then show ?thesis using that by (auto simp: link_last_fields block_times_def)
  qed
  have new: "block_times (?bs' ! i) \<subseteq> {ts}" if "\<not> i < length ?bs" "i < length ?bs'" for i
  proof (cases new)
    case None
    then show ?thesis using h that by (simp add: handled_def blocks_updated_def)
  next
    case (Some b)
    then have "?bs' ! i = b" "block_times b \<subseteq> {ts}"
      using h that by (simp_all add: handled_def nth_append less_Suc_eq)
    then show ?thesis by simp
  qed
  have T: "block_times (?bs ! i) \<subseteq> T" if "i < length ?bs" for i
    using known(1) that by (auto simp: known_times_def)
  have all: "block_times (?bs' ! i) \<subseteq> insert ts T" if "i < length ?bs'" for i
    using old [of i] new [of i] T [of i] that by (cases "i < length ?bs") auto
  then show "known_times (insert ts T) ?bs'" by (simp add: known_times_def) (metis all in_set_conv_nth)
  show "times_ok ?bs'"
    unfolding times_ok_def
  proof (intro allI impI ballI)
    fix i j r t
    assume i: "i \<le> j" "j < length ?bs'" and r: "tb_resume (?bs' ! i) = Some r"
      and t: "t \<in> block_times (?bs' ! j)"
    have r_time: "r \<in> block_times (?bs' ! i)" using r by (simp add: block_times_def)
    then have "r \<in> insert ts T" using all [of i] i by (meson le_less_trans subsetD)
    then have "r \<le> ts" using known(2) by auto
    show "r \<le> t"
    proof (cases "j < length ?bs \<and> t \<noteq> ts")
      case True
      then have "t \<in> block_times (?bs ! j)" "tb_resume (?bs ! i) = Some r"
        using old i r t by (blast, metis le_less_trans)
      then show ?thesis using ok i(1) True by (auto simp: times_ok_def)
    next
      case False
      then show ?thesis using new [of j] i(2) t \<open>r \<le> ts\<close> by auto
    qed
  qed
qed

lemma run_triplets_snoc:
  "run_triplets prox (evs @ [x]) = triplet_step prox x (run_triplets prox evs)"
  by (simp add: run_triplets_def)

lemma run_triplets_inv:
  "triplet_inv (run_triplets prox evs) \<and> openings (arena (run_triplets prox evs)) = resume_events evs"
proof (induction evs rule: rev_induct)
  case Nil
  show ?case
    by (simp add: run_triplets_def initial_triplets_inv openings_def resume_events_def List.map_filter_def)
      (simp add: initial_triplets_def)
next
  case (snoc x evs)
  obtain e s where x: "x = (e, s)" by (cases x)
  obtain new where h: "handled (ev_timestamp_ns e) new (run_triplets prox evs)
      (triplet_step prox (e, s) (run_triplets prox evs))"
    and new: "if s = ActivityResumed
        then \<exists>b. new = Some b \<and> tb_app b = ev_package e \<and> tb_resume b = Some (ev_timestamp_ns e)
        else \<forall>b. new = Some b \<longrightarrow> tb_resume b = None"
    using triplet_step_handled [of "run_triplets prox evs" e prox s] snoc by blast
  have "(case new of None \<Rightarrow> [] | Some b \<Rightarrow> openings [b]) = resume_events [(e, s)]"
    using new by (auto simp: openings_def resume_events_def map_filter_single split: if_splits option.splits)
  then show ?case
    using handled_openings [OF h] h snoc
    by (simp add: run_triplets_snoc x handled_def resume_events_def)
qed

lemma run_triplets_times:
  assumes "sorted (map (\<lambda>x. ev_timestamp_ns (fst x)) evs)"
  shows "known_times (set (map (\<lambda>x. ev_timestamp_ns (fst x)) evs)) (arena (run_triplets prox evs))
    \<and> times_ok (arena (run_triplets prox evs))"
  using assms
proof (induction evs rule: rev_induct)
  case Nil
  show ?case by (simp add: run_triplets_def initial_triplets_def known_times_def times_ok_def)
next
  case (snoc x evs)
  obtain e s where x: "x = (e, s)" by (cases x)
  obtain new where h: "handled (ev_timestamp_ns e) new (run_triplets prox evs)
      (triplet_step prox (e, s) (run_triplets prox evs))"
    using triplet_step_handled [of "run_triplets prox evs" e prox s] run_triplets_inv by blast
  have le: "\<forall>t \<in> set (map (\<lambda>x. ev_timestamp_ns (fst x)) evs). t \<le> ev_timestamp_ns e"
    using snoc.prems by (auto simp: sorted_append x)
  have IH: "known_times (set (map (\<lambda>x. ev_timestamp_ns (fst x)) evs)) (arena (run_triplets prox evs))
    \<and> times_ok (arena (run_triplets prox evs))" using snoc by (simp add: sorted_append)
  show ?case
    using handled_times [OF h conjunct1 [OF IH] le conjunct2 [OF IH]]
    by (simp add: run_triplets_snoc x)
qed

end
