(* ===== verification/Eyes_Episodes.thy ===== *)
theory Eyes_Episodes
  imports Eyes_Triplet_Handlers
begin

text \<open>
  The emission of the reconstructed episodes: every block is emitted once, the walk along \<open>next\<close> ends
  at the first later block with a stop or of another package, and the duration written with an
  episode is the one a reader recomputes from its endpoints (\<open>expected_episode_duration_seconds\<close>).
\<close>

section \<open>Recomputing a duration\<close>

definition duration_to :: "int \<Rightarrow> int \<Rightarrow> string + rat" where
  "duration_to resume end_time =
     (let delta = end_time - resume
      in if delta < 0 \<or> i64_max < delta
         then Inl ''eyes_tagged_fau_validation_error:negative_episode_duration''
         else Inr (f64_div (round_f64 (of_int delta)) 1000000000))"

definition duration_to_opt :: "int \<Rightarrow> int option \<Rightarrow> string + rat" where
  "duration_to_opt resume t = (case t of None \<Rightarrow> Inr 0 | Some end_time \<Rightarrow> duration_to resume end_time)"

definition expected_episode_duration_seconds ::
    "eyes_app_episode \<Rightarrow> eyes_duration_mode \<Rightarrow> string + rat" where
  "expected_episode_duration_seconds ep mode =
     (case ep_resume ep of
        None \<Rightarrow> Inr 0
      | Some resume \<Rightarrow>
          (case mode of
             PauseBound \<Rightarrow> duration_to_opt resume (ep_pause ep)
           | TripletStructured \<Rightarrow>
               (case ep_end_inference ep of
                  ObservedStop \<Rightarrow> duration_to_opt resume (ep_stop ep)
                | NextBlockStoppedInference \<Rightarrow> duration_to_opt resume (ep_stop ep)
                | MissingStop \<Rightarrow> duration_to_opt resume (ep_stop ep)
                | AppKilled \<Rightarrow> duration_to_opt resume (ep_stop ep)
                | SystemShutDown \<Rightarrow> duration_to_opt resume (ep_stop ep)
                | PauseFallback \<Rightarrow> duration_to_opt resume (ep_pause ep)
                | EndUnobserved \<Rightarrow> Inr 0)))"

lemma duration_to_opt_None [simp]: "duration_to_opt r None = Inr 0"
  by (simp add: duration_to_opt_def)

lemma duration_to_opt_Some:
  assumes "r \<le> t" "epoch_ns r" "epoch_ns t"
  shows "duration_to_opt r (Some t) = Inr (seconds_between r t)" "0 \<le> seconds_between r t"
  using assms epoch_diff [OF assms(2,3)]
  by (auto simp: duration_to_opt_def duration_to_def seconds_between_def i64_as_f64_def
      in_i64_def Let_def f64_div_def round_f64_nonneg)

section \<open>The emission order\<close>

lemma distinct_concat_map:
  assumes "distinct ps" "\<And>p. p \<in> set ps \<Longrightarrow> distinct (f p)"
    "\<And>p p'. p \<in> set ps \<Longrightarrow> p' \<in> set ps \<Longrightarrow> p \<noteq> p' \<Longrightarrow> set (f p) \<inter> set (f p') = {}"
  shows "distinct (concat (map f ps))"
  using assms by (induction ps) fastforce+

lemma emission_order_mset:
  "mset (emission_order st)
    = mset (concat (map (\<lambda>p. queue_indexes (package_queues_of st p)) (package_order st)))"
proof -
  have "mset (concat (map f ps)) + mset (concat (map g ps)) + mset (concat (map h ps))
      = mset (concat (map (\<lambda>p. f p @ g p @ h p) ps))" for f g h :: "string \<Rightarrow> nat list" and ps
    by (induction ps) (simp_all add: ac_simps)
  from this [symmetric] show ?thesis
    by (simp add: emission_order_def queue_indexes_def ac_simps)
qed

lemma emission_order_all:
  assumes inv: "triplet_inv st"
  shows "mset (emission_order st) = mset [0..<length (arena st)]"
proof -
  let ?f = "\<lambda>p. queue_indexes (package_queues_of st p)"
  have q: "queues st p = Some (package_queues_of st p)" if "p \<in> set (package_order st)" for p
    using inv that by (auto simp: triplet_inv_def package_queues_of_def split: option.split)
  have ok: "queues_ok p (package_queues_of st p) (arena st)" if "p \<in> set (package_order st)" for p
    using triplet_inv_queues [OF inv q [OF that]] .
  have "distinct (concat (map ?f (package_order st)))"
  proof (rule distinct_concat_map)
    show "distinct (package_order st)" using inv by (simp add: triplet_inv_def)
  next
    fix p p'
    assume "p \<in> set (package_order st)" "p' \<in> set (package_order st)" "p \<noteq> p'"
    then show "set (?f p) \<inter> set (?f p') = {}"
      using ok [of p] ok [of p'] by (auto simp: queues_ok_def)
  qed (use ok in \<open>auto simp: queues_ok_def\<close>)
  moreover have "set (concat (map ?f (package_order st))) = {0..<length (arena st)}"
  proof (intro equalityI subsetI)
    fix i
    assume "i \<in> set (concat (map ?f (package_order st)))"
    then show "i \<in> {0..<length (arena st)}" using ok by (auto simp: queues_ok_def)
  next
    fix i
    assume "i \<in> {0..<length (arena st)}"
    then obtain q where "queues st (tb_app (arena st ! i)) = Some q" "i \<in> set (queue_indexes q)"
      using inv by (auto simp: triplet_inv_def)
    moreover from this have "tb_app (arena st ! i) \<in> set (package_order st)"
      using inv by (auto simp: triplet_inv_def)
    ultimately show "i \<in> set (concat (map ?f (package_order st)))"
      by (auto simp: package_queues_of_def intro!: bexI [of _ "tb_app (arena st ! i)"])
  qed
  ultimately have "mset (concat (map ?f (package_order st))) = mset [0..<length (arena st)]"
    by (metis distinct_upt set_eq_iff_mset_eq_distinct set_upt)
  then show ?thesis by (simp add: emission_order_mset)
qed

lemma emission_order_status:
  assumes inv: "triplet_inv st" and i: "i \<in> set (emission_order st)"
  shows "i < length (arena st) \<and> (open_block (arena st ! i) \<or> closed_block (arena st ! i))"
proof -
  have range: "i < length (arena st)"
    using mset_eq_setD [OF emission_order_all [OF inv]] i by auto
  then obtain q where q: "queues st (tb_app (arena st ! i)) = Some q" "i \<in> set (queue_indexes q)"
    using inv by (auto simp: triplet_inv_def)
  note mem = queues_ok_mem [OF triplet_inv_queues [OF inv q(1)]]
  have "open_block (arena st ! i) \<or> closed_block (arena st ! i)"
    using q(2) mem(1) [of i] mem(3) [of i] mem(4) [of i] unfolding queue_indexes_def set_append by blast
  with range show ?thesis by simp
qed

section \<open>The walk along \<open>next\<close>\<close>

definition repair_candidate :: "triplet_block list \<Rightarrow> string \<Rightarrow> nat \<Rightarrow> nat option" where
  "repair_candidate bs app k =
     find (\<lambda>j. tb_stop (bs ! j) \<noteq> None \<or> tb_app (bs ! j) \<noteq> app) [k..<length bs]"

lemma repair_walk_finds:
  "chain_ok bs \<Longrightarrow>
    repair_walk bs app (if k < length bs then Some k else None) = Some (repair_candidate bs app k)"
proof (induction "length bs - k" arbitrary: k)
  case 0
  then show ?case by (simp add: repair_candidate_def repair_walk.simps)
next
  case (Suc n)
  then have k: "k < length bs" by simp
  then have next_k: "tb_next (bs ! k) = (if Suc k < length bs then Some (Suc k) else None)"
    using Suc.prems by (simp add: chain_ok_def)
  have "n = length bs - Suc k" using Suc.hyps(2) by simp
  from Suc.hyps(1) [OF this Suc.prems]
  have step: "repair_walk bs app (tb_next (bs ! k)) = Some (repair_candidate bs app (Suc k))"
    by (simp only: next_k)
  have "repair_candidate bs app k = (if tb_stop (bs ! k) \<noteq> None \<or> tb_app (bs ! k) \<noteq> app then Some k
      else repair_candidate bs app (Suc k))"
    using k by (simp add: repair_candidate_def upt_conv_Cons)
  then show ?case using k by (subst repair_walk.simps) (simp add: step)
qed

lemma repair_walk_next:
  assumes "chain_ok bs" "i < length bs"
  shows "repair_walk bs app (tb_next (bs ! i)) = Some (repair_candidate bs app (Suc i))"
  using repair_walk_finds [OF assms(1), of app "Suc i"] assms by (simp add: chain_ok_def)

lemma repair_candidate_SomeD:
  "repair_candidate bs app k = Some c \<Longrightarrow>
    k \<le> c \<and> c < length bs \<and> (tb_stop (bs ! c) \<noteq> None \<or> tb_app (bs ! c) \<noteq> app)"
  using find_SomeD [of _ "[k..<length bs]" c] by (auto simp: repair_candidate_def)

section \<open>One emitted block\<close>

definition episode_ok :: "eyes_duration_mode \<Rightarrow> int set \<Rightarrow> eyes_app_episode \<Rightarrow> bool" where
  "episode_ok mode T ep \<longleftrightarrow>
     expected_episode_duration_seconds ep mode = Inr (ep_duration_seconds ep)
     \<and> 0 \<le> ep_duration_seconds ep
     \<and> set_option (ep_resume ep) \<union> set_option (ep_pause ep) \<union> set_option (ep_stop ep) \<subseteq> T
     \<and> (\<forall>r. ep_resume ep = Some r \<longrightarrow>
          (\<forall>t \<in> set_option (ep_pause ep) \<union> set_option (ep_stop ep). r \<le> t))"

definition emission_inv :: "int set \<Rightarrow> triplet_block list \<Rightarrow> bool" where
  "emission_inv T bs \<longleftrightarrow> chain_ok bs \<and> times_ok bs \<and> known_times T bs"

text \<open>Replacing block \<open>i\<close> by one with the same opening and times of later blocks.\<close>

lemma emission_inv_update:
  assumes inv: "emission_inv T bs" and i: "i < length bs" and same: "same_opening (bs ! i) b"
    and times: "\<forall>t \<in> block_times b. t \<in> block_times (bs ! i) \<or> (\<exists>j. i \<le> j \<and> j < length bs \<and> t \<in> block_times (bs ! j))"
  shows "emission_inv T (bs[i := b])"
proof -
  have later: "\<exists>j. i \<le> j \<and> j < length bs \<and> t \<in> block_times (bs ! j)" if "t \<in> block_times b" for t
    using times i that by blast
  have "chain_ok (bs[i := b])"
    using inv i same by (auto simp: emission_inv_def chain_ok_def same_opening_def nth_list_update)
  moreover have "known_times T (bs[i := b])"
  proof -
    have "block_times b \<subseteq> T"
    proof
      fix t
      assume "t \<in> block_times b"
      then obtain j where "j < length bs" "t \<in> block_times (bs ! j)" using later by blast
      then show "t \<in> T" using inv by (auto simp: emission_inv_def known_times_def)
    qed
    then show ?thesis
      using inv set_update_subset_insert [of bs i b]
      by (auto simp: emission_inv_def known_times_def)
  qed
  moreover have "times_ok (bs[i := b])"
    unfolding times_ok_def length_list_update
  proof (intro allI impI ballI)
    fix k j r t
    assume kj: "k \<le> j" "j < length bs" and r: "tb_resume (bs[i := b] ! k) = Some r"
      and t: "t \<in> block_times (bs[i := b] ! j)"
    have r': "tb_resume (bs ! k) = Some r"
      using r same i by (cases "k = i") (auto simp: same_opening_def)
    obtain j' where "j \<le> j'" "j' < length bs" "t \<in> block_times (bs ! j')"
      using t later kj i by (cases "j = i") auto
    then show "r \<le> t" using inv r' kj(1) unfolding emission_inv_def times_ok_def
      by (meson le_trans)
  qed
  ultimately show ?thesis by (simp add: emission_inv_def)
qed

text \<open>What emitting block \<open>i\<close> leaves behind.\<close>

definition resolved ::
    "eyes_duration_mode \<Rightarrow> int set \<Rightarrow> triplet_block list \<Rightarrow> nat \<Rightarrow> triplet_block \<Rightarrow> rat \<Rightarrow> bool" where
  "resolved mode T bs i b d \<longleftrightarrow>
     emission_inv T (bs[i := b]) \<and> same_opening (bs ! i) b \<and> episode_ok mode T (episode_of b d)"

lemma resolvedI:
  assumes inv: "emission_inv T bs" and i: "i < length bs" and same: "same_opening (bs ! i) b"
    and times: "\<forall>t \<in> block_times b. t \<in> block_times (bs ! i) \<or> (\<exists>j. i \<le> j \<and> j < length bs \<and> t \<in> block_times (bs ! j))"
    and d: "expected_episode_duration_seconds (episode_of b d) mode = Inr d" "0 \<le> d"
  shows "resolved mode T bs i b d"
proof -
  note upd = emission_inv_update [OF inv i same times]
  have "b \<in> set (bs[i := b])" using i by (simp add: set_update_memI)
  then have "block_times b \<subseteq> T" using upd by (auto simp: emission_inv_def known_times_def)
  moreover have "\<forall>r. tb_resume b = Some r \<longrightarrow> (\<forall>t \<in> block_times b. r \<le> t)"
    using upd i by (auto simp: emission_inv_def times_ok_def dest!: spec [of _ i])
  ultimately have "episode_ok mode T (episode_of b d)"
    using d by (auto simp: episode_ok_def episode_of_def block_times_def)
  then show ?thesis using upd same by (simp add: resolved_def)
qed

lemma block_times_update [simp]:
  "block_times (b\<lparr>tb_end_inference := e\<rparr>) = block_times b"
  by (simp add: block_times_def)

lemma same_opening_update [simp]:
  "same_opening b (b\<lparr>tb_end_inference := e\<rparr>)" "same_opening b (b\<lparr>tb_stop := s, tb_end_inference := e\<rparr>)"
  by (simp_all add: same_opening_def)

lemma emission_epoch:
  assumes "emission_inv T bs" "\<forall>t \<in> T. epoch_ns t" "t \<in> block_times (bs ! j)" "j < length bs"
  shows "epoch_ns t"
proof -
  have "bs ! j \<in> set bs" using assms(4) by simp
  then have "block_times (bs ! j) \<subseteq> T" using assms(1) unfolding emission_inv_def known_times_def by blast
  then show ?thesis using assms(2,3) by blast
qed

lemma resolve_repaired:
  assumes inv: "emission_inv T bs" and epoch: "\<forall>t \<in> T. epoch_ns t" and i: "i < length bs"
    and r: "tb_resume (bs ! i) = Some r" and mode: "mode = TripletStructured"
    and anom: "anomalous_end (tb_end_inference (bs ! i))" and stop: "tb_stop (bs ! i) = None"
  shows "\<exists>b d. resolve_duration mode bs i = Some (bs[i := b], d) \<and> resolved mode T bs i b d"
proof -
  let ?b = "bs ! i"
  have chain: "chain_ok bs" using inv by (simp add: emission_inv_def)
  have ep: "epoch_ns t" if "t \<in> block_times (bs ! j)" "j < length bs" for t j
    using emission_epoch [OF inv epoch that] .
  have later: "r \<le> t" if "t \<in> block_times (bs ! j)" "i \<le> j" "j < length bs" for t j
    using inv r that by (auto simp: emission_inv_def times_ok_def)
  have er: "epoch_ns r" by (rule ep [OF _ i]) (simp add: block_times_def r)
  have unstopped: "\<not> (tb_end_inference ?b = ObservedStop \<and> tb_stop ?b \<noteq> None)" using stop by simp
  note unfold = resolve_duration_def Let_def r mode stop anom repair_walk_next [OF chain i]
  show ?thesis
  proof (cases "repair_candidate bs (tb_app ?b) (Suc i)")
    case None
    show ?thesis
    proof (cases "tb_pause ?b")
      case None': None
      have "resolved mode T bs i ?b 0"
        by (rule resolvedI [OF inv i])
          (use anom in \<open>auto simp: expected_episode_duration_seconds_def episode_of_def r mode stop
             anomalous_end_def split: eyes_end_inference.splits\<close>)
      then show ?thesis
        by (intro exI [of _ ?b] exI [of _ 0]) (simp add: unfold None None')
    next
      case (Some p)
      have p: "p \<in> block_times ?b" by (simp add: block_times_def Some)
      note d = duration_to_opt_Some [OF later [OF p order_refl i] er ep [OF p i]]
      let ?b' = "?b\<lparr>tb_end_inference := PauseFallback\<rparr>"
      have "resolved mode T bs i ?b' (seconds_between r p)"
        by (rule resolvedI [OF inv i])
          (simp_all add: expected_episode_duration_seconds_def episode_of_def r mode Some d)
      then show ?thesis
        by (intro exI [of _ ?b'] exI [of _ "seconds_between r p"]) (simp add: unfold None Some)
    qed
  next
    case (Some c)
    then have c: "Suc i \<le> c" "c < length bs" by (auto dest: repair_candidate_SomeD)
    let ?t = "if tb_app (bs ! c) = tb_app ?b then tb_stop (bs ! c) else tb_resume (bs ! c)"
    let ?e = "if tb_app (bs ! c) = tb_app ?b then NextBlockStoppedInference else MissingStop"
    let ?b' = "?b\<lparr>tb_stop := ?t, tb_end_inference := ?e\<rparr>"
    let ?d = "case ?t of None \<Rightarrow> 0 | Some t \<Rightarrow> seconds_between r t"
    have t: "t \<in> block_times (bs ! c)" if "?t = Some t" for t
      using that by (auto simp: block_times_def split: if_splits)
    have d: "duration_to_opt r ?t = Inr ?d \<and> 0 \<le> ?d"
    proof (cases ?t)
      case (Some t')
      have le: "i \<le> c" using c(1) by simp
      show ?thesis
        using duration_to_opt_Some [OF later [OF t [OF Some] le c(2)] er ep [OF t [OF Some] c(2)]]
        unfolding Some by simp
    qed simp
    have "resolved mode T bs i ?b' ?d"
    proof (rule resolvedI [OF inv i])
      show "\<forall>t \<in> block_times ?b'. t \<in> block_times ?b \<or> (\<exists>j. i \<le> j \<and> j < length bs \<and> t \<in> block_times (bs ! j))"
        using c by (auto simp: block_times_def split: if_splits intro!: exI [of _ c])
    qed (use d in \<open>auto simp: expected_episode_duration_seconds_def episode_of_def r mode\<close>)
    then show ?thesis
      by (intro exI [of _ ?b'] exI [of _ ?d]) (auto simp: unfold Some)
  qed
qed

lemma resolve_duration_resolved:
  assumes inv: "emission_inv T bs" and epoch: "\<forall>t \<in> T. epoch_ns t" and i: "i < length bs"
    and status: "open_block (bs ! i) \<or> closed_block (bs ! i)"
  shows "\<exists>b d. resolve_duration mode bs i = Some (bs[i := b], d) \<and> resolved mode T bs i b d"
proof -
  let ?b = "bs ! i"
  have ep: "epoch_ns t" if "t \<in> block_times ?b" for t
    using emission_epoch [OF inv epoch that i] .
  have keep: "resolve_duration mode bs i = Some (bs, d) \<Longrightarrow>
      expected_episode_duration_seconds (episode_of ?b d) mode = Inr d \<Longrightarrow> 0 \<le> d \<Longrightarrow> ?thesis" for d
    using resolvedI [OF inv i, of ?b d mode] by (intro exI [of _ ?b] exI [of _ d]) simp
  show ?thesis
  proof (cases "tb_resume ?b")
    case None
    then show ?thesis
      by (intro keep [of 0]) (simp_all add: resolve_duration_def Let_def expected_episode_duration_seconds_def episode_of_def)
  next
    case (Some r)
    have er: "epoch_ns r" by (rule ep) (simp add: block_times_def Some)
    have dur: "duration_to_opt r (Some t) = Inr (seconds_between r t) \<and> 0 \<le> seconds_between r t"
      if "t \<in> block_times ?b" for t
    proof -
      have "r \<le> t" using inv Some i that by (auto simp: emission_inv_def times_ok_def)
      then show ?thesis using duration_to_opt_Some er ep [OF that] by blast
    qed
    consider (bound) "mode = PauseBound"
      | (observed) "mode = TripletStructured" "tb_end_inference ?b = ObservedStop" "tb_stop ?b \<noteq> None"
      | (dated) "mode = TripletStructured" "anomalous_end (tb_end_inference ?b)" "tb_stop ?b \<noteq> None"
      | (repair) "mode = TripletStructured" "anomalous_end (tb_end_inference ?b)" "tb_stop ?b = None"
      | (never) "mode = TripletStructured" "open_block ?b"
      using status by (cases mode) (auto simp: closed_block_def)
    then show ?thesis
    proof cases
      case bound
      let ?d = "case tb_pause ?b of None \<Rightarrow> 0 | Some p \<Rightarrow> seconds_between r p"
      have "duration_to_opt r (tb_pause ?b) = Inr ?d \<and> 0 \<le> ?d"
        using dur by (cases "tb_pause ?b") (simp_all add: block_times_def)
      then show ?thesis using bound
        by (intro keep [of ?d])
          (simp_all add: resolve_duration_def Let_def Some expected_episode_duration_seconds_def episode_of_def)
    next
      case observed
      then obtain t where t: "tb_stop ?b = Some t" by blast
      then show ?thesis using observed dur [of t]
        by (intro keep [of "seconds_between r t"])
          (simp_all add: resolve_duration_def Let_def Some block_times_def
            expected_episode_duration_seconds_def episode_of_def)
    next
      case dated
      then obtain t where t: "tb_stop ?b = Some t" by blast
      then show ?thesis using dated dur [of t]
        by (intro keep [of "seconds_between r t"])
          (auto simp: resolve_duration_def Let_def Some block_times_def anomalous_end_def
            expected_episode_duration_seconds_def episode_of_def split: eyes_end_inference.splits)
    next
      case repair
      then show ?thesis using resolve_repaired [OF inv epoch i Some] by blast
    next
      case never
      then have res: "resolve_duration mode bs i =
          (case tb_pause ?b of Some p \<Rightarrow> Some (bs[i := ?b\<lparr>tb_end_inference := PauseFallback\<rparr>], seconds_between r p)
           | None \<Rightarrow> Some (bs, 0))"
        by (simp add: resolve_duration_def Let_def Some open_block_def anomalous_end_def)
      show ?thesis
      proof (cases "tb_pause ?b")
        case None
        then show ?thesis using never res
          by (intro keep [of 0]) (simp_all add: expected_episode_duration_seconds_def episode_of_def Some open_block_def)
      next
        case p: (Some p)
        have "p \<in> block_times ?b" by (simp add: block_times_def p)
        then have "resolved mode T bs i (?b\<lparr>tb_end_inference := PauseFallback\<rparr>) (seconds_between r p)"
          using dur [of p] never
          by (intro resolvedI [OF inv i]) (simp_all add: expected_episode_duration_seconds_def episode_of_def Some p)
        then show ?thesis using res p by auto
      qed
    qed
  qed
qed

section \<open>The episodes\<close>

lemma emit_episodes_ok:
  assumes "emission_inv T bs" "\<forall>t \<in> T. epoch_ns t" "distinct is"
    "\<forall>i \<in> set is. i < length bs \<and> (open_block (bs ! i) \<or> closed_block (bs ! i))"
  shows "\<exists>eps. emit_episodes mode is bs = Some eps
    \<and> map (\<lambda>ep. (ep_package ep, ep_resume ep)) eps = map (\<lambda>i. (tb_app (bs ! i), tb_resume (bs ! i))) is
    \<and> (\<forall>ep \<in> set eps. episode_ok mode T ep)"
  using assms
proof (induction "is" arbitrary: bs)
  case Nil
  then show ?case by simp
next
  case (Cons i js)
  obtain b d where r: "resolve_duration mode bs i = Some (bs[i := b], d)" "resolved mode T bs i b d"
    using resolve_duration_resolved [OF Cons.prems(1,2), of i mode] Cons.prems(4) by auto
  have i: "i < length bs" using Cons.prems(4) by simp
  have other: "bs[i := b] ! j = bs ! j" if "j \<in> set js" for j
    using that Cons.prems(3) by (metis distinct.simps(2) nth_list_update_neq)
  obtain eps where eps: "emit_episodes mode js (bs[i := b]) = Some eps"
    "map (\<lambda>ep. (ep_package ep, ep_resume ep)) eps
      = map (\<lambda>j. (tb_app (bs[i := b] ! j), tb_resume (bs[i := b] ! j))) js"
    "\<forall>ep \<in> set eps. episode_ok mode T ep"
    using Cons.IH [of "bs[i := b]"] Cons.prems r(2) other by (auto simp: resolved_def)
  have "map (\<lambda>ep. (ep_package ep, ep_resume ep)) eps = map (\<lambda>j. (tb_app (bs ! j), tb_resume (bs ! j))) js"
    using eps(2) other by simp
  then show ?case using r eps(1,3) i by (auto simp: resolved_def same_opening_def episode_of_def)
qed

definition opened_episodes :: "eyes_app_episode list \<Rightarrow> (string \<times> int) list" where
  "opened_episodes eps = List.map_filter (\<lambda>ep. map_option (Pair (ep_package ep)) (ep_resume ep)) eps"

lemma map_filter_pairs:
  "List.map_filter (\<lambda>x. map_option (Pair (f x)) (g x)) xs
    = List.map_filter (\<lambda>(a, r). map_option (Pair a) r) (map (\<lambda>x. (f x, g x)) xs)"
  by (induction xs) (auto simp: List.map_filter_def)

lemma mset_map_filter_cong:
  "mset xs = mset ys \<Longrightarrow> mset (List.map_filter f xs) = mset (List.map_filter f ys)"
  by (simp add: List.map_filter_def mset_map mset_filter)

text \<open>Every episode comes from one block of the arena, in the order of emission.\<close>

lemma reconstruct_emission:
  fixes opts :: eyes_options
  assumes "in_time_order events" "length signals = length events"
  defines "st \<equiv> run_triplets (seconds_to_ns (proximity_interval_seconds opts)) (zip events signals)"
  shows "\<exists>eps. reconstruct_app_triplets events signals opts = Some eps
    \<and> map (\<lambda>ep. (ep_package ep, ep_resume ep)) eps
      = map (\<lambda>i. (tb_app (arena st ! i), tb_resume (arena st ! i))) (emission_order st)
    \<and> (\<forall>ep \<in> set eps. episode_ok (duration_mode opts) (set (map ev_timestamp_ns events)) ep)"
proof -
  let ?T = "set (map ev_timestamp_ns events)"
  have inv: "triplet_inv st" using run_triplets_inv unfolding st_def by blast
  have ts: "map (\<lambda>x. ev_timestamp_ns (fst x)) (zip events signals) = map ev_timestamp_ns events"
    using assms(2) by (metis (mono_tags) comp_apply map_eq_conv map_fst_zip map_map)
  have times: "known_times ?T (arena st) \<and> times_ok (arena st)"
    using run_triplets_times [of "zip events signals"] assms(1)
    unfolding ts in_time_order_def st_def by simp
  have em: "emission_inv ?T (arena st)" using inv times by (simp add: emission_inv_def triplet_inv_def)
  have ep: "\<forall>t \<in> ?T. epoch_ns t" using assms(1) by (auto simp: in_time_order_def)
  have dist: "distinct (emission_order st)"
    using emission_order_all [OF inv] by (metis distinct_upt mset_eq_imp_distinct_iff)
  show ?thesis
    using emit_episodes_ok [OF em ep dist, of "duration_mode opts"] emission_order_status [OF inv]
    by (simp add: reconstruct_app_triplets_def Let_def st_def)
qed

lemma reconstruct_blocks:
  fixes opts :: eyes_options
  assumes "in_time_order events" "length signals = length events"
    and "reconstruct_app_triplets events signals opts = Some eps" "ep \<in> set eps"
  defines "st \<equiv> run_triplets (seconds_to_ns (proximity_interval_seconds opts)) (zip events signals)"
  shows "\<exists>i < length (arena st). ep_package ep = tb_app (arena st ! i)"
proof -
  have inv: "triplet_inv st" using run_triplets_inv unfolding st_def by blast
  have "map (\<lambda>ep. (ep_package ep, ep_resume ep)) eps
      = map (\<lambda>i. (tb_app (arena st ! i), tb_resume (arena st ! i))) (emission_order st)"
    using reconstruct_emission [OF assms(1,2), of opts] assms(3) unfolding st_def by auto
  moreover have "(ep_package ep, ep_resume ep) \<in> set (map (\<lambda>ep. (ep_package ep, ep_resume ep)) eps)"
    using assms(4) by auto
  ultimately obtain i where "i \<in> set (emission_order st)" "ep_package ep = tb_app (arena st ! i)" by auto
  moreover have "set (emission_order st) = set [0..<length (arena st)]"
    using emission_order_all [OF inv] by (metis set_mset_mset)
  ultimately show ?thesis by auto
qed

lemma reconstruct_episodes:
  assumes "in_time_order events" "length signals = length events"
  shows "\<exists>eps. reconstruct_app_triplets events signals opts = Some eps
    \<and> mset (opened_episodes eps) = mset (resume_events (zip events signals))
    \<and> (\<forall>ep \<in> set eps. episode_ok (duration_mode opts) (set (map ev_timestamp_ns events)) ep)"
proof -
  let ?st = "run_triplets (seconds_to_ns (proximity_interval_seconds opts)) (zip events signals)"
  have inv: "triplet_inv ?st" and op: "openings (arena ?st) = resume_events (zip events signals)"
    using run_triplets_inv by blast+
  obtain eps where eps: "reconstruct_app_triplets events signals opts = Some eps"
    "map (\<lambda>ep. (ep_package ep, ep_resume ep)) eps
      = map (\<lambda>i. (tb_app (arena ?st ! i), tb_resume (arena ?st ! i))) (emission_order ?st)"
    "\<forall>ep \<in> set eps. episode_ok (duration_mode opts) (set (map ev_timestamp_ns events)) ep"
    using reconstruct_emission [OF assms, of opts] by blast
  let ?g = "\<lambda>i. (tb_app (arena ?st ! i), tb_resume (arena ?st ! i))"
  have "mset (map ?g (emission_order ?st)) = mset (map ?g [0..<length (arena ?st)])"
    by (simp add: emission_order_all [OF inv])
  also have "map ?g [0..<length (arena ?st)] = map (\<lambda>b. (tb_app b, tb_resume b)) (arena ?st)"
    by (rule nth_equalityI) auto
  finally have "mset (opened_episodes eps) = mset (openings (arena ?st))"
    unfolding opened_episodes_def openings_def map_filter_pairs [of ep_package] map_filter_pairs [of tb_app] eps(2)
    by (rule mset_map_filter_cong)
  then show ?thesis using eps op by simp
qed

end
