(* ===== verification/Eyes_Usage.thy ===== *)
theory Eyes_Usage
  imports Eyes_Episodes Interval_Cut
begin

text \<open>
  From episodes to tagged usage (\<open>merge_app_chunks\<close>, \<open>split_and_tag_app_usage\<close>, \<open>push_fragment\<close> of
  \<open>eyes_complement.rs\<close>): the episodes of a package are merged into disjoint chunks that cover the same
  instants, and every chunk is cut along the device-state timeline into fragments that partition it.
\<close>

section \<open>Merging episodes\<close>

definition effective_end :: "eyes_app_episode \<Rightarrow> int option" where
  "effective_end ep = (case ep_stop ep of None \<Rightarrow> ep_pause ep | Some stop \<Rightarrow> Some stop)"

definition episode_span :: "eyes_app_episode \<Rightarrow> (int \<times> int) option" where
  "episode_span ep =
     (case (ep_resume ep, effective_end ep) of (Some s, Some e) \<Rightarrow> Some (s, e) | _ \<Rightarrow> None)"

definition package_intervals :: "eyes_app_episode list \<Rightarrow> string \<Rightarrow> (int \<times> int \<times> nat) list" where
  "package_intervals eps package =
     List.map_filter
       (\<lambda>(i, ep). if ep_package ep = package
                  then map_option (\<lambda>(s, e). (s, e, i)) (episode_span ep) else None)
       (enumerate 0 eps)"

text \<open>The keys of the \<open>BTreeMap\<close>, in its order.\<close>

definition chunk_packages :: "eyes_app_episode list \<Rightarrow> string list" where
  "chunk_packages eps =
     sort (remdups (List.map_filter
       (\<lambda>ep. map_option (\<lambda>_. ep_package ep) (episode_span ep)) eps))"

definition merge_step ::
    "string \<Rightarrow> int \<times> int \<times> nat \<Rightarrow> eyes_app_usage_chunk list \<times> eyes_app_usage_chunk option
      \<Rightarrow> eyes_app_usage_chunk list \<times> eyes_app_usage_chunk option" where
  "merge_step package = (\<lambda>(start, end_time, episode_index) (chunks, current).
     (let fresh = \<lparr>ck_package = package, ck_start = start, ck_end = end_time,
                   ck_episodes = [episode_index]\<rparr>
      in case current of
           None \<Rightarrow> (chunks, Some fresh)
         | Some chunk \<Rightarrow>
             if start \<le> ck_end chunk
             then (chunks, Some (chunk\<lparr>ck_end := max (ck_end chunk) end_time,
                                       ck_episodes := ck_episodes chunk @ [episode_index]\<rparr>))
             else (chunks @ [chunk], Some fresh)))"

definition merge_intervals :: "string \<Rightarrow> (int \<times> int \<times> nat) list \<Rightarrow> eyes_app_usage_chunk list" where
  "merge_intervals package intervals =
     (case fold (merge_step package) (sort_key (\<lambda>(s, e, _). (s, e)) intervals) ([], None) of
        (chunks, None) \<Rightarrow> chunks
      | (chunks, Some chunk) \<Rightarrow> chunks @ [chunk])"

definition merge_app_chunks :: "eyes_app_episode list \<Rightarrow> eyes_app_usage_chunk list" where
  "merge_app_chunks eps =
     sort_key (\<lambda>c. (ck_start c, ck_package c))
       (concat (map (\<lambda>p. merge_intervals p (package_intervals eps p)) (chunk_packages eps)))"

section \<open>Tagging the chunks\<close>

type_synonym timeline = "(int \<times> int \<times> eyes_block_type) list"

definition push_fragment ::
    "eyes_app_usage_chunk \<Rightarrow> nat \<Rightarrow> int \<Rightarrow> int \<Rightarrow> eyes_block_type \<Rightarrow> eyes_final_app_usage list" where
  "push_fragment chunk chunk_index start end_time status =
     (if start < end_time
      then [\<lparr>fu_package = ck_package chunk, fu_chunk = chunk_index, fu_start = start,
             fu_end = end_time, fu_status = status\<rparr>]
      else [])"

fun tag_chunk ::
    "eyes_app_usage_chunk \<Rightarrow> nat \<Rightarrow> timeline \<Rightarrow> int \<Rightarrow> eyes_final_app_usage list" where
  "tag_chunk chunk chunk_index [] cursor =
     push_fragment chunk chunk_index cursor (ck_end chunk) Active"
| "tag_chunk chunk chunk_index ((block_start, block_end, status) # blocks) cursor =
     (if ck_end chunk \<le> cursor \<or> ck_end chunk \<le> block_start
      then push_fragment chunk chunk_index cursor (ck_end chunk) Active
      else if block_end \<le> cursor then tag_chunk chunk chunk_index blocks cursor
      else
        (let boundary = min block_start (ck_end chunk);
             uncovered = (if cursor < block_start
                          then push_fragment chunk chunk_index cursor boundary Active else []);
             cursor = (if cursor < block_start then boundary else cursor);
             overlap_end = min block_end (ck_end chunk)
         in uncovered @ push_fragment chunk chunk_index cursor overlap_end status
            @ tag_chunk chunk chunk_index blocks (max cursor overlap_end)))"

definition usage_timeline :: "eyes_block list \<Rightarrow> eyes_options \<Rightarrow> timeline" where
  "usage_timeline blocks opts =
     (let minimum_ns = seconds_to_ns (fau_block_minimum_seconds opts)
      in sort (List.map_filter
           (\<lambda>b. case paired b of
                   None \<Rightarrow> None
                 | Some (s, e) \<Rightarrow> if minimum_ns \<le> i64_sub e s then Some (s, e, block_type b) else None)
           blocks))"

definition split_and_tag_app_usage ::
    "eyes_app_usage_chunk list \<Rightarrow> eyes_block list \<Rightarrow> eyes_options \<Rightarrow> eyes_final_app_usage list" where
  "split_and_tag_app_usage chunks blocks opts =
     concat (map (\<lambda>(i, chunk). tag_chunk chunk i (usage_timeline blocks opts) (ck_start chunk))
       (enumerate 0 chunks))"

section \<open>The chunks of one package\<close>

definition in_chunk :: "eyes_app_usage_chunk \<Rightarrow> int \<Rightarrow> bool" where
  "in_chunk c \<tau> \<longleftrightarrow> ck_start c \<le> \<tau> \<and> \<tau> < ck_end c"

abbreviation merged_list where
  "merged_list st \<equiv> fst st @ (case snd st of None \<Rightarrow> [] | Some c \<Rightarrow> [c])"

text \<open>What the chunks are after some of the sorted intervals: separated, covering the same instants,
  each ending where one of its episodes ends, the episodes distributed over them.\<close>

definition merged ::
    "string \<Rightarrow> (int \<times> int \<times> nat) list \<Rightarrow> eyes_app_usage_chunk list \<Rightarrow> bool" where
  "merged package ivs cs \<longleftrightarrow>
     sorted_wrt (\<lambda>c d. ck_end c < ck_start d) cs
     \<and> (\<forall>c \<in> set cs. ck_package c = package \<and> ck_start c \<le> ck_end c
          \<and> (\<exists>(s, e, i) \<in> set ivs. s = ck_start c)
          \<and> (\<exists>(s, e, i) \<in> set ivs. e = ck_end c \<and> i \<in> set (ck_episodes c)))
     \<and> (\<forall>\<tau>. (\<exists>c \<in> set cs. in_chunk c \<tau>) \<longleftrightarrow> (\<exists>(s, e, i) \<in> set ivs. s \<le> \<tau> \<and> \<tau> < e))
     \<and> concat (map ck_episodes cs) = map (\<lambda>(s, e, i). i) ivs"

lemma merge_step_merged:
  assumes m: "merged p ivs (merged_list st)" and cur: "snd st = None \<longleftrightarrow> ivs = []"
    and iv: "\<forall>(s', e', i') \<in> set ivs. s' \<le> s" "s \<le> e"
  shows "merged p (ivs @ [(s, e, i)]) (merged_list (merge_step p (s, e, i) st))"
    "snd (merge_step p (s, e, i) st) \<noteq> None"
proof -
  obtain cs cur where st: "st = (cs, cur)" by (cases st)
  show "snd (merge_step p (s, e, i) st) \<noteq> None"
    by (simp add: merge_step_def st Let_def split: option.split)
  show "merged p (ivs @ [(s, e, i)]) (merged_list (merge_step p (s, e, i) st))"
  proof (cases cur)
    case None
    then have "cs = []" "ivs = []" using m cur by (auto simp: merged_def st)
    then show ?thesis using iv None
      by (auto simp: merged_def merge_step_def st in_chunk_def)
  next
    case (Some c)
    have sep: "sorted_wrt (\<lambda>c d. ck_end c < ck_start d) (cs @ [c])"
      and each: "\<And>d. d \<in> set (cs @ [c]) \<Longrightarrow> ck_package d = p \<and> ck_start d \<le> ck_end d
          \<and> (\<exists>(s, e, i) \<in> set ivs. s = ck_start d)
          \<and> (\<exists>(s, e, i) \<in> set ivs. e = ck_end d \<and> i \<in> set (ck_episodes d))"
      and cov: "\<And>\<tau>. (\<exists>d \<in> set (cs @ [c]). in_chunk d \<tau>) \<longleftrightarrow> (\<exists>(s, e, i) \<in> set ivs. s \<le> \<tau> \<and> \<tau> < e)"
      and idx: "concat (map ck_episodes (cs @ [c])) = map (\<lambda>(s, e, i). i) ivs"
      using m by (auto simp: merged_def st Some)
    have cs_le: "ck_start c \<le> s" using each [of c] iv(1) by fastforce
    show ?thesis
    proof (cases "s \<le> ck_end c")
      case True
      let ?c = "c\<lparr>ck_end := max (ck_end c) e, ck_episodes := ck_episodes c @ [i]\<rparr>"
      have step: "merged_list (merge_step p (s, e, i) st) = cs @ [?c]"
        using True by (simp add: merge_step_def st Some)
      have "sorted_wrt (\<lambda>c d. ck_end c < ck_start d) (cs @ [?c])"
        using sep by (simp add: sorted_wrt_append)
      moreover have "ck_package d = p \<and> ck_start d \<le> ck_end d
          \<and> (\<exists>(s, e, i) \<in> set (ivs @ [(s, e, i)]). s = ck_start d)
          \<and> (\<exists>(s, e, i) \<in> set (ivs @ [(s, e, i)]). e = ck_end d \<and> i \<in> set (ck_episodes d))"
        if "d \<in> set (cs @ [?c])" for d
      proof (cases "d = ?c")
        case True
        then show ?thesis using each [of c] iv(2) by (fastforce simp: max_def)
      next
        case False
        then show ?thesis using that each [of d] by auto
      qed
      moreover have "(\<exists>d \<in> set (cs @ [?c]). in_chunk d \<tau>) \<longleftrightarrow>
          (\<exists>(s, e, i) \<in> set (ivs @ [(s, e, i)]). s \<le> \<tau> \<and> \<tau> < e)" for \<tau>
      proof -
        have "in_chunk ?c \<tau> \<longleftrightarrow> in_chunk c \<tau> \<or> s \<le> \<tau> \<and> \<tau> < e"
          using True cs_le by (auto simp: in_chunk_def)
        then show ?thesis using cov [of \<tau>] by auto
      qed
      ultimately show ?thesis using idx unfolding merged_def step by simp
    next
      case False
      let ?c = "\<lparr>ck_package = p, ck_start = s, ck_end = e, ck_episodes = [i]\<rparr>"
      have step: "merged_list (merge_step p (s, e, i) st) = (cs @ [c]) @ [?c]"
        using False by (simp add: merge_step_def st Some)
      have "\<forall>d \<in> set (cs @ [c]). ck_end d < s"
        using sep False each [of c] by (auto simp: sorted_wrt_append)
      then have A: "sorted_wrt (\<lambda>c d. ck_end c < ck_start d) ((cs @ [c]) @ [?c])"
        using sep by (auto simp: sorted_wrt_append)
      have B: "ck_package d = p \<and> ck_start d \<le> ck_end d
          \<and> (\<exists>(s, e, i) \<in> set (ivs @ [(s, e, i)]). s = ck_start d)
          \<and> (\<exists>(s, e, i) \<in> set (ivs @ [(s, e, i)]). e = ck_end d \<and> i \<in> set (ck_episodes d))"
        if "d \<in> set ((cs @ [c]) @ [?c])" for d
      proof (cases "d = ?c")
        case True
        then show ?thesis using iv(2) by auto
      next
        case False
        then have "d \<in> set (cs @ [c])" using that by (simp only: set_append) auto
        from each [OF this] show ?thesis unfolding set_append by blast
      qed
      have C: "(\<exists>d \<in> set ((cs @ [c]) @ [?c]). in_chunk d \<tau>) \<longleftrightarrow>
          (\<exists>(s, e, i) \<in> set (ivs @ [(s, e, i)]). s \<le> \<tau> \<and> \<tau> < e)" for \<tau>
      proof -
        have l: "(\<exists>d \<in> set ((cs @ [c]) @ [?c]). in_chunk d \<tau>) \<longleftrightarrow>
            (\<exists>d \<in> set (cs @ [c]). in_chunk d \<tau>) \<or> s \<le> \<tau> \<and> \<tau> < e"
          unfolding set_append [of "cs @ [c]"] bex_Un by (simp add: in_chunk_def)
        show ?thesis unfolding l cov set_append [of ivs] bex_Un by simp
      qed
      have D: "concat (map ck_episodes ((cs @ [c]) @ [?c])) = map (\<lambda>(s, e, i). i) (ivs @ [(s, e, i)])"
        using idx by simp
      show ?thesis unfolding merged_def step
        by (intro conjI ballI allI A C D) (use B in blast)+
    qed
  qed
qed

lemma merge_fold_merged:
  assumes "sorted (map (\<lambda>(s, e, i). (s, e)) ivs)" "\<forall>(s, e, i) \<in> set ivs. s \<le> e"
  shows "merged p ivs (merged_list (fold (merge_step p) ivs ([], None)))
    \<and> (snd (fold (merge_step p) ivs ([], None)) = None \<longleftrightarrow> ivs = [])"
  using assms
proof (induction ivs rule: rev_induct)
  case Nil
  show ?case by (simp add: merged_def)
next
  case (snoc x ivs)
  obtain s e i where x: "x = (s, e, i)" by (cases x)
  have "\<forall>y \<in> set (map (\<lambda>(s, e, i). (s, e)) ivs). y \<le> (s, e)"
    using snoc.prems(1) by (simp add: x sorted_append)
  then have "\<forall>(s', e', i') \<in> set ivs. s' \<le> s" by fastforce
  moreover have "sorted (map (\<lambda>(s, e, i). (s, e)) ivs)" "\<forall>(s, e, i) \<in> set ivs. s \<le> e" "s \<le> e"
    using snoc.prems by (auto simp: sorted_append x)
  ultimately show ?case
    using snoc.IH merge_step_merged [of p ivs "fold (merge_step p) ivs ([], None)" s e i]
    by (simp add: x)
qed

lemma merge_intervals_merged:
  assumes "\<forall>(s, e, i) \<in> set ivs. s \<le> e"
  shows "\<exists>ivs'. mset ivs' = mset ivs \<and> merged p ivs' (merge_intervals p ivs)"
proof -
  let ?ivs = "sort_key (\<lambda>(s, e, _). (s, e)) ivs"
  have "merge_intervals p ivs = merged_list (fold (merge_step p) ?ivs ([], None))"
    by (auto simp: merge_intervals_def split: prod.split option.split)
  moreover have "\<forall>(s, e, i) \<in> set ?ivs. s \<le> e" using assms by simp
  ultimately show ?thesis
    using merge_fold_merged [of ?ivs p] by (intro exI [of _ ?ivs]) simp
qed

section \<open>The chunks of all packages\<close>

definition spans_ordered :: "eyes_app_episode list \<Rightarrow> bool" where
  "spans_ordered eps \<longleftrightarrow> (\<forall>ep \<in> set eps. case episode_span ep of None \<Rightarrow> True | Some (s, e) \<Rightarrow> s \<le> e)"

definition used_at :: "eyes_app_episode list \<Rightarrow> string \<Rightarrow> int \<Rightarrow> bool" where
  "used_at eps package \<tau> \<longleftrightarrow>
     (\<exists>ep \<in> set eps. ep_package ep = package
        \<and> (case episode_span ep of None \<Rightarrow> False | Some (s, e) \<Rightarrow> s \<le> \<tau> \<and> \<tau> < e))"

lemma package_intervals_iff:
  "(s, e, i) \<in> set (package_intervals eps p) \<longleftrightarrow>
     i < length eps \<and> ep_package (eps ! i) = p \<and> episode_span (eps ! i) = Some (s, e)"
proof
  assume "(s, e, i) \<in> set (package_intervals eps p)"
  then show "i < length eps \<and> ep_package (eps ! i) = p \<and> episode_span (eps ! i) = Some (s, e)"
    by (auto simp: package_intervals_def in_map_filter in_set_enumerate_eq split: if_splits)
next
  assume "i < length eps \<and> ep_package (eps ! i) = p \<and> episode_span (eps ! i) = Some (s, e)"
  then show "(s, e, i) \<in> set (package_intervals eps p)"
    by (auto simp: package_intervals_def in_map_filter in_set_enumerate_eq
        intro!: bexI [of _ "(i, eps ! i)"])
qed

lemma chunk_packages_iff:
  "p \<in> set (chunk_packages eps) \<longleftrightarrow> (\<exists>ep \<in> set eps. ep_package ep = p \<and> episode_span ep \<noteq> None)"
  by (auto simp: chunk_packages_def in_map_filter)

lemma chunk_packages_distinct: "distinct (chunk_packages eps)"
  by (simp add: chunk_packages_def)

lemma package_chunks:
  assumes "spans_ordered eps"
  shows "\<exists>ivs. mset ivs = mset (package_intervals eps p)
    \<and> merged p ivs (merge_intervals p (package_intervals eps p))"
proof (rule merge_intervals_merged)
  show "\<forall>(s, e, i) \<in> set (package_intervals eps p). s \<le> e"
    using assms by (auto simp: package_intervals_iff spans_ordered_def dest!: bspec [OF _ nth_mem])
qed

lemma separated_count:
  assumes "sorted_wrt (\<lambda>c d. ck_end c < ck_start d) cs"
  shows "length (filter (\<lambda>c. in_chunk c \<tau>) cs) = (if \<exists>c \<in> set cs. in_chunk c \<tau> then 1 else 0)"
  using assms
proof (induction cs)
  case Nil
  then show ?case by simp
next
  case (Cons c cs)
  show ?case
  proof (cases "in_chunk c \<tau>")
    case True
    then have "\<forall>d \<in> set cs. \<not> in_chunk d \<tau>" using Cons.prems by (fastforce simp: in_chunk_def)
    with True show ?thesis by (simp add: filter_empty_conv)
  next
    case False
    with Cons show ?thesis by auto
  qed
qed

lemma filter_package_chunks:
  assumes "spans_ordered eps"
  shows "mset (filter (\<lambda>c. ck_package c = p) (merge_app_chunks eps))
    = mset (merge_intervals p (package_intervals eps p))"
proof -
  let ?m = "\<lambda>p. merge_intervals p (package_intervals eps p)"
  have pkg: "ck_package c = q" if "c \<in> set (?m q)" for c q
    using package_chunks [OF assms, of q] that by (auto simp: merged_def)
  have one: "filter (\<lambda>c. ck_package c = p) (?m q) = (if q = p then ?m q else [])" for q
    using pkg by (auto simp: filter_id_conv filter_empty_conv)
  have concat_one: "distinct ps \<Longrightarrow>
      filter (\<lambda>c. ck_package c = p) (concat (map ?m ps)) = (if p \<in> set ps then ?m p else [])"
    for ps by (induction ps) (auto simp: one)
  have "mset (filter (\<lambda>c. ck_package c = p) (merge_app_chunks eps))
      = mset (filter (\<lambda>c. ck_package c = p) (concat (map ?m (chunk_packages eps))))"
    by (simp only: merge_app_chunks_def mset_filter mset_sort)
  then have "mset (filter (\<lambda>c. ck_package c = p) (merge_app_chunks eps))
      = mset (if p \<in> set (chunk_packages eps) then ?m p else [])"
    by (simp only: concat_one [OF chunk_packages_distinct])
  moreover have "?m p = []" if "p \<notin> set (chunk_packages eps)"
  proof -
    have "package_intervals eps p = []"
    proof (rule ccontr)
      assume "package_intervals eps p \<noteq> []"
      then obtain s e i where "(s, e, i) \<in> set (package_intervals eps p)"
        by (metis list.set_intros(1) neq_Nil_conv prod_cases3)
      then show False using that by (auto simp: package_intervals_iff chunk_packages_iff)
    qed
    then show ?thesis by (simp add: merge_intervals_def)
  qed
  ultimately show ?thesis by simp
qed

lemma used_at_intervals:
  "used_at eps p \<tau> \<longleftrightarrow> (\<exists>(s, e, i) \<in> set (package_intervals eps p). s \<le> \<tau> \<and> \<tau> < e)"
proof
  assume "used_at eps p \<tau>"
  then obtain i s e where "i < length eps" "ep_package (eps ! i) = p" "episode_span (eps ! i) = Some (s, e)"
    "s \<le> \<tau>" "\<tau> < e"
    by (auto simp: used_at_def in_set_conv_nth split: option.splits)
  then have "(s, e, i) \<in> set (package_intervals eps p)" by (simp add: package_intervals_iff)
  with \<open>s \<le> \<tau>\<close> \<open>\<tau> < e\<close> show "\<exists>(s, e, i) \<in> set (package_intervals eps p). s \<le> \<tau> \<and> \<tau> < e" by blast
next
  assume "\<exists>(s, e, i) \<in> set (package_intervals eps p). s \<le> \<tau> \<and> \<tau> < e"
  then obtain s e i where "i < length eps" "ep_package (eps ! i) = p" "episode_span (eps ! i) = Some (s, e)"
    "s \<le> \<tau>" "\<tau> < e" by (auto simp: package_intervals_iff)
  then show "used_at eps p \<tau>"
    unfolding used_at_def by (intro bexI [of _ "eps ! i"]) auto
qed

text \<open>An instant is in exactly one chunk of a package when an episode of the package covers it.\<close>

lemma chunks_exact:
  assumes "spans_ordered eps"
  shows "length (filter (\<lambda>c. ck_package c = p \<and> in_chunk c \<tau>) (merge_app_chunks eps))
    = (if used_at eps p \<tau> then 1 else 0)"
proof -
  obtain ivs where ivs: "mset ivs = mset (package_intervals eps p)"
    "merged p ivs (merge_intervals p (package_intervals eps p))" using package_chunks [OF assms] by blast
  have "length (filter (\<lambda>c. ck_package c = p \<and> in_chunk c \<tau>) (merge_app_chunks eps))
      = size (filter_mset (\<lambda>c. in_chunk c \<tau>) (mset (filter (\<lambda>c. ck_package c = p) (merge_app_chunks eps))))"
    by (simp add: filter_filter_mset conj_commute flip: mset_filter size_mset)
  also have "\<dots> = length (filter (\<lambda>c. in_chunk c \<tau>) (merge_intervals p (package_intervals eps p)))"
    unfolding filter_package_chunks [OF assms] by (simp flip: mset_filter)
  also have "\<dots> = (if \<exists>c \<in> set (merge_intervals p (package_intervals eps p)). in_chunk c \<tau> then 1 else 0)"
    using ivs(2) by (intro separated_count) (simp add: merged_def)
  also have "(\<exists>c \<in> set (merge_intervals p (package_intervals eps p)). in_chunk c \<tau>) \<longleftrightarrow> used_at eps p \<tau>"
    using ivs mset_eq_setD [OF ivs(1)] by (simp add: merged_def used_at_intervals)
  finally show ?thesis .
qed

lemma chunk_facts:
  assumes "spans_ordered eps" "c \<in> set (merge_app_chunks eps)"
  shows "ck_start c \<le> ck_end c"
    "\<exists>ep \<in> set eps. ep_resume ep = Some (ck_start c) \<and> ep_package ep = ck_package c"
    "\<exists>i \<in> set (ck_episodes c). i < length eps \<and> ep_package (eps ! i) = ck_package c
       \<and> effective_end (eps ! i) = Some (ck_end c)"
proof -
  let ?p = "ck_package c"
  obtain ivs where ivs: "mset ivs = mset (package_intervals eps ?p)"
    "merged ?p ivs (merge_intervals ?p (package_intervals eps ?p))"
    using package_chunks [OF assms(1)] by blast
  have "c \<in> set (merge_intervals ?p (package_intervals eps ?p))"
    using mset_eq_setD [OF filter_package_chunks [OF assms(1), of ?p]] assms(2) by auto
  then have m: "ck_start c \<le> ck_end c" "\<exists>(s, e, i) \<in> set ivs. s = ck_start c"
    "\<exists>(s, e, i) \<in> set ivs. e = ck_end c \<and> i \<in> set (ck_episodes c)"
    using ivs(2) unfolding merged_def by blast+
  note mem = mset_eq_setD [OF ivs(1)]
  show "ck_start c \<le> ck_end c" by (rule m(1))
  obtain s e i where "(s, e, i) \<in> set (package_intervals eps ?p)" "s = ck_start c"
    using m(2) mem by auto
  then show "\<exists>ep \<in> set eps. ep_resume ep = Some (ck_start c) \<and> ep_package ep = ck_package c"
    by (intro bexI [of _ "eps ! i"])
      (auto simp: package_intervals_iff episode_span_def split: option.splits)
  obtain s e i where "(s, e, i) \<in> set (package_intervals eps ?p)" "e = ck_end c"
    "i \<in> set (ck_episodes c)" using m(3) mem by auto
  then show "\<exists>i \<in> set (ck_episodes c). i < length eps \<and> ep_package (eps ! i) = ck_package c
       \<and> effective_end (eps ! i) = Some (ck_end c)"
    by (intro bexI [of _ i]) (auto simp: package_intervals_iff episode_span_def split: option.splits)
qed

end
