(* ===== verification/Eyes_Tagging.thy ===== *)
theory Eyes_Tagging
  imports Eyes_Usage
begin

text \<open>
  The fragments a chunk is cut into. They partition the chunk, and the ACTIVE ones partition the part
  no block of the timeline covers; both are instances of the cutting contract \<open>interval_cut\<close>. A
  fragment with another status lies inside a block of that type.
\<close>

definition fragment_span :: "eyes_final_app_usage \<Rightarrow> int \<times> int" where
  "fragment_span r = (fu_start r, fu_end r)"

definition in_fragment :: "eyes_final_app_usage \<Rightarrow> int \<Rightarrow> bool" where
  "in_fragment r \<tau> \<longleftrightarrow> fu_start r \<le> \<tau> \<and> \<tau> < fu_end r"

definition blocked :: "timeline \<Rightarrow> int \<Rightarrow> bool" where
  "blocked bs \<tau> \<longleftrightarrow> (\<exists>(s, e, t) \<in> set bs. s \<le> \<tau> \<and> \<tau> < e)"

definition timeline_ok :: "timeline \<Rightarrow> bool" where
  "timeline_ok bs \<longleftrightarrow> sorted (map fst bs) \<and> (\<forall>(s, e, t) \<in> set bs. t \<noteq> Active)"

lemma push_fragment_mem:
  "r \<in> set (push_fragment c k s e t) \<longleftrightarrow>
     s < e \<and> r = \<lparr>fu_package = ck_package c, fu_chunk = k, fu_start = s, fu_end = e, fu_status = t\<rparr>"
  by (auto simp: push_fragment_def)

lemma tag_chunk_mem:
  "r \<in> set (tag_chunk c k bs cursor) \<Longrightarrow>
     fu_start r < fu_end r \<and> fu_package r = ck_package c \<and> fu_chunk r = k"
proof (induction bs arbitrary: cursor)
  case Nil
  then show ?case by (auto simp: push_fragment_mem)
next
  case (Cons b bs)
  obtain s e t where "b = (s, e, t)" by (cases b)
  with Cons show ?case by (auto simp: push_fragment_mem Let_def split: if_splits)
qed

lemma count_push [simp]:
  "length (filter (\<lambda>r. in_fragment r \<tau>) (push_fragment c k s e t)) = (if s \<le> \<tau> \<and> \<tau> < e then 1 else 0)"
  by (simp add: push_fragment_def in_fragment_def)

lemma count_push_active [simp]:
  "length (filter (\<lambda>r. fu_status r = Active \<and> in_fragment r \<tau>) (push_fragment c k s e t))
    = (if t = Active \<and> s \<le> \<tau> \<and> \<tau> < e then 1 else 0)"
  by (simp add: push_fragment_def in_fragment_def)

lemma tag_chunk_exact:
  "length (filter (\<lambda>r. in_fragment r \<tau>) (tag_chunk c k bs cursor))
    = (if cursor \<le> \<tau> \<and> \<tau> < ck_end c then 1 else 0)"
proof (induction bs arbitrary: cursor)
  case Nil
  show ?case by simp
next
  case (Cons b bs)
  obtain s e t where b: "b = (s, e, t)" by (cases b)
  define m where "m = min e (ck_end c)"
  consider "ck_end c \<le> cursor \<or> ck_end c \<le> s" | "cursor < ck_end c" "s < ck_end c" "e \<le> cursor"
    | "cursor < ck_end c" "s < ck_end c" "cursor < e" "cursor < s"
    | "cursor < ck_end c" "s < ck_end c" "cursor < e" "s \<le> cursor" by linarith
  then show ?case
  proof cases
    case 3
    then have "tag_chunk c k (b # bs) cursor = push_fragment c k cursor s Active
        @ push_fragment c k s m t @ tag_chunk c k bs (max s m)"
      by (simp add: b Let_def m_def)
    moreover have "m \<le> ck_end c" by (simp add: m_def)
    ultimately show ?thesis using 3 by (auto simp: Cons.IH)
  next
    case 4
    then have "tag_chunk c k (b # bs) cursor
        = push_fragment c k cursor m t @ tag_chunk c k bs (max cursor m)"
      by (simp add: b Let_def m_def)
    moreover have "m \<le> ck_end c" by (simp add: m_def)
    ultimately show ?thesis using 4 by (auto simp: Cons.IH)
  qed (simp_all add: b Cons.IH)
qed

lemma tag_chunk_active:
  assumes "timeline_ok bs"
  shows "length (filter (\<lambda>r. fu_status r = Active \<and> in_fragment r \<tau>) (tag_chunk c k bs cursor))
    = (if cursor \<le> \<tau> \<and> \<tau> < ck_end c \<and> \<not> blocked bs \<tau> then 1 else 0)"
  using assms
proof (induction bs arbitrary: cursor)
  case Nil
  show ?case by (simp add: blocked_def)
next
  case (Cons b bs)
  obtain s e t where b: "b = (s, e, t)" by (cases b)
  have IH: "length (filter (\<lambda>r. fu_status r = Active \<and> in_fragment r \<tau>) (tag_chunk c k bs cursor))
    = (if cursor \<le> \<tau> \<and> \<tau> < ck_end c \<and> \<not> blocked bs \<tau> then 1 else 0)" for cursor
    using Cons by (simp add: timeline_ok_def)
  have t: "t \<noteq> Active" using Cons.prems by (simp add: timeline_ok_def b)
  have later: "s \<le> \<tau>" if "blocked bs \<tau>"
    using Cons.prems that by (auto simp: timeline_ok_def b blocked_def)
  have here: "blocked ((s, e, t) # bs) \<tau> \<longleftrightarrow> s \<le> \<tau> \<and> \<tau> < e \<or> blocked bs \<tau>" by (auto simp: blocked_def)
  define m where "m = min e (ck_end c)"
  consider "ck_end c \<le> cursor \<or> ck_end c \<le> s" | "cursor < ck_end c" "s < ck_end c" "e \<le> cursor"
    | "cursor < ck_end c" "s < ck_end c" "cursor < e" "cursor < s"
    | "cursor < ck_end c" "s < ck_end c" "cursor < e" "s \<le> cursor" by linarith
  then show ?case
  proof cases
    case 1
    then show ?thesis using later by (cases "ck_end c \<le> s") (auto simp: b here simp del: tag_chunk.simps(1))
  next
    case 2
    then show ?thesis by (auto simp: b IH here)
  next
    case 3
    then have "tag_chunk c k ((s, e, t) # bs) cursor = push_fragment c k cursor s Active
        @ push_fragment c k s m t @ tag_chunk c k bs (max s m)"
      by (simp add: Let_def m_def)
    moreover have "m = e \<or> m = ck_end c \<and> m \<le> e" "m \<le> ck_end c" by (auto simp: m_def)
    ultimately show ?thesis using 3 t later by (auto simp: b IH here)
  next
    case 4
    then have "tag_chunk c k ((s, e, t) # bs) cursor
        = push_fragment c k cursor m t @ tag_chunk c k bs (max cursor m)"
      by (simp add: Let_def m_def)
    moreover have "m = e \<or> m = ck_end c \<and> m \<le> e" "m \<le> ck_end c" by (auto simp: m_def)
    ultimately show ?thesis using 4 t later by (auto simp: b IH here)
  qed
qed

lemma tag_chunk_status:
  "r \<in> set (tag_chunk c k bs cursor) \<Longrightarrow>
     fu_status r = Active
     \<or> (\<exists>(s, e, t) \<in> set bs. t = fu_status r \<and> s \<le> fu_start r \<and> fu_end r \<le> e)"
proof (induction bs arbitrary: cursor)
  case Nil
  then show ?case by (auto simp: push_fragment_mem)
next
  case (Cons b bs)
  obtain s e t where b: "b = (s, e, t)" by (cases b)
  from Cons.prems consider "r \<in> set (tag_chunk c k bs cursor)"
    | cur where "r \<in> set (tag_chunk c k bs cur)" | "fu_status r = Active"
    | cur where "s \<le> cur" "r = \<lparr>fu_package = ck_package c, fu_chunk = k, fu_start = cur,
        fu_end = min e (ck_end c), fu_status = t\<rparr>"
    by (auto simp: b Let_def push_fragment_mem split: if_splits)
  then show ?case
  proof cases
    case 4
    then show ?thesis by (auto simp: b)
  qed (use Cons.IH in \<open>auto simp: b\<close>)
qed

text \<open>Both cuts, as instances of the contract.\<close>

definition fragments_of ::
    "eyes_app_usage_chunk \<times> nat \<times> timeline \<Rightarrow> int \<Rightarrow> int \<Rightarrow> eyes_final_app_usage list" where
  "fragments_of = (\<lambda>(c, k, bs) a b. tag_chunk (c\<lparr>ck_end := b\<rparr>) k bs a)"

definition active_fragments_of ::
    "eyes_app_usage_chunk \<times> nat \<times> timeline \<Rightarrow> int \<Rightarrow> int \<Rightarrow> eyes_final_app_usage list" where
  "active_fragments_of x a b = filter (\<lambda>r. fu_status r = Active) (fragments_of x a b)"

interpretation tagging: interval_cut fragments_of fragment_span "\<lambda>_. True" "\<lambda>_ _. True"
proof
  fix x :: "eyes_app_usage_chunk \<times> nat \<times> timeline" and r a b
  assume "r \<in> set (fragments_of x a b)"
  then show "fst (fragment_span r) < snd (fragment_span r)"
    by (auto simp: fragments_of_def fragment_span_def dest: tag_chunk_mem split: prod.splits)
next
  fix x :: "eyes_app_usage_chunk \<times> nat \<times> timeline" and \<tau> a b
  obtain c k bs where "x = (c, k, bs)" by (cases x)
  then show "length (filter (\<lambda>r. fst (fragment_span r) \<le> \<tau> \<and> \<tau> < snd (fragment_span r)) (fragments_of x a b))
      = (if a \<le> \<tau> \<and> \<tau> < b \<and> True then 1 else 0)"
    using tag_chunk_exact [of \<tau> "c\<lparr>ck_end := b\<rparr>" k bs a]
    by (simp add: fragments_of_def fragment_span_def in_fragment_def)
qed

interpretation crediting: interval_cut active_fragments_of fragment_span
  "\<lambda>(c, k, bs). timeline_ok bs" "\<lambda>(c, k, bs) \<tau>. \<not> blocked bs \<tau>"
proof
  fix x :: "eyes_app_usage_chunk \<times> nat \<times> timeline" and r a b
  assume "r \<in> set (active_fragments_of x a b)"
  then show "fst (fragment_span r) < snd (fragment_span r)"
    using tagging.positive [OF TrueI, of r x a b] by (auto simp: active_fragments_of_def)
next
  fix x :: "eyes_app_usage_chunk \<times> nat \<times> timeline" and \<tau> a b
  obtain c k bs where x: "x = (c, k, bs)" by (cases x)
  assume "case x of (c, k, bs) \<Rightarrow> timeline_ok bs"
  then have "timeline_ok bs" by (simp add: x)
  from tag_chunk_active [OF this, of \<tau> "c\<lparr>ck_end := b\<rparr>" k a]
  show "length (filter (\<lambda>r. fst (fragment_span r) \<le> \<tau> \<and> \<tau> < snd (fragment_span r)) (active_fragments_of x a b))
      = (if a \<le> \<tau> \<and> \<tau> < b \<and> (case x of (c, k, bs) \<Rightarrow> \<lambda>\<tau>. \<not> blocked bs \<tau>) \<tau> then 1 else 0)"
    by (simp add: x active_fragments_of_def fragments_of_def fragment_span_def in_fragment_def conj_commute)
qed

section \<open>The timeline of a block set\<close>

definition long_blocks_at :: "eyes_block list \<Rightarrow> eyes_options \<Rightarrow> int \<Rightarrow> bool" where
  "long_blocks_at blocks opts \<tau> \<longleftrightarrow>
     (\<exists>b \<in> set blocks. covers b \<tau>
        \<and> (case paired b of None \<Rightarrow> False
           | Some (s, e) \<Rightarrow> seconds_to_ns (fau_block_minimum_seconds opts) \<le> i64_sub e s))"

lemma usage_timeline_iff:
  "(s, e, t) \<in> set (usage_timeline blocks opts) \<longleftrightarrow>
     (\<exists>b \<in> set blocks. paired b = Some (s, e) \<and> block_type b = t
        \<and> seconds_to_ns (fau_block_minimum_seconds opts) \<le> i64_sub e s)"
  by (auto simp: usage_timeline_def Let_def in_map_filter split: option.splits if_splits)
    (force split: option.split)

lemma sorted_map_fst:
  fixes xs :: "('a::linorder \<times> 'b::linorder) list"
  shows "sorted xs \<Longrightarrow> sorted (map fst xs)"
  unfolding sorted_map by (erule sorted_wrt_mono_rel [rotated]) (auto simp: less_eq_prod_def)

lemma usage_timeline_ok:
  assumes "\<forall>b \<in> set blocks. block_type b \<noteq> Active"
  shows "timeline_ok (usage_timeline blocks opts)"
proof -
  have "sorted (map fst (usage_timeline blocks opts))"
    by (rule sorted_map_fst) (simp add: usage_timeline_def Let_def)
  then show ?thesis using assms by (auto simp: timeline_ok_def usage_timeline_iff)
qed

lemma blocked_timeline:
  "blocked (usage_timeline blocks opts) \<tau> \<longleftrightarrow> long_blocks_at blocks opts \<tau>"
proof
  assume "blocked (usage_timeline blocks opts) \<tau>"
  then obtain s e t where "(s, e, t) \<in> set (usage_timeline blocks opts)" "s \<le> \<tau>" "\<tau> < e"
    by (auto simp: blocked_def)
  then show "long_blocks_at blocks opts \<tau>"
    by (auto simp: usage_timeline_iff long_blocks_at_def covers_def intro!: bexI)
next
  assume "long_blocks_at blocks opts \<tau>"
  then obtain b s e where "b \<in> set blocks" "paired b = Some (s, e)" "s \<le> \<tau>" "\<tau> < e"
    "seconds_to_ns (fau_block_minimum_seconds opts) \<le> i64_sub e s"
    by (auto simp: long_blocks_at_def covers_iff)
  then show "blocked (usage_timeline blocks opts) \<tau>"
    by (auto simp: blocked_def usage_timeline_iff intro!: bexI [of _ "(s, e, block_type b)"])
qed

end
