(* ===== verification/Eyes_Segment.thy ===== *)
theory Eyes_Segment
  imports Eyes_Pickup Eyes_Tagging
begin

text \<open>
  The entry point \<open>segment_eyes_complement\<close> and the reading side of its result: pickups, credited
  usage, the evidence of a chunk's endpoint (\<open>EyesSegmentation\<close> in \<open>eyes_complement.rs\<close>). The result is
  an option because the episode reconstruction is; it is never \<open>None\<close>.
\<close>

section \<open>Segmentation\<close>

record eyes_segmentation =
  sg_blocks :: "eyes_block list"
  sg_pickup_export :: "eyes_pickup_row list"
  sg_episodes :: "eyes_app_episode list"
  sg_chunks :: "eyes_app_usage_chunk list"
  sg_usage :: "eyes_final_app_usage list"
  sg_observation_start :: int
  sg_observation_end :: int

definition empty_segmentation :: eyes_segmentation where
  "empty_segmentation =
     \<lparr>sg_blocks = [], sg_pickup_export = [], sg_episodes = [], sg_chunks = [], sg_usage = [],
      sg_observation_start = 0, sg_observation_end = 0\<rparr>"

definition segment_eyes_complement :: "eyes_event list \<Rightarrow> eyes_options \<Rightarrow> eyes_segmentation option" where
  "segment_eyes_complement events opts =
     (let ordered = sort_key ev_timestamp_ns events
      in if ordered = [] then Some empty_segmentation
         else
           (let signals = map (\<lambda>e. classify (ev_interaction_type e)) ordered;
                blocks = build_block_set ordered signals opts;
                pickup_export = build_pickup_export blocks opts
            in (case reconstruct_app_triplets ordered signals opts of
                  None \<Rightarrow> None
                | Some episodes \<Rightarrow>
                    (let chunks = merge_app_chunks episodes
                     in Some \<lparr>sg_blocks = blocks, sg_pickup_export = pickup_export,
                              sg_episodes = episodes, sg_chunks = chunks,
                              sg_usage = split_and_tag_app_usage chunks blocks opts,
                              sg_observation_start = ev_timestamp_ns (hd ordered),
                              sg_observation_end = ev_timestamp_ns (last ordered)\<rparr>))))"

section \<open>Reading a segmentation\<close>

definition pickups :: "eyes_segmentation \<Rightarrow> eyes_pickup_row list" where
  "pickups sg = filter (\<lambda>r. pk_type r = Active) (sg_pickup_export sg)"

definition credited_final_app_usage :: "eyes_segmentation \<Rightarrow> eyes_final_app_usage list" where
  "credited_final_app_usage sg = filter (\<lambda>r. fu_status r = Active) (sg_usage sg)"

text \<open>\<open>*totals.entry(package).or_insert(0) += duration\<close>\<close>

definition add_usage :: "eyes_final_app_usage \<Rightarrow> (string \<rightharpoonup> int) \<Rightarrow> (string \<rightharpoonup> int)" where
  "add_usage r totals =
     totals(fu_package r \<mapsto>
       i64_add (case totals (fu_package r) of None \<Rightarrow> 0 | Some n \<Rightarrow> n) (fragment_duration_ns r))"

definition credited_usage_by_package :: "eyes_segmentation \<Rightarrow> (string \<rightharpoonup> int)" where
  "credited_usage_by_package sg = fold add_usage (credited_final_app_usage sg) Map.empty"

record eyes_chunk_endpoint =
  ce_chunk :: nat
  ce_endpoint :: int
  ce_candidates :: "nat list"
  ce_selected :: nat
  ce_end_inference :: eyes_end_inference

text \<open>\<open>Iterator::max_by_key\<close>: the last of the elements with the greatest key.\<close>

definition max_by_key :: "('a \<Rightarrow> 'b::linorder) \<Rightarrow> 'a list \<Rightarrow> 'a option" where
  "max_by_key f xs =
     (case xs of
        [] \<Rightarrow> None
      | x # ys \<Rightarrow> Some (fold (\<lambda>y best. if f best \<le> f y then y else best) ys x))"

definition endpoint_key :: "eyes_segmentation \<Rightarrow> nat \<Rightarrow> int \<times> nat" where
  "endpoint_key sg i =
     (case ep_resume (sg_episodes sg ! i) of None \<Rightarrow> i64_min | Some r \<Rightarrow> r, i)"

definition endpoint_candidates :: "eyes_segmentation \<Rightarrow> eyes_app_usage_chunk \<Rightarrow> nat list" where
  "endpoint_candidates sg chunk =
     sort (filter (\<lambda>i. i < length (sg_episodes sg)
                      \<and> effective_end (sg_episodes sg ! i) = Some (ck_end chunk))
             (ck_episodes chunk))"

definition chunk_endpoint_evidence :: "eyes_segmentation \<Rightarrow> nat \<Rightarrow> eyes_chunk_endpoint option" where
  "chunk_endpoint_evidence sg chunk_index =
     (if length (sg_chunks sg) \<le> chunk_index then None
      else
        (let chunk = sg_chunks sg ! chunk_index;
             candidates = endpoint_candidates sg chunk
         in (case max_by_key (endpoint_key sg) candidates of
               None \<Rightarrow> None
             | Some selected \<Rightarrow>
                 Some \<lparr>ce_chunk = chunk_index, ce_endpoint = ck_end chunk,
                       ce_candidates = candidates, ce_selected = selected,
                       ce_end_inference = ep_end_inference (sg_episodes sg ! selected)\<rparr>)))"

lemma max_fold_greatest:
  fixes f :: "'a \<Rightarrow> 'b::linorder"
  shows "fold (\<lambda>y b. if f b \<le> f y then y else b) xs x \<in> insert x (set xs)
    \<and> (\<forall>y \<in> insert x (set xs). f y \<le> f (fold (\<lambda>y b. if f b \<le> f y then y else b) xs x))"
proof (induction xs arbitrary: x)
  case Nil
  show ?case by simp
next
  case (Cons a xs)
  have "f x \<le> f (if f x \<le> f a then a else x)" "f a \<le> f (if f x \<le> f a then a else x)" by auto
  with Cons.IH [of "if f x \<le> f a then a else x"] show ?case
    by (simp only: fold_simps list.set insert_iff ball_simps) (auto intro: order_trans)
qed

lemma max_by_key_greatest:
  assumes "xs \<noteq> []"
  shows "\<exists>m. max_by_key f xs = Some m \<and> m \<in> set xs \<and> (\<forall>y \<in> set xs. f y \<le> f m)"
proof -
  obtain x ys where "xs = x # ys" using assms by (cases xs) auto
  then show ?thesis using max_fold_greatest [where f = f and xs = ys and x = x] by (simp add: max_by_key_def)
qed

section \<open>The segmentation always returns\<close>

lemma sorted_in_time_order:
  "\<forall>e \<in> set events. epoch_ns (ev_timestamp_ns e) \<Longrightarrow> in_time_order (sort_key ev_timestamp_ns events)"
  by (simp add: in_time_order_def)

lemma episode_ok_spans:
  assumes "\<forall>ep \<in> set eps. episode_ok mode T ep"
  shows "spans_ordered eps"
proof -
  have "s \<le> e" if "ep \<in> set eps" "episode_span ep = Some (s, e)" for ep s e
  proof -
    have "ep_resume ep = Some s" "e \<in> set_option (ep_pause ep) \<union> set_option (ep_stop ep)"
      using that(2) by (auto simp: episode_span_def effective_end_def split: option.splits)
    then show ?thesis using assms that(1) unfolding episode_ok_def by blast
  qed
  then show ?thesis by (auto simp: spans_ordered_def split: option.splits)
qed

lemma segment_parts:
  assumes "events \<noteq> []" "\<forall>e \<in> set events. epoch_ns (ev_timestamp_ns e)"
  defines "ordered \<equiv> sort_key ev_timestamp_ns events"
  defines "signals \<equiv> map (\<lambda>e. classify (ev_interaction_type e)) ordered"
  obtains sg where "segment_eyes_complement events opts = Some sg"
    "sg_blocks sg = build_block_set ordered signals opts"
    "sg_pickup_export sg = build_pickup_export (sg_blocks sg) opts"
    "reconstruct_app_triplets ordered signals opts = Some (sg_episodes sg)"
    "sg_chunks sg = merge_app_chunks (sg_episodes sg)"
    "sg_usage sg = split_and_tag_app_usage (sg_chunks sg) (sg_blocks sg) opts"
    "\<forall>ep \<in> set (sg_episodes sg). episode_ok (duration_mode opts) (ev_timestamp_ns ` set events) ep"
    "mset (opened_episodes (sg_episodes sg)) = mset (resume_events (zip ordered signals))"
proof -
  have "ordered \<noteq> []" using assms(1) unfolding ordered_def by (metis length_0_conv length_sort)
  have "in_time_order ordered" "length signals = length ordered"
    using sorted_in_time_order [OF assms(2)] by (simp_all add: ordered_def signals_def)
  then obtain eps where eps: "reconstruct_app_triplets ordered signals opts = Some eps"
    "mset (opened_episodes eps) = mset (resume_events (zip ordered signals))"
    "\<forall>ep \<in> set eps. episode_ok (duration_mode opts) (set (map ev_timestamp_ns ordered)) ep"
    using reconstruct_episodes by blast
  have T: "set (map ev_timestamp_ns ordered) = ev_timestamp_ns ` set events"
    by (simp add: ordered_def)
  show thesis
    by (rule that [of "the (segment_eyes_complement events opts)"])
      (use \<open>ordered \<noteq> []\<close> eps T in
        \<open>simp_all add: segment_eyes_complement_def Let_def ordered_def [symmetric] signals_def [symmetric]\<close>)
qed

section \<open>Credited usage\<close>

lemma add_usage_snoc:
  "fold add_usage (rs @ [r]) t p =
     (if p = fu_package r
      then Some (i64_add (case fold add_usage rs t p of None \<Rightarrow> 0 | Some n \<Rightarrow> n) (fragment_duration_ns r))
      else fold add_usage rs t p)"
  by (simp add: add_usage_def)

lemma add_usage_fold:
  assumes "\<And>rs'. \<exists>rest. rs = rs' @ rest \<Longrightarrow>
      in_i64 (\<Sum>r\<leftarrow>filter (\<lambda>r. fu_package r = p) rs'. fu_end r - fu_start r)"
    and "\<forall>r \<in> set rs. in_i64 (fu_end r - fu_start r)"
  shows "fold add_usage rs Map.empty p
    = (if p \<in> fu_package ` set rs
       then Some (\<Sum>r\<leftarrow>filter (\<lambda>r. fu_package r = p) rs. fu_end r - fu_start r) else None)"
  using assms
proof (induction rs rule: rev_induct)
  case Nil
  show ?case by simp
next
  case (snoc r rs)
  have IH: "fold add_usage rs Map.empty p
    = (if p \<in> fu_package ` set rs
       then Some (\<Sum>r\<leftarrow>filter (\<lambda>r. fu_package r = p) rs. fu_end r - fu_start r) else None)"
  proof (rule snoc.IH)
    fix rs'
    assume "\<exists>rest. rs = rs' @ rest"
    then show "in_i64 (\<Sum>r\<leftarrow>filter (\<lambda>r. fu_package r = p) rs'. fu_end r - fu_start r)"
      by (intro snoc.prems(1)) auto
  qed (use snoc.prems(2) in simp)
  have dur: "fragment_duration_ns r = fu_end r - fu_start r"
    using snoc.prems(2) by (simp add: fragment_duration_ns_def i64_sub_exact)
  have zero: "(\<Sum>r\<leftarrow>filter (\<lambda>r. fu_package r = p) rs. fu_end r - fu_start r) = 0"
    if "p \<notin> fu_package ` set rs"
  proof -
    have "filter (\<lambda>r. fu_package r = p) rs = []" using that by (auto simp: filter_empty_conv)
    then show ?thesis by simp
  qed
  show ?case
  proof (cases "fu_package r = p")
    case True
    have "in_i64 ((\<Sum>r\<leftarrow>filter (\<lambda>r. fu_package r = p) rs. fu_end r - fu_start r) + (fu_end r - fu_start r))"
      using snoc.prems(1) [of "rs @ [r]"] True by simp
    then show ?thesis using True dur zero
      unfolding add_usage_snoc IH by (auto simp: i64_add_def)
  next
    case False
    then show ?thesis unfolding add_usage_snoc IH by auto
  qed
qed

text \<open>Which fragments cover an instant: those of the chunks that do.\<close>

lemma tagged_count:
  assumes "\<forall>b \<in> set blocks. block_type b \<noteq> Active"
  shows "length (filter (\<lambda>r. fu_package r = p \<and> fu_status r = Active \<and> in_fragment r \<tau>)
      (concat (map (\<lambda>(i, c). tag_chunk c i (usage_timeline blocks opts) (ck_start c)) (enumerate k cs))))
    = (if long_blocks_at blocks opts \<tau> then 0
       else length (filter (\<lambda>c. ck_package c = p \<and> in_chunk c \<tau>) cs))"
proof (induction cs arbitrary: k)
  case Nil
  show ?case by simp
next
  case (Cons c cs)
  let ?fs = "tag_chunk c k (usage_timeline blocks opts) (ck_start c)"
  have "filter (\<lambda>r. fu_package r = p \<and> fu_status r = Active \<and> in_fragment r \<tau>) ?fs
      = (if ck_package c = p then filter (\<lambda>r. fu_status r = Active \<and> in_fragment r \<tau>) ?fs else [])"
    by (auto simp: filter_empty_conv dest: tag_chunk_mem intro!: filter_cong)
  moreover have "length (filter (\<lambda>r. fu_status r = Active \<and> in_fragment r \<tau>) ?fs)
      = (if in_chunk c \<tau> \<and> \<not> long_blocks_at blocks opts \<tau> then 1 else 0)"
    by (simp add: tag_chunk_active [OF usage_timeline_ok [OF assms]] blocked_timeline in_chunk_def)
  ultimately show ?case
    by (cases "ck_package c = p"; cases "long_blocks_at blocks opts \<tau>") (auto simp: Cons.IH)
qed

lemma split_and_tag_active:
  assumes "\<forall>b \<in> set blocks. block_type b \<noteq> Active" "spans_ordered eps"
  shows "length (filter (\<lambda>r. fu_package r = p \<and> fu_status r = Active \<and> in_fragment r \<tau>)
      (split_and_tag_app_usage (merge_app_chunks eps) blocks opts))
    = (if used_at eps p \<tau> \<and> \<not> long_blocks_at blocks opts \<tau> then 1 else 0)"
  using tagged_count [OF assms(1), of p \<tau> opts 0 "merge_app_chunks eps"]
  by (simp add: split_and_tag_app_usage_def chunks_exact [OF assms(2)])

lemma split_and_tag_mem:
  assumes "r \<in> set (split_and_tag_app_usage chunks blocks opts)"
  shows "fu_start r < fu_end r \<and> fu_chunk r < length chunks
    \<and> fu_package r = ck_package (chunks ! fu_chunk r)
    \<and> ck_start (chunks ! fu_chunk r) \<le> fu_start r \<and> fu_end r \<le> ck_end (chunks ! fu_chunk r)"
proof -
  let ?tl = "usage_timeline blocks opts"
  obtain i c where ic: "i < length chunks" "c = chunks ! i" "r \<in> set (tag_chunk c i ?tl (ck_start c))"
    using assms by (auto simp: split_and_tag_app_usage_def in_set_enumerate_eq)
  have "r \<in> set (fragments_of (c, i, ?tl) (ck_start c) (ck_end c))"
    using ic(3) by (simp add: fragments_of_def)
  then have "ck_start c \<le> fu_start r \<and> fu_end r \<le> ck_end c"
    using tagging.inside_window [OF TrueI] by (fastforce simp: fragment_span_def)
  then show ?thesis using ic tag_chunk_mem [OF ic(3)] by simp
qed

text \<open>The widths of positive fragments, counted instant by instant.\<close>

lemma fragments_width:
  assumes "\<forall>r \<in> set rs. a \<le> fu_start r \<and> fu_start r < fu_end r \<and> fu_end r \<le> b"
    and "\<And>\<tau>. length (filter (\<lambda>r. in_fragment r \<tau>) rs) = (if P \<tau> then 1 else 0)"
  shows "(\<Sum>r\<leftarrow>rs. fu_end r - fu_start r) = int (card {\<tau> \<in> {a..<b}. P \<tau>})"
proof -
  have "(\<Sum>r\<leftarrow>rs. snd (fragment_span r) - fst (fragment_span r))
    = (\<Sum>\<tau> \<in> {a..<b}. int (length (filter (\<lambda>p. fst (fragment_span p) \<le> \<tau> \<and> \<tau> < snd (fragment_span p)) rs)))"
    by (rule tagging.width_count) (use assms(1) in \<open>auto simp: fragment_span_def\<close>)
  also have "\<dots> = (\<Sum>\<tau> \<in> {a..<b}. if P \<tau> then 1 else 0)"
    by (intro sum.cong) (use assms(2) in \<open>auto simp: fragment_span_def in_fragment_def\<close>)
  finally show ?thesis by (simp add: fragment_span_def sum.If_cases Int_def)
qed

lemma sum_list_nonneg_prefix:
  fixes f :: "'a \<Rightarrow> int"
  assumes "\<forall>x \<in> set (xs @ ys). 0 \<le> f x"
  shows "0 \<le> (\<Sum>x\<leftarrow>xs. f x)" "(\<Sum>x\<leftarrow>xs. f x) \<le> (\<Sum>x\<leftarrow>xs @ ys. f x)"
  using assms by (auto intro!: sum_list_nonneg)

lemma credited_total:
  assumes blocks: "\<forall>b \<in> set blocks. block_type b \<noteq> Active"
    and eps: "\<forall>ep \<in> set eps. episode_ok mode T ep" "\<forall>t \<in> T. epoch_ns t"
    and sg: "sg_usage sg = split_and_tag_app_usage (merge_app_chunks eps) blocks opts"
  shows "(case credited_usage_by_package sg p of None \<Rightarrow> 0 | Some n \<Rightarrow> n)
    = int (card {\<tau> \<in> {0..<i64_max}. used_at eps p \<tau> \<and> \<not> long_blocks_at blocks opts \<tau>})"
proof -
  let ?rs = "credited_final_app_usage sg"
  let ?p = "filter (\<lambda>r. fu_package r = p) ?rs"
  let ?w = "\<lambda>r :: eyes_final_app_usage. fu_end r - fu_start r"
  have so: "spans_ordered eps" by (rule episode_ok_spans [OF eps(1)])
  have range: "0 \<le> fu_start r \<and> fu_start r < fu_end r \<and> fu_end r \<le> i64_max" if "r \<in> set ?rs" for r
  proof -
    have r: "r \<in> set (split_and_tag_app_usage (merge_app_chunks eps) blocks opts)"
      using that by (simp add: credited_final_app_usage_def sg)
    let ?c = "merge_app_chunks eps ! fu_chunk r"
    note m = split_and_tag_mem [OF r]
    then have c: "?c \<in> set (merge_app_chunks eps)" by simp
    obtain ep where "ep \<in> set eps" "ep_resume ep = Some (ck_start ?c)" using chunk_facts(2) [OF so c] by blast
    then have "epoch_ns (ck_start ?c)" using eps by (fastforce simp: episode_ok_def)
    obtain i where "i < length eps" "effective_end (eps ! i) = Some (ck_end ?c)"
      using chunk_facts(3) [OF so c] by blast
    then have "epoch_ns (ck_end ?c)"
      using eps by (fastforce simp: episode_ok_def effective_end_def split: option.splits dest!: bspec [OF _ nth_mem])
    with \<open>epoch_ns (ck_start ?c)\<close> m show ?thesis by (auto simp: epoch_ns_def)
  qed
  have width: "(\<Sum>r\<leftarrow>?p. ?w r)
      = int (card {\<tau> \<in> {0..<i64_max}. used_at eps p \<tau> \<and> \<not> long_blocks_at blocks opts \<tau>})"
  proof (rule fragments_width)
    fix \<tau>
    have "filter (\<lambda>r. in_fragment r \<tau>) ?p = filter (\<lambda>r. fu_package r = p \<and> fu_status r = Active \<and> in_fragment r \<tau>)
        (split_and_tag_app_usage (merge_app_chunks eps) blocks opts)"
      by (auto simp: credited_final_app_usage_def sg intro!: filter_cong)
    then show "length (filter (\<lambda>r. in_fragment r \<tau>) ?p)
        = (if used_at eps p \<tau> \<and> \<not> long_blocks_at blocks opts \<tau> then 1 else 0)"
      using split_and_tag_active [OF blocks so] by simp
  qed (use range in auto)
  have "int (card {\<tau> \<in> {0..<i64_max}. used_at eps p \<tau> \<and> \<not> long_blocks_at blocks opts \<tau>})
      \<le> int (card {0..<i64_max})"
    by (simp only: of_nat_le_iff) (rule card_mono, auto)
  then have total: "(\<Sum>r\<leftarrow>?p. ?w r) \<le> i64_max" using width by (simp add: i64_max_def)
  have prefix: "in_i64 (\<Sum>r\<leftarrow>filter (\<lambda>r. fu_package r = p) rs'. ?w r)" if pre: "\<exists>rest. ?rs = rs' @ rest" for rs'
  proof -
    from pre obtain rest where rest: "?rs = rs' @ rest" by blast
    have nn: "\<forall>r \<in> set (filter (\<lambda>r. fu_package r = p) rs' @ filter (\<lambda>r. fu_package r = p) rest). 0 \<le> ?w r"
    proof
      fix r
      assume "r \<in> set (filter (\<lambda>r. fu_package r = p) rs' @ filter (\<lambda>r. fu_package r = p) rest)"
      then have "r \<in> set ?rs" by (auto simp: rest)
      from range [OF this] show "0 \<le> ?w r" by simp
    qed
    show ?thesis
      using sum_list_nonneg_prefix [OF nn] total
      by (simp add: rest in_i64_def i64_min_def)
  qed
  have each: "\<forall>r \<in> set ?rs. in_i64 (?w r)"
  proof
    fix r
    assume "r \<in> set ?rs"
    from range [OF this] show "in_i64 (?w r)" by (auto simp: in_i64_def i64_min_def)
  qed
  have zero: "p \<notin> fu_package ` set ?rs \<Longrightarrow> ?p = []" by (auto simp: filter_empty_conv)
  show ?thesis
    using add_usage_fold [OF prefix each] width zero
    by (auto simp: credited_usage_by_package_def)
qed

end
