(* ===== verification/Eyes_Properties.thy ===== *)
theory Eyes_Properties
  imports Eyes_Segment
begin

text \<open>
  The properties of the EYES segmentation, each with a closed instance. The instances share a small
  event stream: two apps, one of them interrupted by a screen-off.
\<close>

definition sample_events :: "eyes_event list" where
  "sample_events =
     [\<lparr>ev_timestamp_ns = 0, ev_interaction_type = ''Screen Interactive'', ev_package = []\<rparr>,
      \<lparr>ev_timestamp_ns = 1000000000, ev_interaction_type = ''Activity Resumed'', ev_package = ''a''\<rparr>,
      \<lparr>ev_timestamp_ns = 20000000000, ev_interaction_type = ''Screen Non-interactive'', ev_package = []\<rparr>,
      \<lparr>ev_timestamp_ns = 30000000000, ev_interaction_type = ''Screen Interactive'', ev_package = []\<rparr>,
      \<lparr>ev_timestamp_ns = 40000000000, ev_interaction_type = ''Move to Foreground'', ev_package = ''b''\<rparr>,
      \<lparr>ev_timestamp_ns = 50000000000, ev_interaction_type = ''Activity Paused'', ev_package = ''b''\<rparr>,
      \<lparr>ev_timestamp_ns = 60000000000, ev_interaction_type = ''Activity Stopped'', ev_package = ''a''\<rparr>]"

definition signals_of :: "eyes_event list \<Rightarrow> eyes_signal list" where
  "signals_of events = map (\<lambda>e. classify (ev_interaction_type e)) events"

lemma sample_events_facts:
  "sample_events \<noteq> []" "\<forall>e \<in> set sample_events. epoch_ns (ev_timestamp_ns e)"
  "in_time_order sample_events"
  by (simp_all add: sample_events_def epoch_ns_def i64_max_def in_time_order_def)

section \<open>Episodes\<close>

text \<open>C6: on any events with timestamps in the epoch range the segmentation returns, and its episodes
  with a resume are exactly the resume events, package and time, each once.\<close>

theorem episodes_exactly_once:
  assumes "\<forall>e \<in> set events. epoch_ns (ev_timestamp_ns e)"
  shows "\<exists>sg. segment_eyes_complement events opts = Some sg
    \<and> mset (opened_episodes (sg_episodes sg))
      = mset (resume_events (zip events (signals_of events)))"
proof (cases "events = []")
  case True
  then show ?thesis
    by (simp add: segment_eyes_complement_def empty_segmentation_def opened_episodes_def
        resume_events_def List.map_filter_simps)
next
  case False
  let ?ordered = "sort_key ev_timestamp_ns events"
  let ?f = "\<lambda>e. (e, classify (ev_interaction_type e))"
  have zips: "zip xs (signals_of xs) = map ?f xs" for xs
    by (simp add: signals_of_def zip_map2 zip_same_conv_map)
  obtain sg where sg: "segment_eyes_complement events opts = Some sg"
    "mset (opened_episodes (sg_episodes sg)) = mset (resume_events (zip ?ordered (signals_of ?ordered)))"
    using segment_parts [OF False assms, of opts] unfolding signals_of_def by metis
  have "mset (resume_events (map ?f ?ordered)) = mset (resume_events (map ?f events))"
    unfolding resume_events_def by (intro mset_map_filter_cong) simp
  then show ?thesis using sg unfolding zips by auto
qed

theorem episodes_exactly_once_witness:
  "\<exists>sg. segment_eyes_complement sample_events default_options = Some sg
    \<and> mset (opened_episodes (sg_episodes sg)) = {#(''a'', 1000000000), (''b'', 40000000000)#}"
proof -
  have "resume_events (zip sample_events (signals_of sample_events))
      = [(''a'', 1000000000), (''b'', 40000000000)]" by code_simp
  then show ?thesis
    using episodes_exactly_once [OF sample_events_facts(2), of default_options] by auto
qed

text \<open>C21: the walk that repairs an undated end terminates on every arena the handlers build, and stops
  at the first later block, in creation order, that carries a stop or belongs to another package.\<close>

theorem repair_walk_first_candidate:
  assumes "i < length (arena (run_triplets proximity_ns evs))"
  shows "repair_walk (arena (run_triplets proximity_ns evs)) app
      (tb_next (arena (run_triplets proximity_ns evs) ! i))
    = Some (find (\<lambda>j. tb_stop (arena (run_triplets proximity_ns evs) ! j) \<noteq> None
                     \<or> tb_app (arena (run_triplets proximity_ns evs) ! j) \<noteq> app)
             [Suc i..<length (arena (run_triplets proximity_ns evs))])"
proof -
  have "chain_ok (arena (run_triplets proximity_ns evs))"
    using run_triplets_inv by (simp add: triplet_inv_def)
  from repair_walk_next [OF this assms] show ?thesis by (simp add: repair_candidate_def)
qed

definition sample_run :: "(eyes_event \<times> eyes_signal) list" where
  "sample_run =
     [(\<lparr>ev_timestamp_ns = 1, ev_interaction_type = [], ev_package = ''a''\<rparr>, ActivityResumed),
      (\<lparr>ev_timestamp_ns = 2, ev_interaction_type = [], ev_package = ''a''\<rparr>, ActivityResumed),
      (\<lparr>ev_timestamp_ns = 3, ev_interaction_type = [], ev_package = ''b''\<rparr>, ActivityResumed)]"

theorem repair_walk_first_candidate_witness:
  "repair_walk (arena (run_triplets 5 sample_run)) ''a''
     (tb_next (arena (run_triplets 5 sample_run) ! 0)) = Some (Some 2)"
proof -
  have run: "map (\<lambda>b. (tb_app b, tb_stop b)) (arena (run_triplets 5 sample_run))
      = [(''a'', None), (''a'', None), (''b'', None)]" by code_simp
  have len: "length (arena (run_triplets 5 sample_run)) = 3"
    using arg_cong [OF run, of length] by simp
  moreover have "tb_app (arena (run_triplets 5 sample_run) ! 1) = ''a''"
    "tb_stop (arena (run_triplets 5 sample_run) ! 1) = None"
    "tb_app (arena (run_triplets 5 sample_run) ! 2) = ''b''"
    using arg_cong [OF run, of "\<lambda>xs. xs ! 1"] arg_cong [OF run, of "\<lambda>xs. xs ! 2"] len by simp_all
  ultimately show ?thesis
    using repair_walk_first_candidate [of 0 5 sample_run "''a''"] by (simp add: upt_rec numeral_2_eq_2)
qed

text \<open>The duration emitted with an episode is the one the validator recomputes from the episode's
  endpoints, never negative; an end is never before its resume.\<close>

lemma episode_durations_recomputable:
  assumes "\<forall>e \<in> set events. epoch_ns (ev_timestamp_ns e)"
    and "segment_eyes_complement events opts = Some sg" "ep \<in> set (sg_episodes sg)"
  shows "expected_episode_duration_seconds ep (duration_mode opts) = Inr (ep_duration_seconds ep)
    \<and> 0 \<le> ep_duration_seconds ep
    \<and> (\<forall>s e. episode_span ep = Some (s, e) \<longrightarrow> s \<le> e)"
proof (cases "events = []")
  case True
  then show ?thesis using assms(2,3) by (auto simp: segment_eyes_complement_def empty_segmentation_def)
next
  case False
  from segment_parts [OF False assms(1), of opts] assms(2)
  have "\<forall>ep \<in> set (sg_episodes sg). episode_ok (duration_mode opts) (ev_timestamp_ns ` set events) ep"
    by (metis option.inject)
  then show ?thesis
    using assms(3) episode_ok_spans [of "[ep]"] by (auto simp: episode_ok_def spans_ordered_def)
qed

lemma episode_durations_recomputable_witness:
  "\<exists>sg ep. segment_eyes_complement sample_events default_options = Some sg
    \<and> ep \<in> set (sg_episodes sg) \<and> ep_package ep = ''a''
    \<and> expected_episode_duration_seconds ep TripletStructured = Inr (ep_duration_seconds ep)"
proof -
  obtain sg where sg: "segment_eyes_complement sample_events default_options = Some sg"
    "mset (opened_episodes (sg_episodes sg)) = mset (resume_events (zip
       (sort_key ev_timestamp_ns sample_events) (map (\<lambda>e. classify (ev_interaction_type e))
         (sort_key ev_timestamp_ns sample_events))))"
    using segment_parts [OF sample_events_facts(1,2), of default_options] by metis
  have "(''a'', 1000000000) \<in> set (resume_events (zip (sort_key ev_timestamp_ns sample_events)
      (map (\<lambda>e. classify (ev_interaction_type e)) (sort_key ev_timestamp_ns sample_events))))"
    by code_simp
  then have "(''a'', 1000000000) \<in> set (opened_episodes (sg_episodes sg))"
    using mset_eq_setD [OF sg(2)] by blast
  then obtain ep where "ep \<in> set (sg_episodes sg)" "ep_package ep = ''a''"
    by (auto simp: opened_episodes_def in_map_filter)
  then show ?thesis
    using episode_durations_recomputable [OF sample_events_facts(2) sg(1)] sg(1)
    by (auto simp: default_options_def)
qed

section \<open>Device-state blocks\<close>

text \<open>On ordered events the gap segments are ordered, disjoint and of positive width, bounded by event
  times, and every pair of consecutive events further apart than the silence threshold is inside one.\<close>

lemma gap_segments_cover_silences:
  assumes "in_time_order events"
  shows "sorted_wrt (\<lambda>a b. snd a \<le> fst b) (detect_gap_segments events signals opts)
    \<and> (\<forall>(s, e) \<in> set (detect_gap_segments events signals opts).
         s < e \<and> s \<in> ev_timestamp_ns ` set events \<and> e \<in> ev_timestamp_ns ` set events)
    \<and> (\<forall>k. long_silence events (seconds_to_ns (f64_mul (gap_silence_hours opts) 3600)) k \<longrightarrow>
         segment_covers (detect_gap_segments events signals opts) (ts_at events k) (ts_at events (Suc k)))"
proof -
  let ?segs = "detect_gap_segments events signals opts"
  obtain index previous where i: "length events \<le> index"
    and inv: "gap_inv events (seconds_to_ns (f64_mul (gap_silence_hours opts) 3600)) index previous ?segs"
    using detect_gap_inv [OF assms] by blast
  have "ordered_segments ?segs"
    "\<forall>(s, e) \<in> set ?segs. s \<in> ev_timestamp_ns ` set events \<and> e \<in> ev_timestamp_ns ` set events"
    using inv by (auto simp: gap_inv_def)
  moreover have "segment_covers ?segs (ts_at events k) (ts_at events (Suc k))"
    if "long_silence events (seconds_to_ns (f64_mul (gap_silence_hours opts) 3600)) k" for k
    using inv i that by (cases previous) (auto simp: gap_inv_def long_silence_def)
  ultimately show ?thesis by (fastforce simp: ordered_segments_def)
qed

definition silent_events :: "eyes_event list" where
  "silent_events =
     [\<lparr>ev_timestamp_ns = 5, ev_interaction_type = ''Screen Interactive'', ev_package = []\<rparr>,
      \<lparr>ev_timestamp_ns = 14400000000005, ev_interaction_type = ''Screen Interactive'', ev_package = []\<rparr>]"

lemma gap_segments_cover_silences_witness:
  "segment_covers (detect_gap_segments silent_events (signals_of silent_events) default_options)
     5 14400000000005"
proof -
  have "in_time_order silent_events"
    by (simp add: in_time_order_def silent_events_def epoch_ns_def i64_max_def)
  moreover have "long_silence silent_events
      (seconds_to_ns (f64_mul (gap_silence_hours default_options) 3600)) 0"
    by (simp add: long_silence_def silent_events_def default_options_def seconds_to_ns_values)
  ultimately show ?thesis
    using gap_segments_cover_silences [of silent_events "signals_of silent_events" default_options]
    by (auto simp: silent_events_def)
qed

text \<open>The glances are exactly the pairs of neighbours in the merged stream of idle, shutdown and gap
  signals in which a wake is directly followed by a later sleep.\<close>

lemma glances_are_wake_sleep_pairs:
  "b \<in> set (build_glance_blocks events signals gaps) \<longleftrightarrow>
     (\<exists>i t n m t' n' m'. Suc i < length (glance_stream events signals gaps)
        \<and> glance_stream events signals gaps ! i = (t, n, m, Wake)
        \<and> glance_stream events signals gaps ! Suc i = (t', n', m', Sleep)
        \<and> t < t' \<and> b = \<lparr>block_type = Glance, start_ns = Some t, end_ns = Some t'\<rparr>)"
proof -
  let ?s = "glance_stream events signals gaps"
  let ?f = "\<lambda>(timestamp, _, _, sig). (timestamp, sig)"
  have pick: "snd (?f x) = g \<longleftrightarrow> (\<exists>n m. x = (fst (?f x), n, m, g))" for x :: "int \<times> nat \<times> nat \<times> glance_signal" and g
    by (cases x) auto
  show ?thesis
    unfolding build_glance_blocks_pairs glance_pairs_iff
    by (auto simp: pick nth_map Suc_lessD split: prod.splits)
qed

text \<open>No bracket event is lost or invented: the starts of the bracket blocks are the opening events of
  the glued stream and their ends the closing events, in order; gluing keeps a subsequence.\<close>

lemma brackets_keep_every_event:
  "List.map_filter start_ns (build_bracket_blocks (glue_pairwise glue_ns stream) btype strict)
     = map fst (filter (\<lambda>(t, r). r = Open) (glue_pairwise glue_ns stream))
   \<and> List.map_filter end_ns (build_bracket_blocks (glue_pairwise glue_ns stream) btype strict)
     = map fst (filter (\<lambda>(t, r). r = Close) (glue_pairwise glue_ns stream))
   \<and> subseq (glue_pairwise glue_ns stream) stream"
  using build_bracket_blocks_facts(1,2) glue_pairwise_subseq by blast

text \<open>Reconciliation moves no gap: a gap keeps its span and changes at most to the claimed type, which
  under the guard it does only while unclaimed; a bracket keeps its type, and a complete one is unchanged.\<close>

lemma reconcile_only_claims:
  assumes "reconcile_with_gaps brackets gaps tolerance_ns claim_type guard = (brackets', gaps')"
  shows "length gaps' = length gaps \<and> length brackets' = length brackets
    \<and> (\<forall>i < length gaps. start_ns (gaps' ! i) = start_ns (gaps ! i) \<and> end_ns (gaps' ! i) = end_ns (gaps ! i)
         \<and> (block_type (gaps' ! i) = block_type (gaps ! i)
            \<or> block_type (gaps' ! i) = claim_type \<and> (guard \<longrightarrow> block_type (gaps ! i) = Gap)))
    \<and> (\<forall>i < length brackets. block_type (brackets' ! i) = block_type (brackets ! i)
         \<and> (block_kind (brackets ! i) = Paired \<longrightarrow> brackets' ! i = brackets ! i))"
  using reconcile_with_gaps_reconciled [OF assms]
  by (auto simp: list_all2_conv_all_nth gap_reconciled_def bracket_reconciled_def block_kind_def
      split: option.splits)

lemma reconcile_only_claims_witness:
  "\<exists>b' g'. reconcile_with_gaps [\<lparr>block_type = Idle, start_ns = None, end_ns = Some 7000000000\<rparr>]
       [gap_block (0, 7000000001)] 1 Idle True = ([b'], [g'])
     \<and> start_ns g' = Some 0 \<and> end_ns g' = Some 7000000001 \<and> block_type b' = Idle"
proof -
  let ?b = "[\<lparr>block_type = Idle, start_ns = None, end_ns = Some 7000000000\<rparr>]"
  let ?g = "[gap_block (0, 7000000001)]"
  obtain b' g' where r: "reconcile_with_gaps ?b ?g 1 Idle True = (b', g')"
    by (cases "reconcile_with_gaps ?b ?g 1 Idle True")
  from reconcile_only_claims [OF this]
  have "length b' = 1" "length g' = 1" "start_ns (g' ! 0) = Some 0" "end_ns (g' ! 0) = Some 7000000001"
    "block_type (b' ! 0) = Idle" by (auto simp: gap_block_def)
  then show ?thesis using r by (auto simp: length_Suc_conv)
qed

text \<open>C22: carving shutdowns out of idles is pointwise subtraction: an instant is in a carved idle exactly
  when it is in an idle and in no complete shutdown.\<close>

theorem carving_is_subtraction:
  "(\<exists>p \<in> set (exclude_shutdown_from_idle idle shutdown). covers p \<tau>) \<longleftrightarrow>
     (\<exists>b \<in> set idle. block_type b = Idle \<and> covers b \<tau>)
     \<and> \<not> (\<exists>b \<in> set shutdown. block_type b = Shutdown \<and> covers b \<tau>)"
  by (rule carved_covers)

text \<open>C9: the block set is sorted and has no ACTIVE and no empty block, only shutdowns may lack an
  endpoint, and no instant is in an idle and a shutdown, nor in a glance and a shutdown or a gap.\<close>

theorem block_set_precedence:
  assumes "b \<in> set (build_block_set events signals opts)" "c \<in> set (build_block_set events signals opts)"
  shows "sorted (map block_key (build_block_set events signals opts))
    \<and> block_type b \<noteq> Active \<and> block_kind b \<noteq> Empty
    \<and> (block_kind b \<noteq> Paired \<longrightarrow> block_type b = Shutdown)
    \<and> \<not> (block_type b = Idle \<and> block_type c = Shutdown \<and> covers b \<tau> \<and> covers c \<tau>)
    \<and> \<not> (block_type b = Glance \<and> block_type c \<in> {Shutdown, Gap} \<and> covers b \<tau> \<and> covers c \<tau>)"
proof -
  obtain sh idle gaps glances where P: "build_block_set events signals opts =
       sort_key block_key (sh @ exclude_shutdown_from_idle idle sh
         @ exclude_overlapping_blocks glances (sh @ gaps) @ gaps)"
    "\<forall>b \<in> set sh. block_type b = Shutdown \<and> block_kind b \<noteq> Empty"
    "\<forall>b \<in> set glances. block_type b = Glance"
    "\<forall>b \<in> set gaps. block_type b = Gap \<and>
       (\<exists>(s, e) \<in> set (detect_gap_segments events signals opts).
          start_ns b = Some s \<and> end_ns b = Some e)"
    by (rule build_block_set_parts, rule that)
  let ?idle = "exclude_shutdown_from_idle idle sh"
  let ?gl = "exclude_overlapping_blocks glances (sh @ gaps)"
  have idle: "block_type x = Idle \<and> block_kind x = Paired" if "x \<in> set ?idle" for x
    using carved_shape [OF that] by (auto simp: block_kind_def)
  have gl: "block_type x = Glance \<and> block_kind x = Paired" if "x \<in> set ?gl" for x
    using that P(3) by (auto simp: exclude_overlapping_iff paired_Some block_kind_def)
  have gp: "block_type x = Gap \<and> block_kind x = Paired" if "x \<in> set gaps" for x
    using that P(4) by (auto simp: block_kind_def)
  have groups: "x \<in> set sh \<or> x \<in> set ?idle \<or> x \<in> set ?gl \<or> x \<in> set gaps"
    if "x \<in> set (build_block_set events signals opts)" for x
    using that P(1) by auto
  have sh: "x \<in> set sh" if "x \<in> set (build_block_set events signals opts)" "block_type x = Shutdown" for x
    using groups [OF that(1)] idle gl gp that(2) by fastforce
  have "\<not> (covers x \<tau> \<and> covers y \<tau>)" if "x \<in> set ?idle" "y \<in> set sh" for x y
    using carved_covers [of idle sh \<tau>] that P(2) by blast
  moreover have "\<not> (covers x \<tau> \<and> covers y \<tau>)" if "x \<in> set ?gl" "y \<in> set (sh @ gaps)" for x y
    using that exclude_overlapping_iff by blast
  ultimately show ?thesis
    using groups [OF assms(1)] groups [OF assms(2)] idle gl gp P(2) sorted_sort_key [of block_key]
    unfolding P(1) by (fastforce simp: block_kind_def)
qed

text \<open>What evaluates the block set of a concrete stream.\<close>

lemmas block_set_eval =
  build_block_set_def Let_def default_options_def seconds_to_ns_values bracket_stream_def
  opens_shutdown_def closes_shutdown_def opens_idle_def closes_idle_def map_filter_single
  build_bracket_blocks_def bracket_step_def detect_gap_segments_def gap_loop.simps gap_step_def
  reconcile_with_gaps_def reconcile_loop.simps reconcile_step_def skippable_def
  exclude_shutdown_from_idle_def exclude_overlapping_blocks_def shutdown_spans_of_def
  build_glance_blocks_def glance_stream_def glance_step_def gap_block_def push_gap_segment_def
  gap_forward_def gap_backward_def is_shutdown_class_reboot_def is_startup_class_reboot_def
  List.map_filter_simps duration_seconds_truncated_def duration_ns_def paired_def trunc_div_def
  i64_sub_def i64_add_def i64_abs_def wrap_i64_def less_eq_prod_def less_eq_eyes_block_type_def
  upt_rec sort_key_def

definition at_time :: "int \<Rightarrow> eyes_event" where
  "at_time t = \<lparr>ev_timestamp_ns = t, ev_interaction_type = [], ev_package = []\<rparr>"

definition reboot_blocks :: "eyes_block list" where
  "reboot_blocks =
     build_block_set [at_time 0, at_time 50000000000, at_time 60000000000, at_time 100000000000]
       [ScreenNonInteractiveSignal, DeviceShutdown, DeviceStartup, ScreenInteractive] default_options"

lemma reboot_blocks_value:
  "reboot_blocks =
     [\<lparr>block_type = Idle, start_ns = Some 0, end_ns = Some 50000000000\<rparr>,
      \<lparr>block_type = Shutdown, start_ns = Some 50000000000, end_ns = Some 60000000000\<rparr>,
      \<lparr>block_type = Gap, start_ns = Some 50000000000, end_ns = Some 60000000000\<rparr>,
      \<lparr>block_type = Idle, start_ns = Some 60000000000, end_ns = Some 100000000000\<rparr>]"
  by (simp add: reboot_blocks_def at_time_def block_set_eval)

theorem block_set_precedence_witness:
  "\<exists>b \<in> set reboot_blocks. \<exists>c \<in> set reboot_blocks. block_type b = Idle \<and> block_type c = Shutdown
     \<and> covers c 55000000000 \<and> \<not> covers b 55000000000"
proof -
  let ?b = "\<lparr>block_type = Idle, start_ns = Some 0, end_ns = Some 50000000000\<rparr>"
  let ?c = "\<lparr>block_type = Shutdown, start_ns = Some 50000000000, end_ns = Some 60000000000\<rparr>"
  have "?b \<in> set reboot_blocks" "?c \<in> set reboot_blocks" by (simp_all add: reboot_blocks_value)
  moreover from this have "\<not> (covers ?b 55000000000 \<and> covers ?c 55000000000)"
    using block_set_precedence [of ?b _ _ _ ?c 55000000000] by (auto simp: reboot_blocks_def)
  moreover have "covers ?c 55000000000" by (simp add: covers_def paired_def)
  ultimately show ?thesis by (metis eyes_block.select_convs(1))
qed

text \<open>A neighbour threshold below one second makes the segmentation build a shutdown that ends before it
  starts: the gap after the second reboot is not skipped, and completes the lone boot.\<close>

lemma short_reboot_gap_inverts_shutdown:
  "\<lparr>block_type = Shutdown, start_ns = Some 1000000000, end_ns = Some 0\<rparr>
    \<in> set (build_block_set [at_time 0, at_time 1000000000, at_time 1600000000]
         [DeviceStartup, DeviceShutdown, OtherSignal]
         (default_options\<lparr>gap_reboot_neighbor_seconds := 1 / 2\<rparr>))"
proof -
  have "seconds_to_ns (1 / 2) = 500000000" by code_simp
  then show ?thesis by (simp add: at_time_def block_set_eval)
qed

section \<open>Pickups\<close>

text \<open>C19: the ACTIVE rows of the export are exactly the holes between two blocks that are at least as wide
  as the hole threshold and reach the duration floor.\<close>

theorem pickups_are_the_holes:
  assumes "blocks_in_epoch blocks" "0 < seconds_to_ns (pickup_active_hole_seconds opts)"
  shows "\<lparr>pk_type = Active, pk_start = a, pk_end = b\<rparr> \<in> set (build_pickup_export blocks opts) \<longleftrightarrow>
    (\<exists>x \<in> set blocks. \<exists>s. paired x = Some (s, a)) \<and> (\<exists>x \<in> set blocks. \<exists>e. paired x = Some (b, e))
    \<and> (\<forall>x \<in> set blocks. \<forall>s e. paired x = Some (s, e) \<longrightarrow> e \<le> a \<or> b \<le> s)
    \<and> seconds_to_ns (pickup_active_hole_seconds opts) \<le> b - a
    \<and> f64_as_i64 (pickup_minimum_seconds opts) \<le> (b - a) div 1000000000"
proof -
  let ?us = "usable_blocks blocks" and ?r = "\<lparr>pk_type = Active, pk_start = a, pk_end = b\<rparr>"
  let ?hole = "seconds_to_ns (pickup_active_hole_seconds opts)"
  let ?st = "fold (pickup_step ?hole) ?us ([], None)"
  have ord: "usable_order ?us" by (rule usable_blocks_order [OF assms(1)])
  have in_us: "(\<forall>(s, e, t) \<in> set ?us. P s e) \<longleftrightarrow> (\<forall>x \<in> set blocks. \<forall>s e. paired x = Some (s, e) \<longrightarrow> P s e)"
    "(\<exists>(s, e, t) \<in> set ?us. P s e) \<longleftrightarrow> (\<exists>x \<in> set blocks. \<exists>s e. paired x = Some (s, e) \<and> P s e)" for P
    using usable_blocks_iff by (fastforce, fastforce)
  have rows: "?r \<in> set (fst ?st) \<longleftrightarrow> ?hole \<le> b - a
      \<and> (\<forall>(s, e, t) \<in> set ?us. e \<le> a \<or> b \<le> s)
      \<and> (\<exists>(s, e, t) \<in> set ?us. e = a) \<and> (\<exists>(s, e, t) \<in> set ?us. s = b)"
  proof
    assume "?r \<in> set (fst ?st)"
    then show "?hole \<le> b - a \<and> (\<forall>(s, e, t) \<in> set ?us. e \<le> a \<or> b \<le> s)
      \<and> (\<exists>(s, e, t) \<in> set ?us. e = a) \<and> (\<exists>(s, e, t) \<in> set ?us. s = b)"
      using pickup_active_row [OF ord, of ?r ?hole] unfolding eyes_pickup_row.select_convs by blast
  next
    assume h: "?hole \<le> b - a \<and> (\<forall>(s, e, t) \<in> set ?us. e \<le> a \<or> b \<le> s)
      \<and> (\<exists>(s, e, t) \<in> set ?us. e = a) \<and> (\<exists>(s, e, t) \<in> set ?us. s = b)"
    then show "?r \<in> set (fst ?st)" using pickup_hole_row [OF ord, of a b ?hole] assms(2) by simp
  qed
  have floor: "trunc_div (pickup_duration_ns ?r) 1000000000 = (b - a) div 1000000000"
    if "?hole \<le> b - a" "\<exists>(s, e, t) \<in> set ?us. e = a" "\<exists>(s, e, t) \<in> set ?us. s = b"
  proof -
    have "epoch_ns a" "epoch_ns b" using that ord by (auto simp: usable_order_def)
    then show ?thesis using that(1) assms(2) by (simp add: pickup_duration_ns_def trunc_div_nonneg)
  qed
  have "?r \<in> set (build_pickup_export blocks opts) \<longleftrightarrow> ?r \<in> set (fst ?st)
      \<and> f64_as_i64 (pickup_minimum_seconds opts) \<le> trunc_div (pickup_duration_ns ?r) 1000000000"
    by (auto simp: build_pickup_export_def Let_def)
  also have "\<dots> \<longleftrightarrow> ?hole \<le> b - a
      \<and> (\<forall>(s, e, t) \<in> set ?us. e \<le> a \<or> b \<le> s)
      \<and> (\<exists>(s, e, t) \<in> set ?us. e = a) \<and> (\<exists>(s, e, t) \<in> set ?us. s = b)
      \<and> f64_as_i64 (pickup_minimum_seconds opts) \<le> (b - a) div 1000000000"
    using rows floor by metis
  finally show ?thesis
    unfolding in_us(1) in_us(2) [of "\<lambda>s e. e = a"] in_us(2) [of "\<lambda>s e. s = b"] by blast
qed

theorem pickups_are_the_holes_witness:
  "\<lparr>pk_type = Active, pk_start = 10000000000, pk_end = 30000000000\<rparr>
    \<in> set (build_pickup_export
        [\<lparr>block_type = Idle, start_ns = Some 30000000000, end_ns = Some 40000000000\<rparr>,
         \<lparr>block_type = Shutdown, start_ns = Some 0, end_ns = Some 10000000000\<rparr>] default_options)"
proof -
  let ?blocks = "[\<lparr>block_type = Idle, start_ns = Some 30000000000, end_ns = Some 40000000000\<rparr>,
         \<lparr>block_type = Shutdown, start_ns = Some 0, end_ns = Some 10000000000\<rparr>]"
  have pos: "0 < seconds_to_ns (pickup_active_hole_seconds default_options)"
    by (simp add: default_options_def seconds_to_ns_values)
  have ep: "blocks_in_epoch ?blocks"
    by (auto simp: blocks_in_epoch_def paired_def epoch_ns_def i64_max_def)
  show ?thesis
    unfolding pickups_are_the_holes [OF ep pos]
    by (simp add: paired_def default_options_def seconds_to_ns_values f64_as_i64_def clamp_i64_def
        i64_max_def i64_min_def)
qed

section \<open>Usage\<close>

text \<open>The chunks of a package are disjoint and cover exactly the instants its episodes cover: an
  instant is in one chunk of the package when an episode of the package covers it, in none otherwise.\<close>

lemma chunks_cover_episodes_once:
  assumes "spans_ordered eps"
  shows "length (filter (\<lambda>c. ck_package c = p \<and> in_chunk c \<tau>) (merge_app_chunks eps))
    = (if used_at eps p \<tau> then 1 else 0)"
  by (rule chunks_exact [OF assms])

definition sample_episode :: "string \<Rightarrow> int \<Rightarrow> int \<Rightarrow> eyes_app_episode" where
  "sample_episode p s e =
     \<lparr>ep_package = p, ep_resume = Some s, ep_pause = None, ep_stop = Some e,
      ep_resume_inference = ResumeObserved, ep_pause_inference = PauseUnobserved,
      ep_end_inference = ObservedStop, ep_duration_seconds = seconds_between s e\<rparr>"

definition sample_episodes :: "eyes_app_episode list" where
  "sample_episodes =
     [sample_episode ''a'' 0 50, sample_episode ''b'' 10 20, sample_episode ''a'' 40 90]"

lemma sample_episodes_ordered: "spans_ordered sample_episodes"
  by (simp add: spans_ordered_def sample_episodes_def sample_episode_def episode_span_def effective_end_def)

lemma chunks_cover_episodes_once_witness:
  "length (filter (\<lambda>c. ck_package c = ''a'' \<and> in_chunk c 45) (merge_app_chunks sample_episodes)) = 1"
  unfolding chunks_cover_episodes_once [OF sample_episodes_ordered]
  by (simp add: used_at_def sample_episodes_def sample_episode_def episode_span_def effective_end_def)

text \<open>C20: the fragments of a chunk partition it: each instant of the chunk is in exactly one, none leaves the
  chunk, their widths add up to the chunk's, and a fragment that is not ACTIVE lies in a block of its type.\<close>

theorem fragments_partition_chunk:
  "length (filter (\<lambda>r. in_fragment r \<tau>) (tag_chunk c k blocks (ck_start c)))
     = (if in_chunk c \<tau> then 1 else 0)
   \<and> (\<Sum>r\<leftarrow>tag_chunk c k blocks (ck_start c). fu_end r - fu_start r) = max 0 (ck_end c - ck_start c)
   \<and> (r \<in> set (tag_chunk c k blocks (ck_start c)) \<longrightarrow>
        ck_start c \<le> fu_start r \<and> fu_start r < fu_end r \<and> fu_end r \<le> ck_end c
        \<and> (fu_status r = Active
           \<or> (\<exists>(s, e, t) \<in> set blocks. t = fu_status r \<and> s \<le> fu_start r \<and> fu_end r \<le> e)))"
proof -
  have f: "tag_chunk c k blocks (ck_start c) = fragments_of (c, k, blocks) (ck_start c) (ck_end c)"
    by (simp add: fragments_of_def)
  have "{\<tau>. ck_start c \<le> \<tau> \<and> \<tau> < ck_end c} = {ck_start c..<ck_end c}" by auto
  then have "(\<Sum>r\<leftarrow>tag_chunk c k blocks (ck_start c). fu_end r - fu_start r) = max 0 (ck_end c - ck_start c)"
    using tagging.total_width [OF TrueI, of "(c, k, blocks)" "ck_start c" "ck_end c"]
    by (simp add: f fragment_span_def)
  moreover have "ck_start c \<le> fu_start r \<and> fu_start r < fu_end r \<and> fu_end r \<le> ck_end c"
    if "r \<in> set (tag_chunk c k blocks (ck_start c))"
    using tagging.inside_window [OF TrueI that [unfolded f]] tagging.positive [OF TrueI that [unfolded f]]
    by (simp add: fragment_span_def)
  ultimately show ?thesis
    using tag_chunk_exact [of \<tau> c k blocks "ck_start c"] tag_chunk_status [of r c k blocks "ck_start c"]
    by (simp add: in_chunk_def)
qed

theorem fragments_partition_chunk_witness:
  "\<exists>r. r \<in> set (tag_chunk \<lparr>ck_package = ''a'', ck_start = 0, ck_end = 9, ck_episodes = [0]\<rparr> 0 [(2, 5, Idle)] 0)
     \<and> fu_status r = Idle \<and> fu_start r = 2 \<and> 0 \<le> fu_start r \<and> fu_end r \<le> 9"
proof -
  let ?c = "\<lparr>ck_package = ''a'', ck_start = 0, ck_end = 9, ck_episodes = [0]\<rparr>"
  let ?r = "\<lparr>fu_package = ''a'', fu_chunk = 0, fu_start = 2, fu_end = 5, fu_status = Idle\<rparr>"
  have "?r \<in> set (tag_chunk ?c 0 [(2, 5, Idle)] (ck_start ?c))" by (simp add: push_fragment_def Let_def)
  with fragments_partition_chunk [of 0 ?c 0 "[(2, 5, Idle)]" ?r] show ?thesis
    by (intro exI [of _ ?r]) simp
qed

text \<open>C3: the credited usage of a package is the number of nanoseconds that one of its episodes covers and
  no block of at least the minimum length does; overlapping episodes and blocks count once, and the
  total never wraps.\<close>

theorem credited_usage_is_measure:
  assumes "\<forall>e \<in> set events. epoch_ns (ev_timestamp_ns e)"
    and "segment_eyes_complement events opts = Some sg"
  shows "(case credited_usage_by_package sg p of None \<Rightarrow> 0 | Some n \<Rightarrow> n)
    = int (card {\<tau> \<in> {0..<i64_max}. used_at (sg_episodes sg) p \<tau>
        \<and> \<not> long_blocks_at (sg_blocks sg) opts \<tau>})"
proof (cases "events = []")
  case True
  then show ?thesis using assms(2)
    by (auto simp: segment_eyes_complement_def empty_segmentation_def credited_usage_by_package_def
        credited_final_app_usage_def used_at_def)
next
  case False
  obtain sg' where sg': "segment_eyes_complement events opts = Some sg'"
    "sg_blocks sg' = build_block_set (sort_key ev_timestamp_ns events)
       (map (\<lambda>e. classify (ev_interaction_type e)) (sort_key ev_timestamp_ns events)) opts"
    "sg_chunks sg' = merge_app_chunks (sg_episodes sg')"
    "sg_usage sg' = split_and_tag_app_usage (sg_chunks sg') (sg_blocks sg') opts"
    "\<forall>ep \<in> set (sg_episodes sg'). episode_ok (duration_mode opts) (ev_timestamp_ns ` set events) ep"
    using segment_parts [OF False assms(1), of opts] by metis
  have eq: "sg' = sg" using sg'(1) assms(2) by simp
  have blocks: "\<forall>b \<in> set (sg_blocks sg). block_type b \<noteq> Active"
    using block_set_types sg'(2) eq by metis
  show ?thesis
    by (rule credited_total [OF blocks sg'(5) [unfolded eq]]) (use assms(1) sg'(3,4) eq in auto)
qed

theorem credited_usage_is_measure_witness:
  "\<exists>sg. segment_eyes_complement sample_events default_options = Some sg
    \<and> (case credited_usage_by_package sg ''a'' of None \<Rightarrow> 0 | Some n \<Rightarrow> n)
      = int (card {\<tau> \<in> {0..<i64_max}. used_at (sg_episodes sg) ''a'' \<tau>
          \<and> \<not> long_blocks_at (sg_blocks sg) default_options \<tau>})"
proof -
  obtain sg where "segment_eyes_complement sample_events default_options = Some sg"
    using segment_parts [OF sample_events_facts(1,2), of default_options] by metis
  with credited_usage_is_measure [OF sample_events_facts(2) this] show ?thesis by blast
qed

text \<open>Every chunk has endpoint evidence: candidates that end where the chunk ends, and among them the
  one selected has the greatest (resume, index).\<close>

lemma every_chunk_has_endpoint_evidence:
  assumes "spans_ordered (sg_episodes sg)" "sg_chunks sg = merge_app_chunks (sg_episodes sg)"
    and "k < length (sg_chunks sg)"
  shows "\<exists>ev. chunk_endpoint_evidence sg k = Some ev
    \<and> ce_endpoint ev = ck_end (sg_chunks sg ! k) \<and> ce_selected ev \<in> set (ce_candidates ev)
    \<and> (\<forall>i \<in> set (ce_candidates ev). i \<in> set (ck_episodes (sg_chunks sg ! k))
         \<and> effective_end (sg_episodes sg ! i) = Some (ck_end (sg_chunks sg ! k))
         \<and> endpoint_key sg i \<le> endpoint_key sg (ce_selected ev))"
proof -
  let ?c = "sg_chunks sg ! k"
  have c: "?c \<in> set (merge_app_chunks (sg_episodes sg))" using assms(2,3) by (metis nth_mem)
  obtain i where "i \<in> set (endpoint_candidates sg ?c)"
    using chunk_facts(3) [OF assms(1) c] by (auto simp: endpoint_candidates_def)
  then have "endpoint_candidates sg ?c \<noteq> []" by force
  then obtain m where m: "max_by_key (endpoint_key sg) (endpoint_candidates sg ?c) = Some m"
    "m \<in> set (endpoint_candidates sg ?c)"
    "\<forall>i \<in> set (endpoint_candidates sg ?c). endpoint_key sg i \<le> endpoint_key sg m"
    using max_by_key_greatest by blast
  then show ?thesis using assms(3)
    by (auto simp: chunk_endpoint_evidence_def Let_def endpoint_candidates_def)
qed

lemma every_chunk_has_endpoint_evidence_witness:
  "\<exists>ev. chunk_endpoint_evidence (empty_segmentation\<lparr>sg_episodes := sample_episodes,
       sg_chunks := merge_app_chunks sample_episodes\<rparr>) 0 = Some ev"
proof -
  let ?sg = "empty_segmentation\<lparr>sg_episodes := sample_episodes,
       sg_chunks := merge_app_chunks sample_episodes\<rparr>"
  have "filter (\<lambda>c. ck_package c = ''a'' \<and> in_chunk c 45) (merge_app_chunks sample_episodes) \<noteq> []"
    using chunks_exact [OF sample_episodes_ordered, of "''a''" 45]
    by (auto simp: used_at_def sample_episodes_def sample_episode_def episode_span_def effective_end_def)
  then have "0 < length (sg_chunks ?sg)" by auto
  then show ?thesis
    using every_chunk_has_endpoint_evidence [of ?sg 0] sample_episodes_ordered by auto
qed

section \<open>Vocabulary\<close>

lemma aliases_canonical:
  "\<forall>(v, c) \<in> set interaction_aliases. c \<in> set canonical_interaction_types"
  by (simp add: interaction_aliases_def canonical_interaction_types_def)

lemma canonical_fixed:
  "\<forall>c \<in> set canonical_interaction_types. normalize_interaction_type c = c"
  by code_simp

text \<open>Normalisation is idempotent, every recognised spelling normalises into the canonical list, and
  the signal of an event depends on its canonical spelling only.\<close>

lemma normalization_is_canonical:
  "normalize_interaction_type (normalize_interaction_type v) = normalize_interaction_type v
   \<and> (is_recognized_interaction_type v \<longrightarrow> normalize_interaction_type v \<in> set canonical_interaction_types)
   \<and> classify (normalize_interaction_type v) = classify v"
proof (cases "map_of interaction_aliases v")
  case None
  then have "normalize_interaction_type v = v" by (simp add: normalize_interaction_type_def)
  then show ?thesis by (simp add: is_recognized_interaction_type_def)
next
  case (Some c)
  then have n: "normalize_interaction_type v = c" by (simp add: normalize_interaction_type_def)
  have "c \<in> set canonical_interaction_types" using aliases_canonical map_of_SomeD [OF Some] by blast
  moreover from this have cc: "normalize_interaction_type c = c" using canonical_fixed by blast
  moreover have "classify c = classify v"
  proof (cases "v = ''Screen Non-interactive''")
    case True
    then have "c = ''Screen Non-Interactive''" using Some by (simp add: interaction_aliases_def)
    then show ?thesis using True cc by (simp add: classify_def Let_def)
  next
    case False
    moreover have "c \<noteq> ''Screen Non-interactive''"
      using \<open>c \<in> set canonical_interaction_types\<close> by (auto simp: canonical_interaction_types_def)
    ultimately show ?thesis by (simp add: classify_def n cc)
  qed
  ultimately show ?thesis by (simp add: n)
qed

lemma normalization_is_canonical_witness:
  "normalize_interaction_type ''Unknown importance: 26'' \<in> set canonical_interaction_types"
proof -
  have "is_recognized_interaction_type ''Unknown importance: 26''" by code_simp
  with normalization_is_canonical [of "''Unknown importance: 26''"] show ?thesis by blast
qed

end
