(* ===== verification/Eyes_Evidence.thy ===== *)
theory Eyes_Evidence
  imports Eyes_Segment
begin

text \<open>
  The evidence bundle of a segmentation and its validator (\<open>tagged_fau_evidence\<close>,
  \<open>validate_tagged_fau_receipt\<close>, \<open>validate_eyes_tagged_fau_evidence\<close> of \<open>eyes_complement.rs\<close>). A
  validation error is the message the source returns.
\<close>

section \<open>The bundle\<close>

datatype eyes_replay_status = PartialReplay

datatype eyes_headline_projection = ActiveOnly

datatype eyes_limitation =
    ReferencePrimarySecondaryConcurrencyUnported
  | PickupExportUnavailableOnProductSurface
  | HeadlineProjectsActiveFragmentsOnly

record eyes_receipt =
  rc_protocol_version :: string
  rc_status :: eyes_replay_status
  rc_source_version :: string
  rc_source_commit :: string
  rc_source_license_status :: string
  rc_effective_options :: eyes_options
  rc_reference_defect_repair_ids :: "string list"
  rc_headline_projection :: eyes_headline_projection
  rc_full_tagged_fau_evidence_available :: bool
  rc_reference_primary_secondary_concurrency_ported :: bool
  rc_pickup_export_exposed :: bool
  rc_pickup_export_row_count :: nat
  rc_limitations :: "eyes_limitation list"

record eyes_tagged_fau_evidence =
  te_protocol_version :: string
  te_receipt :: eyes_receipt
  te_device_state_blocks :: "eyes_block list"
  te_episodes :: "eyes_app_episode list"
  te_app_usage_chunks :: "eyes_app_usage_chunk list"
  te_fragments :: "eyes_final_app_usage list"
  te_chunk_endpoints :: "eyes_chunk_endpoint list"

record eyes_participant_evidence =
  pe_participant_id :: string
  pe_evidence :: eyes_tagged_fau_evidence

definition reference_version :: string where "reference_version = ''0.1.0''"

definition reference_commit :: string where
  "reference_commit = ''89549a2d5d9732d8aaaa2f1fed25c1dbffd9a108''"

definition reference_license :: string where "reference_license = ''unresolved''"

definition reference_defect_repair_ids :: "string list" where
  "reference_defect_repair_ids =
     [''stale_predecessor_after_forward_reboot_gap'', ''non_monotonic_gap_emission'',
      ''nested_block_cursor_reset'']"

definition replay_limitations :: "eyes_limitation list" where
  "replay_limitations =
     [ReferencePrimarySecondaryConcurrencyUnported, PickupExportUnavailableOnProductSurface,
      HeadlineProjectsActiveFragmentsOnly]"

definition chunk_endpoints_of :: "eyes_segmentation \<Rightarrow> eyes_chunk_endpoint list" where
  "chunk_endpoints_of sg = List.map_filter (chunk_endpoint_evidence sg) [0..<length (sg_chunks sg)]"

definition tagged_fau_evidence :: "eyes_segmentation \<Rightarrow> eyes_options \<Rightarrow> eyes_tagged_fau_evidence" where
  "tagged_fau_evidence sg effective_options =
     \<lparr>te_protocol_version = ''chronicle-eyes-tagged-fau-evidence/v1'',
      te_receipt =
        \<lparr>rc_protocol_version = ''chronicle-eyes-partial-replay-receipt/v1'',
         rc_status = PartialReplay,
         rc_source_version = reference_version,
         rc_source_commit = reference_commit,
         rc_source_license_status = reference_license,
         rc_effective_options = effective_options,
         rc_reference_defect_repair_ids = reference_defect_repair_ids,
         rc_headline_projection = ActiveOnly,
         rc_full_tagged_fau_evidence_available = True,
         rc_reference_primary_secondary_concurrency_ported = False,
         rc_pickup_export_exposed = False,
         rc_pickup_export_row_count = length (sg_pickup_export sg) mod 2 ^ 32,
         rc_limitations = replay_limitations\<rparr>,
      te_device_state_blocks = sg_blocks sg,
      te_episodes = sg_episodes sg,
      te_app_usage_chunks = sg_chunks sg,
      te_fragments = sg_usage sg,
      te_chunk_endpoints = chunk_endpoints_of sg\<rparr>"

section \<open>The validator\<close>

text \<open>
  Whether \<open>trim\<close> leaves nothing: every character is Unicode white space. A string is its UTF-8 bytes, so the
  characters above ASCII are sequences of two or three bytes: U+0085, U+00A0, U+1680, U+2000 to U+200A, U+2028,
  U+2029, U+202F, U+205F and U+3000.
\<close>

definition white_space_bytes :: "nat list list" where
  "white_space_bytes =
     [[9], [10], [11], [12], [13], [32], [0xC2, 0x85], [0xC2, 0xA0], [0xE1, 0x9A, 0x80]]
     @ map (\<lambda>b. [0xE2, 0x80, b])
         [0x80, 0x81, 0x82, 0x83, 0x84, 0x85, 0x86, 0x87, 0x88, 0x89, 0x8A, 0xA8, 0xA9, 0xAF]
     @ [[0xE2, 0x81, 0x9F], [0xE3, 0x80, 0x80]]"

definition leading_white_space :: "nat list \<Rightarrow> nat list option" where
  "leading_white_space bytes = find (\<lambda>w. take (length w) bytes = w) white_space_bytes"

lemma leading_white_space_shorter:
  "bytes \<noteq> [] \<Longrightarrow> leading_white_space bytes = Some w \<Longrightarrow> length (drop (length w) bytes) < length bytes"
proof -
  assume "bytes \<noteq> []" and w: "leading_white_space bytes = Some w"
  have "w \<in> set white_space_bytes" using w unfolding leading_white_space_def by (rule find_SomeD [THEN conjunct1])
  then have "w \<noteq> []" by (auto simp: white_space_bytes_def)
  with \<open>bytes \<noteq> []\<close> show ?thesis by simp
qed

function white_bytes :: "nat list \<Rightarrow> bool" where
  "white_bytes bytes =
     (if bytes = [] then True
      else
        (case leading_white_space bytes of
           None \<Rightarrow> False
         | Some w \<Rightarrow> white_bytes (drop (length w) bytes)))"
  by pat_completeness auto

termination white_bytes
  by (relation "measure length") (simp, unfold in_measure, rule leading_white_space_shorter)

declare white_bytes.simps [simp del]

definition trimmed_empty :: "string \<Rightarrow> bool" where
  "trimmed_empty s \<longleftrightarrow> white_bytes (map of_char s)"

text \<open>A no-break space alone is blank, a letter is not.\<close>

lemma trimmed_empty_examples:
  "trimmed_empty [char_of (0xC2 :: nat), char_of (0xA0 :: nat)]" "trimmed_empty '' ''" "\<not> trimmed_empty ''p''"
  by (code_simp, code_simp, code_simp)

definition validation_error :: "string \<Rightarrow> string" where
  "validation_error what = ''eyes_tagged_fau_validation_error:'' @ what"

definition receipt_identity :: "eyes_tagged_fau_evidence \<Rightarrow> eyes_options \<Rightarrow> bool" where
  "receipt_identity evidence effective_options \<longleftrightarrow>
     (let receipt = te_receipt evidence
      in te_protocol_version evidence = ''chronicle-eyes-tagged-fau-evidence/v1''
         \<and> rc_protocol_version receipt = ''chronicle-eyes-partial-replay-receipt/v1''
         \<and> rc_status receipt = PartialReplay
         \<and> rc_source_version receipt = reference_version
         \<and> rc_source_commit receipt = reference_commit
         \<and> rc_source_license_status receipt = reference_license
         \<and> rc_effective_options receipt = effective_options
         \<and> rc_reference_defect_repair_ids receipt = reference_defect_repair_ids
         \<and> rc_headline_projection receipt = ActiveOnly
         \<and> rc_full_tagged_fau_evidence_available receipt
         \<and> \<not> rc_reference_primary_secondary_concurrency_ported receipt
         \<and> \<not> rc_pickup_export_exposed receipt
         \<and> rc_limitations receipt = replay_limitations)"

definition validate_tagged_fau_receipt ::
    "eyes_tagged_fau_evidence \<Rightarrow> eyes_options \<Rightarrow> string + unit" where
  "validate_tagged_fau_receipt evidence effective_options =
     (if \<not> receipt_identity evidence effective_options then Inl (validation_error ''receipt_identity'')
      else
        (let count = length (build_pickup_export (te_device_state_blocks evidence) effective_options)
         in if 2 ^ 32 \<le> count then Inl (validation_error ''pickup_count_overflow'')
            else if rc_pickup_export_row_count (te_receipt evidence) \<noteq> count
            then Inl (validation_error ''pickup_count'')
            else Inr ()))"

definition block_misshapen :: "eyes_block \<Rightarrow> bool" where
  "block_misshapen b \<longleftrightarrow>
     block_type b = Active
     \<or> block_kind b = Empty
     \<or> block_kind b \<noteq> Paired \<and> block_type b \<noteq> Shutdown
     \<or> (case (start_ns b, end_ns b) of
          (Some s, Some e) \<Rightarrow>
            (let duration = e - s
             in duration < 0 \<or> duration = 0 \<and> block_type b \<noteq> Shutdown \<or> i64_max < duration)
        | _ \<Rightarrow> False)"

text \<open>The preflight over the gaps between complete blocks, against the running maximum of their ends.\<close>

fun block_gap_overflows :: "eyes_block list \<Rightarrow> int option \<Rightarrow> bool" where
  "block_gap_overflows [] running_end = False"
| "block_gap_overflows (b # blocks) running_end =
     (case (start_ns b, end_ns b) of
        (Some start, Some end_time) \<Rightarrow>
          (case running_end of
             None \<Rightarrow> block_gap_overflows blocks (Some end_time)
           | Some previous_end \<Rightarrow>
               if \<not> in_i64 (start - previous_end) then True
               else block_gap_overflows blocks (Some (max previous_end end_time)))
      | _ \<Rightarrow> block_gap_overflows blocks running_end)"

fun validate_episodes :: "eyes_app_episode list \<Rightarrow> eyes_duration_mode \<Rightarrow> string + unit" where
  "validate_episodes [] mode = Inr ()"
| "validate_episodes (ep # eps) mode =
     (if trimmed_empty (ep_package ep) \<or> ep_duration_seconds ep < 0
      then Inl (validation_error ''episode_duration'')
      else
        (case expected_episode_duration_seconds ep mode of
           Inl e \<Rightarrow> Inl e
         | Inr expected \<Rightarrow>
             if ep_duration_seconds ep \<noteq> expected
             then Inl (validation_error ''episode_duration'')
             else validate_episodes eps mode))"

definition validate_usage :: "eyes_tagged_fau_evidence \<Rightarrow> eyes_options \<Rightarrow> string + unit" where
  "validate_usage evidence opts =
     (let chunks = merge_app_chunks (te_episodes evidence);
          blocks = te_device_state_blocks evidence;
          fragments = split_and_tag_app_usage chunks blocks opts;
          sg = \<lparr>sg_blocks = blocks, sg_pickup_export = build_pickup_export blocks opts,
                sg_episodes = te_episodes evidence, sg_chunks = chunks, sg_usage = fragments,
                sg_observation_start = 0, sg_observation_end = 0\<rparr>
      in if te_app_usage_chunks evidence \<noteq> chunks
            \<or> list_ex (\<lambda>c. ck_end c - ck_start c < 0 \<or> i64_max < ck_end c - ck_start c) chunks
         then Inl (validation_error ''app_usage_chunks'')
         else if te_fragments evidence \<noteq> fragments then Inl (validation_error ''fragments'')
         else if te_chunk_endpoints evidence \<noteq> chunk_endpoints_of sg
         then Inl (validation_error ''chunk_endpoints'')
         else Inr ())"

definition validate_evidence :: "eyes_tagged_fau_evidence \<Rightarrow> eyes_options \<Rightarrow> string + unit" where
  "validate_evidence evidence opts =
     (let blocks = te_device_state_blocks evidence
      in if sort_key block_key blocks \<noteq> blocks \<or> list_ex block_misshapen blocks
         then Inl (validation_error ''block_shape'')
         else if block_gap_overflows blocks None then Inl (validation_error ''block_gap_overflow'')
         else
           (case validate_tagged_fau_receipt evidence opts of
              Inl e \<Rightarrow> Inl e
            | Inr _ \<Rightarrow>
                (case validate_episodes (te_episodes evidence) (duration_mode opts) of
                   Inl e \<Rightarrow> Inl e
                 | Inr _ \<Rightarrow> validate_usage evidence opts)))"

fun validate_participants ::
    "eyes_participant_evidence list \<Rightarrow> eyes_options \<Rightarrow> string option \<Rightarrow> string list \<Rightarrow> string + unit" where
  "validate_participants [] opts previous seen = Inr ()"
| "validate_participants (p # ps) opts previous seen =
     (let i = pe_participant_id p
      in if trimmed_empty i
            \<or> (case previous of None \<Rightarrow> False | Some value \<Rightarrow> i \<le> value)
            \<or> i \<in> set seen
         then Inl (validation_error ''participant_order'')
         else
           (case validate_evidence (pe_evidence p) opts of
              Inl e \<Rightarrow> Inl e
            | Inr _ \<Rightarrow> validate_participants ps opts (Some i) (i # seen)))"

definition numeric_options :: "eyes_options \<Rightarrow> rat list" where
  "numeric_options opts =
     [proximity_interval_seconds opts, block_glue_seconds opts, gap_silence_hours opts,
      gap_reboot_neighbor_seconds opts, gap_reconcile_seconds opts, pickup_minimum_seconds opts,
      pickup_active_hole_seconds opts, fau_block_minimum_seconds opts]"

definition validate_eyes_tagged_fau_evidence ::
    "eyes_participant_evidence list \<Rightarrow> eyes_options \<Rightarrow> string + unit" where
  "validate_eyes_tagged_fau_evidence participants opts =
     (if list_ex (\<lambda>v. v < 0) (numeric_options opts)
      then Inl (validation_error ''effective_options'')
      else validate_participants participants opts None [])"

end
