(* ===== verification/Eyes_Block_Shape.thy ===== *)
theory Eyes_Block_Shape
  imports Eyes_Reconcile Eyes_Evidence
begin

text \<open>
  The blocks of a segmentation pass the structural checks of the evidence validator: every time is an
  event time, gap segments are at least as wide as both gap thresholds, so a bracket completed from a
  gap that is not skippable never ends before it starts.
\<close>

section \<open>The width of gap segments\<close>

definition wide_segments :: "int \<Rightarrow> (int \<times> int) list \<Rightarrow> bool" where
  "wide_segments width segs \<longleftrightarrow> (\<forall>(s, e) \<in> set segs. width \<le> e - s)"

lemma push_gap_wide:
  assumes "wide_segments width segs" "width \<le> end_time - start"
  shows "wide_segments width (push_gap_segment start end_time segs)"
  using assms
  by (cases rule: push_gap_cases [where start = start and end_time = end_time and segs = segs])
    (auto simp: wide_segments_def)

lemma gap_step_wide:
  assumes ord: "in_time_order events" and i: "index < length events"
    and prev: "\<forall>p. previous = Some p \<longrightarrow> epoch_ns p"
    and wide: "wide_segments width segs" and w: "width \<le> silence_ns" "width \<le> neighbour_ns"
  shows "wide_segments width (snd (gap_step events signals silence_ns neighbour_ns index previous segs))"
proof -
  let ?t = "ts_at events index"
  have ep: "epoch_ns (ts_at events k)" if "k < length events" for k using ts_epoch [OF ord that] .
  have "wide_segments width (push_gap_segment p ?t segs)"
    if "previous = Some p" "silence_ns \<le> i64_sub ?t p" for p
    using push_gap_wide [OF wide, of ?t p] prev that ep [OF i] w(1) by simp
  moreover have "wide_segments width (push_gap_segment ?t (ts_at events far) segs)"
    if "gap_forward events neighbour_ns index = Some far" for far
  proof -
    have "far < length events" "neighbour_ns \<le> i64_sub (ts_at events far) ?t"
      using that by (auto simp: gap_forward_def split: option.splits if_splits dest!: find_SomeD)
    then show ?thesis using ep i w(2) by (intro push_gap_wide [OF wide]) simp
  qed
  moreover have "wide_segments width (push_gap_segment (ts_at events far) ?t segs)"
    if "gap_backward events neighbour_ns index = Some far" for far
  proof -
    have "far < index" "neighbour_ns \<le> i64_sub ?t (ts_at events far)"
      using that by (auto simp: gap_backward_def split: option.splits if_splits dest!: find_SomeD)
    then show ?thesis using ep i w(2) by (intro push_gap_wide [OF wide]) simp
  qed
  ultimately show ?thesis using wide by (auto simp: gap_step_def Let_def split: option.split)
qed

lemma gap_loop_wide:
  assumes "in_time_order events" "\<forall>p. previous = Some p \<longrightarrow> epoch_ns p"
    "wide_segments width segs" "width \<le> silence_ns" "width \<le> neighbour_ns"
  shows "wide_segments width (gap_loop events signals silence_ns neighbour_ns index previous segs)"
  using assms
proof (induction events signals silence_ns neighbour_ns index previous segs rule: gap_loop.induct)
  case (1 events signals silence_ns neighbour_ns index previous segs)
  show ?case
  proof (cases "index < length events")
    case True
    have "wide_segments width (gap_loop events signals silence_ns neighbour_ns
        (fst (gap_step events signals silence_ns neighbour_ns index previous segs))
        (Some (ts_at events index))
        (snd (gap_step events signals silence_ns neighbour_ns index previous segs)))"
      using ts_epoch [OF 1(2) True] gap_step_wide [OF 1(2) True 1(3-6)] 1(2,5,6)
      by (intro 1(1) [OF True]) simp_all
    with True show ?thesis by (subst gap_loop.simps) simp
  next
    case False
    then show ?thesis using 1(4) by (subst gap_loop.simps) simp
  qed
qed

lemma detect_gap_wide:
  assumes "in_time_order events" "width \<le> seconds_to_ns (f64_mul (gap_silence_hours opts) 3600)"
    "width \<le> seconds_to_ns (gap_reboot_neighbor_seconds opts)"
  shows "wide_segments width (detect_gap_segments events signals opts)"
  unfolding detect_gap_segments_def
  using assms by (intro gap_loop_wide) (simp_all add: wide_segments_def)

lemma gap_segment_times:
  assumes "in_time_order events" "(s, e) \<in> set (detect_gap_segments events signals opts)"
  shows "s < e" "s \<in> ev_timestamp_ns ` set events" "e \<in> ev_timestamp_ns ` set events"
  using detect_gap_inv [OF assms(1), of opts signals] assms(2)
  by (auto simp: gap_inv_def ordered_segments_def)

section \<open>Times of the blocks\<close>

definition known_block :: "int set \<Rightarrow> eyes_block \<Rightarrow> bool" where
  "known_block T b \<longleftrightarrow> set_option (start_ns b) \<subseteq> T \<and> set_option (end_ns b) \<subseteq> T"

lemma bracket_blocks_known:
  assumes "b \<in> set (bracket_blocks_of events signals opts opens closes btype strict)"
  shows "known_block (ev_timestamp_ns ` set events) b"
    "start_ns b = Some s \<Longrightarrow> end_ns b = Some e \<Longrightarrow> (if strict then s < e else s \<le> e)"
proof -
  let ?g = "glue_pairwise (seconds_to_ns (block_glue_seconds opts)) (bracket_stream events signals opens closes)"
  let ?bs = "build_bracket_blocks ?g btype strict"
  have times: "t \<in> ev_timestamp_ns ` set events" if "(t, r) \<in> set ?g" for t r
  proof -
    have "(t, r) \<in> set (bracket_stream events signals opens closes)"
      using list_emb_set [OF glue_pairwise_subseq that] by metis
    then show ?thesis
      by (auto simp: bracket_stream_def in_map_filter split: if_splits dest!: set_zip_leftD)
  qed
  have "t \<in> set (List.map_filter start_ns ?bs)" if "start_ns b = Some t" for t
    using assms that by (auto simp: in_map_filter bracket_blocks_of_def)
  moreover have "t \<in> set (List.map_filter end_ns ?bs)" if "end_ns b = Some t" for t
    using assms that by (auto simp: in_map_filter bracket_blocks_of_def)
  ultimately show "known_block (ev_timestamp_ns ` set events) b"
    unfolding build_bracket_blocks_facts using times by (fastforce simp: known_block_def)
  show "start_ns b = Some s \<Longrightarrow> end_ns b = Some e \<Longrightarrow> (if strict then s < e else s \<le> e)"
    using assms build_bracket_blocks_facts(3) unfolding bracket_blocks_of_def by blast
qed

lemma enumerate_mem: "(k, x) \<in> set (List.enumerate 0 xs) \<Longrightarrow> x \<in> set xs"
  by (auto simp: in_set_enumerate_eq)

lemma glance_known:
  assumes "\<forall>(s, e) \<in> set gaps. s \<in> ev_timestamp_ns ` set events"
    and "b \<in> set (build_glance_blocks events signals gaps)"
  shows "known_block (ev_timestamp_ns ` set events) b"
proof -
  let ?xs = "map (\<lambda>(timestamp, _, _, sig). (timestamp, sig)) (glance_stream events signals gaps)"
  have "t \<in> ev_timestamp_ns ` set events" if mem: "(t, sig) \<in> set ?xs" for t sig
  proof -
    obtain source order where "(t, source, order, sig) \<in> set (glance_stream events signals gaps)"
      using mem by auto
    then consider (event) event signal where "(event, signal) \<in> set (zip events signals)"
        "t = ev_timestamp_ns event"
      | (gap) u where "(t, u) \<in> set gaps"
      by (auto simp: glance_stream_def in_map_filter dest!: enumerate_mem)
    then show ?thesis
    proof cases
      case event
      then show ?thesis using set_zip_leftD by fastforce
    next
      case gap
      with assms(1) show ?thesis by fastforce
    qed
  qed
  then have "fst (?xs ! i) \<in> ev_timestamp_ns ` set events" if "i < length ?xs" for i
    using that by (metis nth_mem prod.collapse)
  moreover from assms(2) obtain i where "Suc i < length ?xs"
    "b = \<lparr>block_type = Glance, start_ns = Some (fst (?xs ! i)), end_ns = Some (fst (?xs ! Suc i))\<rparr>"
    unfolding build_glance_blocks_pairs glance_pairs_iff by blast
  ultimately show ?thesis by (simp add: known_block_def)
qed

section \<open>Completed brackets\<close>

lemma trunc_div_exceeds:
  assumes "0 \<le> tol" "1000000000 \<le> width" "tol div 1000000000 < width div 1000000000"
  shows "tol < (width :: int)"
  using assms by linarith

lemma unskipped_wider:
  assumes "\<not> skippable (trunc_div tol 1000000000) g" "start_ns g = Some s" "end_ns g = Some e"
    "epoch_ns s" "epoch_ns e" "1000000000 \<le> e - s" "0 \<le> tol"
  shows "tol < e - s"
proof -
  have "(e - s) div 1000000000 \<noteq> 0" using assms(6) by linarith
  then have "skippable (trunc_div tol 1000000000) g \<longleftrightarrow> (e - s) div 1000000000 \<le> tol div 1000000000"
    using assms
    by (simp add: skippable_def duration_seconds_truncated_def duration_ns_def trunc_div_nonneg)
  with assms(1) have "tol div 1000000000 < (e - s) div 1000000000" by simp
  then show ?thesis by (rule trunc_div_exceeds [OF assms(7,6)])
qed

lemma completed_shape:
  assumes rec: "bracket_reconciled gaps tol b0 b"
    and b0: "\<And>s e. start_ns b0 = Some s \<Longrightarrow> end_ns b0 = Some e \<Longrightarrow> s \<le> e" "known_block T b0"
    and gaps: "\<forall>g \<in> set gaps. known_block T g
      \<and> (\<forall>s e. start_ns g = Some s \<and> end_ns g = Some e \<longrightarrow> 1000000000 \<le> e - s)"
    and T: "\<forall>t \<in> T. epoch_ns t" and tol: "0 \<le> tol"
  shows "known_block T b \<and> (\<forall>s e. start_ns b = Some s \<and> end_ns b = Some e \<longrightarrow> s \<le> e)"
proof (cases "b = b0")
  case True
  with b0 show ?thesis by blast
next
  case False
  then obtain g s e where g: "g \<in> set gaps" "start_ns g = Some s" "end_ns g = Some e"
    "\<not> skippable (trunc_div tol 1000000000) g"
    "start_ns b0 = None \<and> start_ns b = Some s \<and> end_ns b = end_ns b0
         \<and> (\<exists>t. end_ns b0 = Some t \<and> i64_abs (i64_sub t e) \<le> tol)
       \<or> end_ns b0 = None \<and> end_ns b = Some e \<and> start_ns b = start_ns b0
         \<and> (\<exists>t. start_ns b0 = Some t \<and> i64_abs (i64_sub t s) \<le> tol)"
    using rec unfolding bracket_reconciled_def by blast
  have se: "s \<in> T" "e \<in> T" using gaps g by (auto simp: known_block_def)
  have wide: "tol < e - s"
    using unskipped_wider [OF g(4) g(2,3)] gaps g(1,2,3) se T tol by blast
  have near: "t - u \<le> tol \<and> u - t \<le> tol" if "i64_abs (i64_sub t u) \<le> tol" "t \<in> T" "u \<in> T" for t u
  proof -
    have tu: "epoch_ns t" "epoch_ns u" using that(2,3) T by auto
    then have "in_i64 \<bar>t - u\<bar>" by (simp add: in_i64_def i64_min_def epoch_ns_def i64_max_def) linarith
    with tu that(1) show ?thesis by (simp add: i64_abs_def) linarith
  qed
  from g(5) show ?thesis
    using se wide b0(2) near by (elim disjE conjE exE) (fastforce simp: known_block_def)+
qed

section \<open>The block set passes the structural checks\<close>

text \<open>The options under which it does: a second at least for each of the two gap thresholds.\<close>

definition sane_gap_options :: "eyes_options \<Rightarrow> bool" where
  "sane_gap_options opts \<longleftrightarrow>
     1000000000 \<le> seconds_to_ns (f64_mul (gap_silence_hours opts) 3600)
     \<and> 1000000000 \<le> seconds_to_ns (gap_reboot_neighbor_seconds opts)
     \<and> 0 \<le> gap_reconcile_seconds opts"

lemma reconciled_bracket_shape:
  assumes ord: "in_time_order events" and opts: "sane_gap_options opts"
    and b0: "b0 \<in> set (bracket_blocks_of events signals opts opens closes btype strict)"
    and rec: "bracket_reconciled (map gap_block (detect_gap_segments events signals opts))
      (seconds_to_ns (gap_reconcile_seconds opts)) b0 b"
  shows "known_block (ev_timestamp_ns ` set events) b"
    "start_ns b = Some s \<Longrightarrow> end_ns b = Some e \<Longrightarrow> s \<le> e"
proof -
  let ?T = "ev_timestamp_ns ` set events" and ?segs = "detect_gap_segments events signals opts"
  have wide: "wide_segments 1000000000 ?segs"
    using detect_gap_wide [OF ord] opts by (simp add: sane_gap_options_def)
  have gaps: "\<forall>g \<in> set (map gap_block ?segs). known_block ?T g
      \<and> (\<forall>s e. start_ns g = Some s \<and> end_ns g = Some e \<longrightarrow> 1000000000 \<le> e - s)"
    using wide gap_segment_times [OF ord]
    by (fastforce simp: gap_block_def known_block_def wide_segments_def)
  have T: "\<forall>t \<in> ?T. epoch_ns t" using ord by (auto simp: in_time_order_def)
  have "s \<le> e" if "start_ns b0 = Some s" "end_ns b0 = Some e" for s e
    using bracket_blocks_known(2) [OF b0 that] by (simp split: if_splits)
  from completed_shape [OF rec this bracket_blocks_known(1) [OF b0] gaps T]
  show "known_block ?T b" "start_ns b = Some s \<Longrightarrow> end_ns b = Some e \<Longrightarrow> s \<le> e"
    using opts by (auto simp: sane_gap_options_def seconds_to_ns_nonneg)
qed

lemma carved_known:
  assumes "p \<in> set (exclude_shutdown_from_idle idle shutdown)"
    and "\<forall>b \<in> set idle. known_block T b" "\<forall>b \<in> set shutdown. known_block T b"
  shows "known_block T p"
proof -
  have piece: "known_block T p" if "p \<in> set (carve_spans spans a b)" "a \<in> T" "b \<in> T"
    "\<forall>(s, e) \<in> set spans. s \<in> T \<and> e \<in> T" for spans a b
    using that
  proof (induction spans a b rule: carve_spans.induct)
    case (1 cursor end_time)
    then show ?case by (auto simp: known_block_def split: if_splits)
  next
    case (2 s e spans cursor end_time)
    have "max cursor e \<in> T" "min s end_time \<in> T" using 2(4-6) by (auto simp: max_def min_def)
    with 2 show ?case by (auto simp: known_block_def Let_def split: if_splits)
  qed
  obtain b s e where b: "b \<in> set idle" "paired b = Some (s, e)"
    "p \<in> set (carve_spans (shutdown_spans_of shutdown) s e)"
    using assms(1) unfolding in_exclude_shutdown by blast
  moreover have "x \<in> T \<and> y \<in> T" if "(x, y) \<in> set (shutdown_spans_of shutdown)" for x y
    using that assms(3) by (fastforce simp: shutdown_spans_of_def in_map_filter paired_Some known_block_def)
  moreover have "s \<in> T \<and> e \<in> T" using b assms(2) by (fastforce simp: paired_Some known_block_def)
  ultimately show ?thesis by (intro piece [OF b(3)]) auto
qed

text \<open>Every block has event times, and a complete one a positive width, or a non-negative one when it is
  a shutdown.\<close>

lemma block_set_shape:
  assumes ord: "in_time_order events" and opts: "sane_gap_options opts"
    and b: "b \<in> set (build_block_set events signals opts)"
  shows "known_block (ev_timestamp_ns ` set events) b"
    "start_ns b = Some s \<Longrightarrow> end_ns b = Some e \<Longrightarrow> s < e \<or> s = e \<and> block_type b = Shutdown"
proof -
  let ?T = "ev_timestamp_ns ` set events" and ?segs = "detect_gap_segments events signals opts"
  obtain sh idle gaps glances where P: "build_block_set events signals opts =
       sort_key block_key (sh @ exclude_shutdown_from_idle idle sh
         @ exclude_overlapping_blocks glances (sh @ gaps) @ gaps)"
    "\<forall>b \<in> set sh. block_type b = Shutdown \<and> block_kind b \<noteq> Empty"
    "\<forall>b \<in> set gaps. block_type b = Gap \<and> (\<exists>(s, e) \<in> set ?segs. start_ns b = Some s \<and> end_ns b = Some e)"
    "\<forall>b \<in> set sh. known_block ?T b \<and> (\<forall>s e. start_ns b = Some s \<longrightarrow> end_ns b = Some e \<longrightarrow> s \<le> e)"
    "\<forall>b \<in> set idle. known_block ?T b" "glances = build_glance_blocks events signals ?segs"
  proof (rule build_block_set_parts [of events signals opts], goal_cases)
    case (1 sh idle gaps glances)
    show ?thesis
      using 1(6-8) reconciled_bracket_shape [OF ord opts] by (intro 1(1) [OF 1(2,3,5)]) blast+
  qed
  let ?idle = "exclude_shutdown_from_idle idle sh"
  let ?gl = "exclude_overlapping_blocks glances (sh @ gaps)"
  have idle: "known_block ?T x \<and> paired x \<noteq> None" if "x \<in> set ?idle" for x
    using carved_known [OF that P(5)] P(4) carved_shape [OF that] by (fastforce simp: paired_def)
  have starts: "\<forall>(s, e) \<in> set ?segs. s \<in> ?T" using gap_segment_times(2) [OF ord] by blast
  have gl: "known_block ?T x \<and> paired x \<noteq> None" if "x \<in> set ?gl" for x
    using that glance_known [OF starts, of x signals] by (simp add: P(6) exclude_overlapping_iff)
  have gp: "known_block ?T x \<and> paired x \<noteq> None" if "x \<in> set gaps" for x
    using that P(3) gap_segment_times [OF ord] by (fastforce simp: known_block_def paired_def)
  have "b \<in> set sh \<or> known_block ?T b \<and> paired b \<noteq> None"
    using b P(1) idle gl gp by auto
  then show "known_block ?T b"
    "start_ns b = Some s \<Longrightarrow> end_ns b = Some e \<Longrightarrow> s < e \<or> s = e \<and> block_type b = Shutdown"
    using P(2,4) by (auto simp: paired_def split: if_splits)
qed

lemma block_set_shaped:
  assumes "in_time_order events" "sane_gap_options opts"
  shows "\<not> list_ex block_misshapen (build_block_set events signals opts)"
proof -
  have "\<not> block_misshapen b" if b: "b \<in> set (build_block_set events signals opts)" for b
  proof -
    have T: "epoch_ns t" if "t \<in> ev_timestamp_ns ` set events" for t
      using that assms(1) by (auto simp: in_time_order_def)
    have "e - s \<le> i64_max" if "start_ns b = Some s" "end_ns b = Some e" for s e
      using block_set_shape(1) [OF assms b] that T [of s] T [of e]
      by (simp add: known_block_def epoch_ns_def)
    moreover have "block_type b \<noteq> Active" "block_kind b \<noteq> Empty"
      "block_kind b \<noteq> Paired \<longrightarrow> block_type b = Shutdown"
      using block_set_kinds [OF b] by blast+
    ultimately show ?thesis
      using block_set_shape(2) [OF assms b]
      by (cases "start_ns b"; cases "end_ns b") (force simp: block_misshapen_def Let_def)+
  qed
  then show ?thesis by (simp add: list_ex_iff)
qed

lemma epoch_blocks_gap:
  assumes "\<forall>b \<in> set blocks. \<forall>t \<in> set_option (start_ns b) \<union> set_option (end_ns b). epoch_ns t"
    and "\<forall>t. running_end = Some t \<longrightarrow> epoch_ns t"
  shows "\<not> block_gap_overflows blocks running_end"
  using assms
proof (induction blocks arbitrary: running_end)
  case (Cons b blocks)
  have IH: "\<not> block_gap_overflows blocks r" if "\<forall>t. r = Some t \<longrightarrow> epoch_ns t" for r
    using Cons.IH [OF _ that] Cons.prems(1) by simp
  have gap: "in_i64 (s - t)" if "start_ns b = Some s" "running_end = Some t" for s t
    using Cons.prems that by (intro epoch_diff) auto
  have "epoch_ns e" if "end_ns b = Some e" for e using Cons.prems(1) that by auto
  then have "\<not> block_gap_overflows blocks (Some (case running_end of None \<Rightarrow> e | Some t \<Rightarrow> max t e))"
    if "end_ns b = Some e" for e
    using that Cons.prems(2) by (intro IH) (auto simp: max_def split: option.split)
  then show ?case
    using IH [OF Cons.prems(2)] gap by (auto split: option.split)
qed simp

section \<open>The validator accepts what the segmentation produces\<close>

lemma validate_episodes_ok:
  assumes "\<forall>ep \<in> set eps. episode_ok mode T ep \<and> \<not> trimmed_empty (ep_package ep)"
  shows "validate_episodes eps mode = Inr ()"
  using assms by (induction eps) (simp_all add: episode_ok_def not_less)

lemma chunk_endpoints_cong:
  assumes "sg_chunks sg = sg_chunks sg'" "sg_episodes sg = sg_episodes sg'"
  shows "chunk_endpoints_of sg = chunk_endpoints_of sg'"
proof -
  have key: "endpoint_key sg = endpoint_key sg'" using assms by (auto simp: endpoint_key_def)
  have "chunk_endpoint_evidence sg = chunk_endpoint_evidence sg'"
    by (rule ext) (unfold chunk_endpoint_evidence_def endpoint_candidates_def Let_def assms key, rule refl)
  then show ?thesis using assms by (simp add: chunk_endpoints_of_def)
qed

lemma chunk_widths:
  assumes "\<forall>ep \<in> set eps. episode_ok mode T ep" "\<forall>t \<in> T. epoch_ns t" "c \<in> set (merge_app_chunks eps)"
  shows "0 \<le> ck_end c - ck_start c \<and> ck_end c - ck_start c \<le> i64_max"
proof -
  note facts = chunk_facts [OF episode_ok_spans [OF assms(1)] assms(3)]
  obtain ep where "ep \<in> set eps" "ep_resume ep = Some (ck_start c)" using facts(2) by blast
  then have start: "epoch_ns (ck_start c)" using assms(1,2) by (auto simp: episode_ok_def)
  obtain i where i: "i < length eps" "effective_end (eps ! i) = Some (ck_end c)" using facts(3) by blast
  then have "ck_end c \<in> set_option (ep_pause (eps ! i)) \<union> set_option (ep_stop (eps ! i))"
    by (auto simp: effective_end_def split: option.splits)
  then have "epoch_ns (ck_end c)"
    using assms(1,2) nth_mem [OF i(1)] unfolding episode_ok_def by blast
  with start facts(1) show ?thesis by (simp add: epoch_ns_def)
qed

lemma validate_receipt_ok:
  assumes "sg_pickup_export sg = build_pickup_export (sg_blocks sg) opts"
    and "length (sg_pickup_export sg) < 2 ^ 32"
  shows "validate_tagged_fau_receipt (tagged_fau_evidence sg opts) opts = Inr ()"
  using assms by (simp add: validate_tagged_fau_receipt_def tagged_fau_evidence_def receipt_identity_def)

lemma validate_usage_ok:
  assumes chunks: "sg_chunks sg = merge_app_chunks (sg_episodes sg)"
    and usage: "sg_usage sg = split_and_tag_app_usage (sg_chunks sg) (sg_blocks sg) opts"
    and eps: "\<forall>ep \<in> set (sg_episodes sg). episode_ok mode T ep" and T: "\<forall>t \<in> T. epoch_ns t"
  shows "validate_usage (tagged_fau_evidence sg opts) opts = Inr ()"
proof -
  let ?sg = "\<lparr>sg_blocks = sg_blocks sg, sg_pickup_export = build_pickup_export (sg_blocks sg) opts,
      sg_episodes = sg_episodes sg, sg_chunks = merge_app_chunks (sg_episodes sg),
      sg_usage = split_and_tag_app_usage (merge_app_chunks (sg_episodes sg)) (sg_blocks sg) opts,
      sg_observation_start = 0, sg_observation_end = 0\<rparr>"
  have "chunk_endpoints_of sg = chunk_endpoints_of ?sg"
    by (rule chunk_endpoints_cong) (simp_all add: chunks)
  moreover have "\<not> list_ex (\<lambda>c. ck_end c - ck_start c < 0 \<or> i64_max < ck_end c - ck_start c)
      (merge_app_chunks (sg_episodes sg))"
    using chunk_widths [OF eps T] by (fastforce simp: list_ex_iff)
  ultimately show ?thesis
    by (simp add: validate_usage_def tagged_fau_evidence_def Let_def chunks usage)
qed

end
