(* ===== verification/Eyes_Episode_Packages.thy ===== *)
theory Eyes_Episode_Packages
  imports Eyes_Episodes
begin

text \<open>
  Where the packages of episodes come from: the activity events of the stream. The order of the
  packages is only extended by \<open>ensure_package\<close>, and every block of the arena belongs to a package in it.
\<close>

definition activity_packages :: "(eyes_event \<times> eyes_signal) list \<Rightarrow> string set" where
  "activity_packages evs =
     {ev_package e | e s. (e, s) \<in> set evs \<and> s \<in> {ActivityResumed, ActivityPaused, ActivityStopped}}"

lemma package_order_simps [simp]:
  "package_order (put_queues p q st) = package_order st"
  "package_order (modify_block i f st) = package_order st"
  "package_order (link_block b st) = package_order st"
  "package_order (close_package p st) = package_order st"
  by (simp_all add: put_queues_def modify_block_def link_block_def close_package_def Let_def
      split: option.split prod.split)

lemma package_order_ensure: "set (package_order (ensure_package p st)) \<subseteq> insert p (set (package_order st))"
  by (auto simp: ensure_package_def split: option.split)

lemma package_order_close [simp]: "package_order (fold close_package ps st) = package_order st"
  by (induction ps arbitrary: st) simp_all

lemma package_order_handlers:
  "package_order (on_resume ts p st) = package_order (ensure_package p (link_block
     \<lparr>tb_app = p, tb_resume = Some ts, tb_pause = None, tb_stop = None,
      tb_resume_inference = ResumeObserved, tb_pause_inference = PauseUnobserved,
      tb_end_inference = EndUnobserved, tb_next = None\<rparr> st))"
  "package_order (on_pause prox ts p st) = package_order (ensure_package p st)"
  "package_order (on_stop prox ts p st) = package_order (ensure_package p st)"
  "package_order (on_reboot ts st) = package_order st"
  by (simp_all add: on_resume_def on_pause_def on_stop_def on_reboot_def Let_def
      split: option.split prod.split)

lemma run_triplets_packages:
  "set (package_order (run_triplets prox evs)) \<subseteq> activity_packages evs"
proof (induction evs rule: rev_induct)
  case Nil
  show ?case by (simp add: run_triplets_def initial_triplets_def)
next
  case (snoc x evs)
  obtain e s where x: "x = (e, s)" by (cases x)
  let ?st = "run_triplets prox evs"
  have "set (package_order (triplet_step prox (e, s) ?st)) \<subseteq> set (package_order ?st)
      \<union> (if s \<in> {ActivityResumed, ActivityPaused, ActivityStopped} then {ev_package e} else {})"
    using package_order_ensure by (auto simp: triplet_step_def Let_def package_order_handlers)
      (metis (no_types, lifting) insertE package_order_ensure package_order_simps(3) subsetD)+
  moreover have "activity_packages (evs @ [(e, s)]) = activity_packages evs
      \<union> (if s \<in> {ActivityResumed, ActivityPaused, ActivityStopped} then {ev_package e} else {})"
    by (auto simp: activity_packages_def)
  ultimately show ?case using snoc by (auto simp: run_triplets_snoc x)
qed

text \<open>The packages of the reconstructed episodes are packages of activity events.\<close>

lemma episode_packages:
  assumes "in_time_order events" "length signals = length events"
    "reconstruct_app_triplets events signals opts = Some eps" "ep \<in> set eps"
  shows "ep_package ep \<in> activity_packages (zip events signals)"
proof -
  let ?st = "run_triplets (seconds_to_ns (proximity_interval_seconds opts)) (zip events signals)"
  obtain i where "i < length (arena ?st)" "ep_package ep = tb_app (arena ?st ! i)"
    using reconstruct_blocks [OF assms(1-3)] assms(4) by blast
  moreover have inv: "triplet_inv ?st" using run_triplets_inv by blast
  ultimately have "ep_package ep \<in> set (package_order ?st)" unfolding triplet_inv_def by auto
  then show ?thesis using run_triplets_packages by blast
qed

end
