(* ===== verification/Eyes_Evidence_Properties.thy ===== *)
theory Eyes_Evidence_Properties
  imports Eyes_Properties Eyes_Block_Shape Eyes_Episode_Packages
begin

text \<open>
  What the evidence validator does with the evidence of a segmentation: accepts it under the options
  and identifiers it is meant for, and rejects it when a short neighbour threshold let the block set
  contain a shutdown that ends before it starts.
\<close>

lemma validate_blocks_ok:
  assumes "in_time_order events" "sane_gap_options opts"
    and "te_device_state_blocks ev = build_block_set events signals opts"
    and "validate_tagged_fau_receipt ev opts = Inr ()"
    and "validate_episodes (te_episodes ev) (duration_mode opts) = Inr ()"
    and "validate_usage ev opts = Inr ()"
  shows "validate_evidence ev opts = Inr ()"
proof -
  let ?blocks = "build_block_set events signals opts"
  have "sort_key block_key ?blocks = ?blocks"
    by (simp add: build_block_set_def Let_def sort_key_id_if_sorted split: prod.split)
  moreover have "\<not> block_gap_overflows ?blocks None"
    using block_set_shape(1) [OF assms(1,2)] assms(1)
    by (intro epoch_blocks_gap) (fastforce simp: known_block_def in_time_order_def)+
  ultimately show ?thesis
    using assms(3-) block_set_shaped [OF assms(1,2)] by (simp add: validate_evidence_def)
qed

lemma empty_evidence_ok: "validate_evidence (tagged_fau_evidence empty_segmentation opts) opts = Inr ()"
proof -
  have "validate_tagged_fau_receipt (tagged_fau_evidence empty_segmentation opts) opts = Inr ()"
    by (rule validate_receipt_ok)
      (simp_all add: empty_segmentation_def build_pickup_export_def usable_blocks_def List.map_filter_simps)
  then show ?thesis
    by (simp add: validate_evidence_def validate_usage_def tagged_fau_evidence_def Let_def
        empty_segmentation_def merge_app_chunks_def chunk_packages_def split_and_tag_app_usage_def
        chunk_endpoints_of_def List.map_filter_simps)
qed

text \<open>C23: with event times in the epoch, gap thresholds of at least a second, no negative option, a
  participant and activity packages that are not blank and fewer than 2 ^ 32 pickup rows, the validator
  accepts the evidence bundle of the segmentation.\<close>

theorem validator_accepts_segmentation:
  assumes "\<forall>e \<in> set events. epoch_ns (ev_timestamp_ns e)"
    and "segment_eyes_complement events opts = Some sg"
    and "sane_gap_options opts" "\<forall>v \<in> set (numeric_options opts). 0 \<le> v"
    and "\<not> trimmed_empty participant"
    and "\<forall>p \<in> activity_packages (zip events (signals_of events)). \<not> trimmed_empty p"
    and "length (sg_pickup_export sg) < 2 ^ 32"
  shows "validate_eyes_tagged_fau_evidence
    [\<lparr>pe_participant_id = participant, pe_evidence = tagged_fau_evidence sg opts\<rparr>] opts = Inr ()"
proof -
  let ?ev = "tagged_fau_evidence sg opts" and ?ordered = "sort_key ev_timestamp_ns events"
  have "validate_evidence ?ev opts = Inr ()"
  proof (cases "events = []")
    case True
    then have "sg = empty_segmentation" using assms(2) by (simp add: segment_eyes_complement_def)
    then show ?thesis by (simp add: empty_evidence_ok)
  next
    case False
    obtain sg' where sg': "segment_eyes_complement events opts = Some sg'"
      "sg_blocks sg' = build_block_set ?ordered (signals_of ?ordered) opts"
      "sg_pickup_export sg' = build_pickup_export (sg_blocks sg') opts"
      "reconstruct_app_triplets ?ordered (signals_of ?ordered) opts = Some (sg_episodes sg')"
      "sg_chunks sg' = merge_app_chunks (sg_episodes sg')"
      "sg_usage sg' = split_and_tag_app_usage (sg_chunks sg') (sg_blocks sg') opts"
      "\<forall>ep \<in> set (sg_episodes sg'). episode_ok (duration_mode opts) (ev_timestamp_ns ` set events) ep"
      using segment_parts [OF False assms(1), of opts] unfolding signals_of_def by metis
    have sg: "sg' = sg" using sg'(1) assms(2) by simp
    note ord = sorted_in_time_order [OF assms(1)]
    have "ep_package ep \<in> activity_packages (zip events (signals_of events))"
      if "ep \<in> set (sg_episodes sg)" for ep
      using episode_packages [OF ord _ sg'(4), of ep] that
      by (simp add: sg signals_of_def activity_packages_def zip_map2 zip_same_conv_map) 
    then have eps: "\<forall>ep \<in> set (sg_episodes sg). episode_ok (duration_mode opts) (ev_timestamp_ns ` set events) ep
        \<and> \<not> trimmed_empty (ep_package ep)" using sg'(7) assms(6) by (simp add: sg)
    have T: "\<forall>t \<in> ev_timestamp_ns ` set events. epoch_ns t" using assms(1) by simp
    show ?thesis
    proof (rule validate_blocks_ok [OF ord assms(3)])
      show "te_device_state_blocks ?ev = build_block_set ?ordered (signals_of ?ordered) opts"
        using sg'(2) by (simp add: sg tagged_fau_evidence_def)
      show "validate_tagged_fau_receipt ?ev opts = Inr ()"
        using validate_receipt_ok sg'(3) assms(7) by (simp add: sg)
      show "validate_episodes (te_episodes ?ev) (duration_mode opts) = Inr ()"
        using validate_episodes_ok [OF eps] by (simp add: tagged_fau_evidence_def)
      show "validate_usage ?ev opts = Inr ()"
        using sg'(5-7) by (intro validate_usage_ok [OF _ _ _ T]) (simp_all add: sg)
    qed
  qed
  moreover have "\<not> list_ex (\<lambda>v. v < 0) (numeric_options opts)"
    using assms(4) by (auto simp: list_ex_iff not_less)
  ultimately show ?thesis using assms(5) by (simp add: validate_eyes_tagged_fau_evidence_def)
qed

definition plain_use :: "eyes_event list" where
  "plain_use =
     [\<lparr>ev_timestamp_ns = 1000000000, ev_interaction_type = ''Activity Resumed'', ev_package = ''a''\<rparr>,
      \<lparr>ev_timestamp_ns = 2000000000, ev_interaction_type = ''Activity Paused'', ev_package = ''a''\<rparr>]"

lemma plain_use_facts:
  "\<forall>e \<in> set plain_use. epoch_ns (ev_timestamp_ns e)" "plain_use \<noteq> []"
  "sort_key ev_timestamp_ns plain_use = plain_use" "signals_of plain_use = [ActivityResumed, ActivityPaused]"
proof -
  show "signals_of plain_use = [ActivityResumed, ActivityPaused]" by code_simp
qed (simp_all add: plain_use_def epoch_ns_def i64_max_def)

lemma plain_use_blocks: "build_block_set plain_use [ActivityResumed, ActivityPaused] default_options = []"
  by (simp add: plain_use_def block_set_eval)

theorem validator_accepts_segmentation_witness:
  "\<exists>sg. segment_eyes_complement plain_use default_options = Some sg
    \<and> validate_eyes_tagged_fau_evidence
        [\<lparr>pe_participant_id = ''p1'', pe_evidence = tagged_fau_evidence sg default_options\<rparr>]
        default_options = Inr ()"
proof -
  obtain sg where sg: "segment_eyes_complement plain_use default_options = Some sg"
    "sg_blocks sg = []" "sg_pickup_export sg = build_pickup_export (sg_blocks sg) default_options"
    using segment_parts [OF plain_use_facts(2,1), of default_options] plain_use_facts(3,4) plain_use_blocks
    unfolding signals_of_def by metis
  have "sg_pickup_export sg = []"
    by (simp add: sg build_pickup_export_def usable_blocks_def List.map_filter_simps)
  moreover have "sane_gap_options default_options"
    by (simp add: sane_gap_options_def default_options_def seconds_to_ns_values)
  moreover have "\<forall>v \<in> set (numeric_options default_options). 0 \<le> v"
    by (simp add: numeric_options_def default_options_def)
  moreover have "\<not> trimmed_empty ''p1''" "\<not> trimmed_empty ''a''" by code_simp+
  moreover have "\<forall>p \<in> activity_packages (zip plain_use (signals_of plain_use)). \<not> trimmed_empty p"
    using \<open>\<not> trimmed_empty ''a''\<close> by (auto simp: activity_packages_def plain_use_def dest!: set_zip_leftD)
  ultimately show ?thesis
    using validator_accepts_segmentation [OF plain_use_facts(1) sg(1), of "''p1''"] sg(1) by auto
qed

section \<open>A short neighbour threshold\<close>

definition short_reboot_events :: "eyes_event list" where
  "short_reboot_events =
     [\<lparr>ev_timestamp_ns = 0, ev_interaction_type = ''Device Startup'', ev_package = ''android''\<rparr>,
      \<lparr>ev_timestamp_ns = 1000000000, ev_interaction_type = ''Device Shutdown'', ev_package = ''android''\<rparr>,
      \<lparr>ev_timestamp_ns = 1600000000, ev_interaction_type = ''Notification Seen'', ev_package = ''a''\<rparr>]"

lemma short_reboot_facts:
  "\<forall>e \<in> set short_reboot_events. epoch_ns (ev_timestamp_ns e)" "short_reboot_events \<noteq> []"
  "sort_key ev_timestamp_ns short_reboot_events = short_reboot_events"
  "signals_of short_reboot_events = [DeviceStartup, DeviceShutdown, OtherSignal]"
proof -
  show "signals_of short_reboot_events = [DeviceStartup, DeviceShutdown, OtherSignal]" by code_simp
qed (simp_all add: short_reboot_events_def epoch_ns_def i64_max_def)

lemma short_reboot_block:
  "\<lparr>block_type = Shutdown, start_ns = Some 1000000000, end_ns = Some 0\<rparr>
    \<in> set (build_block_set short_reboot_events [DeviceStartup, DeviceShutdown, OtherSignal]
         (default_options\<lparr>gap_reboot_neighbor_seconds := 1 / 2\<rparr>))"
proof -
  have "seconds_to_ns (1 / 2) = 500000000" by code_simp
  then show ?thesis by (simp add: short_reboot_events_def block_set_eval)
qed

text \<open>With a neighbour threshold of half a second, which the option check admits, the validator rejects
  the evidence of the code's own segmentation.\<close>

lemma short_reboot_evidence_rejected:
  "\<exists>sg. segment_eyes_complement short_reboot_events
        (default_options\<lparr>gap_reboot_neighbor_seconds := 1 / 2\<rparr>) = Some sg
    \<and> validate_eyes_tagged_fau_evidence
        [\<lparr>pe_participant_id = ''p1'',
          pe_evidence = tagged_fau_evidence sg (default_options\<lparr>gap_reboot_neighbor_seconds := 1 / 2\<rparr>)\<rparr>]
        (default_options\<lparr>gap_reboot_neighbor_seconds := 1 / 2\<rparr>)
      = Inl (validation_error ''block_shape'')"
proof -
  let ?opts = "default_options\<lparr>gap_reboot_neighbor_seconds := 1 / 2\<rparr>"
  obtain sg where sg: "segment_eyes_complement short_reboot_events ?opts = Some sg"
    "sg_blocks sg = build_block_set short_reboot_events [DeviceStartup, DeviceShutdown, OtherSignal] ?opts"
    using segment_parts [OF short_reboot_facts(2,1), of ?opts] short_reboot_facts(3,4)
    unfolding signals_of_def by metis
  have "list_ex block_misshapen (sg_blocks sg)"
    unfolding sg(2) list_ex_iff using short_reboot_block
    by (rule bexI [rotated]) (simp add: block_misshapen_def block_kind_def)
  then have "validate_evidence (tagged_fau_evidence sg ?opts) ?opts = Inl (validation_error ''block_shape'')"
    by (simp add: validate_evidence_def tagged_fau_evidence_def)
  moreover have "\<not> trimmed_empty ''p1''" by code_simp
  moreover have "\<not> list_ex (\<lambda>v. v < 0) (numeric_options ?opts)"
    by (simp add: numeric_options_def default_options_def)
  ultimately show ?thesis using sg(1) by (simp add: validate_eyes_tagged_fau_evidence_def)
qed

end
