(* ===== verification/Source_Rows.thy ===== *)
theory Source_Rows
  imports Prelude
begin

text \<open>
  The lineage of a row: the set of data rows of the input file it depends on, kept as a list of ranges
  of row numbers (\<open>SourceDataRows\<close> in \<open>chronicle_chrono_kernel_wasm/src/pipeline/model.rs\<close>). The lists
  the code builds are normal: ranges in order, not empty, no two of them adjacent. Two normal lists with
  the same rows are equal, so merging is a union up to equality of the lists.
\<close>

section \<open>Ranges\<close>

record source_row_range =
  rr_first :: nat
  rr_last :: nat

type_synonym source_data_rows = "source_row_range list"

definition single_row :: "nat \<Rightarrow> source_data_rows" where
  "single_row row = [\<lparr>rr_first = row, rr_last = row\<rparr>]"

definition rows_len :: "source_data_rows \<Rightarrow> nat" where
  "rows_len rows = (\<Sum>r\<leftarrow>rows. rr_last r - rr_first r + 1)"

definition rows_iter :: "source_data_rows \<Rightarrow> nat list" where
  "rows_iter rows = concat (map (\<lambda>r. [rr_first r..<Suc (rr_last r)]) rows)"

definition u32_max :: nat where "u32_max = 2 ^ 32 - 1"

definition u32_saturating_add :: "nat \<Rightarrow> nat \<Rightarrow> nat" where
  "u32_saturating_add a b = min (a + b) u32_max"

text \<open>One round of the merge: extend the last range when the next one touches it, else push.\<close>

definition push_range :: "source_row_range \<Rightarrow> source_data_rows \<Rightarrow> source_data_rows" where
  "push_range next merged =
     (if merged \<noteq> [] \<and> rr_first next \<le> u32_saturating_add (rr_last (last merged)) 1
      then butlast merged
             @ [(last merged)\<lparr>rr_last := max (rr_last (last merged)) (rr_last next)\<rparr>]
      else merged @ [next])"

fun merge_ranges :: "source_data_rows \<Rightarrow> source_data_rows \<Rightarrow> source_data_rows \<Rightarrow> source_data_rows" where
  "merge_ranges [] [] merged = merged"
| "merge_ranges (l # ls) [] merged = merge_ranges ls [] (push_range l merged)"
| "merge_ranges [] (r # rs) merged = merge_ranges [] rs (push_range r merged)"
| "merge_ranges (l # ls) (r # rs) merged =
     (if rr_first l \<le> rr_first r then merge_ranges ls (r # rs) (push_range l merged)
      else merge_ranges (l # ls) rs (push_range r merged))"

definition merge_rows :: "source_data_rows \<Rightarrow> source_data_rows \<Rightarrow> source_data_rows" where
  "merge_rows self additional =
     (if additional = [] then self
      else if self = [] then additional
      else merge_ranges self additional [])"

section \<open>Normal lists and their rows\<close>

definition row_set :: "source_data_rows \<Rightarrow> nat set" where
  "row_set rows = (\<Union>r \<in> set rows. {rr_first r..rr_last r})"

definition normal_rows :: "source_data_rows \<Rightarrow> bool" where
  "normal_rows rows \<longleftrightarrow>
     sorted_wrt (\<lambda>a b. rr_last a + 1 < rr_first b) rows
     \<and> (\<forall>r \<in> set rows. rr_first r \<le> rr_last r \<and> rr_last r \<le> u32_max)"

lemma row_set_simps [simp]:
  "row_set [] = {}"
  "row_set (r # rows) = {rr_first r..rr_last r} \<union> row_set rows"
  "row_set (rows @ rows') = row_set rows \<union> row_set rows'"
  by (auto simp: row_set_def)

lemma normal_rows_simps [simp]:
  "normal_rows []"
  "normal_rows (r # rows) \<longleftrightarrow>
     (\<forall>b \<in> set rows. rr_last r + 1 < rr_first b) \<and> rr_first r \<le> rr_last r \<and> rr_last r \<le> u32_max
     \<and> normal_rows rows"
  by (auto simp: normal_rows_def)

lemma normal_rows_snoc:
  "normal_rows (rows @ [r]) \<longleftrightarrow>
     normal_rows rows \<and> (\<forall>b \<in> set rows. rr_last b + 1 < rr_first r) \<and> rr_first r \<le> rr_last r
     \<and> rr_last r \<le> u32_max"
  by (auto simp: normal_rows_def sorted_wrt_append)

lemma normal_single [simp]: "row \<le> u32_max \<Longrightarrow> normal_rows (single_row row)"
  by (simp add: single_row_def)

lemma row_set_single [simp]: "row_set (single_row row) = {row}"
  by (simp add: single_row_def)

lemma rows_iter_set: "set (rows_iter rows) = row_set rows"
  by (auto simp: rows_iter_def row_set_def)

text \<open>The iterator yields the rows once each, in order; their number is the length.\<close>

lemma rows_iter_sorted: "normal_rows rows \<Longrightarrow> sorted (rows_iter rows) \<and> distinct (rows_iter rows)"
proof (induction rows)
  case (Cons r rows)
  have "rr_last r < x" if "x \<in> set (rows_iter rows)" for x
    using Cons.prems that unfolding rows_iter_set row_set_def by fastforce
  moreover have "rows_iter (r # rows) = [rr_first r..<Suc (rr_last r)] @ rows_iter rows"
    by (simp add: rows_iter_def)
  ultimately show ?case using Cons by (fastforce simp: sorted_append)
qed (simp add: rows_iter_def)

lemma rows_len_iter: "normal_rows rows \<Longrightarrow> rows_len rows = length (rows_iter rows)"
  by (induction rows) (auto simp: rows_len_def rows_iter_def Suc_diff_le)

text \<open>A normal list is determined by its rows.\<close>

lemma normal_head:
  assumes "normal_rows (r # rows)"
  shows "rr_first r \<in> row_set (r # rows)" "\<And>x. x \<in> row_set (r # rows) \<Longrightarrow> rr_first r \<le> x"
    "Suc (rr_last r) \<notin> row_set (r # rows)"
    "\<And>x. rr_first r \<le> x \<Longrightarrow> x \<le> rr_last r \<Longrightarrow> x \<in> row_set (r # rows)"
    "row_set rows = row_set (r # rows) - {..rr_last r}"
  using assms by (auto simp: row_set_def) (fastforce+)?

lemma normal_rows_unique:
  "normal_rows xs \<Longrightarrow> normal_rows ys \<Longrightarrow> row_set xs = row_set ys \<Longrightarrow> xs = ys"
proof (induction xs arbitrary: ys)
  case Nil
  then show ?case using normal_head(1) by (cases ys) auto
next
  case (Cons x xs)
  obtain y ys' where ys: "ys = y # ys'" using Cons.prems normal_head(1) by (cases ys) auto
  have hx: "normal_rows (x # xs)" and hy: "normal_rows (y # ys')"
    and eq: "row_set (x # xs) = row_set (y # ys')" using Cons.prems ys by simp_all
  have first: "rr_first x = rr_first y"
    using normal_head(1,2) [OF hx] normal_head(1,2) [OF hy] unfolding eq by (meson le_antisym)
  have "rr_last x = rr_last y"
  proof (rule le_antisym; rule ccontr)
    assume "\<not> rr_last x \<le> rr_last y"
    then have "Suc (rr_last y) \<in> row_set (x # xs)"
      using normal_head(4) [OF hx, of "Suc (rr_last y)"] hy first by simp
    with normal_head(3) [OF hy] show False unfolding eq by contradiction
  next
    assume "\<not> rr_last y \<le> rr_last x"
    then have "Suc (rr_last x) \<in> row_set (y # ys')"
      using normal_head(4) [OF hy, of "Suc (rr_last x)"] hx first by simp
    with normal_head(3) [OF hx] show False unfolding eq by contradiction
  qed
  with first have "x = y" by simp
  moreover have "row_set xs = row_set ys'"
    using normal_head(5) [OF hx] normal_head(5) [OF hy] eq \<open>x = y\<close> by simp
  ultimately show ?case using Cons.IH [of ys'] hx hy ys by simp
qed

section \<open>Merging\<close>

lemma push_range_normal:
  assumes "normal_rows merged" "rr_first r \<le> rr_last r" "rr_last r \<le> u32_max"
    and "\<forall>b \<in> set merged. rr_first b \<le> rr_first r"
  shows "normal_rows (push_range r merged) \<and> row_set (push_range r merged) = row_set merged \<union> {rr_first r..rr_last r}
    \<and> (\<forall>b \<in> set (push_range r merged). rr_first b \<le> rr_first r)"
proof (cases merged rule: rev_cases)
  case Nil
  with assms show ?thesis by (simp add: push_range_def)
next
  case (snoc ms m)
  have m: "rr_first m \<le> rr_last m" "rr_last m \<le> u32_max" "rr_first m \<le> rr_first r"
    "\<forall>b \<in> set ms. rr_last b + 1 < rr_first m" "normal_rows ms"
    using assms(1,4) snoc by (simp_all add: normal_rows_snoc)
  show ?thesis
  proof (cases "rr_first r \<le> u32_saturating_add (rr_last m) 1")
    case True
    then have touch: "rr_first r \<le> rr_last m + 1" by (simp add: u32_saturating_add_def)
    have "push_range r merged = ms @ [m\<lparr>rr_last := max (rr_last m) (rr_last r)\<rparr>]"
      using True snoc by (simp add: push_range_def)
    then show ?thesis using m assms touch snoc by (auto simp: normal_rows_snoc max_def)
  next
    case False
    then have gap: "rr_last m + 1 < rr_first r"
      using assms(2,3) by (auto simp: u32_saturating_add_def min_def split: if_splits)
    have "push_range r merged = merged @ [r]" using False snoc by (simp add: push_range_def)
    moreover have "\<forall>b \<in> set ms. rr_last b + 1 < rr_first r" using m gap by fastforce
    moreover from this have "normal_rows (merged @ [r])"
      using m assms(1-3) gap snoc by (subst normal_rows_snoc) auto
    ultimately show ?thesis using assms(4) by auto
  qed
qed

lemma merge_ranges_normal:
  assumes "normal_rows ls" "normal_rows rs" "normal_rows merged"
    and "\<forall>b \<in> set merged. \<forall>r \<in> set ls \<union> set rs. rr_first b \<le> rr_first r"
  shows "normal_rows (merge_ranges ls rs merged)
    \<and> row_set (merge_ranges ls rs merged) = row_set merged \<union> row_set ls \<union> row_set rs"
  using assms
proof (induction ls rs merged rule: merge_ranges.induct)
  case (1 merged)
  then show ?case by simp
next
  case (2 l ls merged)
  have head: "\<forall>r \<in> set ls. rr_first l \<le> rr_first r" using "2.prems"(1) by fastforce
  have p: "normal_rows (push_range l merged)"
    "row_set (push_range l merged) = row_set merged \<union> {rr_first l..rr_last l}"
    "\<forall>b \<in> set (push_range l merged). rr_first b \<le> rr_first l"
    using push_range_normal [of merged l] 2(2-) by auto
  have "\<forall>b \<in> set (push_range l merged). \<forall>r \<in> set ls. rr_first b \<le> rr_first r"
    using p(3) head by (meson order_trans)
  with p 2 show ?case by (simp add: Un_ac)
next
  case (3 r rs merged)
  have head: "\<forall>x \<in> set rs. rr_first r \<le> rr_first x" using "3.prems"(2) by fastforce
  have p: "normal_rows (push_range r merged)"
    "row_set (push_range r merged) = row_set merged \<union> {rr_first r..rr_last r}"
    "\<forall>b \<in> set (push_range r merged). rr_first b \<le> rr_first r"
    using push_range_normal [of merged r] 3(2-) by auto
  have "\<forall>b \<in> set (push_range r merged). \<forall>x \<in> set rs. rr_first b \<le> rr_first x"
    using p(3) head by (meson order_trans)
  with p 3 show ?case by (simp add: Un_ac)
next
  case (4 l ls r rs merged)
  have heads: "\<forall>x \<in> set ls. rr_first l \<le> rr_first x" "\<forall>x \<in> set rs. rr_first r \<le> rr_first x"
    using "4.prems"(1,2) by fastforce+
  show ?case
  proof (cases "rr_first l \<le> rr_first r")
    case True
    have p: "normal_rows (push_range l merged)"
      "row_set (push_range l merged) = row_set merged \<union> {rr_first l..rr_last l}"
      "\<forall>b \<in> set (push_range l merged). rr_first b \<le> rr_first l"
      using push_range_normal [of merged l] "4.prems" by auto
    have "\<forall>b \<in> set (push_range l merged). \<forall>x \<in> set ls \<union> set (r # rs). rr_first b \<le> rr_first x"
      using p(3) heads True by (auto, (meson order_trans)+)
    with p "4.IH"(1) [OF True] "4.prems" True show ?thesis by (simp add: Un_ac)
  next
    case False
    have p: "normal_rows (push_range r merged)"
      "row_set (push_range r merged) = row_set merged \<union> {rr_first r..rr_last r}"
      "\<forall>b \<in> set (push_range r merged). rr_first b \<le> rr_first r"
      using push_range_normal [of merged r] "4.prems" by auto
    have "\<forall>b \<in> set (push_range r merged). \<forall>x \<in> set (l # ls) \<union> set rs. rr_first b \<le> rr_first x"
      using p(3) heads False by (auto, (meson order_trans nat_le_linear)+)
    with p "4.IH"(2) [OF False] "4.prems" False show ?thesis by (simp add: Un_ac)
  qed
qed

lemma merge_rows_union:
  assumes "normal_rows xs" "normal_rows ys"
  shows "normal_rows (merge_rows xs ys)" "row_set (merge_rows xs ys) = row_set xs \<union> row_set ys"
  using assms merge_ranges_normal [of xs ys "[]"] by (auto simp: merge_rows_def)

end
