(* ===== verification/Pipeline_Row.thy ===== *)
theory Pipeline_Row
  imports Eyes_Types Source_Rows
begin

text \<open>
  The row the pipeline stages pass on (\<open>RowData\<close> with its boxed \<open>RowEpisodeTiming\<close> in
  \<open>pipeline/model.rs\<close>; an absent box reads as the empty timing). The calendar fields are filled from the local time of the event (\<open>populate_time_columns\<close>), which
  the source takes from the crates \<open>chrono\<close> and \<open>chrono_tz\<close>: a parameter of type \<open>chrono\<close>.
\<close>

section \<open>Calendar\<close>

datatype weekday = Mon | Tue | Wed | Thu | Fri | Sat | Sun

record local_time =
  lt_year :: int
  lt_month :: nat
  lt_day :: nat
  lt_weekday :: weekday
  lt_hour :: nat

record 'tz chrono =
  parse_tz :: "string \<Rightarrow> 'tz option"
  utc_tz :: 'tz
  ts_to_local :: "int \<Rightarrow> 'tz \<Rightarrow> local_time"

fun weekday_chronicle :: "weekday \<Rightarrow> nat" where
  "weekday_chronicle Sun = 1"
| "weekday_chronicle Mon = 2"
| "weekday_chronicle Tue = 3"
| "weekday_chronicle Wed = 4"
| "weekday_chronicle Thu = 5"
| "weekday_chronicle Fri = 6"
| "weekday_chronicle Sat = 7"

text \<open>Decimal digits, and the padding of \<open>{:02}\<close> and \<open>{:04}\<close> (a minus sign counts towards the width).\<close>

fun decimal :: "nat \<Rightarrow> string" where
  "decimal n = (if n < 10 then [char_of (48 + n)] else decimal (n div 10) @ [char_of (48 + n mod 10)])"

declare decimal.simps [simp del]

definition pad_left :: "nat \<Rightarrow> string \<Rightarrow> string" where
  "pad_left width digits = replicate (width - length digits) CHR ''0'' @ digits"

definition pad_int :: "nat \<Rightarrow> int \<Rightarrow> string" where
  "pad_int width n =
     (if n < 0 then CHR ''-'' # pad_left (width - 1) (decimal (nat (- n)))
      else pad_left width (decimal (nat n)))"

definition date_string :: "int \<Rightarrow> nat \<Rightarrow> nat \<Rightarrow> string" where
  "date_string year month day =
     pad_int 4 year @ ''-'' @ pad_left 2 (decimal month) @ ''-'' @ pad_left 2 (decimal day)"

section \<open>Rows\<close>

record lineage_search =
  ls_reason :: string
  ls_start_participant :: string
  ls_start_index :: nat
  ls_end_index :: nat
  ls_candidate_count :: nat

datatype endpoint_reason = MaximumDurationTruncationBoundary

record episode_timing =
  et_start :: "int option"
  et_stop :: "int option"
  et_duration_seconds :: "rat option"
  et_duration_minutes :: "rat option"
  et_raw_start :: "int option"
  et_raw_stop :: "int option"
  et_raw_duration_ns :: "int option"
  et_minimum_qualified :: "bool option"
  et_aggregate_eligible :: bool
  et_minimum_blank_applied :: bool
  et_subinterval_floor_blank_applied :: bool
  et_minimum_drop_pending :: bool
  et_maximum_qualified :: "bool option"
  et_maximum_aggregate_eligible :: bool
  et_maximum_drop_pending :: bool
  et_maximum_trimmed_ns :: "int option"
  et_effective_endpoint_reason :: "endpoint_reason option"
  et_last_activity :: "int option"
  et_tail_gap_seconds :: "rat option"

definition empty_timing :: episode_timing where
  "empty_timing =
     \<lparr>et_start = None, et_stop = None, et_duration_seconds = None, et_duration_minutes = None,
      et_raw_start = None, et_raw_stop = None, et_raw_duration_ns = None, et_minimum_qualified = None,
      et_aggregate_eligible = True, et_minimum_blank_applied = False,
      et_subinterval_floor_blank_applied = False, et_minimum_drop_pending = False,
      et_maximum_qualified = None, et_maximum_aggregate_eligible = True, et_maximum_drop_pending = False,
      et_maximum_trimmed_ns = None, et_effective_endpoint_reason = None, et_last_activity = None,
      et_tail_gap_seconds = None\<rparr>"

datatype micro_use_classification = MicroUse | NotMicroUse | NotClassifiable

datatype schoedel_completion =
    LastPackageEventBeforeDifferentApp
  | LastPackageEventBeforeScreenEnd
  | SingletonZeroLength
  | RightCensoredScreenInterval

record pipeline_row =
  row_source_data_rows :: source_data_rows
  row_lineage_searches :: "lineage_search list"
  row_study_id :: string
  row_participant_id :: string
  row_possible_device_model :: string
  row_username :: string
  row_application_label :: string
  row_interaction_type :: string
  row_app_package_name :: string
  row_event_timestamp_ns :: int
  row_timezone :: string
  row_data_time_gap_hours :: rat
  row_date :: string
  row_day :: nat
  row_weekday_mf :: nat
  row_weekday_mth :: nat
  row_weekday_su_th :: nat
  row_hour :: nat
  row_quarter :: nat
  row_timing :: episode_timing
  row_micro_use_classification :: "micro_use_classification option"
  row_end_reason :: "string option"
  row_app_usage_end_reason :: "string option"
  row_screen_interval_id :: "string option"
  row_schoedel_completion :: "schoedel_completion option"
  row_usage_session_id :: "int option"
  row_end_reason_confidence :: "rat option"
  row_stop_event_type :: "string option"
  row_foreground_app :: "string option"
  row_app_observed :: "bool option"
  row_session_classification :: "string option"
  row_forcing_label :: "string option"
  row_lock_screen_only :: "nat option"
  row_any_app_usage_flags :: string
  row_valid_app_new_engage_30s :: int
  row_valid_app_new_engage_custom :: int
  row_valid_app_switched_app :: int
  row_valid_app_usage_time_gap_hours :: rat
  row_any_app_new_engage_30s :: int
  row_any_app_new_engage_custom :: int
  row_any_app_switched_app :: int
  row_any_app_usage_time_gap_hours :: rat
  row_genre_id_scraped :: "string option"
  row_broad_app_category :: "string option"
  row_codebook_fields :: "string option list"
  row_codebook_genre_fields_cleared :: "nat list option"
  row_index :: nat
  row_usage_layer :: "string option"

text \<open>A raw event before any stage: every derived column empty.\<close>

definition event_row :: "string \<Rightarrow> string \<Rightarrow> string \<Rightarrow> int \<Rightarrow> nat \<Rightarrow> pipeline_row" where
  "event_row participant kind package timestamp data_row =
     \<lparr>row_source_data_rows = single_row data_row, row_lineage_searches = [], row_study_id = [],
      row_participant_id = participant, row_possible_device_model = [], row_username = [],
      row_application_label = [], row_interaction_type = kind, row_app_package_name = package,
      row_event_timestamp_ns = timestamp, row_timezone = ''UTC'', row_data_time_gap_hours = 0, row_date = [],
      row_day = 0, row_weekday_mf = 0, row_weekday_mth = 0, row_weekday_su_th = 0, row_hour = 0,
      row_quarter = 0, row_timing = empty_timing, row_micro_use_classification = None, row_end_reason = None,
      row_app_usage_end_reason = None, row_screen_interval_id = None, row_schoedel_completion = None,
      row_usage_session_id = None, row_end_reason_confidence = None, row_stop_event_type = None,
      row_foreground_app = None, row_app_observed = None, row_session_classification = None,
      row_forcing_label = None, row_lock_screen_only = None, row_any_app_usage_flags = [],
      row_valid_app_new_engage_30s = 0, row_valid_app_new_engage_custom = 0, row_valid_app_switched_app = 0,
      row_valid_app_usage_time_gap_hours = 0, row_any_app_new_engage_30s = 0,
      row_any_app_new_engage_custom = 0, row_any_app_switched_app = 0, row_any_app_usage_time_gap_hours = 0,
      row_genre_id_scraped = None, row_broad_app_category = None, row_codebook_fields = [],
      row_codebook_genre_fields_cleared = None, row_index = 0, row_usage_layer = None\<rparr>"

abbreviation row_start :: "pipeline_row \<Rightarrow> int option" where
  "row_start r \<equiv> et_start (row_timing r)"

abbreviation row_stop :: "pipeline_row \<Rightarrow> int option" where
  "row_stop r \<equiv> et_stop (row_timing r)"

definition populate_time_columns :: "'tz chrono \<Rightarrow> 'tz \<Rightarrow> pipeline_row \<Rightarrow> pipeline_row" where
  "populate_time_columns chrono tz r =
     (let local = ts_to_local chrono (row_event_timestamp_ns r) tz;
          day = weekday_chronicle (lt_weekday local)
      in r\<lparr>row_date := date_string (lt_year local) (lt_month local) (lt_day local),
           row_day := day,
           row_weekday_mf := (if 2 \<le> day \<and> day \<le> 6 then 1 else 0),
           row_weekday_mth := (if 2 \<le> day \<and> day \<le> 5 then 1 else 0),
           row_weekday_su_th := (if day = 1 \<or> 2 \<le> day \<and> day \<le> 5 then 1 else 0),
           row_hour := lt_hour local mod 256,
           row_quarter := (lt_month local - 1) div 3 + 1\<rparr>)"

definition timezone_or_utc :: "'tz chrono \<Rightarrow> string \<Rightarrow> 'tz" where
  "timezone_or_utc chrono name = (case parse_tz chrono name of None \<Rightarrow> utc_tz chrono | Some tz \<Rightarrow> tz)"

text \<open>\<open>push_row_flag\<close>: the flags column is a printed list; a value that is no such list is replaced.\<close>

definition push_row_flag :: "string \<Rightarrow> pipeline_row \<Rightarrow> pipeline_row" where
  "push_row_flag flag r =
     (let current = row_any_app_usage_flags r;
          body = butlast current;
          flags = (if current \<noteq> [] \<and> last current = CHR '']'' \<and> body \<noteq> ''[''
                   then body @ '', '' @ [CHR 0x27] @ flag @ [CHR 0x27] @ '']''
                   else ''['' @ [CHR 0x27] @ flag @ [CHR 0x27] @ '']'')
      in r\<lparr>row_any_app_usage_flags := flags\<rparr>)"

text \<open>A calendar that knows only the first of January 1970 in UTC, for the concrete inputs.\<close>

definition sample_chrono :: "unit chrono" where
  "sample_chrono =
     \<lparr>parse_tz = Map.empty, utc_tz = (),
      ts_to_local = \<lambda>t tz. \<lparr>lt_year = 1970, lt_month = 1, lt_day = 1, lt_weekday = Thu, lt_hour = 0\<rparr>\<rparr>"

section \<open>Facts\<close>

lemma populate_keeps [simp]:
  "row_timing (populate_time_columns chrono tz r) = row_timing r"
  "row_participant_id (populate_time_columns chrono tz r) = row_participant_id r"
  "row_app_package_name (populate_time_columns chrono tz r) = row_app_package_name r"
  "row_interaction_type (populate_time_columns chrono tz r) = row_interaction_type r"
  "row_event_timestamp_ns (populate_time_columns chrono tz r) = row_event_timestamp_ns r"
  "row_source_data_rows (populate_time_columns chrono tz r) = row_source_data_rows r"
  by (simp_all add: populate_time_columns_def Let_def)

lemma push_row_flag_keeps [simp]:
  "row_timing (push_row_flag flag r) = row_timing r"
  "row_participant_id (push_row_flag flag r) = row_participant_id r"
  "row_app_package_name (push_row_flag flag r) = row_app_package_name r"
  by (simp_all add: push_row_flag_def Let_def)

section \<open>Event vocabularies\<close>

definition screen_start_events :: "string list" where
  "screen_start_events = [''Screen Interactive'', ''Screen Interactive/Keyguard Shown'']"

definition screen_stop_events :: "string list" where
  "screen_stop_events =
     [''Screen Non-Interactive'', ''Device Screen Off'', ''Screen Non-Interactive/Keyguard Hidden'',
      ''Screen Non-Interactive/Manual Hardware Button'', ''Screen Non-Interactive/Aborted Unlock'',
      ''Screen Non-Interactive/Idle Timeout'']"

definition lock_screen_events :: "string list" where
  "lock_screen_events = [''Keyguard Shown'', ''Screen Interactive/Keyguard Shown'']"

definition unlock_events :: "string list" where
  "unlock_events = [''Keyguard Hidden'', ''User Unlocked'', ''Screen Non-Interactive/Keyguard Hidden'']"

definition foreground_events :: "string list" where
  "foreground_events = [''Activity Resumed'', ''Filtered App Resumed'']"

definition meaningful_activity_events :: "string list" where
  "meaningful_activity_events =
     [''Activity Resumed'', ''Filtered App Resumed'', ''User Interaction'', ''Shortcut Invocation'',
      ''Chooser Action'', ''App Component Used'', ''User Unlocked'', ''Keyguard Hidden'']"

end
