(* ===== verification/Interval_Search.thy ===== *)
theory Interval_Search
  imports Prelude
begin

text \<open>
  Binary search as the stages use it: \<open>bisect_left\<close> and \<open>bisect_right\<close> of
  \<open>pipeline/stages/credit.rs\<close>, and \<open>slice::partition_point\<close>, which on a partitioned slice is the same
  search. The loop halves the window between \<open>low\<close> and \<open>high\<close>; on a partitioned list it returns the
  number of elements below the target.
\<close>

section \<open>The search\<close>

function search_loop :: "(nat \<Rightarrow> bool) \<Rightarrow> nat \<Rightarrow> nat \<Rightarrow> nat" where
  "search_loop below low high =
     (if low < high
      then (let middle = (low + high) div 2 in
            if below middle then search_loop below (Suc middle) high
            else search_loop below low middle)
      else low)"
  by pat_completeness auto

termination search_loop
  by (relation "measure (\<lambda>(_, low, high). high - low)") auto

declare search_loop.simps [simp del]

definition bisect_left :: "int list \<Rightarrow> int \<Rightarrow> nat" where
  "bisect_left vals target = search_loop (\<lambda>i. vals ! i < target) 0 (length vals)"

definition bisect_right :: "int list \<Rightarrow> int \<Rightarrow> nat" where
  "bisect_right vals target = search_loop (\<lambda>i. vals ! i \<le> target) 0 (length vals)"

definition partition_point :: "('a \<Rightarrow> bool) \<Rightarrow> 'a list \<Rightarrow> nat" where
  "partition_point P xs = search_loop (\<lambda>i. P (xs ! i)) 0 (length xs)"

section \<open>Its result\<close>

lemma search_loop_split:
  assumes "low \<le> high" "\<forall>i < low. below i" "\<forall>i \<ge> high. i < n \<longrightarrow> \<not> below i" "high \<le> n"
    and "\<And>i j. i < j \<Longrightarrow> j < n \<Longrightarrow> below j \<Longrightarrow> below i"
  shows "search_loop below low high \<le> n \<and> (\<forall>i < search_loop below low high. below i)
    \<and> (\<forall>i \<ge> search_loop below low high. i < n \<longrightarrow> \<not> below i)"
  using assms
proof (induction below low high rule: search_loop.induct)
  case (1 below low high)
  show ?case
  proof (cases "low < high")
    case True
    define middle where "middle = (low + high) div 2"
    have m: "low \<le> middle" "middle < high" using True by (auto simp: middle_def)
    have unfold: "search_loop below low high =
        (if below middle then search_loop below (Suc middle) high else search_loop below low middle)"
      using True by (subst search_loop.simps) (simp add: middle_def Let_def)
    show ?thesis
    proof (cases "below middle")
      case True
      have "\<forall>i < Suc middle. below i" using 1(7) [of _ middle] True m "1.prems"(4) by (auto simp: less_Suc_eq)
      with "1.IH"(1) [OF \<open>low < high\<close> middle_def True] "1.prems" m show ?thesis
        unfolding unfold by (simp add: True)
    next
      case False
      have "\<forall>i \<ge> middle. i < n \<longrightarrow> \<not> below i" using 1(7) [of middle] False by (metis le_neq_implies_less)
      with "1.IH"(2) [OF \<open>low < high\<close> middle_def False] "1.prems" m show ?thesis
        unfolding unfold by (simp add: False)
    qed
  next
    case False
    then have "low = high" using "1.prems"(1) by simp
    then show ?thesis using "1.prems" by (subst search_loop.simps, simp)+
  qed
qed

lemma partition_point_split:
  assumes "\<And>i j. i < j \<Longrightarrow> j < length xs \<Longrightarrow> P (xs ! j) \<Longrightarrow> P (xs ! i)"
  shows "partition_point P xs \<le> length xs" "\<forall>i < partition_point P xs. P (xs ! i)"
    "\<forall>i \<ge> partition_point P xs. i < length xs \<longrightarrow> \<not> P (xs ! i)"
proof -
  have "partition_point P xs \<le> length xs \<and> (\<forall>i < partition_point P xs. P (xs ! i))
      \<and> (\<forall>i \<ge> partition_point P xs. i < length xs \<longrightarrow> \<not> P (xs ! i))"
    unfolding partition_point_def
  proof (rule search_loop_split)
    fix i j assume "i < j" "j < length xs" "P (xs ! j)"
    then show "P (xs ! i)" by (rule assms)
  qed simp_all
  then show "partition_point P xs \<le> length xs" "\<forall>i < partition_point P xs. P (xs ! i)"
    "\<forall>i \<ge> partition_point P xs. i < length xs \<longrightarrow> \<not> P (xs ! i)" by blast+
qed

lemma length_takeWhile_eqI:
  assumes "k \<le> length xs" "\<And>i. i < k \<Longrightarrow> P (xs ! i)" "k < length xs \<Longrightarrow> \<not> P (xs ! k)"
  shows "length (takeWhile P xs) = k"
  using assms
proof (induction xs arbitrary: k)
  case (Cons x xs)
  show ?case
  proof (cases k)
    case 0
    with Cons.prems(3) show ?thesis by simp
  next
    case (Suc k')
    have "length (takeWhile P xs) = k'"
    proof (rule Cons.IH)
      show "P (xs ! i)" if "i < k'" for i using Cons.prems(2) [of "Suc i"] Suc that by simp
    qed (use Cons.prems(1,3) Suc in auto)
    moreover have "P x" using Cons.prems(2) [of 0] Suc by simp
    ultimately show ?thesis using Suc by simp
  qed
qed simp

lemma partition_point_takeWhile:
  assumes "\<And>i j. i < j \<Longrightarrow> j < length xs \<Longrightarrow> P (xs ! j) \<Longrightarrow> P (xs ! i)"
  shows "partition_point P xs = length (takeWhile P xs)"
proof (rule sym, rule length_takeWhile_eqI)
  show "partition_point P xs \<le> length xs" by (rule partition_point_split(1)) (rule assms)
  show "P (xs ! i)" if "i < partition_point P xs" for i
    using partition_point_split(2) [of xs P] assms that by blast
  show "\<not> P (xs ! partition_point P xs)" if "partition_point P xs < length xs"
    using partition_point_split(3) [of xs P] assms that by blast
qed

lemma partition_point_sorted:
  fixes f :: "'a \<Rightarrow> 'b::linorder"
  assumes "sorted (map f xs)"
  shows "partition_point (\<lambda>x. f x \<le> t) xs = length (takeWhile (\<lambda>x. f x \<le> t) xs)"
    "partition_point (\<lambda>x. f x < t) xs = length (takeWhile (\<lambda>x. f x < t) xs)"
proof -
  have mono: "f (xs ! i) \<le> f (xs ! j)" if "i < j" "j < length xs" for i j
    using sorted_nth_mono [OF assms, of i j] that by simp
  show "partition_point (\<lambda>x. f x \<le> t) xs = length (takeWhile (\<lambda>x. f x \<le> t) xs)"
    using mono by (intro partition_point_takeWhile) (meson order_trans)
  show "partition_point (\<lambda>x. f x < t) xs = length (takeWhile (\<lambda>x. f x < t) xs)"
    using mono by (intro partition_point_takeWhile) (meson le_less_trans)
qed

lemma bisect_partition:
  "bisect_left vals t = partition_point (\<lambda>x. x < t) vals"
  "bisect_right vals t = partition_point (\<lambda>x. x \<le> t) vals"
  by (simp_all add: bisect_left_def bisect_right_def partition_point_def)

lemma bisect_sorted:
  assumes "sorted vals"
  shows "bisect_left vals t = length (takeWhile (\<lambda>x. x < t) vals)"
    "bisect_right vals t = length (takeWhile (\<lambda>x. x \<le> t) vals)"
  using partition_point_sorted [of "\<lambda>x. x" vals t] assms by (simp_all add: bisect_partition)

lemma drop_takeWhile_length: "drop (length (takeWhile P xs)) xs = dropWhile P xs"
  by (metis append_eq_conv_conj takeWhile_dropWhile_id)

lemma take_takeWhile_length: "take (length (takeWhile P xs)) xs = takeWhile P xs"
  by (metis append_eq_conv_conj takeWhile_dropWhile_id)

end
