(* ===== verification/Alive_Spans.thy ===== *)
theory Alive_Spans
  imports Eyes_Types Interval_Cut Interval_Search
begin

text \<open>
  The spans in which a device was demonstrably alive (\<open>build_alive_spans\<close>, \<open>clip_alive_spans\<close> and the
  reference \<open>reference_alive_intervals\<close> of \<open>pipeline/stages/credit.rs\<close>): runs of event timestamps no two
  neighbours of which are further apart than the tolerance or separated by a boot. The spans are built
  once per participant and clipped to each session; the reference rebuilds them from the timestamps
  around the session. Both give the same intervals.
\<close>

section \<open>Definitions\<close>

type_synonym credit_interval = "int \<times> int"

definition booted :: "int list \<Rightarrow> int \<Rightarrow> int \<Rightarrow> bool" where
  "booted boots left right \<longleftrightarrow>
     (let i = bisect_right boots left
      in i < length boots \<and> boots ! i \<le> i64_saturating_add right 10000000000)"

definition joined :: "int \<Rightarrow> int list \<Rightarrow> int \<Rightarrow> int \<Rightarrow> bool" where
  "joined tolerance_ns boots last_time timestamp \<longleftrightarrow>
     i64_saturating_sub timestamp last_time \<le> tolerance_ns \<and> \<not> booted boots last_time timestamp"

definition alive_step ::
    "int \<Rightarrow> int list \<Rightarrow> int \<Rightarrow> credit_interval list \<times> int \<times> int \<Rightarrow> credit_interval list \<times> int \<times> int" where
  "alive_step tolerance_ns boots timestamp = (\<lambda>(spans, span_start, last_time).
     if joined tolerance_ns boots last_time timestamp then (spans, span_start, timestamp)
     else (spans @ [(span_start, last_time)], timestamp, timestamp))"

definition build_alive_spans :: "int list \<Rightarrow> int \<Rightarrow> int list \<Rightarrow> credit_interval list" where
  "build_alive_spans timestamps tolerance_ns boots =
     (case timestamps of
        [] \<Rightarrow> []
      | first # rest \<Rightarrow>
          (case fold (alive_step tolerance_ns boots) rest ([], first, first) of
             (spans, span_start, last_time) \<Rightarrow> spans @ [(span_start, last_time)]))"

definition clip_interval :: "int \<Rightarrow> int \<Rightarrow> credit_interval \<Rightarrow> credit_interval option" where
  "clip_interval start end_time = (\<lambda>(left, right).
     let left = max left start; right = min right end_time
     in if left < right then Some (left, right) else None)"

definition clip_alive_spans :: "credit_interval list \<Rightarrow> int \<Rightarrow> int \<Rightarrow> credit_interval list" where
  "clip_alive_spans spans start end_time =
     List.map_filter (clip_interval start end_time)
       (takeWhile (\<lambda>s. fst s < end_time)
         (drop (partition_point (\<lambda>s. snd s \<le> start) spans) spans))"

text \<open>The reference slices the timestamps first; a slice with its bounds crossed panics.\<close>

definition reference_alive_intervals ::
    "int list \<Rightarrow> int \<Rightarrow> int \<Rightarrow> int \<Rightarrow> int list \<Rightarrow> credit_interval list option" where
  "reference_alive_intervals timestamps start end_time tolerance_ns boots =
     (let lower = bisect_left timestamps (i64_saturating_sub start tolerance_ns);
          upper = bisect_right timestamps (i64_saturating_add end_time tolerance_ns)
      in if upper < lower then None
         else Some (List.map_filter (clip_interval start end_time)
                     (build_alive_spans (take (upper - lower) (drop lower timestamps)) tolerance_ns boots)))"

section \<open>The spans by recursion\<close>

fun alive_from :: "int \<Rightarrow> int list \<Rightarrow> int \<Rightarrow> int \<Rightarrow> int list \<Rightarrow> credit_interval list" where
  "alive_from tol boots s l [] = [(s, l)]"
| "alive_from tol boots s l (t # ts) =
     (if joined tol boots l t then alive_from tol boots s t ts else (s, l) # alive_from tol boots t t ts)"

lemma alive_fold:
  "(case fold (alive_step tol boots) ts (spans, s, l) of (spans, s, l) \<Rightarrow> spans @ [(s, l)])
    = spans @ alive_from tol boots s l ts"
  by (induction ts arbitrary: spans s l) (simp_all add: alive_step_def)

lemma build_alive_from:
  "build_alive_spans ts tol boots = (case ts of [] \<Rightarrow> [] | t # ts \<Rightarrow> alive_from tol boots t t ts)"
proof (cases ts)
  case (Cons t ts')
  then show ?thesis
    using alive_fold [of tol boots ts' "[]" t t] by (auto simp: build_alive_spans_def split: prod.splits)
qed (simp add: build_alive_spans_def)

lemma alive_from_ordered:
  assumes "sorted (l # ts)" "s \<le> l"
  shows "sorted_wrt (\<lambda>a b. snd a \<le> fst b) (alive_from tol boots s l ts)
    \<and> (\<forall>p \<in> set (alive_from tol boots s l ts). s \<le> fst p \<and> fst p \<le> snd p)"
  using assms
proof (induction ts arbitrary: s l)
  case (Cons t ts)
  have t: "l \<le> t" "sorted (t # ts)" using Cons.prems by auto
  show ?case
  proof (cases "joined tol boots l t")
    case True
    with Cons.IH [of t s] t Cons.prems(2) show ?thesis by simp
  next
    case False
    with Cons.IH [of t t] t Cons.prems(2) show ?thesis by fastforce
  qed
qed simp

lemma alive_spans_ordered:
  assumes "sorted ts"
  shows "sorted_wrt (\<lambda>a b. snd a \<le> fst b) (build_alive_spans ts tol boots)"
    "\<forall>p \<in> set (build_alive_spans ts tol boots). fst p \<le> snd p"
proof -
  have "sorted_wrt (\<lambda>a b. snd a \<le> fst b) (build_alive_spans ts tol boots)
      \<and> (\<forall>p \<in> set (build_alive_spans ts tol boots). fst p \<le> snd p)"
  proof (cases ts)
    case (Cons t ts')
    then show ?thesis using alive_from_ordered [of t ts' t tol boots] assms by (simp add: build_alive_from)
  qed (simp add: build_alive_from)
  then show "sorted_wrt (\<lambda>a b. snd a \<le> fst b) (build_alive_spans ts tol boots)"
    "\<forall>p \<in> set (build_alive_spans ts tol boots). fst p \<le> snd p" by blast+
qed

section \<open>Clipping\<close>

abbreviation clips :: "int \<Rightarrow> int \<Rightarrow> credit_interval list \<Rightarrow> credit_interval list" where
  "clips start end_time spans \<equiv> List.map_filter (clip_interval start end_time) spans"

lemma clip_interval_None: "b \<le> start \<or> end_time \<le> a \<or> b \<le> a \<Longrightarrow> clip_interval start end_time (a, b) = None"
  by (auto simp: clip_interval_def Let_def)

lemma clip_interval_Some:
  "clip_interval start end_time (a, b) = Some p \<longleftrightarrow>
     p = (max a start, min b end_time) \<and> max a start < min b end_time"
  by (auto simp: clip_interval_def Let_def)

lemma clips_dropWhile:
  "(\<And>x. P x \<Longrightarrow> clip_interval start end_time x = None) \<Longrightarrow>
     clips start end_time (dropWhile P xs) = clips start end_time xs"
  by (induction xs) (auto simp: List.map_filter_simps)

lemma clips_takeWhile:
  assumes "sorted_wrt (\<lambda>a b. snd a \<le> fst b) xs" "\<forall>p \<in> set xs. fst p \<le> snd p"
  shows "clips start end_time (takeWhile (\<lambda>s. fst s < end_time) xs) = clips start end_time xs"
  using assms
proof (induction xs)
  case (Cons x xs)
  obtain a b where x: "x = (a, b)" by (cases x)
  show ?case
  proof (cases "a < end_time")
    case False
    have "clip_interval start end_time y = None" if "y \<in> set (x # xs)" for y
    proof -
      have "end_time \<le> fst y" using that Cons.prems(1,2) False by (auto simp: x)
      then show ?thesis by (cases y) (simp add: clip_interval_None)
    qed
    then have "clips start end_time (x # xs) = []" by (auto simp: List.map_filter_def filter_empty_conv)
    with False show ?thesis by (simp add: x List.map_filter_simps)
  qed (use Cons x in \<open>auto simp: List.map_filter_simps split: option.split\<close>)
qed (simp add: List.map_filter_simps)

lemma sorted_snd:
  fixes xs :: "credit_interval list"
  shows "sorted_wrt (\<lambda>a b. snd a \<le> fst b) xs \<Longrightarrow> \<forall>p \<in> set xs. fst p \<le> snd p \<Longrightarrow> sorted (map snd xs)"
  by (induction xs) (auto, force)

text \<open>Clipping is what it says, whatever the searches skip.\<close>

lemma clip_alive_spans_clips:
  assumes "sorted_wrt (\<lambda>a b. snd a \<le> fst b) spans" "\<forall>p \<in> set spans. fst p \<le> snd p"
  shows "clip_alive_spans spans start end_time = clips start end_time spans"
proof -
  let ?rest = "dropWhile (\<lambda>s. snd s \<le> start) spans"
  have "drop (partition_point (\<lambda>s. snd s \<le> start) spans) spans = ?rest"
    by (simp add: partition_point_sorted(1) [OF sorted_snd [OF assms]] drop_takeWhile_length)
  moreover have "sorted_wrt (\<lambda>a b. snd a \<le> fst b) ?rest"
    using assms(1) by (metis sorted_wrt_append takeWhile_dropWhile_id)
  moreover have "\<forall>p \<in> set ?rest. fst p \<le> snd p" using assms(2) by (meson set_dropWhileD)
  moreover have "clips start end_time ?rest = clips start end_time spans"
    by (rule clips_dropWhile) (auto intro: clip_interval_None)
  ultimately show ?thesis by (simp add: clip_alive_spans_def clips_takeWhile)
qed

section \<open>The reference builds the same intervals\<close>

text \<open>Before the session: where a span starts does not matter, and a timestamp too early to be within
  tolerance of the session contributes nothing.\<close>

lemma clips_from_start:
  assumes "s \<le> start" "s' \<le> start"
  shows "clips start end_time (alive_from tol boots s l ts) = clips start end_time (alive_from tol boots s' l ts)"
  using assms
proof (induction ts arbitrary: l s s')
  case Nil
  then show ?case by (simp add: List.map_filter_simps clip_interval_def max_def)
next
  case (Cons t ts)
  have "clip_interval start end_time (s, l) = clip_interval start end_time (s', l)"
    using Cons.prems by (simp add: clip_interval_def max_def)
  moreover have "clips start end_time (alive_from tol boots s t ts)
      = clips start end_time (alive_from tol boots s' t ts)" by (rule Cons.IH [OF Cons.prems])
  ultimately show ?case by (simp add: List.map_filter_simps)
qed

definition exact_tolerance :: "int list \<Rightarrow> int \<Rightarrow> int \<Rightarrow> int \<Rightarrow> bool" where
  "exact_tolerance ts start end_time tol \<longleftrightarrow>
     sorted ts \<and> (\<forall>t \<in> set ts. epoch_ns t) \<and> epoch_ns start \<and> epoch_ns end_time \<and> 0 \<le> tol \<and> tol \<le> i64_max"

lemma joined_near: "epoch_ns l \<Longrightarrow> epoch_ns t \<Longrightarrow> joined tol boots l t \<Longrightarrow> t \<le> l + tol"
  by (simp add: joined_def i64_saturating_sub_def clamp_i64_id epoch_diff)

lemma clips_drop_early:
  assumes "exact_tolerance (x # ts) start end_time tol" "x + tol < start"
  shows "clips start end_time (build_alive_spans (x # ts) tol boots) = clips start end_time (build_alive_spans ts tol boots)"
proof (cases ts)
  case Nil
  then show ?thesis
    using assms by (simp add: build_alive_from List.map_filter_simps clip_interval_None)
next
  case (Cons y ys)
  show ?thesis
  proof (cases "joined tol boots x y")
    case True
    then have "y \<le> x + tol" using joined_near assms(1) Cons by (simp add: exact_tolerance_def)
    moreover have "0 \<le> tol" using assms(1) by (simp add: exact_tolerance_def)
    ultimately have "x \<le> start" "y \<le> start" using assms(2) by linarith+
    from clips_from_start [OF this] True show ?thesis by (simp add: build_alive_from Cons)
  next
    case False
    then show ?thesis by (simp add: build_alive_from Cons List.map_filter_simps clip_interval_None)
  qed
qed

lemma clips_drop_prefix:
  assumes "exact_tolerance (xs @ ts) start end_time tol" "\<forall>x \<in> set xs. x + tol < start"
  shows "clips start end_time (build_alive_spans (xs @ ts) tol boots)
    = clips start end_time (build_alive_spans ts tol boots)"
  using assms
proof (induction xs)
  case (Cons x xs)
  have "exact_tolerance (xs @ ts) start end_time tol" using Cons.prems(1) by (simp add: exact_tolerance_def)
  with Cons clips_drop_early [of x "xs @ ts" start end_time tol boots] show ?case by simp
qed simp

text \<open>After the session: a timestamp too late extends at most a span that already reaches its end.\<close>

lemma clips_drop_late:
  assumes "\<forall>t \<in> set (l # ts @ [y]). epoch_ns t" "end_time + tol < y" "0 \<le> tol"
  shows "clips start end_time (alive_from tol boots s l (ts @ [y])) = clips start end_time (alive_from tol boots s l ts)"
  using assms
proof (induction ts arbitrary: s l)
  case Nil
  show ?case
  proof (cases "joined tol boots l y")
    case True
    then have "y \<le> l + tol" using joined_near Nil.prems(1) by simp
    then have "end_time < l" "end_time < y" using Nil.prems(2,3) by linarith+
    then have "clip_interval start end_time (s, y) = clip_interval start end_time (s, l)"
      by (simp add: clip_interval_def min_def)
    with True show ?thesis by (simp add: List.map_filter_simps)
  next
    case False
    then show ?thesis
      using clip_interval_None [of y start end_time y] by (simp add: List.map_filter_simps split: option.split)
  qed
next
  case (Cons t ts)
  have "clips start end_time (alive_from tol boots s' l' (ts @ [y]))
      = clips start end_time (alive_from tol boots s' l' ts)" if "l' \<in> {l, t}" for s' l'
    using Cons that by (intro Cons.IH) auto
  then show ?case by (simp add: List.map_filter_simps split: option.split)
qed

lemma clips_drop_suffix:
  assumes "exact_tolerance (ts @ ys) start end_time tol" "\<forall>y \<in> set ys. end_time + tol < y"
  shows "clips start end_time (build_alive_spans (ts @ ys) tol boots)
    = clips start end_time (build_alive_spans ts tol boots)"
  using assms
proof (induction ys rule: rev_induct)
  case (snoc y ys)
  have pre: "exact_tolerance (ts @ ys) start end_time tol"
    using snoc.prems(1) by (auto simp: exact_tolerance_def sorted_append)
  have "clips start end_time (build_alive_spans ((ts @ ys) @ [y]) tol boots)
      = clips start end_time (build_alive_spans (ts @ ys) tol boots)"
  proof (cases "ts @ ys")
    case Nil
    have "end_time \<le> y" using snoc.prems by (simp add: exact_tolerance_def)
    with Nil show ?thesis by (simp add: build_alive_from List.map_filter_simps clip_interval_None)
  next
    case (Cons l rest)
    have "set (l # rest @ [y]) = set (ts @ ys @ [y])" using Cons by (metis append_Cons append_assoc)
    then have "\<forall>t \<in> set (l # rest @ [y]). epoch_ns t" "0 \<le> tol" "end_time + tol < y"
      using snoc.prems unfolding exact_tolerance_def by auto
    then have "clips start end_time (alive_from tol boots l l (rest @ [y]))
        = clips start end_time (alive_from tol boots l l rest)" by (intro clips_drop_late)
    then show ?thesis by (simp add: Cons build_alive_from del: append_assoc)
  qed
  with snoc.IH [OF pre] snoc.prems(2) show ?case by simp
qed simp

lemma sat_bounds:
  assumes "exact_tolerance ts start end_time tol" "t \<in> set ts"
  shows "t < i64_saturating_sub start tol \<longleftrightarrow> t + tol < start"
    "t \<le> i64_saturating_add end_time tol \<longleftrightarrow> t \<le> end_time + tol"
  using assms by (auto simp: exact_tolerance_def epoch_ns_def i64_saturating_sub_def
      i64_saturating_add_def clamp_i64_def i64_min_def i64_max_def)

lemma reference_alive_same:
  assumes tol: "exact_tolerance ts start end_time tol" and window: "start \<le> end_time"
  shows "reference_alive_intervals ts start end_time tol boots
    = Some (clip_alive_spans (build_alive_spans ts tol boots) start end_time)"
proof -
  let ?P = "\<lambda>t. t < i64_saturating_sub start tol" and ?Q = "\<lambda>t. t \<le> i64_saturating_add end_time tol"
  define pre where "pre = takeWhile ?P ts"
  define rest where "rest = dropWhile ?P ts"
  define mid where "mid = takeWhile ?Q rest"
  have ts: "ts = pre @ rest" by (simp add: pre_def rest_def)
  have rest: "rest = mid @ dropWhile ?Q rest" by (simp add: mid_def)
  have sorted: "sorted ts" using tol by (simp add: exact_tolerance_def)
  have preP: "\<forall>t \<in> set pre. t + tol < start"
    using sat_bounds(1) [OF tol] unfolding pre_def by (meson set_takeWhileD)
  have preQ: "\<forall>t \<in> set pre. ?Q t"
    using preP sat_bounds(2) [OF tol] window ts tol by (fastforce simp: exact_tolerance_def)
  have lower: "bisect_left ts (i64_saturating_sub start tol) = length pre"
    by (simp add: bisect_sorted(1) [OF sorted] pre_def)
  have "takeWhile ?Q ts = pre @ mid" unfolding mid_def using preQ by (simp add: ts)
  then have upper: "bisect_right ts (i64_saturating_add end_time tol) = length pre + length mid"
    by (simp add: bisect_sorted(2) [OF sorted])
  have slice: "take (length mid) (drop (length pre) ts) = mid"
    unfolding ts using rest by (metis append_eq_conv_conj)
  have tol_rest: "exact_tolerance rest start end_time tol" "exact_tolerance (mid @ dropWhile ?Q rest) start end_time tol"
    using tol ts rest by (auto simp: exact_tolerance_def sorted_append)
  have late: "\<forall>y \<in> set (dropWhile ?Q rest). end_time + tol < y"
  proof
    fix y assume y: "y \<in> set (dropWhile ?Q rest)"
    have "sorted rest" using tol_rest(1) by (simp add: exact_tolerance_def)
    have "dropWhile ?Q rest \<noteq> []" using y by (metis empty_iff list.set(1))
    then have "\<not> ?Q (hd (dropWhile ?Q rest))" by (rule hd_dropWhile)
    moreover have "hd (dropWhile ?Q rest) \<le> y"
    proof -
      have "sorted (dropWhile ?Q rest)" using \<open>sorted rest\<close> by (rule sorted_dropWhile)
      then show ?thesis using y by (cases "dropWhile ?Q rest") auto
    qed
    ultimately have "\<not> ?Q y" by simp
    then show "end_time + tol < y"
      using sat_bounds(2) [OF tol, of y] y ts by (auto dest: set_dropWhileD)
  qed
  have "clips start end_time (build_alive_spans ts tol boots) = clips start end_time (build_alive_spans mid tol boots)"
    using clips_drop_prefix [of pre rest start end_time tol boots] preP tol ts
      clips_drop_suffix [OF tol_rest(2) late, of boots] rest by simp
  moreover have "clip_alive_spans (build_alive_spans ts tol boots) start end_time
      = clips start end_time (build_alive_spans ts tol boots)"
    by (rule clip_alive_spans_clips) (rule alive_spans_ordered [OF sorted])+
  ultimately show ?thesis by (simp add: reference_alive_intervals_def lower upper slice)
qed

section \<open>The instants the spans cover\<close>

text \<open>The device is alive at an instant when it lies between two neighbouring timestamps that are joined.\<close>

fun alive_at :: "int \<Rightarrow> int list \<Rightarrow> int list \<Rightarrow> int \<Rightarrow> bool" where
  "alive_at tol boots (l # t # ts) \<tau> \<longleftrightarrow>
     joined tol boots l t \<and> l \<le> \<tau> \<and> \<tau> < t \<or> alive_at tol boots (t # ts) \<tau>"
| "alive_at tol boots _ \<tau> \<longleftrightarrow> False"

lemma alive_at_nth:
  "alive_at tol boots ts \<tau> \<longleftrightarrow>
     (\<exists>i. Suc i < length ts \<and> joined tol boots (ts ! i) (ts ! Suc i) \<and> ts ! i \<le> \<tau> \<and> \<tau> < ts ! Suc i)"
proof (induction tol boots ts \<tau> rule: alive_at.induct)
  case (1 tol boots l t ts \<tau>)
  have split: "(\<exists>i. P i) \<longleftrightarrow> P 0 \<or> (\<exists>i. P (Suc i))" for P :: "nat \<Rightarrow> bool" by (metis not0_implies_Suc)
  show ?case unfolding alive_at.simps 1 by (subst (2) split) simp
qed auto

lemma alive_from_covers:
  assumes "sorted (l # ts)" "s \<le> l"
  shows "(\<exists>p \<in> set (alive_from tol boots s l ts). fst p \<le> \<tau> \<and> \<tau> < snd p) \<longleftrightarrow>
    s \<le> \<tau> \<and> \<tau> < l \<or> alive_at tol boots (l # ts) \<tau>"
  using assms
proof (induction ts arbitrary: s l)
  case (Cons t ts)
  have t: "l \<le> t" "sorted (t # ts)" using Cons.prems by auto
  show ?case
  proof (cases "joined tol boots l t")
    case True
    have "s \<le> t" using t(1) Cons.prems(2) by simp
    from Cons.IH [OF t(2) this] True t(1) Cons.prems(2) show ?thesis by auto
  next
    case False
    from Cons.IH [OF t(2) order_refl] False show ?thesis by auto
  qed
qed auto

lemma clips_ordered:
  assumes "sorted_wrt (\<lambda>a b. snd a \<le> fst b) spans"
  shows "sorted_wrt (\<lambda>a b. snd a \<le> fst b) (clips start end_time spans)"
  using assms
proof (induction spans)
  case (Cons x xs)
  have "snd p \<le> fst q"
    if px: "clip_interval start end_time x = Some p" and q: "q \<in> set (clips start end_time xs)" for p q
  proof -
    obtain y where y: "y \<in> set xs" "clip_interval start end_time y = Some q"
      using q by (auto simp: in_map_filter)
    then have "snd x \<le> fst y" using Cons.prems by simp
    then show ?thesis using px y(2) by (cases x; cases y) (auto simp: clip_interval_Some)
  qed
  with Cons show ?case by (auto simp: List.map_filter_simps split: option.split)
qed (simp add: List.map_filter_simps)

interpretation alive: interval_cut
  "\<lambda>(ts, tol, boots) start end_time. clip_alive_spans (build_alive_spans ts tol boots) start end_time"
  "\<lambda>p. p" "\<lambda>(ts, tol, boots). sorted ts" "\<lambda>(ts, tol, boots). alive_at tol boots ts"
proof (unfold_locales, goal_cases)
  case (1 s p a b)
  obtain ts tol boots where s: "s = (ts, tol, boots)" by (cases s)
  have "p \<in> set (clips a b (build_alive_spans ts tol boots))"
    using 1 clip_alive_spans_clips [OF alive_spans_ordered, of ts] by (simp add: s)
  then show ?case by (auto simp: in_map_filter clip_interval_Some)
next
  case (2 s \<tau> a b)
  obtain ts tol boots where s: "s = (ts, tol, boots)" by (cases s)
  let ?spans = "build_alive_spans ts tol boots"
  have ord: "sorted_wrt (\<lambda>a b. snd a \<le> fst b) ?spans" "\<forall>p \<in> set ?spans. fst p \<le> snd p"
    using alive_spans_ordered 2 by (auto simp: s)
  have "(\<exists>p \<in> set ?spans. fst p \<le> \<tau> \<and> \<tau> < snd p) \<longleftrightarrow> alive_at tol boots ts \<tau>"
  proof (cases ts)
    case (Cons t ts')
    then show ?thesis
      using alive_from_covers [of t ts' t tol boots \<tau>] 2 by (auto simp: s build_alive_from)
  qed (simp add: build_alive_from)
  moreover have "(\<exists>p \<in> set (clips a b ?spans). fst p \<le> \<tau> \<and> \<tau> < snd p) \<longleftrightarrow>
      a \<le> \<tau> \<and> \<tau> < b \<and> (\<exists>p \<in> set ?spans. fst p \<le> \<tau> \<and> \<tau> < snd p)"
  proof -
    have one: "(\<exists>p. clip_interval a b x = Some p \<and> fst p \<le> \<tau> \<and> \<tau> < snd p) \<longleftrightarrow>
        a \<le> \<tau> \<and> \<tau> < b \<and> fst x \<le> \<tau> \<and> \<tau> < snd x" for x
      by (cases x) (auto simp: clip_interval_Some)
    have "(\<exists>p \<in> set (clips a b ?spans). fst p \<le> \<tau> \<and> \<tau> < snd p) \<longleftrightarrow>
        (\<exists>x \<in> set ?spans. \<exists>p. clip_interval a b x = Some p \<and> fst p \<le> \<tau> \<and> \<tau> < snd p)"
      by (auto simp: Bex_def in_map_filter)
    then show ?thesis unfolding one by blast
  qed
  ultimately show ?case
    using ordered_count [of "\<lambda>p. p", OF clips_ordered [OF ord(1)], of \<tau> a b] clip_alive_spans_clips [OF ord]
    by (simp add: s)
qed

end
