(* ===== verification/Screen_Credit.thy ===== *)
theory Screen_Credit
  imports Pipeline_Row Alive_Spans
begin

text \<open>
  Screen-gated credit (\<open>pipeline/stages/credit.rs\<close>): the screen and liveness witnesses of each
  participant are indexed from the raw events, every app session is cut down to the intervals in which
  the screen was on (short blips bridged) and the device alive, and the credited rows and their report
  are assembled. Digests (BLAKE3) are left out of the records.
\<close>

section \<open>Witnesses\<close>

datatype screen_credit_state = On | Off

record screen_change_point =
  cp_timestamp :: int
  cp_state :: screen_credit_state
  cp_source_data_rows :: source_data_rows

record screen_credit_substrate =
  sub_points :: "string \<rightharpoonup> screen_change_point list"
  sub_boots :: "string \<rightharpoonup> int list"
  sub_all_timestamps :: "string \<rightharpoonup> int list"
  sub_source_events :: "string \<rightharpoonup> (int \<times> source_data_rows) list"
  sub_capable :: "string list"

definition empty_substrate :: screen_credit_substrate where
  "empty_substrate =
     \<lparr>sub_points = Map.empty, sub_boots = Map.empty, sub_all_timestamps = Map.empty,
      sub_source_events = Map.empty, sub_capable = []\<rparr>"

definition unmapped_interaction :: string where
  "unmapped_interaction =
     ''Screen-gated credit: unmapped interaction type in the raw stream ''
     @ [char_of (226 :: nat), char_of (128 :: nat), char_of (148 :: nat)]
     @ '' extend the interaction-type mapping before crediting.''"

definition starts_with :: "string \<Rightarrow> string \<Rightarrow> bool" where
  "starts_with s p \<longleftrightarrow> take (length p) s = p"

definition is_ascii_digit :: "char \<Rightarrow> bool" where
  "is_ascii_digit c \<longleftrightarrow> 48 \<le> (of_char c :: nat) \<and> of_char c \<le> (57 :: nat)"

definition is_numbered_type :: "string \<Rightarrow> bool" where
  "is_numbered_type s \<longleftrightarrow>
     starts_with s ''n: '' \<and> (case drop 3 s of [] \<Rightarrow> False | c # _ \<Rightarrow> is_ascii_digit c)"

definition on_witnesses :: "string list" where
  "on_witnesses =
     [''Screen Interactive'', ''Screen Interactive/Keyguard Shown'', ''User Interaction'',
      ''Shortcut Invocation'', ''Keyguard Hidden'', ''User Unlocked'', ''Chooser Action'']"

definition off_witnesses :: "string list" where
  "off_witnesses =
     [''Screen Non-Interactive'', ''Screen Non-Interactive/Keyguard Hidden'',
      ''Screen Non-Interactive/Manual Hardware Button'', ''Screen Non-Interactive/Aborted Unlock'',
      ''Screen Non-Interactive/Idle Timeout'', ''Device Screen Off'', ''Device Shutdown'']"

definition screen_witness_state :: "string \<Rightarrow> string + screen_credit_state option" where
  "screen_witness_state interaction_type =
     (let interaction_type =
            (if interaction_type = ''Screen Non-interactive'' then ''Screen Non-Interactive''
             else interaction_type)
      in if starts_with interaction_type ''Unknown importance:'' \<or> is_numbered_type interaction_type
         then Inl unmapped_interaction
         else Inr (if interaction_type \<in> set on_witnesses then Some On
                   else if interaction_type \<in> set off_witnesses then Some Off else None))"

definition witness_key :: "string \<Rightarrow> string" where
  "witness_key participant_id = (if participant_id = [] then ''unknown'' else participant_id)"

type_synonym witness_event = "int \<times> string \<times> source_data_rows"

definition participant_events :: "pipeline_row list \<Rightarrow> string \<Rightarrow> witness_event list" where
  "participant_events raw_events key =
     sort_key fst
       (map (\<lambda>r. (row_event_timestamp_ns r, row_interaction_type r, row_source_data_rows r))
         (filter (\<lambda>r. witness_key (row_participant_id r) = key) raw_events))"

text \<open>The PHI-safe error names the first data row of the event, when it has one.\<close>

definition located_error :: "string \<Rightarrow> source_data_rows \<Rightarrow> string" where
  "located_error e source_rows =
     (case source_rows of [] \<Rightarrow> e | r # _ \<Rightarrow> e @ '' (data row '' @ decimal (rr_first r) @ '')'')"

fun change_points ::
    "witness_event list \<Rightarrow> screen_credit_state option \<Rightarrow> string + screen_change_point list" where
  "change_points [] last_state = Inr []"
| "change_points ((timestamp, kind, source_rows) # events) last_state =
     (case screen_witness_state kind of
        Inl e \<Rightarrow> Inl (located_error e source_rows)
      | Inr state \<Rightarrow>
          if state \<noteq> None \<and> state \<noteq> last_state
          then (case change_points events state of
                  Inl e \<Rightarrow> Inl e
                | Inr points \<Rightarrow>
                    Inr (\<lparr>cp_timestamp = timestamp, cp_state = the state,
                          cp_source_data_rows = source_rows\<rparr> # points))
          else change_points events last_state)"

definition reports_screen :: "witness_event list \<Rightarrow> bool" where
  "reports_screen events \<longleftrightarrow>
     list_ex (\<lambda>(_, kind, _). kind \<in> set screen_start_events) events
     \<and> list_ex (\<lambda>(_, kind, _). kind \<in> set screen_stop_events) events"

fun index_participants ::
    "pipeline_row list \<Rightarrow> string list \<Rightarrow> screen_credit_substrate \<Rightarrow> string + screen_credit_substrate" where
  "index_participants raw_events [] sub = Inr sub"
| "index_participants raw_events (key # keys) sub =
     (let events = participant_events raw_events key
      in case change_points events None of
           Inl e \<Rightarrow> Inl e
         | Inr points \<Rightarrow>
             index_participants raw_events keys
               (sub\<lparr>sub_points := (sub_points sub)(key \<mapsto> points),
                    sub_capable := (if reports_screen events then sub_capable sub @ [key]
                                    else sub_capable sub),
                    sub_boots := (sub_boots sub)(key \<mapsto>
                      map fst (filter (\<lambda>(_, kind, _). kind = ''Device Startup'') events)),
                    sub_all_timestamps := (sub_all_timestamps sub)(key \<mapsto> map fst events),
                    sub_source_events := (sub_source_events sub)(key \<mapsto>
                      map (\<lambda>(t, _, source_rows). (t, source_rows)) events)\<rparr>))"

definition build_screen_credit_substrate :: "pipeline_row list \<Rightarrow> string + screen_credit_substrate" where
  "build_screen_credit_substrate raw_events =
     index_participants raw_events
       (sort (remdups (map (\<lambda>r. witness_key (row_participant_id r)) raw_events))) empty_substrate"

section \<open>Intervals\<close>

definition state_before :: "screen_change_point list \<Rightarrow> nat \<Rightarrow> screen_credit_state option" where
  "state_before points k = (if k = 0 then None else Some (cp_state (points ! (k - 1))))"

definition screen_state_at :: "screen_change_point list \<Rightarrow> int \<Rightarrow> screen_credit_state option" where
  "screen_state_at points timestamp =
     state_before points (partition_point (\<lambda>p. cp_timestamp p \<le> timestamp) points)"

text \<open>What one segment of constant state does to the open interval: what it emits, what stays open.\<close>

definition credit_segment ::
    "bool \<Rightarrow> int \<Rightarrow> int option \<Rightarrow> screen_credit_state option \<Rightarrow> int \<Rightarrow> int \<Rightarrow> credit_interval option
      \<Rightarrow> credit_interval list \<times> credit_interval option" where
  "credit_segment to_session_end auto_lock_ns next_point state cursor segment_end current =
     (if segment_end \<le> cursor then ([], current)
      else if state = Some On
      then ([], Some (case current of None \<Rightarrow> cursor | Some (left, _) \<Rightarrow> left, segment_end))
      else if state = Some Off \<and> current \<noteq> None
              \<and> (if to_session_end then i64_sub segment_end cursor < auto_lock_ns
                 else (case next_point of
                         None \<Rightarrow> False
                       | Some t \<Rightarrow> i64_sub t cursor < auto_lock_ns))
      then ([], map_option (\<lambda>(left, _). (left, segment_end)) current)
      else ((case current of None \<Rightarrow> [] | Some interval \<Rightarrow> [interval]), None))"

fun credit_loop ::
    "bool \<Rightarrow> int \<Rightarrow> int \<Rightarrow> screen_change_point list \<Rightarrow> screen_credit_state option \<Rightarrow> int
      \<Rightarrow> credit_interval option \<Rightarrow> credit_interval list" where
  "credit_loop to_session_end auto_lock_ns end_time [] state cursor current =
     (if cursor < end_time
      then (case credit_segment to_session_end auto_lock_ns None state cursor end_time current of
              (output, current) \<Rightarrow> output @ (case current of None \<Rightarrow> [] | Some i \<Rightarrow> [i]))
      else (case current of None \<Rightarrow> [] | Some i \<Rightarrow> [i]))"
| "credit_loop to_session_end auto_lock_ns end_time (p # points) state cursor current =
     (if cursor < end_time
      then
        (let segment_end = min (cp_timestamp p) end_time
         in case credit_segment to_session_end auto_lock_ns (Some (cp_timestamp p)) state cursor
                   segment_end current of
              (output, current) \<Rightarrow>
                output @ credit_loop to_session_end auto_lock_ns end_time points
                           (Some (cp_state p)) segment_end current)
      else (case current of None \<Rightarrow> [] | Some i \<Rightarrow> [i]))"

definition creditable_intervals ::
    "screen_change_point list \<Rightarrow> int \<Rightarrow> int \<Rightarrow> int \<Rightarrow> bool \<Rightarrow> credit_interval list" where
  "creditable_intervals points start end_time auto_lock_ns off_measured_to_session_end =
     (let first_after = partition_point (\<lambda>p. cp_timestamp p \<le> start) points
      in credit_loop off_measured_to_session_end auto_lock_ns end_time (drop first_after points)
           (state_before points first_after) start None)"

fun intersect_intervals ::
    "credit_interval list \<Rightarrow> credit_interval list \<Rightarrow> credit_interval list" where
  "intersect_intervals (l # ls) (r # rs) =
     (let lower = max (fst l) (fst r); upper = min (snd l) (snd r)
      in (if lower < upper then [(lower, upper)] else [])
         @ (if snd l < snd r then intersect_intervals ls (r # rs)
            else intersect_intervals (l # ls) rs))"
| "intersect_intervals _ _ = []"

section \<open>Sessions and decisions\<close>

record credit_partition =
  cr_sessions :: "pipeline_row list"
  cr_rest :: "pipeline_row list"

definition is_credit_session :: "pipeline_row \<Rightarrow> bool" where
  "is_credit_session r \<longleftrightarrow>
     row_interaction_type r = ''App Usage'' \<and> et_aggregate_eligible (row_timing r)
     \<and> (case et_duration_minutes (row_timing r) of None \<Rightarrow> False | Some d \<Rightarrow> 0 < d)"

text \<open>The optional checkpoint parts only matter through their number.\<close>

definition identify_credit_eligible_sessions ::
    "pipeline_row list \<Rightarrow> nat option \<Rightarrow> string + credit_partition" where
  "identify_credit_eligible_sessions app_rows input_row_parts =
     (case input_row_parts of
        Some parts \<Rightarrow>
          if parts \<noteq> length app_rows
          then Inl (''screen-credit checkpoint row-part count drift: '' @ decimal parts
                    @ '' parts for '' @ decimal (length app_rows) @ '' rows'')
          else Inr \<lparr>cr_sessions = filter is_credit_session app_rows,
                    cr_rest = filter (Not \<circ> is_credit_session) app_rows\<rparr>
      | None \<Rightarrow> Inr \<lparr>cr_sessions = filter is_credit_session app_rows,
                     cr_rest = filter (Not \<circ> is_credit_session) app_rows\<rparr>)"

definition screen_incapable :: "screen_credit_substrate \<Rightarrow> string \<Rightarrow> bool" where
  "screen_incapable sub key \<longleftrightarrow>
     (case sub_points sub key of None \<Rightarrow> True | Some points \<Rightarrow> points = [])
     \<or> key \<notin> set (sub_capable sub)"

fun first_incapable ::
    "screen_credit_substrate \<Rightarrow> pipeline_row list \<Rightarrow> string list \<Rightarrow> string list" where
  "first_incapable sub [] seen = []"
| "first_incapable sub (r # rs) seen =
     (let i = row_participant_id r
      in if screen_incapable sub (witness_key i) \<and> i \<notin> set seen
         then i # first_incapable sub rs (i # seen)
         else first_incapable sub rs seen)"

definition screen_incapable_participants ::
    "credit_partition \<Rightarrow> screen_credit_substrate \<Rightarrow> string list" where
  "screen_incapable_participants part sub = first_incapable sub (cr_sessions part) []"

text \<open>\<open>BTreeMap<(participant, date), BTreeSet<package>>\<close>\<close>

type_synonym day_apps = "string \<times> string \<rightharpoonup> string set"

definition summarize_daily_apps :: "credit_partition \<Rightarrow> day_apps" where
  "summarize_daily_apps part =
     fold (\<lambda>r days.
         days((row_participant_id r, row_date r) \<mapsto>
           insert (row_app_package_name r)
             (case days (row_participant_id r, row_date r) of None \<Rightarrow> {} | Some apps \<Rightarrow> apps)))
       (cr_sessions part) Map.empty"

datatype screen_gating_rule =
    ScreenAndLivenessV1
  | ScreenWitnessOnly
  | StrictVisualOnly
  | DeviceLivenessOnly

definition consults_screen_witness :: "screen_gating_rule \<Rightarrow> bool" where
  "consults_screen_witness rule \<longleftrightarrow> rule \<noteq> DeviceLivenessOnly"

definition requires_screen_witness :: "screen_gating_rule \<Rightarrow> bool" where
  "requires_screen_witness rule \<longleftrightarrow> rule = StrictVisualOnly"

datatype credit_decision =
    Passthrough
  | Intervals "credit_interval list" bool bool

record credit_settings =
  cs_session_cap_minutes :: rat
  cs_liveness_gap_tolerance_minutes :: rat
  cs_auto_lock_bridge_seconds :: rat
  cs_bridge_to_session_end :: bool
  cs_no_witness_min_day_apps :: nat
  cs_gating_rule :: screen_gating_rule

definition i64_mul :: "int \<Rightarrow> int \<Rightarrow> int" where "i64_mul a b = wrap_i64 (a * b)"

text \<open>\<open>(minutes * 60.0).round() as i64 * 1_000_000_000\<close> and the same for seconds\<close>

definition minutes_to_ns :: "rat \<Rightarrow> int" where
  "minutes_to_ns minutes = i64_mul (clamp_i64 (f64_round (f64_mul minutes 60))) 1000000000"

definition whole_seconds_to_ns :: "rat \<Rightarrow> int" where
  "whole_seconds_to_ns seconds = i64_mul (clamp_i64 (f64_round seconds)) 1000000000"

definition witness_list :: "(string \<rightharpoonup> 'a list) \<Rightarrow> string \<Rightarrow> 'a list" where
  "witness_list m key = (case m key of None \<Rightarrow> [] | Some xs \<Rightarrow> xs)"

definition participant_alive ::
    "screen_credit_substrate \<Rightarrow> int \<Rightarrow> string \<Rightarrow> int \<Rightarrow> int \<Rightarrow> credit_interval list" where
  "participant_alive sub tolerance_ns key start end_time =
     clip_alive_spans
       (case sub_all_timestamps sub key of
          None \<Rightarrow> []
        | Some timestamps \<Rightarrow> build_alive_spans timestamps tolerance_ns (witness_list (sub_boots sub) key))
       start end_time"

definition credited_of ::
    "screen_credit_substrate \<Rightarrow> day_apps \<Rightarrow> credit_settings \<Rightarrow> pipeline_row \<Rightarrow> int \<Rightarrow> int
      \<Rightarrow> credit_interval list \<times> bool" where
  "credited_of sub days cs r start end_time =
     (let key = witness_key (row_participant_id r);
          points = witness_list (sub_points sub) key;
          rule = cs_gating_rule cs;
          alive = participant_alive sub (minutes_to_ns (cs_liveness_gap_tolerance_minutes cs)) key start end_time
      in if \<not> consults_screen_witness rule then (alive, False)
         else if points = [] \<or> key \<notin> set (sub_capable sub)
         then (if requires_screen_witness rule then ([], False) else ([(start, end_time)], False))
         else
           (let first_in_window = partition_point (\<lambda>p. cp_timestamp p < start) points;
                has_point = (first_in_window < length points
                             \<and> cp_timestamp (points ! first_in_window) \<le> end_time)
            in if screen_state_at points start = None \<and> \<not> has_point
               then
                 (if requires_screen_witness rule then ([], False)
                  else
                    (let app_count =
                           (case days (row_participant_id r, row_date r) of
                              None \<Rightarrow> 0 | Some apps \<Rightarrow> card apps)
                     in if cs_no_witness_min_day_apps cs \<le> app_count then (alive, True)
                        else ([], False)))
               else
                 (let screen =
                        creditable_intervals points start end_time
                          (whole_seconds_to_ns (cs_auto_lock_bridge_seconds cs))
                          (cs_bridge_to_session_end cs)
                  in (case rule of
                        ScreenAndLivenessV1 \<Rightarrow> intersect_intervals screen alive
                      | DeviceLivenessOnly \<Rightarrow> alive
                      | _ \<Rightarrow> screen, False))))"

definition credit_decision_of ::
    "screen_credit_substrate \<Rightarrow> day_apps \<Rightarrow> credit_settings \<Rightarrow> pipeline_row \<Rightarrow> credit_decision" where
  "credit_decision_of sub days cs r =
     (case (row_start r, row_stop r) of
        (Some start, Some raw_end) \<Rightarrow>
          if raw_end \<le> start then Passthrough
          else
            (let end_time = min raw_end (i64_saturating_add start (minutes_to_ns (cs_session_cap_minutes cs)))
             in case credited_of sub days cs r start end_time of
                  (intervals, fallback) \<Rightarrow> Intervals intervals (end_time < raw_end) fallback)
      | _ \<Rightarrow> Passthrough)"

definition derive_credited_intervals ::
    "credit_partition \<Rightarrow> screen_credit_substrate \<Rightarrow> day_apps \<Rightarrow> credit_settings \<Rightarrow> credit_decision list" where
  "derive_credited_intervals part sub days cs = map (credit_decision_of sub days cs) (cr_sessions part)"

end
