(* ===== verification/Credit_Emission.thy ===== *)
theory Credit_Emission
  imports Screen_Credit
begin

text \<open>
  The credited rows and their report (\<open>credit_lineage_contributors\<close>, \<open>materialize_credited_rows\<close>,
  \<open>assemble_credit_outputs\<close> of \<open>pipeline/stages/credit.rs\<close>): one row per credited interval, cloned from
  its session with the interval's times and the lineage of the witnesses that decided it.
\<close>

section \<open>Lineage of an interval\<close>

definition liveness_search ::
    "screen_credit_substrate \<Rightarrow> string \<Rightarrow> int \<Rightarrow> int \<Rightarrow> int \<Rightarrow> lineage_search option" where
  "liveness_search sub key start end_time tolerance_ns =
     (case sub_source_events sub key of
        None \<Rightarrow> None
      | Some events \<Rightarrow>
          (let lower_bound = i64_saturating_sub start tolerance_ns;
               upper_bound = i64_saturating_add end_time tolerance_ns;
               lower = partition_point (\<lambda>e. fst e < lower_bound) events;
               upper = partition_point (\<lambda>e. fst e \<le> upper_bound) events
           in Some \<lparr>ls_reason = ''screen-credit-liveness-window'', ls_start_participant = key,
                    ls_start_index = lower mod 2 ^ 32, ls_end_index = upper mod 2 ^ 32,
                    ls_candidate_count = (upper - lower) mod 2 ^ 32\<rparr>))"

definition credit_contributors :: "screen_credit_substrate \<Rightarrow> string \<Rightarrow> int \<Rightarrow> int \<Rightarrow> source_data_rows" where
  "credit_contributors sub key start end_time =
     (case sub_points sub key of
        None \<Rightarrow> []
      | Some points \<Rightarrow>
          (let first_after_start = partition_point (\<lambda>p. cp_timestamp p \<le> start) points;
               before = (if first_after_start = 0 then []
                         else merge_rows [] (cp_source_data_rows (points ! (first_after_start - 1))));
               first_after_end = partition_point (\<lambda>p. cp_timestamp p \<le> end_time) points
           in fold (\<lambda>p acc. merge_rows acc (cp_source_data_rows p))
                (take (first_after_end - first_after_start) (drop first_after_start points)) before))"

section \<open>Credited rows\<close>

record emission_counts =
  ec_truncated_sessions :: nat
  ec_no_witness_fallbacks :: nat
  ec_fully_dead_sessions :: nat

definition credited_row ::
    "'tz chrono \<Rightarrow> screen_credit_substrate \<Rightarrow> int \<Rightarrow> pipeline_row \<Rightarrow> credit_interval \<Rightarrow> pipeline_row" where
  "credited_row chrono sub tolerance_ns r = (\<lambda>(interval_start, interval_end).
     (let key = witness_key (row_participant_id r);
          contributors = credit_contributors sub key interval_start interval_end;
          searches = (case liveness_search sub key interval_start interval_end tolerance_ns of
                        None \<Rightarrow> row_lineage_searches r
                      | Some search \<Rightarrow> row_lineage_searches r @ [search]);
          duration_seconds = f64_div (i64_as_f64 (i64_sub interval_end interval_start)) 1000000000;
          timing = (row_timing r)
                     \<lparr>et_start := Some interval_start, et_stop := Some interval_end,
                      et_duration_seconds := Some duration_seconds,
                      et_duration_minutes := Some (f64_mul duration_seconds (f64_div 1 60))\<rparr>;
          r = r\<lparr>row_source_data_rows := merge_rows (row_source_data_rows r) contributors,
                row_lineage_searches := searches, row_timing := timing,
                row_event_timestamp_ns := interval_start\<rparr>
      in populate_time_columns chrono (timezone_or_utc chrono (row_timezone r)) r))"

definition credited_rows_of ::
    "'tz chrono \<Rightarrow> screen_credit_substrate \<Rightarrow> int \<Rightarrow> pipeline_row \<Rightarrow> credit_decision \<Rightarrow> pipeline_row list" where
  "credited_rows_of chrono sub tolerance_ns r decision =
     (case decision of
        Passthrough \<Rightarrow> [r]
      | Intervals intervals _ _ \<Rightarrow>
          map (credited_row chrono sub tolerance_ns r) (filter (\<lambda>(s, e). s < e) intervals))"

definition count_decision :: "credit_decision \<Rightarrow> bool \<Rightarrow> emission_counts \<Rightarrow> emission_counts" where
  "count_decision decision emitted_nothing counts =
     (case decision of
        Passthrough \<Rightarrow> counts
      | Intervals _ capped fallback \<Rightarrow>
          counts\<lparr>ec_truncated_sessions := ec_truncated_sessions counts + (if capped then 1 else 0),
                 ec_no_witness_fallbacks := ec_no_witness_fallbacks counts + (if fallback then 1 else 0),
                 ec_fully_dead_sessions :=
                   ec_fully_dead_sessions counts + (if emitted_nothing then 1 else 0)\<rparr>)"

record credit_emission =
  em_credited :: "pipeline_row list"
  em_counts :: emission_counts

definition materialize_step ::
    "'tz chrono \<Rightarrow> screen_credit_substrate \<Rightarrow> int \<Rightarrow> pipeline_row \<times> credit_decision
      \<Rightarrow> credit_emission \<Rightarrow> credit_emission" where
  "materialize_step chrono sub tolerance_ns = (\<lambda>(r, decision) em.
     (let credited = credited_rows_of chrono sub tolerance_ns r decision
      in \<lparr>em_credited = em_credited em @ credited,
          em_counts = count_decision decision (credited = []) (em_counts em)\<rparr>))"

definition materialize_credited_rows ::
    "'tz chrono \<Rightarrow> credit_partition \<Rightarrow> credit_decision list \<Rightarrow> screen_credit_substrate \<Rightarrow> rat \<Rightarrow> credit_emission" where
  "materialize_credited_rows chrono part decisions sub tolerance_minutes =
     fold (materialize_step chrono sub (minutes_to_ns tolerance_minutes))
       (zip (cr_sessions part) decisions)
       \<lparr>em_credited = [],
        em_counts = \<lparr>ec_truncated_sessions = 0, ec_no_witness_fallbacks = 0, ec_fully_dead_sessions = 0\<rparr>\<rparr>"

section \<open>The report\<close>

definition f64_add :: "rat \<Rightarrow> rat \<Rightarrow> rat" where "f64_add a b = round_f64 (a + b)"

definition total_minutes :: "pipeline_row list \<Rightarrow> rat" where
  "total_minutes rows =
     fold (\<lambda>r total. f64_add total
             (case et_duration_minutes (row_timing r) of None \<Rightarrow> 0 | Some d \<Rightarrow> d)) rows 0"

record credit_report =
  rp_sessions :: nat
  rp_credited_rows :: nat
  rp_credited_minutes :: rat
  rp_raw_session_minutes :: rat
  rp_truncated_sessions :: nat
  rp_fully_dead_sessions :: nat
  rp_no_witness_fallbacks :: nat
  rp_screen_incapable :: "string list"

record credit_result =
  cx_rows :: "pipeline_row list"
  cx_report :: credit_report

definition assemble_credit_outputs ::
    "credit_partition \<Rightarrow> string list \<Rightarrow> credit_emission \<Rightarrow> credit_result" where
  "assemble_credit_outputs part incapable em =
     \<lparr>cx_rows = em_credited em @ cr_rest part,
      cx_report =
        \<lparr>rp_sessions = length (cr_sessions part),
         rp_credited_rows = length (em_credited em),
         rp_credited_minutes = total_minutes (em_credited em),
         rp_raw_session_minutes = total_minutes (cr_sessions part),
         rp_truncated_sessions = ec_truncated_sessions (em_counts em),
         rp_fully_dead_sessions = ec_fully_dead_sessions (em_counts em),
         rp_no_witness_fallbacks = ec_no_witness_fallbacks (em_counts em),
         rp_screen_incapable = incapable\<rparr>\<rparr>"

end
