(* ===== verification/Credit_Exact.thy ===== *)
theory Credit_Exact
  imports Credit_Emission
begin

text \<open>
  Which instants the credit covers: the intersection of two interval lists covers the instants both
  cover, and the loop over the screen change points covers the instants at which the screen is on, or off
  for less than the bridge right after credited time.
\<close>

section \<open>Intersection\<close>

definition in_intervals :: "credit_interval list \<Rightarrow> int \<Rightarrow> bool" where
  "in_intervals ivs \<tau> \<longleftrightarrow> (\<exists>p \<in> set ivs. fst p \<le> \<tau> \<and> \<tau> < snd p)"

definition ordered_intervals :: "credit_interval list \<Rightarrow> bool" where
  "ordered_intervals ivs \<longleftrightarrow>
     sorted_wrt (\<lambda>a b. snd a \<le> fst b) ivs \<and> (\<forall>p \<in> set ivs. fst p < snd p)"

lemma in_intervals_simps [simp]:
  "\<not> in_intervals [] \<tau>"
  "in_intervals (p # ivs) \<tau> \<longleftrightarrow> fst p \<le> \<tau> \<and> \<tau> < snd p \<or> in_intervals ivs \<tau>"
  "in_intervals (ivs @ ivs') \<tau> \<longleftrightarrow> in_intervals ivs \<tau> \<or> in_intervals ivs' \<tau>"
  by (auto simp: in_intervals_def)

lemma ordered_intervals_simps [simp]:
  "ordered_intervals []"
  "ordered_intervals (p # ivs) \<longleftrightarrow>
     (\<forall>q \<in> set ivs. snd p \<le> fst q) \<and> fst p < snd p \<and> ordered_intervals ivs"
  by (auto simp: ordered_intervals_def)

lemma in_intervals_from: "ordered_intervals ivs \<Longrightarrow> \<forall>q \<in> set ivs. a \<le> fst q \<Longrightarrow> in_intervals ivs \<tau> \<Longrightarrow> a \<le> \<tau>"
  by (auto simp: in_intervals_def)

lemma ordered_intervals_count:
  "ordered_intervals ivs \<Longrightarrow>
     length (filter (\<lambda>p. fst p \<le> \<tau> \<and> \<tau> < snd p) ivs) = (if in_intervals ivs \<tau> then 1 else 0)"
  using ordered_count [of "\<lambda>p. p" ivs \<tau>] by (simp add: ordered_intervals_def in_intervals_def)

lemma intersect_intervals_exact:
  assumes "ordered_intervals ls" "ordered_intervals rs"
  shows "ordered_intervals (intersect_intervals ls rs)
    \<and> (\<forall>q \<in> set (intersect_intervals ls rs). \<exists>l \<in> set ls. \<exists>r \<in> set rs. max (fst l) (fst r) \<le> fst q)
    \<and> (\<forall>\<tau>. in_intervals (intersect_intervals ls rs) \<tau> \<longleftrightarrow> in_intervals ls \<tau> \<and> in_intervals rs \<tau>)"
  using assms
proof (induction ls rs rule: intersect_intervals.induct)
  case (1 l ls r rs)
  let ?lo = "max (fst l) (fst r)" and ?hi = "min (snd l) (snd r)"
  show ?case
  proof (cases "snd l < snd r")
    case True
    note IH = "1.IH"(1) [OF refl refl True]
    have ord: "ordered_intervals ls" "ordered_intervals (r # rs)" using "1.prems" by auto
    have after: "snd l \<le> fst q" if "q \<in> set (intersect_intervals ls (r # rs))" for q
      using IH [OF ord] that "1.prems"(1) by fastforce
    have later: "snd l \<le> \<tau>" if "in_intervals ls \<tau>" for \<tau>
      using in_intervals_from [OF ord(1) _ that] "1.prems"(1) by auto
    have rest: "\<not> in_intervals rs \<tau>" if "\<tau> < snd l" for \<tau>
      using in_intervals_from [of rs "snd r" \<tau>] "1.prems"(2) that True by fastforce
    have ordered: "ordered_intervals (intersect_intervals (l # ls) (r # rs))"
      using IH [OF ord] after True by (auto simp: Let_def)
    have above: "\<forall>q \<in> set (intersect_intervals (l # ls) (r # rs)).
        \<exists>l' \<in> set (l # ls). \<exists>r' \<in> set (r # rs). max (fst l') (fst r') \<le> fst q"
      using IH [OF ord] True by (fastforce simp: Let_def)
    have "in_intervals (intersect_intervals (l # ls) (r # rs)) \<tau> \<longleftrightarrow>
        in_intervals (l # ls) \<tau> \<and> in_intervals (r # rs) \<tau>" for \<tau>
    proof -
      have "in_intervals (intersect_intervals ls (r # rs)) \<tau> \<longleftrightarrow> in_intervals ls \<tau> \<and> in_intervals (r # rs) \<tau>"
        using IH [OF ord] by blast
      then show ?thesis using True later [of \<tau>] rest [of \<tau>] by (auto simp: Let_def)
    qed
    with ordered above show ?thesis by blast
  next
    case False
    note IH = "1.IH"(2) [OF refl refl False]
    have ord: "ordered_intervals (l # ls)" "ordered_intervals rs" using "1.prems" by auto
    have after: "snd r \<le> fst q" if "q \<in> set (intersect_intervals (l # ls) rs)" for q
      using IH [OF ord] that "1.prems"(2) by fastforce
    have later: "snd r \<le> \<tau>" if "in_intervals rs \<tau>" for \<tau>
      using in_intervals_from [OF ord(2) _ that] "1.prems"(2) by auto
    have rest: "\<not> in_intervals ls \<tau>" if "\<tau> < snd r" for \<tau>
      using in_intervals_from [of ls "snd l" \<tau>] "1.prems"(1) that False by fastforce
    have ordered: "ordered_intervals (intersect_intervals (l # ls) (r # rs))"
      using IH [OF ord] after False by (auto simp: Let_def)
    have above: "\<forall>q \<in> set (intersect_intervals (l # ls) (r # rs)).
        \<exists>l' \<in> set (l # ls). \<exists>r' \<in> set (r # rs). max (fst l') (fst r') \<le> fst q"
      using IH [OF ord] False by (fastforce simp: Let_def)
    have "in_intervals (intersect_intervals (l # ls) (r # rs)) \<tau> \<longleftrightarrow>
        in_intervals (l # ls) \<tau> \<and> in_intervals (r # rs) \<tau>" for \<tau>
    proof -
      have "in_intervals (intersect_intervals (l # ls) rs) \<tau> \<longleftrightarrow> in_intervals (l # ls) \<tau> \<and> in_intervals rs \<tau>"
        using IH [OF ord] by blast
      then show ?thesis using False later [of \<tau>] rest [of \<tau>] by (auto simp: Let_def)
    qed
    with ordered above show ?thesis by blast
  qed
qed auto

section \<open>Creditable screen time\<close>

abbreviation ts_of :: "screen_change_point list \<Rightarrow> nat \<Rightarrow> int" where
  "ts_of points i \<equiv> cp_timestamp (points ! i)"

text \<open>How long the screen stays as the change point \<open>i\<close> left it counts against the bridge: to the next
  change, or, under the other rule, only to the end of the session.\<close>

definition short_off :: "screen_change_point list \<Rightarrow> int \<Rightarrow> int \<Rightarrow> bool \<Rightarrow> nat \<Rightarrow> bool" where
  "short_off points end_time auto_lock_ns to_session_end i \<longleftrightarrow>
     (if to_session_end
      then (if Suc i < length points then min (ts_of points (Suc i)) end_time else end_time)
             - ts_of points i < auto_lock_ns
      else Suc i < length points \<and> ts_of points (Suc i) - ts_of points i < auto_lock_ns)"

text \<open>The time from change point \<open>i\<close> to the next one is creditable when the screen is on, or when it went off
  within the session, right after creditable time, for a short while.\<close>

fun segment_credited :: "screen_change_point list \<Rightarrow> int \<Rightarrow> int \<Rightarrow> int \<Rightarrow> bool \<Rightarrow> nat \<Rightarrow> bool" where
  "segment_credited points start end_time auto_lock_ns flag 0 \<longleftrightarrow> cp_state (points ! 0) = On"
| "segment_credited points start end_time auto_lock_ns flag (Suc i) \<longleftrightarrow>
     cp_state (points ! Suc i) = On
     \<or> start < ts_of points (Suc i) \<and> short_off points end_time auto_lock_ns flag (Suc i)
       \<and> segment_credited points start end_time auto_lock_ns flag i"

definition screen_credited_at :: "screen_change_point list \<Rightarrow> int \<Rightarrow> int \<Rightarrow> int \<Rightarrow> bool \<Rightarrow> int \<Rightarrow> bool" where
  "screen_credited_at points start end_time auto_lock_ns flag \<tau> \<longleftrightarrow>
     (\<exists>i < length points. ts_of points i \<le> \<tau> \<and> (Suc i < length points \<longrightarrow> \<tau> < ts_of points (Suc i))
        \<and> segment_credited points start end_time auto_lock_ns flag i)"

definition distinct_changes :: "screen_change_point list \<Rightarrow> bool" where
  "distinct_changes points \<longleftrightarrow>
     sorted_wrt (\<lambda>p q. cp_timestamp p < cp_timestamp q) points \<and> (\<forall>p \<in> set points. epoch_ns (cp_timestamp p))"

lemma changes_mono: "distinct_changes points \<Longrightarrow> i < j \<Longrightarrow> j < length points \<Longrightarrow> ts_of points i < ts_of points j"
  by (simp add: distinct_changes_def sorted_wrt_iff_nth_less)

lemma changes_unique:
  assumes "distinct_changes points" "i < length points" "j < length points"
    and "ts_of points i \<le> \<tau>" "Suc i < length points \<longrightarrow> \<tau> < ts_of points (Suc i)"
    and "ts_of points j \<le> \<tau>" "Suc j < length points \<longrightarrow> \<tau> < ts_of points (Suc j)"
  shows "i = j"
proof (rule linorder_cases [of i j])
  assume "i < j"
  then have "ts_of points (Suc i) \<le> ts_of points j"
    using changes_mono [OF assms(1), of "Suc i" j] assms(3) by (cases "Suc i = j") auto
  with assms \<open>i < j\<close> show ?thesis by auto
next
  assume "j < i"
  then have "ts_of points (Suc j) \<le> ts_of points i"
    using changes_mono [OF assms(1), of "Suc j" i] assms(2) by (cases "Suc j = i") auto
  with assms \<open>j < i\<close> show ?thesis by auto
qed

lemma screen_credited_segment:
  assumes "distinct_changes points" "i < length points" "ts_of points i \<le> \<tau>"
    "Suc i < length points \<longrightarrow> \<tau> < ts_of points (Suc i)"
  shows "screen_credited_at points start end_time auto_lock_ns flag \<tau> \<longleftrightarrow>
    segment_credited points start end_time auto_lock_ns flag i"
  using changes_unique [OF assms(1)] assms(2-) unfolding screen_credited_at_def by blast

text \<open>The state of the loop before change point \<open>j\<close>: the cursor, and whether credited time is open.\<close>

definition credit_inv ::
    "screen_change_point list \<Rightarrow> int \<Rightarrow> int \<Rightarrow> int \<Rightarrow> bool \<Rightarrow> nat \<Rightarrow> int \<Rightarrow> credit_interval option \<Rightarrow> bool" where
  "credit_inv points start end_time auto_lock_ns flag j cursor current \<longleftrightarrow>
     j \<le> length points \<and> start \<le> cursor
     \<and> cursor = (if j = 0 then start else max start (ts_of points (j - 1)))
     \<and> (\<forall>i. j \<le> i \<and> i < length points \<longrightarrow> start < ts_of points i)
     \<and> (current \<noteq> None \<longleftrightarrow> 2 \<le> j \<and> start < ts_of points (j - 1)
          \<and> segment_credited points start end_time auto_lock_ns flag (j - 2))
     \<and> (\<forall>l r. current = Some (l, r) \<longrightarrow> start \<le> l \<and> l < r \<and> r = cursor)"

lemma credit_segment_step:
  assumes inv: "credit_inv points start end_time auto_lock_ns flag j cursor current"
    and pts: "distinct_changes points" and ep: "epoch_ns start" "epoch_ns end_time" and c: "cursor < end_time"
    and se: "segment_end = (if j < length points then min (ts_of points j) end_time else end_time)"
    and step: "credit_segment flag auto_lock_ns (if j < length points then Some (ts_of points j) else None)
      (state_before points j) cursor segment_end current = (emitted, current')"
  shows "cursor < segment_end"
    "current' \<noteq> None \<longleftrightarrow> 0 < j \<and> segment_credited points start end_time auto_lock_ns flag (j - 1)"
    "\<And>l r. current' = Some (l, r) \<Longrightarrow>
       r = segment_end \<and> emitted = [] \<and> l = (case current of None \<Rightarrow> cursor | Some (l, _) \<Rightarrow> l)"
    "current' = None \<Longrightarrow> emitted = (case current of None \<Rightarrow> [] | Some i \<Rightarrow> [i])"
proof -
  have next_later: "cursor < ts_of points j" if "j < length points"
    using inv that changes_mono [OF pts, of "j - 1" j] by (auto simp: credit_inv_def)
  then show pos: "cursor < segment_end" using c se by auto
  have short: "(if flag then i64_sub segment_end cursor < auto_lock_ns
      else (case if j < length points then Some (ts_of points j) else None of
              None \<Rightarrow> False | Some t \<Rightarrow> i64_sub t cursor < auto_lock_ns)) \<longleftrightarrow>
      short_off points end_time auto_lock_ns flag (j - 1)" if "current \<noteq> None"
  proof -
    have j: "2 \<le> j" "start < ts_of points (j - 1)" "j \<le> length points" using inv that by (auto simp: credit_inv_def)
    then have cur: "cursor = ts_of points (j - 1)" using inv by (auto simp: credit_inv_def)
    have "epoch_ns cursor" using pts j cur by (simp add: distinct_changes_def)
    moreover have "epoch_ns segment_end"
      using pts ep(2) by (auto simp: se distinct_changes_def min_def)
    moreover have "epoch_ns (ts_of points j)" if "j < length points"
      using pts that by (simp add: distinct_changes_def)
    ultimately show ?thesis using j cur by (auto simp: short_off_def se)
  qed
  have state: "state_before points j = (if j = 0 then None else Some (cp_state (points ! (j - 1))))"
    by (simp add: state_before_def)
  have seg: "segment_credited points start end_time auto_lock_ns flag (j - 1) \<longleftrightarrow>
      cp_state (points ! (j - 1)) = On \<or> current \<noteq> None \<and> short_off points end_time auto_lock_ns flag (j - 1)"
    if pos_j: "0 < j"
  proof (cases "j = 1")
    case True
    then show ?thesis using inv by (simp add: credit_inv_def)
  next
    case False
    with pos_j have "2 \<le> j" by simp
    then obtain i where "j = Suc (Suc i)" by (metis add_2_eq_Suc le_Suc_ex)
    then show ?thesis using inv by (auto simp: credit_inv_def)
  qed
  have off: "cp_state (points ! (j - 1)) \<noteq> On \<longleftrightarrow> cp_state (points ! (j - 1)) = Off"
    by (cases "cp_state (points ! (j - 1))") auto
  show "current' \<noteq> None \<longleftrightarrow> 0 < j \<and> segment_credited points start end_time auto_lock_ns flag (j - 1)"
    using step pos short seg off unfolding credit_segment_def state by (auto split: if_splits)
  show "\<And>l r. current' = Some (l, r) \<Longrightarrow>
       r = segment_end \<and> emitted = [] \<and> l = (case current of None \<Rightarrow> cursor | Some (l, _) \<Rightarrow> l)"
    using step pos unfolding credit_segment_def by (auto split: if_splits option.splits)
  show "current' = None \<Longrightarrow> emitted = (case current of None \<Rightarrow> [] | Some i \<Rightarrow> [i])"
    using step pos unfolding credit_segment_def by (auto split: if_splits option.splits)
qed

lemma credit_inv_step:
  assumes inv: "credit_inv points start end_time auto_lock_ns flag j cursor current"
    and pts: "distinct_changes points" and ep: "epoch_ns start" "epoch_ns end_time" and c: "cursor < end_time"
    and j: "j < length points" "ts_of points j < end_time"
    and step: "credit_segment flag auto_lock_ns (Some (ts_of points j)) (state_before points j) cursor
      (ts_of points j) current = (emitted, current')"
  shows "credit_inv points start end_time auto_lock_ns flag (Suc j) (ts_of points j) current'"
proof -
  have se: "ts_of points j = (if j < length points then min (ts_of points j) end_time else end_time)"
    using j by simp
  have step': "credit_segment flag auto_lock_ns (if j < length points then Some (ts_of points j) else None)
      (state_before points j) cursor (ts_of points j) current = (emitted, current')" using step j by simp
  note facts = credit_segment_step [OF inv pts ep c se step']
  have start: "start < ts_of points j" "start \<le> cursor" using inv j by (auto simp: credit_inv_def)
  have later: "start < ts_of points i" if "Suc j \<le> i" "i < length points" for i
    using inv that by (auto simp: credit_inv_def)
  have "start \<le> l \<and> l < r \<and> r = ts_of points j" if "current' = Some (l, r)" for l r
    using facts(3) [OF that] facts(1) start inv by (auto simp: credit_inv_def split: option.splits)
  then show ?thesis
    using facts(2) start later j unfolding credit_inv_def by (cases j) (auto simp: Suc_le_eq)
qed

text \<open>The loop from a state of the invariant: its output is ordered, stays after what is open, and covers the
  open interval and the creditable instants from the cursor to the end.\<close>

definition loop_exact ::
    "screen_change_point list \<Rightarrow> int \<Rightarrow> int \<Rightarrow> int \<Rightarrow> bool \<Rightarrow> int \<Rightarrow> credit_interval option
      \<Rightarrow> credit_interval list \<Rightarrow> bool" where
  "loop_exact points start end_time auto_lock_ns flag cursor current out \<longleftrightarrow>
     ordered_intervals out
     \<and> (\<forall>p \<in> set out. (case current of None \<Rightarrow> cursor | Some (l, _) \<Rightarrow> l) \<le> fst p)
     \<and> (\<forall>\<tau>. in_intervals out \<tau> \<longleftrightarrow>
          (case current of None \<Rightarrow> False | Some (l, r) \<Rightarrow> l \<le> \<tau> \<and> \<tau> < r)
          \<or> cursor \<le> \<tau> \<and> \<tau> < end_time \<and> screen_credited_at points start end_time auto_lock_ns flag \<tau>)"

lemma loop_exact_stop:
  assumes "end_time \<le> cursor" "\<forall>l r. current = Some (l, r) \<longrightarrow> l < r"
  shows "loop_exact points start end_time auto_lock_ns flag cursor current
    (case current of None \<Rightarrow> [] | Some i \<Rightarrow> [i])"
  using assms by (cases current) (auto simp: loop_exact_def)

lemma loop_exact_step:
  assumes inv: "credit_inv points start end_time auto_lock_ns flag j cursor current"
    and pts: "distinct_changes points" and ep: "epoch_ns start" "epoch_ns end_time" and c: "cursor < end_time"
    and se: "segment_end = (if j < length points then min (ts_of points j) end_time else end_time)"
    and step: "credit_segment flag auto_lock_ns (if j < length points then Some (ts_of points j) else None)
      (state_before points j) cursor segment_end current = (emitted, current')"
    and rest: "loop_exact points start end_time auto_lock_ns flag segment_end current' out"
  shows "loop_exact points start end_time auto_lock_ns flag cursor current (emitted @ out)"
proof -
  note facts = credit_segment_step [OF inv pts ep c se step]
  have cur: "start \<le> l \<and> l < r \<and> r = cursor" if "current = Some (l, r)" for l r
    using inv that unfolding credit_inv_def by blast
  have here: "screen_credited_at points start end_time auto_lock_ns flag \<tau> \<longleftrightarrow> current' \<noteq> None"
    if \<tau>: "cursor \<le> \<tau>" "\<tau> < segment_end" for \<tau>
  proof (cases "j = 0")
    case True
    have "\<not> ts_of points i \<le> \<tau>" if i: "i < length points" for i
    proof -
      have "ts_of points 0 \<le> ts_of points i" using changes_mono [OF pts, of 0 i] i by (cases "i = 0") auto
      moreover have "\<tau> < ts_of points 0" using \<tau>(2) se True i by (auto split: if_splits)
      ultimately show ?thesis by simp
    qed
    then have "\<not> screen_credited_at points start end_time auto_lock_ns flag \<tau>"
      unfolding screen_credited_at_def by blast
    then show ?thesis using facts(2) True by simp
  next
    case False
    have "ts_of points (j - 1) \<le> \<tau>" "j - 1 < length points"
      using inv False \<tau> by (auto simp: credit_inv_def)
    moreover have "Suc (j - 1) < length points \<longrightarrow> \<tau> < ts_of points (Suc (j - 1))"
      using False \<tau> se by (auto split: if_splits)
    ultimately show ?thesis using screen_credited_segment [OF pts] facts(2) False by simp
  qed
  have end_le: "segment_end \<le> end_time" using se by simp
  let ?C = "screen_credited_at points start end_time auto_lock_ns flag"
  have out: "in_intervals out \<tau> \<longleftrightarrow> (case current' of None \<Rightarrow> False | Some (l, r) \<Rightarrow> l \<le> \<tau> \<and> \<tau> < r)
      \<or> segment_end \<le> \<tau> \<and> \<tau> < end_time \<and> ?C \<tau>" for \<tau>
    using rest unfolding loop_exact_def by blast
  have ordered: "ordered_intervals out"
    and above: "\<forall>p \<in> set out. (case current' of None \<Rightarrow> segment_end | Some (l, _) \<Rightarrow> l) \<le> fst p"
    using rest unfolding loop_exact_def by blast+
  show ?thesis
  proof (cases current')
    case None
    have em: "emitted = (case current of None \<Rightarrow> [] | Some i \<Rightarrow> [i])" using facts(4) None by blast
    have off: "\<not> ?C \<tau>" if "cursor \<le> \<tau>" "\<tau> < segment_end" for \<tau> using here [OF that] None by simp
    have "in_intervals (emitted @ out) \<tau> \<longleftrightarrow>
        (case current of None \<Rightarrow> False | Some (l, r) \<Rightarrow> l \<le> \<tau> \<and> \<tau> < r) \<or> cursor \<le> \<tau> \<and> \<tau> < end_time \<and> ?C \<tau>" for \<tau>
      using out [of \<tau>] off [of \<tau>] None em facts(1) by (cases current) auto
    moreover have "ordered_intervals (emitted @ out)
        \<and> (\<forall>p \<in> set (emitted @ out). (case current of None \<Rightarrow> cursor | Some (l, _) \<Rightarrow> l) \<le> fst p)"
      using ordered above None em facts(1) cur by (cases current) fastforce+
    ultimately show ?thesis by (simp add: loop_exact_def)
  next
    case (Some lr)
    obtain l' r' where lr: "current' = Some (l', r')" using Some by (cases lr) simp
    note lr_facts = facts(3) [OF lr]
    have on: "?C \<tau>" if "cursor \<le> \<tau>" "\<tau> < segment_end" for \<tau> using here [OF that] lr by simp
    have "in_intervals (emitted @ out) \<tau> \<longleftrightarrow>
        (case current of None \<Rightarrow> False | Some (l, r) \<Rightarrow> l \<le> \<tau> \<and> \<tau> < r) \<or> cursor \<le> \<tau> \<and> \<tau> < end_time \<and> ?C \<tau>" for \<tau>
      using out [of \<tau>] on [of \<tau>] lr lr_facts facts(1) end_le cur
      by (cases current; cases "\<tau> < segment_end"; cases "cursor \<le> \<tau>") auto
    moreover have "ordered_intervals (emitted @ out)
        \<and> (\<forall>p \<in> set (emitted @ out). (case current of None \<Rightarrow> cursor | Some (l, _) \<Rightarrow> l) \<le> fst p)"
      using ordered above lr lr_facts by (cases current) auto
    ultimately show ?thesis by (simp add: loop_exact_def)
  qed
qed

lemma credit_loop_exact:
  assumes "credit_inv points start end_time auto_lock_ns flag j cursor current" "distinct_changes points"
    "epoch_ns start" "epoch_ns end_time"
  shows "loop_exact points start end_time auto_lock_ns flag cursor current
    (credit_loop flag auto_lock_ns end_time (drop j points) (state_before points j) cursor current)"
  using assms
proof (induction "length points - j" arbitrary: j cursor current)
  case 0
  have j: "j = length points" using 0(1,2) by (simp add: credit_inv_def)
  have cur: "\<forall>l r. current = Some (l, r) \<longrightarrow> l < r" and at: "\<forall>l r. current = Some (l, r) \<longrightarrow> r = cursor"
    using 0(2) unfolding credit_inv_def by blast+
  show ?case
  proof (cases "cursor < end_time")
    case True
    obtain emitted current' where step: "credit_segment flag auto_lock_ns None (state_before points j) cursor
        end_time current = (emitted, current')"
      by (cases "credit_segment flag auto_lock_ns None (state_before points j) cursor end_time current")
    have pos: "\<forall>l r. current' = Some (l, r) \<longrightarrow> l < r"
      using credit_segment_step(1,3) [OF 0(2-5) True, of end_time emitted current'] step j cur at True
      by (fastforce split: option.splits)
    from loop_exact_step [OF 0(2-5) True, of end_time emitted current'] step j
      loop_exact_stop [OF order_refl pos]
    show ?thesis using True by simp
  next
    case False
    with loop_exact_stop [OF _ cur] j show ?thesis by (simp add: not_less)
  qed
next
  case (Suc n)
  have j: "j < length points" using Suc.hyps(2) by simp
  have cur: "\<forall>l r. current = Some (l, r) \<longrightarrow> l < r" and at: "\<forall>l r. current = Some (l, r) \<longrightarrow> r = cursor"
    using Suc.prems(1) unfolding credit_inv_def by blast+
  have drop: "drop j points = points ! j # drop (Suc j) points" using j by (simp add: Cons_nth_drop_Suc)
  show ?case
  proof (cases "cursor < end_time")
    case True
    let ?se = "min (ts_of points j) end_time"
    obtain emitted current' where step: "credit_segment flag auto_lock_ns (Some (ts_of points j))
        (state_before points j) cursor ?se current = (emitted, current')"
      by (cases "credit_segment flag auto_lock_ns (Some (ts_of points j)) (state_before points j) cursor ?se current")
    have pos: "\<forall>l r. current' = Some (l, r) \<longrightarrow> l < r"
      using credit_segment_step(1,3) [OF Suc.prems True, of ?se emitted current'] step j cur at True
      by (fastforce split: option.splits)
    have "loop_exact points start end_time auto_lock_ns flag ?se current'
        (credit_loop flag auto_lock_ns end_time (drop (Suc j) points) (state_before points (Suc j)) ?se current')"
    proof (cases "ts_of points j < end_time")
      case True
      then have se: "?se = ts_of points j" by simp
      have "credit_inv points start end_time auto_lock_ns flag (Suc j) (ts_of points j) current'"
        using credit_inv_step [OF Suc.prems \<open>cursor < end_time\<close> j True] step se by simp
      with Suc.hyps(1) [of "Suc j"] Suc.hyps(2) Suc.prems(2-) se show ?thesis by simp
    next
      case False
      then have "end_time \<le> ?se" by simp
      moreover have "credit_loop flag auto_lock_ns end_time (drop (Suc j) points) st ?se current'
          = (case current' of None \<Rightarrow> [] | Some i \<Rightarrow> [i])" for st
        using False by (cases "drop (Suc j) points") simp_all
      ultimately show ?thesis using loop_exact_stop [OF _ pos] by simp
    qed
    from loop_exact_step [OF Suc.prems True _ _ this, of emitted] step j
    show ?thesis using True by (simp add: drop state_before_def)
  next
    case False
    with loop_exact_stop [OF _ cur] show ?thesis by (simp add: drop not_less)
  qed
qed

lemma creditable_exact:
  assumes "distinct_changes points" "epoch_ns start" "epoch_ns end_time" "start \<le> end_time"
  shows "ordered_intervals (creditable_intervals points start end_time auto_lock_ns flag)"
    "in_intervals (creditable_intervals points start end_time auto_lock_ns flag) \<tau> \<longleftrightarrow>
       start \<le> \<tau> \<and> \<tau> < end_time \<and> screen_credited_at points start end_time auto_lock_ns flag \<tau>"
proof -
  let ?j = "partition_point (\<lambda>p. cp_timestamp p \<le> start) points"
  have part: "cp_timestamp (points ! i) \<le> start"
    if "i < j" "j < length points" "cp_timestamp (points ! j) \<le> start" for i j
    using changes_mono [OF assms(1) that(1,2)] that(3) by simp
  have split: "?j \<le> length points" "\<forall>i < ?j. ts_of points i \<le> start"
    "\<forall>i \<ge> ?j. i < length points \<longrightarrow> \<not> ts_of points i \<le> start"
    by (rule partition_point_split, rule part, assumption+)+
  have last: "0 < ?j \<Longrightarrow> ts_of points (?j - 1) \<le> start"
    using split(2) by (metis diff_less zero_less_one)
  have "credit_inv points start end_time auto_lock_ns flag ?j start None"
    unfolding credit_inv_def
    using split(1,3) last by (cases "?j = 0") (simp_all add: not_le not_less max_absorb1)
  from credit_loop_exact [OF this assms(1-3)]
  show "ordered_intervals (creditable_intervals points start end_time auto_lock_ns flag)"
    "in_intervals (creditable_intervals points start end_time auto_lock_ns flag) \<tau> \<longleftrightarrow>
       start \<le> \<tau> \<and> \<tau> < end_time \<and> screen_credited_at points start end_time auto_lock_ns flag \<tau>"
    by (simp_all add: creditable_intervals_def loop_exact_def Let_def)
qed

end
