(* ===== verification/Credit_Properties.thy ===== *)
theory Credit_Properties
  imports Credit_Exact Source_Rows
begin

text \<open>
  The properties of screen-gated credit and of row lineage: which instants are credited, that credit
  never exceeds the session, what the report counts, that the optimised liveness spans are the
  reference ones, and that merged lineage is the union of its parts.
\<close>

section \<open>What the witness index holds\<close>

definition indexed_from :: "pipeline_row list \<Rightarrow> screen_credit_substrate \<Rightarrow> bool" where
  "indexed_from raw sub \<longleftrightarrow>
     (\<forall>key points. sub_points sub key = Some points \<longrightarrow>
        change_points (participant_events raw key) None = Inr points \<and> sub_all_timestamps sub key \<noteq> None)
     \<and> (\<forall>key times. sub_all_timestamps sub key = Some times \<longrightarrow> times = map fst (participant_events raw key))"

lemma index_participants_from:
  "index_participants raw keys sub = Inr sub' \<Longrightarrow> indexed_from raw sub \<Longrightarrow> indexed_from raw sub'"
proof (induction keys arbitrary: sub)
  case (Cons key keys)
  obtain points where points: "change_points (participant_events raw key) None = Inr points"
    using Cons.prems(1) by (auto simp: Let_def split: sum.splits)
  note step = Cons.prems(1) [unfolded index_participants.simps Let_def points sum.case]
  show ?case
    by (rule Cons.IH [OF step]) (use Cons.prems(2) points in \<open>auto simp: indexed_from_def\<close>)
qed simp

lemma substrate_from:
  assumes "build_screen_credit_substrate raw = Inr sub"
  shows "indexed_from raw sub"
  using assms unfolding build_screen_credit_substrate_def
  by (rule index_participants_from)
    (simp add: indexed_from_def empty_substrate_def)

lemma participant_events_sorted: "sorted (map fst (participant_events raw key))"
  by (simp add: participant_events_def)

section \<open>Decisions\<close>

lemma alive_exact:
  assumes "sorted ts"
  shows "ordered_intervals (clip_alive_spans (build_alive_spans ts tol boots) a b)"
    "in_intervals (clip_alive_spans (build_alive_spans ts tol boots) a b) \<tau> \<longleftrightarrow>
       a \<le> \<tau> \<and> \<tau> < b \<and> alive_at tol boots ts \<tau>"
proof -
  have "clip_alive_spans (build_alive_spans ts tol boots) a b = clips a b (build_alive_spans ts tol boots)"
    by (rule clip_alive_spans_clips) (rule alive_spans_ordered [OF assms])+
  moreover have "sorted_wrt (\<lambda>a b. snd a \<le> fst b) (clips a b (build_alive_spans ts tol boots))"
    by (rule clips_ordered) (rule alive_spans_ordered [OF assms])
  moreover have "fst p < snd p" if "p \<in> set (clip_alive_spans (build_alive_spans ts tol boots) a b)" for p
    using alive.positive [of "(ts, tol, boots)" p a b] that assms by simp
  ultimately show "ordered_intervals (clip_alive_spans (build_alive_spans ts tol boots) a b)"
    by (simp add: ordered_intervals_def)
  show "in_intervals (clip_alive_spans (build_alive_spans ts tol boots) a b) \<tau> \<longleftrightarrow>
      a \<le> \<tau> \<and> \<tau> < b \<and> alive_at tol boots ts \<tau>"
    using alive.covered_iff [of "(ts, tol, boots)" a b \<tau>] assms by (simp add: in_intervals_def)
qed

lemma window_point:
  assumes "distinct_changes points"
  shows "(let k = partition_point (\<lambda>p. cp_timestamp p < start) points
          in k < length points \<and> cp_timestamp (points ! k) \<le> end_time)
    \<longleftrightarrow> (\<exists>p \<in> set points. start \<le> cp_timestamp p \<and> cp_timestamp p \<le> end_time)" (is "?L \<longleftrightarrow> ?R")
proof -
  let ?k = "partition_point (\<lambda>p. cp_timestamp p < start) points"
  have part: "cp_timestamp (points ! i) < start"
    if "i < j" "j < length points" "cp_timestamp (points ! j) < start" for i j
    using changes_mono [OF assms that(1,2)] that(3) by simp
  have split: "?k \<le> length points" "\<forall>i < ?k. ts_of points i < start"
    "\<forall>i \<ge> ?k. i < length points \<longrightarrow> \<not> ts_of points i < start"
    by (rule partition_point_split, rule part, assumption+)+
  show ?thesis
  proof
    assume ?L
    then show ?R using split(3) by (auto simp: Let_def not_less intro!: bexI [of _ "points ! ?k"])
  next
    assume ?R
    then obtain i where i: "i < length points" "start \<le> ts_of points i" "ts_of points i \<le> end_time"
      by (auto simp: in_set_conv_nth)
    then have "?k \<le> i" using split(2) by (meson not_le)
    then have "?k < length points" "ts_of points ?k \<le> end_time"
      using i changes_mono [OF assms, of ?k i] by (cases "?k = i"; simp)+
    then show ?L by (simp add: Let_def)
  qed
qed

text \<open>The participant's alive timeline, read off the index.\<close>

definition witnessed_alive :: "screen_credit_substrate \<Rightarrow> int \<Rightarrow> string \<Rightarrow> int \<Rightarrow> bool" where
  "witnessed_alive sub tolerance_ns key =
     alive_at tolerance_ns (witness_list (sub_boots sub) key) (witness_list (sub_all_timestamps sub) key)"

lemma participant_alive_exact:
  assumes "indexed_from raw sub"
  shows "ordered_intervals (participant_alive sub tol key a b)"
    "in_intervals (participant_alive sub tol key a b) \<tau> \<longleftrightarrow> a \<le> \<tau> \<and> \<tau> < b \<and> witnessed_alive sub tol key \<tau>"
proof -
  have "sorted (witness_list (sub_all_timestamps sub) key)"
    using assms participant_events_sorted [of raw key]
    by (cases "sub_all_timestamps sub key") (auto simp: witness_list_def indexed_from_def)
  from alive_exact [OF this]
  show "ordered_intervals (participant_alive sub tol key a b)"
    "in_intervals (participant_alive sub tol key a b) \<tau> \<longleftrightarrow> a \<le> \<tau> \<and> \<tau> < b \<and> witnessed_alive sub tol key \<tau>"
    by (auto simp: participant_alive_def witnessed_alive_def witness_list_def build_alive_from
        clip_alive_spans_def List.map_filter_simps split: option.splits)
qed

lemma inside_of_exact:
  assumes "ordered_intervals ivs" "\<And>\<tau>. in_intervals ivs \<tau> \<Longrightarrow> a \<le> \<tau> \<and> \<tau> < b" "p \<in> set ivs"
  shows "a \<le> fst p \<and> snd p \<le> b"
proof -
  have "fst p < snd p" using assms(1,3) by (auto simp: ordered_intervals_def)
  then have "in_intervals ivs (fst p)" "in_intervals ivs (snd p - 1)" using assms(3) by (force simp: in_intervals_def)+
  with assms(2) [of "fst p"] assms(2) [of "snd p - 1"] show ?thesis by simp
qed

text \<open>A session whose credit is decided: it has both timestamps, in order and in the epoch range, the cap is
  not negative, and the screen changes of its participant have distinct timestamps.\<close>

definition creditable_session ::
    "screen_credit_substrate \<Rightarrow> credit_settings \<Rightarrow> pipeline_row \<Rightarrow> int \<Rightarrow> int \<Rightarrow> bool" where
  "creditable_session sub cs r start stop \<longleftrightarrow>
     row_start r = Some start \<and> row_stop r = Some stop \<and> start < stop \<and> epoch_ns start \<and> epoch_ns stop
     \<and> 0 \<le> minutes_to_ns (cs_session_cap_minutes cs)
     \<and> distinct_changes (witness_list (sub_points sub) (witness_key (row_participant_id r)))"

definition credit_end :: "credit_settings \<Rightarrow> int \<Rightarrow> int \<Rightarrow> int" where
  "credit_end cs start stop = min stop (i64_saturating_add start (minutes_to_ns (cs_session_cap_minutes cs)))"

lemma credit_end_range:
  assumes "creditable_session sub cs r start stop"
  shows "epoch_ns (credit_end cs start stop)" "start \<le> credit_end cs start stop" "credit_end cs start stop \<le> stop"
    "credit_end cs start stop \<le> start + minutes_to_ns (cs_session_cap_minutes cs)"
  using assms by (auto simp: creditable_session_def credit_end_def epoch_ns_def i64_saturating_add_def
      clamp_i64_def i64_min_def i64_max_def)

lemma decision_of_session:
  assumes "creditable_session sub cs r start stop"
  shows "credit_decision_of sub days cs r =
    (case credited_of sub days cs r start (credit_end cs start stop) of
       (intervals, fallback) \<Rightarrow> Intervals intervals (credit_end cs start stop < stop) fallback)"
  using assms by (simp add: credit_decision_of_def creditable_session_def credit_end_def Let_def)

text \<open>Every branch of the decision gives ordered intervals inside the capped session.\<close>

lemma credited_inside:
  assumes ix: "indexed_from raw sub" and ses: "creditable_session sub cs r start stop"
    and ivs: "ivs = fst (credited_of sub days cs r start (credit_end cs start stop))"
  shows "ordered_intervals (filter (\<lambda>(s, e). s < e) ivs)
    \<and> (\<forall>p \<in> set ivs. start \<le> fst p \<and> snd p \<le> credit_end cs start stop)"
proof -
  let ?e = "credit_end cs start stop" and ?key = "witness_key (row_participant_id r)"
  let ?tol = "minutes_to_ns (cs_liveness_gap_tolerance_minutes cs)"
  let ?points = "witness_list (sub_points sub) ?key"
  let ?alive = "participant_alive sub ?tol ?key start ?e"
  let ?screen = "creditable_intervals ?points start ?e (whole_seconds_to_ns (cs_auto_lock_bridge_seconds cs))
    (cs_bridge_to_session_end cs)"
  note range = credit_end_range [OF ses]
  have good: "ordered_intervals (filter (\<lambda>(s, e). s < e) l) \<and> (\<forall>p \<in> set l. start \<le> fst p \<and> snd p \<le> ?e)"
    if "ordered_intervals l" "\<And>\<tau>. in_intervals l \<tau> \<Longrightarrow> start \<le> \<tau> \<and> \<tau> < ?e" for l
    using inside_of_exact [OF that] that(1) by (auto simp: ordered_intervals_def sorted_wrt_filter)
  have alive: "ordered_intervals ?alive" "\<And>\<tau>. in_intervals ?alive \<tau> \<Longrightarrow> start \<le> \<tau> \<and> \<tau> < ?e"
    using participant_alive_exact [OF ix] by blast+
  have screen: "ordered_intervals ?screen" "\<And>\<tau>. in_intervals ?screen \<tau> \<Longrightarrow> start \<le> \<tau> \<and> \<tau> < ?e"
    using creditable_exact [of ?points start ?e] range ses by (auto simp: creditable_session_def)
  have both: "ordered_intervals (intersect_intervals ?screen ?alive)"
      "\<And>\<tau>. in_intervals (intersect_intervals ?screen ?alive) \<tau> \<Longrightarrow> start \<le> \<tau> \<and> \<tau> < ?e"
    using intersect_intervals_exact [OF screen(1) alive(1)] screen(2) by blast+
  have "ivs \<in> {?alive, [], [(start, ?e)], intersect_intervals ?screen ?alive, ?screen}"
    unfolding ivs credited_of_def by (simp add: Let_def split: screen_gating_rule.split)
  moreover have "ordered_intervals (filter (\<lambda>(s, e). s < e) [(start, ?e)])" by simp
  ultimately show ?thesis using good [OF alive] good [OF screen] good [OF both] range(2) by auto
qed

section \<open>Rows\<close>

lemma ordered_width:
  assumes "ordered_intervals ivs" "\<forall>p \<in> set ivs. a \<le> fst p \<and> snd p \<le> b" "a \<le> b"
  shows "(\<Sum>p\<leftarrow>ivs. snd p - fst p) \<le> b - a"
  using assms
proof (induction ivs arbitrary: a)
  case (Cons p ivs)
  have "(\<Sum>q\<leftarrow>ivs. snd q - fst q) \<le> b - snd p" by (rule Cons.IH) (use Cons.prems in auto)
  with Cons.prems show ?case by auto
qed simp

lemma credited_row_simps [simp]:
  "row_start (credited_row chrono sub tol r (s, e)) = Some s"
  "row_stop (credited_row chrono sub tol r (s, e)) = Some e"
  "row_event_timestamp_ns (credited_row chrono sub tol r (s, e)) = s"
  "row_participant_id (credited_row chrono sub tol r (s, e)) = row_participant_id r"
  "row_app_package_name (credited_row chrono sub tol r (s, e)) = row_app_package_name r"
  "et_duration_seconds (row_timing (credited_row chrono sub tol r (s, e)))
     = Some (f64_div (i64_as_f64 (i64_sub e s)) 1000000000)"
  "row_source_data_rows (credited_row chrono sub tol r (s, e))
     = merge_rows (row_source_data_rows r) (credit_contributors sub (witness_key (row_participant_id r)) s e)"
  by (simp_all add: credited_row_def Let_def)

lemma materialize_fold:
  "fold (materialize_step chrono sub tol) (zip sessions (map decide sessions)) em =
     \<lparr>em_credited = em_credited em @ concat (map (\<lambda>r. credited_rows_of chrono sub tol r (decide r)) sessions),
      em_counts = \<lparr>ec_truncated_sessions = ec_truncated_sessions (em_counts em)
                     + length (filter (\<lambda>r. \<exists>ivs fb. decide r = Intervals ivs True fb) sessions),
                   ec_no_witness_fallbacks = ec_no_witness_fallbacks (em_counts em)
                     + length (filter (\<lambda>r. \<exists>ivs cap. decide r = Intervals ivs cap True) sessions),
                   ec_fully_dead_sessions = ec_fully_dead_sessions (em_counts em)
                     + length (filter (\<lambda>r. credited_rows_of chrono sub tol r (decide r) = []) sessions)\<rparr>\<rparr>"
proof (induction sessions arbitrary: em)
  case (Cons r sessions)
  have "em_credited (materialize_step chrono sub tol (r, decide r) em) = em_credited em @ credited_rows_of chrono sub tol r (decide r)"
    "em_counts (materialize_step chrono sub tol (r, decide r) em)
      = count_decision (decide r) (credited_rows_of chrono sub tol r (decide r) = []) (em_counts em)"
    by (simp_all add: materialize_step_def Let_def)
  moreover have "credited_rows_of chrono sub tol r Passthrough = [r]" by (simp add: credited_rows_of_def)
  ultimately show ?case
    by (cases "decide r") (simp_all add: Cons.IH count_decision_def)
qed simp

section \<open>Lineage\<close>

definition normal_substrate :: "screen_credit_substrate \<Rightarrow> bool" where
  "normal_substrate sub \<longleftrightarrow>
     (\<forall>key points. sub_points sub key = Some points \<longrightarrow>
        (\<forall>p \<in> set points. normal_rows (cp_source_data_rows p)))"

lemma change_points_rows:
  "change_points events last_state = Inr points \<Longrightarrow>
     \<forall>p \<in> set points. \<exists>kind. (cp_timestamp p, kind, cp_source_data_rows p) \<in> set events"
proof (induction events last_state arbitrary: points rule: change_points.induct)
  case (2 timestamp kind source_rows events last_state)
  show ?case
    using 2 by (auto split: sum.splits if_splits) blast+
qed simp

lemma normal_substrate_of:
  assumes "build_screen_credit_substrate raw = Inr sub" "\<forall>r \<in> set raw. normal_rows (row_source_data_rows r)"
  shows "normal_substrate sub"
proof -
  have "normal_rows (cp_source_data_rows p)"
    if key: "sub_points sub key = Some points" and p: "p \<in> set points" for key points p
  proof -
    have "change_points (participant_events raw key) None = Inr points"
      using substrate_from [OF assms(1)] key by (auto simp: indexed_from_def)
    from change_points_rows [OF this] p
    show ?thesis using assms(2) by (fastforce simp: participant_events_def)
  qed
  then show ?thesis by (simp add: normal_substrate_def)
qed

lemma merge_fold:
  assumes "normal_rows acc" "\<forall>p \<in> set ps. normal_rows (cp_source_data_rows p)"
  shows "normal_rows (fold (\<lambda>p acc. merge_rows acc (cp_source_data_rows p)) ps acc)
    \<and> row_set (fold (\<lambda>p acc. merge_rows acc (cp_source_data_rows p)) ps acc)
        = row_set acc \<union> (\<Union>p \<in> set ps. row_set (cp_source_data_rows p))"
  using assms
proof (induction ps arbitrary: acc)
  case (Cons p ps)
  note m = merge_rows_union [of acc "cp_source_data_rows p"]
  from Cons.IH [of "merge_rows acc (cp_source_data_rows p)"] Cons.prems m show ?case by auto
qed simp

lemma change_points_sorted:
  "change_points events last_state = Inr points \<Longrightarrow> sorted (map fst events) \<Longrightarrow> sorted (map cp_timestamp points)"
proof (induction events last_state arbitrary: points rule: change_points.induct)
  case (2 timestamp kind source_rows events last_state)
  show ?case
  proof (cases "the (case screen_witness_state kind of Inr state \<Rightarrow> Some (state \<noteq> None \<and> state \<noteq> last_state) | _ \<Rightarrow> Some False)")
    case True
    then obtain state rest where st: "screen_witness_state kind = Inr state" "state \<noteq> None \<and> state \<noteq> last_state"
        and rest: "change_points events state = Inr rest"
        and points: "points = \<lparr>cp_timestamp = timestamp, cp_state = the state, cp_source_data_rows = source_rows\<rparr> # rest"
      using "2.prems"(1) by (auto split: sum.splits)
    have "\<forall>p \<in> set rest. timestamp \<le> cp_timestamp p"
      using change_points_rows [OF rest] "2.prems"(2) by fastforce
    moreover have "sorted (map cp_timestamp rest)" using "2.IH"(1) [OF st(1) st(2) rest] "2.prems"(2) by simp
    ultimately show ?thesis by (simp add: points)
  next
    case False
    then obtain state where st: "screen_witness_state kind = Inr state" "\<not> (state \<noteq> None \<and> state \<noteq> last_state)"
        "change_points events last_state = Inr points"
      using "2.prems"(1) by (auto split: sum.splits)
    with "2.IH"(2) [OF st(1,2)] "2.prems"(2) show ?thesis by simp
  qed
qed simp

text \<open>The witnesses of an interval: the last screen change at or before its start, and those inside it.\<close>

definition deciding_changes :: "screen_change_point list \<Rightarrow> int \<Rightarrow> int \<Rightarrow> screen_change_point set" where
  "deciding_changes points s e =
     (case filter (\<lambda>p. cp_timestamp p \<le> s) points of [] \<Rightarrow> {} | ps \<Rightarrow> {last ps})
     \<union> {p \<in> set points. s < cp_timestamp p \<and> cp_timestamp p \<le> e}"

lemma contributors_union:
  assumes norm: "normal_substrate sub" and sorted: "sorted (map cp_timestamp (witness_list (sub_points sub) key))"
    and se: "s \<le> e"
  shows "normal_rows (credit_contributors sub key s e)
    \<and> row_set (credit_contributors sub key s e)
      = (\<Union>p \<in> deciding_changes (witness_list (sub_points sub) key) s e. row_set (cp_source_data_rows p))"
proof (cases "sub_points sub key")
  case None
  then show ?thesis by (simp add: credit_contributors_def witness_list_def deciding_changes_def)
next
  case (Some points)
  have srt: "sorted (map cp_timestamp points)" using sorted Some by (simp add: witness_list_def)
  have rows: "\<forall>p \<in> set points. normal_rows (cp_source_data_rows p)" using norm Some by (simp add: normal_substrate_def)
  define A where "A = takeWhile (\<lambda>p. cp_timestamp p \<le> s) points"
  define B where "B = dropWhile (\<lambda>p. cp_timestamp p \<le> s) points"
  have AB: "points = A @ B" by (simp add: A_def B_def)
  have inA: "cp_timestamp p \<le> s" if "p \<in> set A" for p using that by (auto simp: A_def dest: set_takeWhileD)
  have inB: "s < cp_timestamp p" if "p \<in> set B" for p
  proof -
    have "B \<noteq> []" using that by auto
    then have "s < cp_timestamp (hd B)" using hd_dropWhile [of "\<lambda>p. cp_timestamp p \<le> s" points] by (simp add: B_def)
    moreover have "cp_timestamp (hd B) \<le> cp_timestamp p"
      using srt that unfolding AB by (cases B) (auto simp: sorted_append)
    ultimately show ?thesis by simp
  qed
  have filt: "filter (\<lambda>p. cp_timestamp p \<le> s) points = A"
    using inA inB by (fastforce simp: AB filter_empty_conv filter_id_conv)
  have upper: "takeWhile (\<lambda>p. cp_timestamp p \<le> e) points = A @ takeWhile (\<lambda>p. cp_timestamp p \<le> e) B"
    unfolding AB by (rule takeWhile_append2) (use inA se in force)
  define C where "C = takeWhile (\<lambda>p. cp_timestamp p \<le> e) B"
  have srtB: "sorted (map cp_timestamp B)" using srt by (simp add: AB sorted_append)
  have setC: "set C = {p \<in> set points. s < cp_timestamp p \<and> cp_timestamp p \<le> e}"
  proof -
    have "p \<in> set C \<longleftrightarrow> p \<in> set B \<and> cp_timestamp p \<le> e" for p
      using srtB unfolding C_def by (induction B) auto
    then show ?thesis using inA inB by (fastforce simp: AB)
  qed
  define before where "before = (if A = [] then [] else merge_rows [] (cp_source_data_rows (last A)))"
  have k: "partition_point (\<lambda>p. cp_timestamp p \<le> s) points = length A"
    "partition_point (\<lambda>p. cp_timestamp p \<le> e) points = length A + length C"
    using partition_point_sorted(1) [OF srt] upper by (simp_all add: A_def C_def)
  have slice: "take (length C) (drop (length A) points) = C"
    by (simp add: AB C_def take_takeWhile_length)
  have nth: "A \<noteq> [] \<Longrightarrow> points ! (length A - 1) = last A" by (simp add: AB nth_append last_conv_nth)
  have contrib: "credit_contributors sub key s e = fold (\<lambda>p acc. merge_rows acc (cp_source_data_rows p)) C before"
    using Some nth slice by (simp add: credit_contributors_def Let_def k before_def)
  have "last A \<in> set points" if "A \<noteq> []" using that by (simp add: AB)
  then have bef: "normal_rows before" "row_set before = (if A = [] then {} else row_set (cp_source_data_rows (last A)))"
    using merge_rows_union [of "[]"] rows by (simp_all add: before_def)
  have "\<forall>p \<in> set C. normal_rows (cp_source_data_rows p)" using rows setC by auto
  from merge_fold [OF bef(1) this]
  show ?thesis
    using Some by (cases A) (auto simp: contrib bef(2) setC deciding_changes_def witness_list_def filt)
qed

section \<open>A concrete stream\<close>

text \<open>A device that turns its screen on at 0 and off at 40, and is alive until 60; a session from 10 to 50.\<close>

definition sample_row :: "string \<Rightarrow> int \<Rightarrow> nat \<Rightarrow> pipeline_row" where
  "sample_row kind t n =
     (event_row ''P'' kind ''app'' t n)
       \<lparr>row_timing := empty_timing\<lparr>et_start := Some t, et_stop := Some (t + 40), et_duration_minutes := Some 1\<rparr>\<rparr>"

definition sample_stream :: "pipeline_row list" where
  "sample_stream =
     [sample_row ''Screen Interactive'' 0 2, sample_row ''Screen Non-Interactive'' 40 3,
      sample_row ''Activity Paused'' 60 4]"

definition sample_points :: "screen_change_point list" where
  "sample_points =
     [\<lparr>cp_timestamp = 0, cp_state = On, cp_source_data_rows = single_row 2\<rparr>,
      \<lparr>cp_timestamp = 40, cp_state = Off, cp_source_data_rows = single_row 3\<rparr>]"

definition sample_substrate :: screen_credit_substrate where
  "sample_substrate =
     \<lparr>sub_points = [''P'' \<mapsto> sample_points], sub_boots = [''P'' \<mapsto> []],
      sub_all_timestamps = [''P'' \<mapsto> [0, 40, 60]],
      sub_source_events = [''P'' \<mapsto> [(0, single_row 2), (40, single_row 3), (60, single_row 4)]],
      sub_capable = [''P'']\<rparr>"

definition sample_settings :: credit_settings where
  "sample_settings =
     \<lparr>cs_session_cap_minutes = 1, cs_liveness_gap_tolerance_minutes = 1, cs_auto_lock_bridge_seconds = 0,
      cs_bridge_to_session_end = False, cs_no_witness_min_day_apps = 0, cs_gating_rule = ScreenAndLivenessV1\<rparr>"

abbreviation sample_session :: pipeline_row where
  "sample_session \<equiv> sample_row ''App Usage'' 10 5"

lemma sample_built: "build_screen_credit_substrate sample_stream = Inr sample_substrate"
  by (simp add: build_screen_credit_substrate_def sample_stream_def sample_row_def event_row_def empty_timing_def witness_key_def Let_def
      participant_events_def screen_witness_state_def starts_with_def is_numbered_type_def on_witnesses_def
      off_witnesses_def reports_screen_def screen_start_events_def screen_stop_events_def
      empty_substrate_def sample_substrate_def sample_points_def)

lemma sample_lookup:
  "witness_key (row_participant_id sample_session) = ''P''"
  "witness_list (sub_points sample_substrate) ''P'' = sample_points"
  by (simp_all add: sample_substrate_def witness_list_def sample_row_def event_row_def empty_timing_def witness_key_def)

lemma one_minute: "minutes_to_ns 1 = 60000000000"
  by code_simp

lemma sample_creditable: "creditable_session sample_substrate sample_settings sample_session 10 50"
  by (simp add: creditable_session_def sample_row_def event_row_def empty_timing_def sample_settings_def one_minute sample_substrate_def
      witness_list_def witness_key_def sample_points_def distinct_changes_def epoch_ns_def i64_max_def)

lemma sample_end: "credit_end sample_settings 10 50 = 50"
  by (simp add: credit_end_def sample_settings_def one_minute i64_saturating_add_def clamp_i64_def
      i64_min_def i64_max_def)

section \<open>Properties\<close>

text \<open>C24: the alive spans, built once per participant and clipped to a session by binary search, are exactly the
  intervals of the reference that slices the timestamps around the session and rebuilds the spans; on a
  sorted stream in the epoch range the reference's slice never panics.\<close>

theorem alive_spans_match_reference:
  assumes "exact_tolerance timestamps start end_time tolerance_ns" "start \<le> end_time"
  shows "reference_alive_intervals timestamps start end_time tolerance_ns boots
    = Some (clip_alive_spans (build_alive_spans timestamps tolerance_ns boots) start end_time)"
  by (rule reference_alive_same) (rule assms)+

theorem alive_spans_match_reference_witness:
  "exact_tolerance [0, 40, 60] 10 50 30
    \<and> reference_alive_intervals [0, 40, 60] 10 50 30 [] = Some (clip_alive_spans (build_alive_spans [0, 40, 60] 30 []) 10 50)"
proof
  show tol: "exact_tolerance [0, 40, 60] 10 50 30" by (simp add: exact_tolerance_def epoch_ns_def i64_max_def)
  show "reference_alive_intervals [0, 40, 60] 10 50 30 [] = Some (clip_alive_spans (build_alive_spans [0, 40, 60] 30 []) 10 50)"
    by (rule alive_spans_match_reference [OF tol]) simp
qed


text \<open>A session has a screen witness when the screen's state is known at its start or changes inside it.\<close>

definition screen_witnessed :: "screen_change_point list \<Rightarrow> int \<Rightarrow> int \<Rightarrow> bool" where
  "screen_witnessed points start end_time \<longleftrightarrow>
     screen_state_at points start \<noteq> None
     \<or> (\<exists>p \<in> set points. start \<le> cp_timestamp p \<and> cp_timestamp p \<le> end_time)"

text \<open>C4: the shipped rule, for a session with both timestamps in order, a non-negative cap and screen changes at
  distinct instants. An instant is credited exactly once when it lies in the capped session and the case the
  session falls into credits it, and otherwise not at all. The cases: a participant whose stream never reports
  the screen is credited the whole capped session; a session without a screen witness, its living time if the
  participant's day has enough apps and nothing otherwise, which alone is marked as the fallback; any other
  session, the instants at which the device was alive (between two neighbouring events no further apart than
  the tolerance, no boot between them) and the screen on, or off for less than the bridge right after credited
  time.\<close>

theorem credited_time_exact:
  assumes "build_screen_credit_substrate raw = Inr sub" "creditable_session sub cs r start stop"
    and "cs_gating_rule cs = ScreenAndLivenessV1"
    and "key = witness_key (row_participant_id r)" "points = witness_list (sub_points sub) key"
    and "end_time = credit_end cs start stop"
    and "day_count = (case days (row_participant_id r, row_date r) of None \<Rightarrow> 0 | Some apps \<Rightarrow> card apps)"
  shows "\<exists>intervals fallback. credit_decision_of sub days cs r = Intervals intervals (end_time < stop) fallback
    \<and> (fallback \<longleftrightarrow> points \<noteq> [] \<and> key \<in> set (sub_capable sub) \<and> \<not> screen_witnessed points start end_time
         \<and> cs_no_witness_min_day_apps cs \<le> day_count)
    \<and> (\<forall>\<tau>. length (filter (\<lambda>p. fst p \<le> \<tau> \<and> \<tau> < snd p) intervals)
        = (if start \<le> \<tau> \<and> \<tau> < end_time
              \<and> (if points = [] \<or> key \<notin> set (sub_capable sub) then True
                 else witnessed_alive sub (minutes_to_ns (cs_liveness_gap_tolerance_minutes cs)) key \<tau>
                   \<and> (if screen_witnessed points start end_time
                      then screen_credited_at points start end_time
                             (whole_seconds_to_ns (cs_auto_lock_bridge_seconds cs)) (cs_bridge_to_session_end cs) \<tau>
                      else cs_no_witness_min_day_apps cs \<le> day_count))
           then 1 else 0))"
proof -
  let ?alive = "participant_alive sub (minutes_to_ns (cs_liveness_gap_tolerance_minutes cs)) key start end_time"
  let ?screen = "creditable_intervals points start end_time (whole_seconds_to_ns (cs_auto_lock_bridge_seconds cs))
    (cs_bridge_to_session_end cs)"
  have pts: "distinct_changes points" using assms(2,4,5) by (simp add: creditable_session_def)
  have witness: "screen_witnessed points start end_time \<longleftrightarrow> \<not> (screen_state_at points start = None
      \<and> \<not> (let k = partition_point (\<lambda>p. cp_timestamp p < start) points
             in k < length points \<and> cp_timestamp (points ! k) \<le> end_time))"
    unfolding window_point [OF pts] by (simp add: screen_witnessed_def)
  have credited: "credited_of sub days cs r start end_time =
      (if points = [] \<or> key \<notin> set (sub_capable sub) then ([(start, end_time)], False)
       else if screen_witnessed points start end_time then (intersect_intervals ?screen ?alive, False)
       else if cs_no_witness_min_day_apps cs \<le> day_count then (?alive, True) else ([], False))"
    unfolding witness credited_of_def Let_def assms(4) [symmetric] assms(5) [symmetric] assms(7) [symmetric]
    by (simp add: assms(3) consults_screen_witness_def requires_screen_witness_def)
  have dec: "credit_decision_of sub days cs r = (case credited_of sub days cs r start end_time of
      (intervals, fallback) \<Rightarrow> Intervals intervals (end_time < stop) fallback)"
    using decision_of_session [OF assms(2)] by (simp add: assms(6))
  note alive = participant_alive_exact [OF substrate_from [OF assms(1)]]
  have range: "epoch_ns start" "epoch_ns end_time" "start \<le> end_time"
    using assms(2) credit_end_range [OF assms(2)] by (simp_all add: creditable_session_def assms(6))
  note screen = creditable_exact [OF pts range]
  note both = intersect_intervals_exact [OF screen(1) alive(1)]
  have living: "length (filter (\<lambda>p. fst p \<le> \<tau> \<and> \<tau> < snd p) ?alive)
      = (if start \<le> \<tau> \<and> \<tau> < end_time
           \<and> witnessed_alive sub (minutes_to_ns (cs_liveness_gap_tolerance_minutes cs)) key \<tau> then 1 else 0)" for \<tau>
    using ordered_intervals_count [OF alive(1)] alive(2) by (metis (no_types, lifting))
  have shown: "length (filter (\<lambda>p. fst p \<le> \<tau> \<and> \<tau> < snd p) (intersect_intervals ?screen ?alive))
      = (if in_intervals ?screen \<tau> \<and> in_intervals ?alive \<tau> then 1 else 0)" for \<tau>
    using ordered_intervals_count both by (metis (no_types, lifting))
  show ?thesis unfolding dec credited by (auto simp: living shown screen(2) alive(2))
qed

theorem credited_time_exact_witness:
  "\<exists>intervals. credit_decision_of sample_substrate Map.empty sample_settings sample_session = Intervals intervals False False
    \<and> length (filter (\<lambda>p. fst p \<le> 20 \<and> 20 < snd p) intervals) = 1
    \<and> length (filter (\<lambda>p. fst p \<le> 45 \<and> 45 < snd p) intervals) = 0"
proof -
  have rule: "cs_gating_rule sample_settings = ScreenAndLivenessV1" by (simp add: sample_settings_def)
  have capable: "witness_key (row_participant_id sample_session) \<in> set (sub_capable sample_substrate)"
    by (simp add: sample_substrate_def sample_lookup)
  have settings: "minutes_to_ns (cs_liveness_gap_tolerance_minutes sample_settings) = 60000000000"
      "whole_seconds_to_ns (cs_auto_lock_bridge_seconds sample_settings) = 0"
      "cs_bridge_to_session_end sample_settings = False"
    by code_simp+
  have known: "screen_state_at sample_points 10 \<noteq> None" by code_simp
  then have seen: "screen_witnessed sample_points 10 50" "sample_points \<noteq> []"
    by (simp_all add: screen_witnessed_def sample_points_def)
  obtain intervals where dec: "credit_decision_of sample_substrate Map.empty sample_settings sample_session
        = Intervals intervals False False"
      and count: "\<And>\<tau>. length (filter (\<lambda>p. fst p \<le> \<tau> \<and> \<tau> < snd p) intervals)
        = (if 10 \<le> \<tau> \<and> \<tau> < 50 \<and> witnessed_alive sample_substrate 60000000000 ''P'' \<tau>
              \<and> screen_credited_at sample_points 10 50 0 False \<tau> then 1 else 0)"
    using credited_time_exact [OF sample_built sample_creditable rule refl refl refl refl,
        unfolded sample_lookup sample_end settings, of Map.empty] capable seen
    by (auto simp: sample_lookup)
  have "witnessed_alive sample_substrate 60000000000 ''P'' 20" by code_simp
  moreover have "screen_credited_at sample_points 10 50 0 False 20"
    by (simp add: screen_credited_at_def sample_points_def Ex_less_Suc numeral_2_eq_2)
  moreover have "\<not> screen_credited_at sample_points 10 50 0 False 45"
    by (simp add: screen_credited_at_def sample_points_def short_off_def Ex_less_Suc numeral_2_eq_2)
  ultimately show ?thesis using dec count [of 20] count [of 45] by simp
qed


text \<open>C25: for a session with ordered timestamps and a non-negative cap, of a participant whose screen changes
  have distinct timestamps, the credited rows are ordered without overlap, of positive width and inside the
  session, each dated at its own start; together they never exceed the session or the cap. This holds under
  every gating rule and on every fallback.\<close>

theorem credited_rows_inside_session:
  assumes "build_screen_credit_substrate raw = Inr sub" "creditable_session sub cs r start stop"
    and "rows = credited_rows_of chrono sub tolerance_ns r (credit_decision_of sub days cs r)"
  shows "(\<forall>c \<in> set rows. \<exists>s e. row_start c = Some s \<and> row_stop c = Some e \<and> row_event_timestamp_ns c = s
        \<and> start \<le> s \<and> s < e \<and> e \<le> stop)
    \<and> sorted_wrt (\<lambda>c d. the (row_stop c) \<le> the (row_start d)) rows
    \<and> (\<Sum>c\<leftarrow>rows. the (row_stop c) - the (row_start c))
        \<le> min (stop - start) (minutes_to_ns (cs_session_cap_minutes cs))"
proof -
  let ?e = "credit_end cs start stop" and ?row = "credited_row chrono sub tolerance_ns r"
  obtain ivs fb where cr: "credited_of sub days cs r start ?e = (ivs, fb)" by (cases "credited_of sub days cs r start ?e")
  let ?ivs = "filter (\<lambda>(s, e). s < e) ivs"
  have "ordered_intervals ?ivs \<and> (\<forall>p \<in> set ivs. start \<le> fst p \<and> snd p \<le> ?e)"
    by (rule credited_inside [OF substrate_from [OF assms(1)] assms(2), of _ days]) (simp add: cr)
  then have ord: "ordered_intervals ?ivs" and ins: "\<forall>p \<in> set ?ivs. start \<le> fst p \<and> snd p \<le> ?e" by auto
  note range = credit_end_range [OF assms(2)]
  have rows: "rows = map ?row ?ivs"
    using decision_of_session [OF assms(2)] by (simp add: assms(3) cr credited_rows_of_def)
  have start_of: "row_start (?row p) = Some (fst p)" "row_stop (?row p) = Some (snd p)"
    "row_event_timestamp_ns (?row p) = fst p" for p by (cases p; simp)+
  have "(\<Sum>c\<leftarrow>rows. the (row_stop c) - the (row_start c)) = (\<Sum>p\<leftarrow>?ivs. snd p - fst p)"
    by (simp add: rows start_of o_def)
  also have "\<dots> \<le> ?e - start" by (rule ordered_width [OF ord ins range(2)])
  finally have "(\<Sum>c\<leftarrow>rows. the (row_stop c) - the (row_start c))
      \<le> min (stop - start) (minutes_to_ns (cs_session_cap_minutes cs))" using range by simp
  moreover have "sorted_wrt (\<lambda>c d. the (row_stop c) \<le> the (row_start d)) rows"
    using ord by (simp add: rows sorted_wrt_map start_of ordered_intervals_def)
  moreover have "\<forall>c \<in> set rows. \<exists>s e. row_start c = Some s \<and> row_stop c = Some e \<and> row_event_timestamp_ns c = s
        \<and> start \<le> s \<and> s < e \<and> e \<le> stop"
    using ord ins range(3) by (fastforce simp: rows start_of ordered_intervals_def)
  ultimately show ?thesis by blast
qed

theorem credited_rows_inside_session_witness:
  "creditable_session sample_substrate sample_settings sample_session 10 50
    \<and> (\<Sum>c\<leftarrow>credited_rows_of sample_chrono sample_substrate
          60000000000 sample_session (credit_decision_of sample_substrate Map.empty sample_settings sample_session).
        the (row_stop c) - the (row_start c)) \<le> min (50 - 10) (minutes_to_ns (cs_session_cap_minutes sample_settings))"
  using credited_rows_inside_session [OF sample_built sample_creditable refl] sample_creditable by blast


text \<open>The output of the credit stage is the credited rows of each session in session order followed by
  the other rows unchanged, and the report's counters are the numbers of sessions whose decision was
  capped, used the no-witness fallback, or produced no row.\<close>

lemma credit_report_counts:
  shows "let decide = credit_decision_of sub days cs;
             emitted = \<lambda>r. credited_rows_of chrono sub (minutes_to_ns tolerance_minutes) r (decide r);
             result = assemble_credit_outputs part incapable
               (materialize_credited_rows chrono part (derive_credited_intervals part sub days cs) sub tolerance_minutes);
             report = cx_report result
         in cx_rows result = concat (map emitted (cr_sessions part)) @ cr_rest part
            \<and> rp_sessions report = length (cr_sessions part)
            \<and> rp_credited_rows report = (\<Sum>r\<leftarrow>cr_sessions part. length (emitted r))
            \<and> rp_truncated_sessions report
                = length (filter (\<lambda>r. \<exists>ivs fb. decide r = Intervals ivs True fb) (cr_sessions part))
            \<and> rp_no_witness_fallbacks report
                = length (filter (\<lambda>r. \<exists>ivs cap. decide r = Intervals ivs cap True) (cr_sessions part))
            \<and> rp_fully_dead_sessions report = length (filter (\<lambda>r. emitted r = []) (cr_sessions part))"
  by (simp add: Let_def assemble_credit_outputs_def materialize_credited_rows_def derive_credited_intervals_def
      materialize_fold length_concat o_def)

text \<open>The lineage of a credited row is the union of its session's lineage and that of the screen changes
  which decided the interval - the last one at or before its start and those up to its end - kept as a
  normal list of ranges.\<close>

lemma credited_row_lineage:
  assumes "build_screen_credit_substrate raw = Inr sub" "\<forall>e \<in> set raw. normal_rows (row_source_data_rows e)"
    and "normal_rows (row_source_data_rows r)" "s \<le> e"
  shows "normal_rows (row_source_data_rows (credited_row chrono sub tolerance_ns r (s, e)))
    \<and> row_set (row_source_data_rows (credited_row chrono sub tolerance_ns r (s, e)))
      = row_set (row_source_data_rows r)
        \<union> (\<Union>p \<in> deciding_changes (witness_list (sub_points sub) (witness_key (row_participant_id r))) s e.
             row_set (cp_source_data_rows p))"
proof -
  let ?key = "witness_key (row_participant_id r)"
  have "sorted (map cp_timestamp (witness_list (sub_points sub) ?key))"
    using substrate_from [OF assms(1)] change_points_sorted participant_events_sorted
    by (fastforce simp: witness_list_def indexed_from_def split: option.split)
  from contributors_union [OF normal_substrate_of [OF assms(1,2)] this assms(4)]
  show ?thesis using merge_rows_union [OF assms(3)] by simp
qed

lemma credited_row_lineage_witness:
  "row_set (row_source_data_rows (credited_row sample_chrono sample_substrate
      60000000000 sample_session (10, 50))) = {2, 3, 5}"
proof -
  have "\<forall>e \<in> set sample_stream. normal_rows (row_source_data_rows e)"
    "normal_rows (row_source_data_rows sample_session)"
    by (simp_all add: sample_stream_def sample_row_def event_row_def empty_timing_def u32_max_def)
  moreover have "deciding_changes sample_points 10 50 = set sample_points"
    by (auto simp: deciding_changes_def sample_points_def)
  moreover have "row_set (row_source_data_rows sample_session) = {5}" by (simp add: sample_row_def event_row_def empty_timing_def)
  moreover have "(\<Union>p \<in> set sample_points. row_set (cp_source_data_rows p)) = {2, 3}"
    by (auto simp: sample_points_def)
  ultimately show ?thesis using credited_row_lineage [OF sample_built, of sample_session 10 50 sample_chrono 60000000000]
    by (auto simp: sample_lookup simp del: credited_row_simps)
qed


text \<open>Merging two normal lineages gives the normal list of their union, the only normal list with these
  rows; so merging is commutative, associative and idempotent up to equality of the lists.\<close>

lemma source_rows_merge_is_union:
  assumes "normal_rows xs" "normal_rows ys"
  shows "normal_rows (merge_rows xs ys) \<and> set (rows_iter (merge_rows xs ys)) = set (rows_iter xs) \<union> set (rows_iter ys)
    \<and> rows_len (merge_rows xs ys) = card (set (rows_iter xs) \<union> set (rows_iter ys))
    \<and> (\<forall>zs. normal_rows zs \<longrightarrow> (zs = merge_rows xs ys \<longleftrightarrow> set (rows_iter zs) = set (rows_iter xs) \<union> set (rows_iter ys)))"
proof -
  note m = merge_rows_union [OF assms]
  have "rows_len (merge_rows xs ys) = card (row_set xs \<union> row_set ys)"
    using rows_len_iter [OF m(1)] rows_iter_sorted [OF m(1)] distinct_card [of "rows_iter (merge_rows xs ys)"]
    by (simp add: rows_iter_set m(2))
  then show ?thesis using m normal_rows_unique by (auto simp: rows_iter_set)
qed

lemma source_rows_merge_is_union_witness:
  "merge_rows (single_row 2) (single_row 3) = merge_rows (single_row 3) (single_row 2)"
proof -
  have n: "normal_rows (single_row 2)" "normal_rows (single_row 3)" by (simp_all add: u32_max_def)
  note a = source_rows_merge_is_union [OF n] and b = source_rows_merge_is_union [OF n(2,1)]
  have "set (rows_iter (merge_rows (single_row 3) (single_row 2))) = set (rows_iter (single_row 2)) \<union> set (rows_iter (single_row 3))"
    using b [THEN conjunct2, THEN conjunct1] by (simp only: Un_commute)
  from a [THEN conjunct2, THEN conjunct2, THEN conjunct2, rule_format, OF b [THEN conjunct1], THEN iffD2, OF this]
  show ?thesis by (rule sym)
qed

end
