(* ===== verification/Screen_Sessions.thy ===== *)
theory Screen_Sessions
  imports Pipeline_Row "HOL-Library.AList"
begin

text \<open>
  The screen-session state machine of \<open>pipeline/stages/screen.rs\<close> (\<open>infer_screen_session_skeletons\<close>): one
  open bout per participant, kept in a map; a start opens it or is absorbed, the following events of the
  participant leave their evidence in it, a stop closes it. What is still open at the end is closed
  without a stop, and the closes are sorted. The map is an association list; its order, which the source
  leaves to a hash table, does not reach the result.
\<close>

section \<open>The state machine\<close>

record screen_state =
  ss_start_index :: nat
  ss_start_timestamp_ns :: int
  ss_start_timezone :: string
  ss_start_source_data_rows :: source_data_rows
  ss_lock_screen_seen :: bool
  ss_unlocked_seen :: bool
  ss_foreground_pkg :: "string option"
  ss_app_observed :: "bool option"
  ss_last_meaningful_ts_ns :: "int option"
  ss_last_meaningful_pkg :: "string option"
  ss_source_data_rows :: source_data_rows

record screen_session_close =
  sc_state :: screen_state
  sc_stop_timestamp_ns :: "int option"
  sc_stop_event_type :: "string option"
  sc_stop_index :: "nat option"
  sc_stop_source_data_rows :: source_data_rows

definition is_screen_session_start :: "string \<Rightarrow> bool" where
  "is_screen_session_start kind \<longleftrightarrow> kind \<in> set screen_start_events"

definition opened_state :: "nat \<Rightarrow> pipeline_row \<Rightarrow> screen_state" where
  "opened_state index r =
     \<lparr>ss_start_index = index, ss_start_timestamp_ns = row_event_timestamp_ns r,
      ss_start_timezone = row_timezone r, ss_start_source_data_rows = row_source_data_rows r,
      ss_lock_screen_seen = (row_interaction_type r \<in> set lock_screen_events), ss_unlocked_seen = False,
      ss_foreground_pkg = None, ss_app_observed = Some False, ss_last_meaningful_ts_ns = None,
      ss_last_meaningful_pkg = None, ss_source_data_rows = row_source_data_rows r\<rparr>"

definition restarted_state :: "pipeline_row \<Rightarrow> screen_state \<Rightarrow> screen_state" where
  "restarted_state r current =
     current\<lparr>ss_source_data_rows := merge_rows (ss_source_data_rows current) (row_source_data_rows r),
             ss_start_source_data_rows := merge_rows (ss_start_source_data_rows current) (row_source_data_rows r)\<rparr>"

definition row_package :: "pipeline_row \<Rightarrow> string option" where
  "row_package r = (if row_app_package_name r = [] then None else Some (row_app_package_name r))"

text \<open>What an event of an open bout leaves in it; the steps are in the order of the source.\<close>

definition note_lock :: "pipeline_row \<Rightarrow> screen_state \<Rightarrow> screen_state" where
  "note_lock r current =
     (let current = (if row_interaction_type r \<in> set lock_screen_events
                     then current\<lparr>ss_lock_screen_seen := True\<rparr> else current)
      in if row_interaction_type r \<in> set unlock_events then current\<lparr>ss_unlocked_seen := True\<rparr> else current)"

definition note_foreground :: "pipeline_row \<Rightarrow> screen_state \<Rightarrow> screen_state" where
  "note_foreground r current =
     (if row_interaction_type r \<in> set foreground_events
      then current\<lparr>ss_foreground_pkg := row_package r,
                   ss_app_observed :=
                     (if row_package r \<noteq> None then Some True
                      else if ss_app_observed current \<noteq> Some True then None
                      else ss_app_observed current)\<rparr>
      else current)"

definition note_meaningful :: "pipeline_row \<Rightarrow> screen_state \<Rightarrow> screen_state" where
  "note_meaningful r current =
     (if row_interaction_type r \<in> set meaningful_activity_events
      then current\<lparr>ss_last_meaningful_ts_ns := Some (row_event_timestamp_ns r),
                   ss_last_meaningful_pkg :=
                     (case row_package r of None \<Rightarrow> ss_foreground_pkg current | Some p \<Rightarrow> Some p)\<rparr>
      else current)"

definition observed_state :: "pipeline_row \<Rightarrow> screen_state \<Rightarrow> screen_state" where
  "observed_state r current =
     note_meaningful r (note_foreground r (note_lock r
       (current\<lparr>ss_source_data_rows := merge_rows (ss_source_data_rows current) (row_source_data_rows r)\<rparr>)))"

definition stopped_close :: "nat \<Rightarrow> pipeline_row \<Rightarrow> screen_state \<Rightarrow> screen_session_close" where
  "stopped_close index r current =
     \<lparr>sc_state = current, sc_stop_timestamp_ns = Some (row_event_timestamp_ns r),
      sc_stop_event_type = Some (row_interaction_type r), sc_stop_index = Some index,
      sc_stop_source_data_rows = row_source_data_rows r\<rparr>"

definition open_close :: "screen_state \<Rightarrow> screen_session_close" where
  "open_close current =
     \<lparr>sc_state = current, sc_stop_timestamp_ns = None, sc_stop_event_type = None, sc_stop_index = None,
      sc_stop_source_data_rows = []\<rparr>"

type_synonym screen_machine = "(string \<times> screen_state) list \<times> screen_session_close list"

definition screen_step :: "nat \<times> pipeline_row \<Rightarrow> screen_machine \<Rightarrow> screen_machine" where
  "screen_step = (\<lambda>(index, r) (states, closes).
     (let p = row_participant_id r
      in if is_screen_session_start (row_interaction_type r)
         then (case map_of states p of
                 Some current \<Rightarrow> (AList.update p (restarted_state r current) states, closes)
               | None \<Rightarrow> (AList.update p (opened_state index r) states, closes))
         else (case map_of states p of
                 None \<Rightarrow> (states, closes)
               | Some current \<Rightarrow>
                   (let current = observed_state r current
                    in if row_interaction_type r \<in> set screen_stop_events
                       then (AList.delete p states, closes @ [stopped_close index r current])
                       else (AList.update p current states, closes)))))"

definition run_screen :: "pipeline_row list \<Rightarrow> screen_machine" where
  "run_screen rows = fold screen_step (List.enumerate 0 rows) ([], [])"

definition close_key :: "pipeline_row list \<Rightarrow> screen_session_close \<Rightarrow> string \<times> int \<times> nat" where
  "close_key rows c =
     (row_participant_id (rows ! ss_start_index (sc_state c)), ss_start_timestamp_ns (sc_state c),
      ss_start_index (sc_state c))"

definition infer_screen_session_skeletons :: "pipeline_row list \<Rightarrow> screen_session_close list" where
  "infer_screen_session_skeletons rows =
     (case run_screen rows of
        (states, closes) \<Rightarrow> sort_key (close_key rows) (closes @ map (open_close \<circ> snd) states))"

text \<open>The lock-screen instants of each participant, sorted.\<close>

definition index_keyguard_events :: "pipeline_row list \<Rightarrow> string \<Rightarrow> int list option" where
  "index_keyguard_events rows p =
     (let timestamps = map row_event_timestamp_ns
            (filter (\<lambda>r. row_interaction_type r \<in> set lock_screen_events \<and> row_participant_id r = p) rows)
      in if timestamps = [] then None else Some (sort timestamps))"

section \<open>The machine of one participant\<close>

definition bout_step ::
    "nat \<times> pipeline_row \<Rightarrow> screen_state option \<times> screen_session_close list
      \<Rightarrow> screen_state option \<times> screen_session_close list" where
  "bout_step = (\<lambda>(index, r) (current, closes).
     if is_screen_session_start (row_interaction_type r)
     then (Some (case current of None \<Rightarrow> opened_state index r | Some s \<Rightarrow> restarted_state r s), closes)
     else (case current of
             None \<Rightarrow> (None, closes)
           | Some s \<Rightarrow>
               if row_interaction_type r \<in> set screen_stop_events
               then (None, closes @ [stopped_close index r (observed_state r s)])
               else (Some (observed_state r s), closes)))"

lemma keeps_start [simp]:
  "ss_start_index (opened_state i r) = i"
  "ss_start_index (restarted_state r s) = ss_start_index s"
  "ss_start_index (observed_state r s) = ss_start_index s"
  "sc_state (stopped_close i r s) = s"
  "sc_state (open_close s) = s"
  by (simp_all add: opened_state_def restarted_state_def observed_state_def note_meaningful_def
      note_foreground_def note_lock_def Let_def stopped_close_def open_close_def)

text \<open>The participant of a bout is read off the row that opened it.\<close>

definition close_of_participant :: "pipeline_row list \<Rightarrow> string \<Rightarrow> screen_session_close \<Rightarrow> bool" where
  "close_of_participant rows p c \<longleftrightarrow> row_participant_id (rows ! ss_start_index (sc_state c)) = p"

definition owned_states :: "pipeline_row list \<Rightarrow> (string \<times> screen_state) list \<Rightarrow> bool" where
  "owned_states rows states \<longleftrightarrow>
     distinct (map fst states) \<and> (\<forall>(p, s) \<in> set states. row_participant_id (rows ! ss_start_index s) = p)"

lemma owned_lookup:
  "owned_states rows states \<Longrightarrow> map_of states p = Some s \<Longrightarrow> row_participant_id (rows ! ss_start_index s) = p"
  by (auto simp: owned_states_def dest!: map_of_SomeD)

lemma owned_update:
  assumes "owned_states rows states" "row_participant_id (rows ! ss_start_index s) = p"
  shows "owned_states rows (AList.update p s states)"
proof -
  have "set (AList.update p s states) \<subseteq> set states \<union> {(p, s)}" for s :: screen_state
    by (induction states) auto
  moreover have "distinct (map fst (AList.update p s states))"
    using assms(1) by (simp add: owned_states_def distinct_update)
  ultimately show ?thesis using assms unfolding owned_states_def by fast
qed

lemma owned_delete: "owned_states rows states \<Longrightarrow> owned_states rows (AList.delete p states)"
  unfolding owned_states_def
  by (intro conjI distinct_delete) (auto simp: AList.delete_eq)

lemma screen_step_project:
  assumes "owned_states rows states" "rows ! i = r"
  shows "case screen_step (i, r) (states, closes) of (states', closes') \<Rightarrow>
    owned_states rows states'
    \<and> (map_of states' p, filter (close_of_participant rows p) closes')
      = (let m = (map_of states p, filter (close_of_participant rows p) closes)
         in if row_participant_id r = p then bout_step (i, r) m else m)"
proof (cases "map_of states (row_participant_id r)")
  case None
  have "owned_states rows (AList.update (row_participant_id r) (opened_state i r) states)"
    by (rule owned_update) (use assms in simp_all)
  with None show ?thesis
    using assms by (auto simp: screen_step_def bout_step_def Let_def update_conv')
next
  case (Some s)
  note own = owned_lookup [OF assms(1) Some]
  have "owned_states rows (AList.update (row_participant_id r) (restarted_state r s) states)"
    "owned_states rows (AList.update (row_participant_id r) (observed_state r s) states)"
    "owned_states rows (AList.delete (row_participant_id r) states)"
    using assms own by (auto intro: owned_update owned_delete)
  with Some own show ?thesis
    by (auto simp: screen_step_def bout_step_def Let_def update_conv' delete_conv' close_of_participant_def)
qed

lemma run_screen_project:
  assumes "\<forall>(i, r) \<in> set xs. rows ! i = r" "owned_states rows states"
  shows "case fold screen_step xs (states, closes) of (states', closes') \<Rightarrow>
    owned_states rows states'
    \<and> (map_of states' p, filter (close_of_participant rows p) closes')
      = fold bout_step (filter (\<lambda>(i, r). row_participant_id r = p) xs)
          (map_of states p, filter (close_of_participant rows p) closes)"
  using assms
proof (induction xs arbitrary: states closes)
  case (Cons x xs)
  obtain i r where x: "x = (i, r)" by (cases x)
  obtain states' closes' where step: "screen_step (i, r) (states, closes) = (states', closes')"
    by (cases "screen_step (i, r) (states, closes)")
    have xs: "\<forall>(i, r) \<in> set xs. rows ! i = r" and "rows ! i = r" using Cons.prems(1) by (auto simp: x)
  have "owned_states rows states'"
    "(map_of states' p, filter (close_of_participant rows p) closes')
      = (let m = (map_of states p, filter (close_of_participant rows p) closes)
         in if row_participant_id r = p then bout_step (i, r) m else m)"
    using screen_step_project [OF Cons.prems(2) \<open>rows ! i = r\<close>, of p closes] step by simp_all
  with Cons.IH [OF xs, of states' closes'] show ?case by (simp add: x step Let_def split: if_splits)
qed simp

end
