(* ===== verification/Screen_Bouts.thy ===== *)
theory Screen_Bouts
  imports Screen_Sessions
begin

text \<open>
  What the screen-session state machine computes: the events of one participant are cut into bouts, from
  the first start after the last stop to the next stop, and each bout carries the evidence read off its
  events. The closes of a participant are those of its own bouts, whatever events of other participants
  lie between them.
\<close>

section \<open>Bouts and their evidence\<close>

definition is_stop :: "pipeline_row \<Rightarrow> bool" where
  "is_stop r \<longleftrightarrow> row_interaction_type r \<in> set screen_stop_events"

definition is_start :: "pipeline_row \<Rightarrow> bool" where
  "is_start r \<longleftrightarrow> is_screen_session_start (row_interaction_type r)"

type_synonym bout = "(nat \<times> pipeline_row) \<times> pipeline_row list \<times> (nat \<times> pipeline_row) option"

function bouts :: "(nat \<times> pipeline_row) list \<Rightarrow> bout list" where
  "bouts [] = []"
| "bouts (x # xs) =
     (if is_start (snd x)
      then (let rest = dropWhile (\<lambda>y. \<not> is_stop (snd y)) xs
            in (x, map snd (takeWhile (\<lambda>y. \<not> is_stop (snd y)) xs), case rest of [] \<Rightarrow> None | y # _ \<Rightarrow> Some y)
               # bouts (tl rest))
      else bouts xs)"
  by pat_completeness auto

termination
  by (relation "measure length")
    (auto simp: less_Suc_eq_le intro: le_trans [OF diff_le_self] length_dropWhile_le)

definition foreground_of :: "pipeline_row list \<Rightarrow> string option" where
  "foreground_of events =
     (case filter (\<lambda>r. row_interaction_type r \<in> set foreground_events) events of
        [] \<Rightarrow> None
      | fs \<Rightarrow> row_package (last fs))"

definition app_observed_of :: "pipeline_row list \<Rightarrow> bool option" where
  "app_observed_of events =
     (let fs = filter (\<lambda>r. row_interaction_type r \<in> set foreground_events) events
      in if \<exists>r \<in> set fs. row_package r \<noteq> None then Some True
         else if fs \<noteq> [] then None else Some False)"

definition last_meaningful :: "pipeline_row list \<Rightarrow> (pipeline_row \<times> pipeline_row list) option" where
  "last_meaningful events =
     (case dropWhile (\<lambda>r. row_interaction_type r \<notin> set meaningful_activity_events) (rev events) of
        [] \<Rightarrow> None
      | m # before \<Rightarrow> Some (m, rev (m # before)))"

text \<open>The evidence: \<open>events\<close> are the events of the bout after its start that are no starts themselves, the
  stop included; \<open>starts\<close> are the absorbed starts.\<close>

definition bout_state :: "bout \<Rightarrow> screen_state" where
  "bout_state = (\<lambda>((i, s), body, stop).
     (let inside = body @ (case stop of None \<Rightarrow> [] | Some (_, r) \<Rightarrow> [r]);
          events = filter (Not \<circ> is_start) inside;
          starts = filter is_start body
      in \<lparr>ss_start_index = i, ss_start_timestamp_ns = row_event_timestamp_ns s,
          ss_start_timezone = row_timezone s,
          ss_start_source_data_rows =
            fold (\<lambda>r rows. merge_rows rows (row_source_data_rows r)) starts (row_source_data_rows s),
          ss_lock_screen_seen = (\<exists>r \<in> set (s # events). row_interaction_type r \<in> set lock_screen_events),
          ss_unlocked_seen = (\<exists>r \<in> set events. row_interaction_type r \<in> set unlock_events),
          ss_foreground_pkg = foreground_of events, ss_app_observed = app_observed_of events,
          ss_last_meaningful_ts_ns = map_option (row_event_timestamp_ns \<circ> fst) (last_meaningful events),
          ss_last_meaningful_pkg =
            (case last_meaningful events of
               None \<Rightarrow> None
             | Some (m, before) \<Rightarrow> (case row_package m of None \<Rightarrow> foreground_of before | Some p \<Rightarrow> Some p)),
          ss_source_data_rows =
            fold (\<lambda>r rows. merge_rows rows (row_source_data_rows r)) inside (row_source_data_rows s)\<rparr>))"

definition bout_close :: "bout \<Rightarrow> screen_session_close" where
  "bout_close b =
     (case snd (snd b) of
        None \<Rightarrow> open_close (bout_state b)
      | Some (j, r) \<Rightarrow> stopped_close j r (bout_state b))"

definition participant_events_of :: "pipeline_row list \<Rightarrow> string \<Rightarrow> (nat \<times> pipeline_row) list" where
  "participant_events_of rows p = filter (\<lambda>(i, r). row_participant_id r = p) (List.enumerate 0 rows)"

section \<open>The machine runs through bouts\<close>

definition note_event :: "pipeline_row \<Rightarrow> screen_state \<Rightarrow> screen_state" where
  "note_event r s = (if is_start r then restarted_state r s else observed_state r s)"

lemma start_not_stop [simp]: "is_start r \<Longrightarrow> \<not> is_stop r"
  by (auto simp: is_start_def is_stop_def is_screen_session_start_def screen_start_events_def screen_stop_events_def)

lemma bout_step_note:
  "bout_step (i, r) (Some s, closes) =
     (if is_stop r then (None, closes @ [stopped_close i r (note_event r s)]) else (Some (note_event r s), closes))"
  "bout_step (i, r) (None, closes) = (if is_start r then Some (opened_state i r) else None, closes)"
  using start_not_stop [of r] by (auto simp: bout_step_def note_event_def is_start_def is_stop_def)

lemma bout_step_body:
  "\<forall>y \<in> set ys. \<not> is_stop (snd y) \<Longrightarrow>
     fold bout_step ys (Some s, closes) = (Some (fold note_event (map snd ys) s), closes)"
proof (induction ys arbitrary: s)
  case (Cons y ys)
  then show ?case by (cases y) (simp add: bout_step_note)
qed simp

lemma note_event_fields [simp]:
  "ss_start_index (note_event r s) = ss_start_index s"
  "ss_start_timestamp_ns (note_event r s) = ss_start_timestamp_ns s"
  "ss_start_timezone (note_event r s) = ss_start_timezone s"
  "ss_start_source_data_rows (note_event r s) =
     (if is_start r then merge_rows (ss_start_source_data_rows s) (row_source_data_rows r)
      else ss_start_source_data_rows s)"
  "ss_source_data_rows (note_event r s) = merge_rows (ss_source_data_rows s) (row_source_data_rows r)"
  "ss_lock_screen_seen (note_event r s) \<longleftrightarrow>
     ss_lock_screen_seen s \<or> \<not> is_start r \<and> row_interaction_type r \<in> set lock_screen_events"
  "ss_unlocked_seen (note_event r s) \<longleftrightarrow>
     ss_unlocked_seen s \<or> \<not> is_start r \<and> row_interaction_type r \<in> set unlock_events"
  "ss_foreground_pkg (note_event r s) =
     (if \<not> is_start r \<and> row_interaction_type r \<in> set foreground_events then row_package r else ss_foreground_pkg s)"
  "ss_app_observed (note_event r s) =
     (if \<not> is_start r \<and> row_interaction_type r \<in> set foreground_events
      then if row_package r \<noteq> None then Some True
           else if ss_app_observed s \<noteq> Some True then None else Some True
      else ss_app_observed s)"
  "ss_last_meaningful_ts_ns (note_event r s) =
     (if \<not> is_start r \<and> row_interaction_type r \<in> set meaningful_activity_events
      then Some (row_event_timestamp_ns r) else ss_last_meaningful_ts_ns s)"
  "ss_last_meaningful_pkg (note_event r s) =
     (if \<not> is_start r \<and> row_interaction_type r \<in> set meaningful_activity_events
      then (case row_package r of None \<Rightarrow> ss_foreground_pkg (note_event r s) | Some p \<Rightarrow> Some p)
      else ss_last_meaningful_pkg s)"
  by (simp_all add: note_event_def restarted_state_def observed_state_def note_lock_def note_foreground_def
      note_meaningful_def Let_def split: option.split)

lemma evidence_snoc [simp]:
  "foreground_of (es @ [r]) =
     (if row_interaction_type r \<in> set foreground_events then row_package r else foreground_of es)"
  "app_observed_of (es @ [r]) =
     (if row_interaction_type r \<in> set foreground_events
      then if row_package r \<noteq> None then Some True
           else if app_observed_of es \<noteq> Some True then None else Some True
      else app_observed_of es)"
  "last_meaningful (es @ [r]) =
     (if row_interaction_type r \<in> set meaningful_activity_events then Some (r, es @ [r]) else last_meaningful es)"
  by (cases "filter (\<lambda>r. row_interaction_type r \<in> set foreground_events) es")
    (auto simp: foreground_of_def app_observed_of_def last_meaningful_def Let_def)

definition noted :: "nat \<Rightarrow> pipeline_row \<Rightarrow> pipeline_row list \<Rightarrow> screen_state" where
  "noted i s inside = bout_state ((i, s), inside, None)"

lemma noted_nil: "noted i s [] = opened_state i s"
  by (simp add: noted_def bout_state_def opened_state_def foreground_of_def app_observed_of_def last_meaningful_def Let_def)

lemma noted_snoc: "noted i s (inside @ [r]) = note_event r (noted i s inside)"
  by (rule screen_state.equality)
    (auto simp: noted_def bout_state_def Let_def split: option.split)

lemma fold_noted: "fold note_event inside (opened_state i s) = noted i s inside"
  by (induction inside rule: rev_induct) (simp_all add: noted_nil noted_snoc)

lemma bout_state_noted:
  "bout_state ((i, s), body, None) = noted i s body"
  "is_stop r \<Longrightarrow> bout_state ((i, s), body, Some (j, r)) = note_event r (noted i s body)"
proof -
  show "bout_state ((i, s), body, None) = noted i s body" by (simp add: noted_def)
  assume r: "is_stop r"
  then have "\<not> is_start r" using start_not_stop by blast
  then have "bout_state ((i, s), body, Some (j, r)) = noted i s (body @ [r])"
    by (auto simp: noted_def bout_state_def Let_def)
  then show "bout_state ((i, s), body, Some (j, r)) = note_event r (noted i s body)" by (simp add: noted_snoc)
qed

lemma dropWhile_stop: "dropWhile (\<lambda>y. \<not> is_stop (snd y)) xs = y # ys \<Longrightarrow> is_stop (snd y)"
  using hd_dropWhile [of "\<lambda>y. \<not> is_stop (snd y)" xs] by auto

lemma run_bouts:
  "(case fold bout_step xs (None, closes) of
      (current, closes') \<Rightarrow> closes' @ (case current of None \<Rightarrow> [] | Some s \<Rightarrow> [open_close s]))
    = closes @ map bout_close (bouts xs)"
proof (induction xs arbitrary: closes rule: bouts.induct)
  case (2 x xs)
  obtain i s where x: "x = (i, s)" by (cases x)
  show ?case
  proof (cases "is_start s")
    case True
    let ?P = "\<lambda>y. \<not> is_stop (snd y)"
    let ?body = "map snd (takeWhile ?P xs)"
    have body: "fold bout_step (takeWhile ?P xs) (Some (opened_state i s), closes) = (Some (noted i s ?body), closes)"
      unfolding fold_noted [symmetric] by (rule bout_step_body) (auto dest: set_takeWhileD)
    define rest where "rest = dropWhile ?P xs"
    have all: "fold bout_step (x # xs) (None, closes) = fold bout_step rest (Some (noted i s ?body), closes)"
      unfolding rest_def using body True
      by (subst takeWhile_dropWhile_id [of ?P xs, symmetric]) (simp add: x bout_step_note del: takeWhile_dropWhile_id)
    have cut: "bouts (x # xs) = ((i, s), ?body, case rest of [] \<Rightarrow> None | y # _ \<Rightarrow> Some y) # bouts (tl rest)"
      using True by (simp add: x Let_def rest_def)
    show ?thesis
    proof (cases rest)
      case Nil
      show ?thesis unfolding all cut by (simp add: Nil bout_close_def bout_state_noted)
    next
      case (Cons y ys)
      obtain j r where y: "y = (j, r)" by (cases y)
      have stop: "is_stop r" using dropWhile_stop [of xs y ys] Cons y by (simp add: rest_def)
      have close: "bout_close ((i, s), ?body, Some (j, r)) = stopped_close j r (note_event r (noted i s ?body))"
        using stop by (simp add: bout_close_def bout_state_noted)
      have "tl rest = ys" using Cons by simp
      with "2.IH"(1) [of "dropWhile ?P xs" "closes @ [stopped_close j r (note_event r (noted i s ?body))]"] True
      show ?thesis unfolding all cut by (simp add: Cons y bout_step_note stop close x rest_def [symmetric])
    qed
  next
    case False
    with "2.IH"(2) show ?thesis by (simp add: x bout_step_note)
  qed
qed simp

section \<open>The closes of a participant\<close>

lemma sort_key_order_cong:
  fixes f :: "'a \<Rightarrow> 'b::linorder" and g :: "'a \<Rightarrow> 'c::linorder"
  assumes "\<And>x y. x \<in> set xs \<Longrightarrow> y \<in> set xs \<Longrightarrow> f x \<le> f y \<longleftrightarrow> g x \<le> g y"
  shows "sort_key f xs = sort_key g xs"
  using assms
proof (induction xs)
  case (Cons x xs)
  have "insort_key f x ys = insort_key g x ys" if "set ys \<subseteq> set xs" for ys
    using that Cons.prems by (induction ys) auto
  with Cons show ?case by simp
qed simp

lemma owned_open:
  "owned_states rows states \<Longrightarrow>
     filter (close_of_participant rows p) (map (open_close \<circ> snd) states)
       = (case map_of states p of None \<Rightarrow> [] | Some s \<Rightarrow> [open_close s])"
proof (induction states)
  case (Cons x states)
  obtain q s where x: "x = (q, s)" by (cases x)
  have own: "owned_states rows states" "row_participant_id (rows ! ss_start_index s) = q" "q \<notin> fst ` set states"
    using Cons.prems by (auto simp: owned_states_def x)
  have "map_of states q = None" using own(3) by (simp add: map_of_eq_None_iff)
  with Cons.IH [OF own(1)] own(2) show ?case by (auto simp: x close_of_participant_def)
qed simp

lemma closes_of_participant:
  "filter (close_of_participant rows p) (infer_screen_session_skeletons rows)
    = sort_key (\<lambda>c. (ss_start_timestamp_ns (sc_state c), ss_start_index (sc_state c)))
        (map bout_close (bouts (participant_events_of rows p)))"
proof -
  obtain states closes where run: "run_screen rows = (states, closes)" by (cases "run_screen rows")
  have nth: "\<forall>(i, r) \<in> set (List.enumerate 0 rows). rows ! i = r" by (auto simp: in_set_enumerate_eq)
  have none: "owned_states rows []" by (simp add: owned_states_def)
  from run_screen_project [OF nth none, where closes = "[]" and p = p] run
  have own: "owned_states rows states"
    and proj: "fold bout_step (participant_events_of rows p) (None, [])
      = (map_of states p, filter (close_of_participant rows p) closes)"
    by (simp_all add: run_screen_def participant_events_of_def)
  have mine: "filter (close_of_participant rows p) (closes @ map (open_close \<circ> snd) states)
      = map bout_close (bouts (participant_events_of rows p))"
    using run_bouts [of "participant_events_of rows p" "[]"] by (simp add: proj owned_open [OF own])
  have "filter (close_of_participant rows p) (infer_screen_session_skeletons rows)
      = sort_key (close_key rows) (filter (close_of_participant rows p) (closes @ map (open_close \<circ> snd) states))"
    by (simp add: infer_screen_session_skeletons_def run filter_sort)
  also have "\<dots> = sort_key (\<lambda>c. (ss_start_timestamp_ns (sc_state c), ss_start_index (sc_state c)))
      (filter (close_of_participant rows p) (closes @ map (open_close \<circ> snd) states))"
    by (rule sort_key_order_cong) (auto simp: close_key_def close_of_participant_def)
  finally show ?thesis by (simp only: mine)
qed

lemma bouts_starts_pairs:
  "filter is_start (map snd xs) = concat (map (\<lambda>((i, s), body, stop). s # filter is_start body) (bouts xs))"
proof (induction xs rule: bouts.induct)
  case (2 x xs)
  let ?P = "\<lambda>y. \<not> is_stop (snd y)"
  define rest where "rest = dropWhile ?P xs"
  have xs: "map snd xs = map snd (takeWhile ?P xs) @ map snd rest"
    unfolding rest_def map_append [symmetric] by simp
  have tl: "filter is_start (map snd rest) = filter is_start (map snd (tl rest))"
  proof (cases rest)
    case (Cons y ys)
    then have "is_stop (snd y)" using dropWhile_stop [of xs y ys] by (simp add: rest_def)
    with Cons show ?thesis using start_not_stop by auto
  qed simp
  show ?case
  proof (cases "is_start (snd x)")
    case True
    with "2.IH"(1) [of rest] show ?thesis by (cases x) (simp add: Let_def rest_def [symmetric] xs tl)
  next
    case False
    with "2.IH"(2) show ?thesis by simp
  qed
qed simp

lemma bouts_starts:
  "filter is_start (filter (\<lambda>r. row_participant_id r = p) rows)
    = concat (map (\<lambda>((i, s), body, stop). s # filter is_start body) (bouts (participant_events_of rows p)))"
proof -
  have "map snd (filter (\<lambda>(i, r). row_participant_id r = p) (List.enumerate n rows))
      = filter (\<lambda>r. row_participant_id r = p) rows" for n
    by (induction rows arbitrary: n) simp_all
  then show ?thesis unfolding bouts_starts_pairs [symmetric] participant_events_of_def by simp
qed

text \<open>A stop of a close is the instant of a row.\<close>

lemma close_stops_rows:
  assumes "c \<in> set (infer_screen_session_skeletons rows)" "sc_stop_timestamp_ns c = Some stop"
  shows "\<exists>r \<in> set rows. row_event_timestamp_ns r = stop"
proof -
  have inv: "(\<forall>c \<in> set (snd (fold screen_step xs m)). \<forall>stop. sc_stop_timestamp_ns c = Some stop
        \<longrightarrow> (\<exists>r \<in> snd ` set xs. row_event_timestamp_ns r = stop) \<or> c \<in> set (snd m))" for xs m
  proof (induction xs arbitrary: m)
    case (Cons x xs)
    obtain i r states closes where x: "x = (i, r)" "m = (states, closes)" by (metis surj_pair)
    have "c \<in> set (snd (screen_step x m)) \<Longrightarrow> c \<in> set (snd m) \<or> sc_stop_timestamp_ns c = Some (row_event_timestamp_ns r)" for c
      by (auto simp: x screen_step_def Let_def stopped_close_def split: option.splits if_splits)
    with Cons.IH [of "screen_step x m"] x(1) show ?case by fastforce
  qed simp
  obtain states closes where run: "run_screen rows = (states, closes)" by (cases "run_screen rows")
  have "c \<in> set closes"
    using assms by (auto simp: infer_screen_session_skeletons_def run open_close_def)
  with inv [of "List.enumerate 0 rows" "([], [])"] run assms(2)
  obtain r where "r \<in> snd ` set (List.enumerate 0 rows)" "row_event_timestamp_ns r = stop"
    by (fastforce simp: run_screen_def)
  moreover have "snd ` set (List.enumerate 0 rows) = set rows" by (metis list.set_map map_snd_enumerate)
  ultimately show ?thesis by auto
qed

end
