(* ===== verification/Screen_Classify.thy ===== *)
theory Screen_Classify
  imports Screen_Sessions Interval_Search
begin

text \<open>
  From screen bouts to screen-usage rows (\<open>classify_screen_sessions\<close> and \<open>apply_screen_session_policies\<close>
  of \<open>pipeline/stages/screen.rs\<close>): every bout becomes a row with the reason it ended, and the policies
  drop, cap and label the rows.
\<close>

section \<open>Settings\<close>

datatype locked_screen_audio_disposition = IncludeLocked | ExcludeFromPhoneAndAppSessions

datatype screen_session_classification_policy =
    NoClassification
  | PhoneCheckInclusive15s
  | NullNoAppStrictGt15sVsApp

datatype screen_session_maximum_duration_disposition =
    NoMaximum
  | Truncate
  | ExcludeParticipant

record screen_classification_settings =
  scs_auto_lock_timeout_seconds :: rat
  scs_auto_lock_tolerance_seconds :: rat
  scs_manual_lock_max_tail_seconds :: rat
  scs_keyguard_near_stop_seconds :: rat
  scs_locked_screen_audio_disposition :: locked_screen_audio_disposition

section \<open>Why a bout ended\<close>

definition f64_sub :: "rat \<Rightarrow> rat \<Rightarrow> rat" where "f64_sub a b = round_f64 (a - b)"

text \<open>The keyguard instants around a stop: a window found by two binary searches, then the exact test. The
  slice panics when the window is inverted.\<close>

definition keyguard_window_ns :: "rat \<Rightarrow> int" where
  "keyguard_window_ns near_seconds = clamp_i64 \<lceil>f64_mul near_seconds 1000000000\<rceil>"

definition keyguard_near :: "rat \<Rightarrow> int list \<Rightarrow> int \<Rightarrow> bool option" where
  "keyguard_near near_seconds timestamps stop =
     (let window = keyguard_window_ns near_seconds;
          lower = partition_point (\<lambda>t. t < i64_saturating_sub stop window) timestamps;
          upper = partition_point (\<lambda>t. t \<le> i64_saturating_add stop window) timestamps
      in if upper < lower then None
         else Some (list_ex (\<lambda>t. \<bar>seconds_between t stop\<bar> \<le> near_seconds)
                     (take (upper - lower) (drop lower timestamps))))"

record end_verdict =
  ev_reason :: string
  ev_confidence :: rat
  ev_lock_screen_only :: bool

definition verdict :: "string \<Rightarrow> rat \<Rightarrow> end_verdict option" where
  "verdict reason confidence =
     Some \<lparr>ev_reason = reason, ev_confidence = round_f64 confidence, ev_lock_screen_only = False\<rparr>"

definition screen_end_verdict ::
    "screen_classification_settings \<Rightarrow> screen_state \<Rightarrow> string option \<Rightarrow> int \<Rightarrow> string \<Rightarrow> rat option
      \<Rightarrow> int list \<Rightarrow> end_verdict option" where
  "screen_end_verdict settings state stop_event_type stop forcing_label tail_gap keyguards =
     (if stop_event_type = Some ''Screen Non-Interactive/Manual Hardware Button''
      then verdict ''manual_hardware_button'' 1
      else if stop_event_type = Some ''Screen Non-Interactive/Aborted Unlock''
      then verdict ''aborted_unlock'' 1
      else if stop_event_type = Some ''Screen Non-Interactive/Idle Timeout''
      then verdict ''idle_timeout'' 1
      else if ss_lock_screen_seen state \<and> \<not> ss_unlocked_seen state \<and> ss_app_observed state = Some False
      then Some \<lparr>ev_reason = ''lock_screen_only'', ev_confidence = round_f64 (95 / 100), ev_lock_screen_only = True\<rparr>
      else if (case tail_gap of None \<Rightarrow> False
               | Some gap \<Rightarrow> forcing_label \<noteq> [] \<and> scs_auto_lock_timeout_seconds settings < gap)
      then verdict ''app_kept_awake_or_extended'' (9 / 10)
      else if (case tail_gap of None \<Rightarrow> False | Some gap \<Rightarrow> gap \<le> scs_manual_lock_max_tail_seconds settings)
      then verdict ''probable_manual_lock'' (85 / 100)
      else if (case tail_gap of None \<Rightarrow> False
               | Some gap \<Rightarrow> \<bar>f64_sub gap (scs_auto_lock_timeout_seconds settings)\<bar>
                   \<le> scs_auto_lock_tolerance_seconds settings)
      then verdict ''probable_auto_lock'' (9 / 10)
      else
        (case (if ss_lock_screen_seen state
               then keyguard_near (scs_keyguard_near_stop_seconds settings) keyguards stop else Some False) of
           None \<Rightarrow> None
         | Some True \<Rightarrow> verdict ''probable_manual_lock'' (7 / 10)
         | Some False \<Rightarrow>
             if tail_gap \<noteq> None then verdict ''extended_idle_or_unknown'' (1 / 2)
             else verdict ''unknown'' (1 / 4)))"

section \<open>Rows\<close>

definition screen_usage :: string where "screen_usage = ''Screen Usage''"

text \<open>The row of a bout before its end is judged.\<close>

definition screen_session_row ::
    "'tz chrono \<Rightarrow> pipeline_row \<Rightarrow> screen_session_close \<Rightarrow> pipeline_row" where
  "screen_session_row chrono start_row c =
     (let state = sc_state c;
          duration = map_option (seconds_between (ss_start_timestamp_ns state)) (sc_stop_timestamp_ns c);
          timing = (row_timing start_row)
                     \<lparr>et_start := Some (ss_start_timestamp_ns state), et_stop := sc_stop_timestamp_ns c,
                      et_duration_seconds := duration,
                      et_duration_minutes := map_option (\<lambda>seconds. f64_div seconds 60) duration,
                      et_last_activity := ss_last_meaningful_ts_ns state, et_tail_gap_seconds := None\<rparr>;
          session = start_row
                      \<lparr>row_source_data_rows := ss_source_data_rows state, row_interaction_type := screen_usage,
                       row_timing := timing, row_application_label := [],
                       row_app_package_name := (case ss_foreground_pkg state of None \<Rightarrow> [] | Some p \<Rightarrow> p),
                       row_foreground_app := ss_foreground_pkg state, row_app_observed := ss_app_observed state,
                       row_session_classification := None, row_end_reason := None,
                       row_end_reason_confidence := None, row_stop_event_type := sc_stop_event_type c,
                       row_forcing_label := None, row_lock_screen_only := Some 0,
                       row_data_time_gap_hours := 0, row_event_timestamp_ns := ss_start_timestamp_ns state,
                       row_timezone := ss_start_timezone state, row_index := row_index start_row + 1000000\<rparr>
      in (case parse_tz chrono (ss_start_timezone state) of
            None \<Rightarrow> session
          | Some tz \<Rightarrow> populate_time_columns chrono tz session))"

definition classify_screen_session ::
    "'tz chrono \<Rightarrow> screen_classification_settings \<Rightarrow> (string \<rightharpoonup> string) \<Rightarrow> int list \<Rightarrow> pipeline_row
      \<Rightarrow> screen_session_close \<Rightarrow> pipeline_row option" where
  "classify_screen_session chrono settings apps_forcing keyguards start_row c =
     (let state = sc_state c; session = screen_session_row chrono start_row c
      in case sc_stop_timestamp_ns c of
           None \<Rightarrow> Some (session\<lparr>row_end_reason := Some ''missing_stop'', row_end_reason_confidence := Some 1\<rparr>)
         | Some stop \<Rightarrow>
             (let last_package =
                    (case ss_last_meaningful_pkg state of
                       Some p \<Rightarrow> p
                     | None \<Rightarrow> (case ss_foreground_pkg state of None \<Rightarrow> [] | Some p \<Rightarrow> p));
                  forcing_label = (case apps_forcing last_package of None \<Rightarrow> [] | Some label \<Rightarrow> label);
                  tail_gap = map_option (\<lambda>t. seconds_between t stop) (ss_last_meaningful_ts_ns state)
              in case screen_end_verdict settings state (sc_stop_event_type c) stop forcing_label tail_gap keyguards of
                   None \<Rightarrow> None
                 | Some v \<Rightarrow>
                     Some (session
                       \<lparr>row_timing := (row_timing session)\<lparr>et_tail_gap_seconds := tail_gap\<rparr>,
                        row_forcing_label := (if forcing_label = [] then None else Some forcing_label),
                        row_end_reason := Some (ev_reason v), row_end_reason_confidence := Some (ev_confidence v),
                        row_lock_screen_only := Some (if ev_lock_screen_only v then 1 else 0)\<rparr>)))"

definition locked_out :: "screen_classification_settings \<Rightarrow> screen_session_close \<Rightarrow> bool" where
  "locked_out settings c \<longleftrightarrow>
     scs_locked_screen_audio_disposition settings = ExcludeFromPhoneAndAppSessions
     \<and> ss_lock_screen_seen (sc_state c) \<and> \<not> ss_unlocked_seen (sc_state c)"

fun classify_screen_sessions ::
    "'tz chrono \<Rightarrow> pipeline_row list \<Rightarrow> screen_session_close list \<Rightarrow> (string \<Rightarrow> int list option)
      \<Rightarrow> (string \<rightharpoonup> string) \<Rightarrow> screen_classification_settings \<Rightarrow> pipeline_row list option" where
  "classify_screen_sessions chrono rows [] keyguard_timestamps apps_forcing settings = Some []"
| "classify_screen_sessions chrono rows (c # cs) keyguard_timestamps apps_forcing settings =
     (if locked_out settings c
      then classify_screen_sessions chrono rows cs keyguard_timestamps apps_forcing settings
      else
        (let start_row = rows ! ss_start_index (sc_state c);
             keyguards = (case keyguard_timestamps (row_participant_id start_row) of None \<Rightarrow> [] | Some ts \<Rightarrow> ts)
         in case classify_screen_session chrono settings apps_forcing keyguards start_row c of
              None \<Rightarrow> None
            | Some session \<Rightarrow>
                map_option ((#) session)
                  (classify_screen_sessions chrono rows cs keyguard_timestamps apps_forcing settings)))"

section \<open>Policies\<close>

definition duration_cap_end_reason :: string where "duration_cap_end_reason = ''duration_cap''"

definition cap_ns :: "rat \<Rightarrow> int" where
  "cap_ns maximum_duration_minutes = clamp_i64 (f64_round (f64_mul maximum_duration_minutes 60000000000))"

definition exceeds_cap :: "int \<Rightarrow> pipeline_row \<Rightarrow> bool" where
  "exceeds_cap cap r \<longleftrightarrow>
     (case (row_start r, row_stop r) of
        (Some start, Some stop) \<Rightarrow> cap < i64_saturating_sub stop start
      | _ \<Rightarrow> False)"

definition truncate_session :: "rat \<Rightarrow> pipeline_row \<Rightarrow> pipeline_row" where
  "truncate_session maximum_duration_minutes r =
     (if exceeds_cap (cap_ns maximum_duration_minutes) r
      then
        (let stop = i64_saturating_add (the (row_start r)) (cap_ns maximum_duration_minutes)
         in r\<lparr>row_timing := (row_timing r)
                \<lparr>et_stop := Some stop, et_duration_seconds := Some (f64_mul maximum_duration_minutes 60),
                 et_duration_minutes := Some maximum_duration_minutes,
                 et_last_activity := map_option (\<lambda>t. min t stop) (et_last_activity (row_timing r)),
                 et_tail_gap_seconds := None\<rparr>,
              row_app_observed := None, row_end_reason := Some duration_cap_end_reason,
              row_end_reason_confidence := Some 1, row_stop_event_type := None\<rparr>)
      else r)"

definition session_label :: "screen_session_classification_policy \<Rightarrow> pipeline_row \<Rightarrow> string option" where
  "session_label policy r =
     (case policy of
        NoClassification \<Rightarrow> None
      | PhoneCheckInclusive15s \<Rightarrow>
          (case et_duration_seconds (row_timing r) of
             Some seconds \<Rightarrow> if seconds \<le> 15 then Some ''phone_check'' else None
           | None \<Rightarrow> None)
      | NullNoAppStrictGt15sVsApp \<Rightarrow>
          if row_app_observed r = Some True then Some ''app''
          else if row_app_observed r = Some False
                  \<and> (case et_duration_seconds (row_timing r) of Some seconds \<Rightarrow> 15 < seconds | None \<Rightarrow> False)
          then Some ''null'' else None)"

definition apply_screen_session_policies ::
    "pipeline_row list \<Rightarrow> screen_session_classification_policy \<Rightarrow> rat
      \<Rightarrow> screen_session_maximum_duration_disposition \<Rightarrow> locked_screen_audio_disposition \<Rightarrow> pipeline_row list" where
  "apply_screen_session_policies sessions policy maximum_duration_minutes disposition locked =
     (let sessions = (if locked = ExcludeFromPhoneAndAppSessions
                      then filter (\<lambda>r. row_lock_screen_only r \<noteq> Some 1) sessions else sessions);
          sessions = (if disposition = ExcludeParticipant
                      then (let excluded = map row_participant_id
                                  (filter (exceeds_cap (cap_ns maximum_duration_minutes)) sessions)
                            in filter (\<lambda>r. row_participant_id r \<notin> set excluded) sessions)
                      else sessions)
      in map (\<lambda>r. let r = (if disposition = Truncate then truncate_session maximum_duration_minutes r else r)
                  in r\<lparr>row_session_classification := session_label policy r\<rparr>) sessions)"

definition capped_screen_session_count :: "pipeline_row list \<Rightarrow> nat" where
  "capped_screen_session_count rows =
     length (filter (\<lambda>r. row_end_reason r = Some duration_cap_end_reason) rows) mod 2 ^ 32"

definition remove_participants :: "pipeline_row list \<Rightarrow> string set \<Rightarrow> pipeline_row list" where
  "remove_participants rows excluded =
     (if excluded \<noteq> {} then filter (\<lambda>r. row_participant_id r \<notin> excluded) rows else rows)"

text \<open>The screen channel: skeletons, classification, policies. The checkpoints recorded on the way are left out.\<close>

definition derive_screen_usage_sessions_full ::
    "'tz chrono \<Rightarrow> pipeline_row list \<Rightarrow> (string \<rightharpoonup> string) \<Rightarrow> screen_classification_settings
      \<Rightarrow> screen_session_classification_policy \<Rightarrow> rat \<Rightarrow> screen_session_maximum_duration_disposition
      \<Rightarrow> (pipeline_row list \<times> screen_session_close list) option" where
  "derive_screen_usage_sessions_full chrono rows apps_forcing settings policy maximum_duration_minutes disposition =
     (let closes = infer_screen_session_skeletons rows
      in case classify_screen_sessions chrono rows closes (index_keyguard_events rows) apps_forcing settings of
           None \<Rightarrow> None
         | Some sessions \<Rightarrow>
             Some (apply_screen_session_policies sessions policy maximum_duration_minutes disposition
                     (scs_locked_screen_audio_disposition settings), closes))"

section \<open>What the interval construction is given\<close>

datatype screen_interval_close_reason =
    ScreenNonInteractive
  | KeyguardShown
  | DeviceScreenOff
  | DeviceShutdown
  | RightCensoredObservationWindow

record chronicle_screen_interval_input =
  ci_participant_id :: string
  ci_start_ns :: int
  ci_stop_ns :: "int option"
  ci_start_boundary_source_row :: nat
  ci_stop_boundary_source_row :: "nat option"
  ci_start_source_rows :: "nat list"
  ci_stop_source_rows :: "nat list"
  ci_close_reason :: screen_interval_close_reason

definition first_row :: "source_data_rows \<Rightarrow> nat option" where
  "first_row rows = (case rows_iter rows of [] \<Rightarrow> None | x # _ \<Rightarrow> Some x)"

definition interval_close_reason :: "string option \<Rightarrow> screen_interval_close_reason" where
  "interval_close_reason stop_event_type =
     (case stop_event_type of
        None \<Rightarrow> RightCensoredObservationWindow
      | Some kind \<Rightarrow>
          if kind = ''Device Screen Off'' then DeviceScreenOff
          else if kind = ''Device Shutdown'' then DeviceShutdown else ScreenNonInteractive)"

text \<open>\<open>None\<close> is the panic of \<open>expect\<close> on a start without lineage.\<close>

definition chronicle_interval_input ::
    "pipeline_row list \<Rightarrow> screen_session_close \<Rightarrow> chronicle_screen_interval_input option" where
  "chronicle_interval_input rows c =
     map_option (\<lambda>boundary.
       \<lparr>ci_participant_id = row_participant_id (rows ! ss_start_index (sc_state c)),
        ci_start_ns = ss_start_timestamp_ns (sc_state c), ci_stop_ns = sc_stop_timestamp_ns c,
        ci_start_boundary_source_row = boundary,
        ci_stop_boundary_source_row = first_row (sc_stop_source_data_rows c),
        ci_start_source_rows = rows_iter (ss_start_source_data_rows (sc_state c)),
        ci_stop_source_rows = rows_iter (sc_stop_source_data_rows c),
        ci_close_reason = interval_close_reason (sc_stop_event_type c)\<rparr>)
       (first_row (ss_start_source_data_rows (sc_state c)))"

definition chronicle_interval_inputs ::
    "pipeline_row list \<Rightarrow> screen_session_close list \<Rightarrow> chronicle_screen_interval_input list option" where
  "chronicle_interval_inputs rows closes = those (map (chronicle_interval_input rows) closes)"

record orphan_stop_issue =
  os_participant_id :: string
  os_source_data_row :: nat

fun orphan_stops :: "string set \<Rightarrow> pipeline_row list \<Rightarrow> orphan_stop_issue list" where
  "orphan_stops open_set [] = []"
| "orphan_stops open_set (r # rs) =
     (if row_interaction_type r \<in> set screen_start_events
      then orphan_stops (insert (row_participant_id r) open_set) rs
      else if row_interaction_type r \<in> set screen_stop_events
      then
        (if row_participant_id r \<in> open_set then orphan_stops (open_set - {row_participant_id r}) rs
         else (case first_row (row_source_data_rows r) of
                 None \<Rightarrow> []
               | Some source_data_row \<Rightarrow>
                   [\<lparr>os_participant_id = row_participant_id r, os_source_data_row = source_data_row\<rparr>])
              @ orphan_stops open_set rs)
      else orphan_stops open_set rs)"

definition chronicle_orphan_stop_issues :: "pipeline_row list \<Rightarrow> orphan_stop_issue list" where
  "chronicle_orphan_stop_issues rows = orphan_stops {} rows"

end
