(* ===== verification/Screen_Bound.thy ===== *)
theory Screen_Bound
  imports Pipeline_Row Interval_Search
begin

text \<open>
  App rows bounded to the interactive screen (\<open>bound_app_rows_to_interactive_screen\<close> of
  \<open>pipeline/stages/screen.rs\<close>): a row is kept when it starts inside a screen interval of its participant,
  cut at the interval's stop. The intervals are sorted by start with an unstable sort, so the order of
  equal starts is left open: the sort is a parameter.
\<close>

section \<open>Definitions\<close>

type_synonym screen_interval = "int \<times> int option"

definition sorts_by_start :: "(screen_interval list \<Rightarrow> screen_interval list) \<Rightarrow> bool" where
  "sorts_by_start sorter \<longleftrightarrow> (\<forall>xs. mset (sorter xs) = mset xs \<and> sorted (map fst (sorter xs)))"

definition participant_intervals :: "pipeline_row list \<Rightarrow> string \<Rightarrow> screen_interval list" where
  "participant_intervals screen_rows p =
     List.map_filter (\<lambda>s. map_option (\<lambda>start. (start, row_stop s)) (row_start s))
       (filter (\<lambda>s. row_participant_id s = p) screen_rows)"

definition covers_start :: "int \<Rightarrow> screen_interval \<Rightarrow> bool" where
  "covers_start start = (\<lambda>(_, stop). case stop of None \<Rightarrow> True | Some stop \<Rightarrow> start < stop)"

text \<open>The stop and durations of a row that outlasts the screen.\<close>

definition cut_at :: "int \<Rightarrow> int \<Rightarrow> pipeline_row \<Rightarrow> pipeline_row" where
  "cut_at start screen_stop r =
     (let duration_seconds = f64_div (i64_as_f64 (i64_saturating_sub screen_stop start)) 1000000000
      in r\<lparr>row_timing := (row_timing r)
             \<lparr>et_stop := Some screen_stop, et_duration_seconds := Some duration_seconds,
              et_duration_minutes := Some (f64_div duration_seconds 60)\<rparr>\<rparr>)"

definition outlasts :: "pipeline_row \<Rightarrow> int \<Rightarrow> bool" where
  "outlasts r screen_stop \<longleftrightarrow> (case row_stop r of None \<Rightarrow> True | Some stop \<Rightarrow> screen_stop < stop)"

definition bound_app_row :: "screen_interval list \<Rightarrow> pipeline_row \<Rightarrow> pipeline_row option" where
  "bound_app_row intervals r =
     (case row_start r of
        None \<Rightarrow> None
      | Some start \<Rightarrow>
          if intervals = [] then None
          else
            (let candidate_count = partition_point (\<lambda>interval. fst interval \<le> start) intervals
             in case find (covers_start start) (rev (take candidate_count intervals)) of
                  None \<Rightarrow> None
                | Some (_, screen_stop) \<Rightarrow>
                    (let r = (case screen_stop of
                                None \<Rightarrow> r
                              | Some screen_stop \<Rightarrow> if outlasts r screen_stop then cut_at start screen_stop r else r)
                     in if (case row_stop r of None \<Rightarrow> True | Some stop \<Rightarrow> start < stop) then Some r else None)))"

definition bound_app_rows_to_interactive_screen ::
    "(screen_interval list \<Rightarrow> screen_interval list) \<Rightarrow> pipeline_row list \<Rightarrow> pipeline_row list \<Rightarrow> pipeline_row list" where
  "bound_app_rows_to_interactive_screen sorter rows screen_rows =
     List.map_filter
       (\<lambda>r. bound_app_row (sorter (participant_intervals screen_rows (row_participant_id r))) r) rows"

section \<open>The interval a row is bounded by\<close>

text \<open>The screen intervals of the participant in which the row starts.\<close>

definition screen_at :: "pipeline_row list \<Rightarrow> string \<Rightarrow> int \<Rightarrow> screen_interval set" where
  "screen_at screen_rows p start =
     {(a, b). (\<exists>s \<in> set screen_rows. row_participant_id s = p \<and> row_start s = Some a \<and> row_stop s = b)
        \<and> a \<le> start \<and> (b = None \<or> start < the b)}"

lemma participant_intervals_set:
  "set (participant_intervals screen_rows p) =
     {(a, b). \<exists>s \<in> set screen_rows. row_participant_id s = p \<and> row_start s = Some a \<and> row_stop s = b}"
  by (auto simp: participant_intervals_def in_map_filter)

lemma find_rev_last:
  assumes "sorted (map f xs)" "find P (rev xs) = Some x" "y \<in> set xs" "P y"
  shows "f y \<le> f x"
  using assms
proof (induction xs rule: rev_induct)
  case (snoc z xs)
  then show ?case by (auto simp: sorted_append split: if_splits)
qed simp

lemma latest_interval:
  fixes intervals :: "screen_interval list"
  defines "found \<equiv> \<lambda>start. find (covers_start start)
    (rev (take (partition_point (\<lambda>interval. fst interval \<le> start) intervals) intervals))"
  assumes sorted: "sorted (map fst intervals)"
  shows "found start = None \<longleftrightarrow> {x \<in> set intervals. fst x \<le> start \<and> covers_start start x} = {}"
    "found start = Some x \<Longrightarrow> x \<in> set intervals \<and> fst x \<le> start \<and> covers_start start x
       \<and> (\<forall>y \<in> set intervals. fst y \<le> start \<and> covers_start start y \<longrightarrow> fst y \<le> fst x)"
proof -
  let ?ivs = "takeWhile (\<lambda>interval. fst interval \<le> start) intervals"
  have found: "found start = find (covers_start start) (rev ?ivs)"
    unfolding found_def partition_point_sorted(1) [OF sorted] take_takeWhile_length ..
  have set: "y \<in> set ?ivs \<longleftrightarrow> y \<in> set intervals \<and> fst y \<le> start" for y
    using sorted by (induction intervals) auto
  show "found start = None \<longleftrightarrow> {x \<in> set intervals. fst x \<le> start \<and> covers_start start x} = {}"
    unfolding found find_None_iff using set by auto
  assume x: "found start = Some x"
  have "sorted (map fst ?ivs)" using sorted by (metis sorted_append takeWhile_dropWhile_id map_append)
  from find_rev_last [OF this x [unfolded found]] find_SomeD [OF x [unfolded found]] set
  show "x \<in> set intervals \<and> fst x \<le> start \<and> covers_start start x
       \<and> (\<forall>y \<in> set intervals. fst y \<le> start \<and> covers_start start y \<longrightarrow> fst y \<le> fst x)"
    by auto
qed

lemma bound_app_row_spec:
  assumes "sorts_by_start sorter" "row_start r = Some start"
    and result_def: "result = bound_app_row (sorter (participant_intervals screen_rows (row_participant_id r))) r"
    and cover_def: "cover = screen_at screen_rows (row_participant_id r) start"
  shows "cover = {} \<Longrightarrow> result = None"
    "cover \<noteq> {} \<Longrightarrow> \<exists>(a, b) \<in> cover. (\<forall>(a', _) \<in> cover. a' \<le> a)
       \<and> (let bounded = (case b of None \<Rightarrow> r | Some b \<Rightarrow> if outlasts r b then cut_at start b r else r)
          in result = (if row_stop bounded = None \<or> start < the (row_stop bounded) then Some bounded else None))"
proof -
  let ?ivs = "sorter (participant_intervals screen_rows (row_participant_id r))"
  let ?found = "find (covers_start start) (rev (take (partition_point (\<lambda>interval. fst interval \<le> start) ?ivs) ?ivs))"
  have sorted: "sorted (map fst ?ivs)" and mset: "mset ?ivs = mset (participant_intervals screen_rows (row_participant_id r))"
    using assms(1) by (simp_all add: sorts_by_start_def)
  have cover: "cover = {x \<in> set ?ivs. fst x \<le> start \<and> covers_start start x}"
    unfolding cover_def screen_at_def mset_eq_setD [OF mset] participant_intervals_set covers_start_def
    by (auto split: option.splits)
  note latest = latest_interval [OF sorted, of start]
  have res: "result = (case ?found of None \<Rightarrow> None
      | Some (_, b) \<Rightarrow> (let bounded = (case b of None \<Rightarrow> r | Some b \<Rightarrow> if outlasts r b then cut_at start b r else r)
          in if (case row_stop bounded of None \<Rightarrow> True | Some stop \<Rightarrow> start < stop) then Some bounded else None))"
    using assms(2) by (simp add: result_def bound_app_row_def Let_def)
  show "result = None" if "cover = {}" using latest(1) that by (simp add: res cover)
  assume "cover \<noteq> {}"
  then obtain a b where found: "?found = Some (a, b)" using latest(1) by (cases ?found) (auto simp: cover)
  have "(a, b) \<in> cover" "\<forall>(a', _) \<in> cover. a' \<le> a" using latest(2) [OF found] by (auto simp: cover)
  moreover have "let bounded = (case b of None \<Rightarrow> r | Some b \<Rightarrow> if outlasts r b then cut_at start b r else r)
      in result = (if row_stop bounded = None \<or> start < the (row_stop bounded) then Some bounded else None)"
    unfolding res found by (auto simp: Let_def split: option.split)
  ultimately show "\<exists>(a, b) \<in> cover. (\<forall>(a', _) \<in> cover. a' \<le> a)
       \<and> (let bounded = (case b of None \<Rightarrow> r | Some b \<Rightarrow> if outlasts r b then cut_at start b r else r)
          in result = (if row_stop bounded = None \<or> start < the (row_stop bounded) then Some bounded else None))"
    by blast
qed

end
