(* ===== verification/Float_Error.thy ===== *)
theory Float_Error
  imports Float_Seconds
begin

text \<open>
  The rounding error of the \<open>f64\<close> operations: a rounded value differs from the exact one by at most
  one part in \<open>2^53\<close>. What a comparison in seconds says about the nanoseconds behind it follows.
\<close>

lemma bit_len_bounds: "0 < n \<Longrightarrow> 0 < bit_len n \<and> 2 ^ nat (bit_len n - 1) \<le> n \<and> n < 2 ^ nat (bit_len n)"
proof (induction n rule: bit_len.induct)
  case (1 n)
  show ?case
  proof (cases "n = 1")
    case True
    have "bit_len 1 = 1" by code_simp
    with True show ?thesis by simp
  next
    case False
    with 1 have half: "0 < n div 2" "\<not> n \<le> 0" by auto
    note IH = "1.IH" [OF half(2,1)]
    have len: "bit_len n = 1 + bit_len (n div 2)" using 1 by (subst bit_len.simps) simp
    define k where "k = nat (bit_len (n div 2) - 1)"
    have "nat (bit_len (n div 2)) = Suc k" "nat (bit_len n - 1) = Suc k" "nat (bit_len n) = Suc (Suc k)"
      using conjunct1 [OF IH] len unfolding k_def by linarith+
    moreover have "2 ^ k \<le> n div 2" "n div 2 < 2 ^ Suc k" using IH calculation by (simp_all add: k_def)
    moreover have "2 ^ Suc k \<le> n" "n < 2 ^ Suc (Suc k)"
      using calculation(4,5) by auto
    ultimately show ?thesis using len IH by simp
  qed
qed

lemma pow2_nonneg_exp: "0 \<le> a \<Longrightarrow> 0 \<le> b \<Longrightarrow> pow2 (a - b) = 2 ^ nat a / 2 ^ nat b"
proof -
  assume ab: "0 \<le> a" "0 \<le> b"
  show ?thesis
  proof (cases "b \<le> a")
    case True
    then have "nat a = nat (a - b) + nat b" using ab by simp
    then show ?thesis using True by (simp add: pow2_def power_add)
  next
    case False
    then have "nat b = nat (b - a) + nat a" using ab by simp
    then show ?thesis using False by (simp add: pow2_def power_add)
  qed
qed

lemma pow2_add: "pow2 (a + b) = pow2 a * pow2 b"
proof -
  have split: "pow2 e = 2 ^ nat (max e 0) / 2 ^ nat (max (- e) 0)" for e by (simp add: pow2_def max_def)
  have "(2::rat) ^ nat (max (a + b) 0) * 2 ^ nat (max (- a) 0) * 2 ^ nat (max (- b) 0)
      = 2 ^ nat (max a 0) * 2 ^ nat (max b 0) * 2 ^ nat (max (- (a + b)) 0)"
    unfolding power_add [symmetric] by (rule arg_cong [where f = "\<lambda>n. 2 ^ n"]) (auto simp: max_def)
  then show ?thesis by (simp add: split field_simps)
qed

lemma f64_exponent_le:
  assumes "x \<noteq> 0"
  shows "pow2 (f64_exponent x) \<le> \<bar>x\<bar>"
proof -
  obtain p q where pq: "quotient_of \<bar>x\<bar> = (p, q)" by (cases "quotient_of \<bar>x\<bar>")
  have q: "0 < q" using quotient_of_denom_pos [OF pq] .
  have x: "\<bar>x\<bar> = of_int p / of_int q" using quotient_of_div [OF pq] .
  have p: "0 < p" using assms q x by (metis divide_eq_0_iff of_int_0_less_iff zero_less_abs_iff zero_less_divide_iff of_int_pos not_less_iff_gr_or_eq)
  have "pow2 (bit_len p - 1 - bit_len q) = 2 ^ nat (bit_len p - 1) / 2 ^ nat (bit_len q)"
    using bit_len_bounds [OF p] bit_len_bounds [OF q] by (intro pow2_nonneg_exp) auto
  also have "\<dots> \<le> of_int p / of_int q"
  proof (rule frac_le)
    show "(2::rat) ^ nat (bit_len p - 1) \<le> of_int p"
      using bit_len_bounds [OF p] by (metis of_int_le_iff of_int_numeral of_int_power)
    show "of_int q \<le> (2::rat) ^ nat (bit_len q)"
      using bit_len_bounds [OF q] by (metis less_imp_le of_int_le_iff of_int_numeral of_int_power)
  qed (use p q in auto)
  finally have low: "pow2 (bit_len p - bit_len q - 1) \<le> \<bar>x\<bar>" by (simp add: x algebra_simps)
  show ?thesis
    using low unfolding f64_exponent_def pq prod.case Let_def by (auto simp: algebra_simps)
qed

lemma round_half_even_error: "\<bar>of_int (round_half_even x) - x\<bar> \<le> 1 / 2"
proof -
  define d where "d = x - of_int \<lfloor>x\<rfloor>"
  have d: "0 \<le> d" "d < 1" unfolding d_def by linarith+
  have x: "x = of_int \<lfloor>x\<rfloor> + d" by (simp add: d_def)
  show ?thesis
    unfolding round_half_even_def Let_def d_def [symmetric] using d x by (auto simp: abs_if)
qed

lemma round_f64_error: "\<bar>round_f64 x - x\<bar> \<le> \<bar>x\<bar> / 2 ^ 53"
proof (cases "x = 0")
  case False
  define u where "u = pow2 (f64_exponent x - 52)"
  have u: "0 < u" by (simp add: u_def)
  have "round_f64 x - x = (of_int (round_half_even (x / u)) - x / u) * u"
    using False u by (simp add: round_f64_def Let_def u_def [symmetric] left_diff_distrib)
  then have "\<bar>round_f64 x - x\<bar> = \<bar>of_int (round_half_even (x / u)) - x / u\<bar> * u"
    using u by (simp add: abs_mult)
  also have "\<dots> \<le> 1 / 2 * u" using round_half_even_error [of "x / u"] u by (intro mult_right_mono) auto
  also have "\<dots> = pow2 (f64_exponent x) / 2 ^ 53"
  proof -
    have "pow2 e = pow2 (e - 52) * 2 ^ 52" for e
      using pow2_add [of "e - 52" 52] by (simp add: pow2_def [of 52])
    then have "pow2 (f64_exponent x) = u * 2 ^ 52" unfolding u_def by blast
    then show ?thesis by simp
  qed
  also have "\<dots> \<le> \<bar>x\<bar> / 2 ^ 53" using f64_exponent_le [OF False] by (simp add: divide_right_mono)
  finally show ?thesis .
qed (simp add: round_f64_def)

lemma round_f64_lower: "\<bar>x\<bar> - \<bar>x\<bar> / 2 ^ 53 \<le> \<bar>round_f64 x\<bar>"
  using round_f64_error [of x] by linarith

end
