(* ===== verification/Screen_Properties.thy ===== *)
theory Screen_Properties
  imports Screen_Bouts Screen_Classify Screen_Bound Float_Error
begin

text \<open>
  The properties of the screen channel: the sessions of a participant are the bouts of its own events,
  classification never panics and looks at every keyguard event that counts, the policies cap what they
  promise, and app rows are bounded by the screen interval they start in.
\<close>

section \<open>The keyguard window\<close>

lemma window_holds_near:
  assumes "0 \<le> near" "near \<le> 1000000" "\<bar>f64_div (i64_as_f64 d) 1000000000\<bar> \<le> near"
  shows "\<bar>d\<bar> \<le> \<lceil>f64_mul near 1000000000\<rceil>"
proof -
  define D where "D = \<bar>rat_of_int d\<bar>"
  define A where "A = \<bar>i64_as_f64 d\<bar>"
  define B where "B = \<bar>f64_div (i64_as_f64 d) 1000000000\<bar>"
  define M where "M = f64_mul near 1000000000"
  have a: "D - D / 2 ^ 53 \<le> A"
    using round_f64_lower [of "of_int d"] by (simp only: D_def A_def i64_as_f64_def)
  have "\<bar>i64_as_f64 d / 1000000000\<bar> = A / 1000000000" by (simp add: A_def)
  then have b: "A / 1000000000 - A / 1000000000 / 2 ^ 53 \<le> B"
    using round_f64_lower [of "i64_as_f64 d / 1000000000"] by (simp only: B_def f64_div_def)
  have "0 \<le> M" unfolding M_def f64_mul_def using assms(1) by (intro round_f64_nonneg) simp
  moreover have "\<bar>near * 1000000000\<bar> = near * 1000000000" using assms(1) by simp
  ultimately have m: "near * 1000000000 - near * 1000000000 / 2 ^ 53 \<le> M"
    using round_f64_lower [of "near * 1000000000"] by (simp only: M_def f64_mul_def abs_of_nonneg)
  have "D - 1 < M" using a b m assms unfolding B_def [symmetric] by simp
  then have "D - 1 < of_int \<lceil>M\<rceil>" using le_of_int_ceiling [of M] by (rule less_le_trans)
  then have "rat_of_int (\<bar>d\<bar> - 1) < of_int \<lceil>M\<rceil>" by (simp add: D_def)
  then have "\<bar>d\<bar> - 1 < \<lceil>M\<rceil>" by (simp only: of_int_less_iff)
  then show ?thesis by (simp add: M_def)
qed

lemma keyguard_window_bounds: "0 \<le> near \<Longrightarrow> 0 \<le> keyguard_window_ns near"
proof -
  assume "0 \<le> near"
  then have "0 \<le> f64_mul near 1000000000" unfolding f64_mul_def by (intro round_f64_nonneg) simp
  then have "0 \<le> \<lceil>f64_mul near 1000000000\<rceil>" by simp
  then show ?thesis by (auto simp: keyguard_window_ns_def clamp_i64_def i64_min_def i64_max_def)
qed

lemma list_ex_slice:
  assumes "\<And>i j. i < j \<Longrightarrow> j < length xs \<Longrightarrow> P (xs ! j) \<Longrightarrow> P (xs ! i)"
    and "\<And>i j. i < j \<Longrightarrow> j < length xs \<Longrightarrow> Q (xs ! j) \<Longrightarrow> Q (xs ! i)"
    and "\<And>x. P x \<Longrightarrow> Q x"
  shows "partition_point P xs \<le> partition_point Q xs"
    "set (take (partition_point Q xs - partition_point P xs) (drop (partition_point P xs) xs))
      = {x \<in> set xs. \<not> P x \<and> Q x}"
proof -
  let ?p = "partition_point P xs" and ?q = "partition_point Q xs"
  have p: "?p \<le> length xs" "\<forall>i < ?p. P (xs ! i)" "\<forall>i \<ge> ?p. i < length xs \<longrightarrow> \<not> P (xs ! i)"
    by (rule partition_point_split, rule assms(1), assumption+)+
  have q: "?q \<le> length xs" "\<forall>i < ?q. Q (xs ! i)" "\<forall>i \<ge> ?q. i < length xs \<longrightarrow> \<not> Q (xs ! i)"
    by (rule partition_point_split, rule assms(2), assumption+)+
  show le: "?p \<le> ?q"
  proof (rule ccontr)
    assume "\<not> ?p \<le> ?q"
    then have "P (xs ! ?q)" "\<not> Q (xs ! ?q)" using p(1,2) q(3) by auto
    with assms(3) show False by blast
  qed
  have "set (take (?q - ?p) (drop ?p xs)) = {xs ! i |i. ?p \<le> i \<and> i < ?q}"
  proof -
    have "take (?q - ?p) (drop ?p xs) = map ((!) xs) [?p..<?q]"
      using q(1) le by (intro nth_equalityI) auto
    then show ?thesis by (auto simp: image_def)
  qed
  also have "\<dots> = {x \<in> set xs. \<not> P x \<and> Q x}"
  proof -
    have "(\<exists>i. x = xs ! i \<and> ?p \<le> i \<and> i < ?q) \<longleftrightarrow> x \<in> set xs \<and> \<not> P x \<and> Q x" for x
    proof
      assume "\<exists>i. x = xs ! i \<and> ?p \<le> i \<and> i < ?q"
      then show "x \<in> set xs \<and> \<not> P x \<and> Q x" using p(3) q(1,2) by auto
    next
      assume "x \<in> set xs \<and> \<not> P x \<and> Q x"
      then obtain i where i: "i < length xs" "x = xs ! i" "\<not> P (xs ! i)" "Q (xs ! i)" by (auto simp: in_set_conv_nth)
      then have "?p \<le> i" "i < ?q" using p(2) q(3) by (meson not_le)+
      with i(2) show "\<exists>i. x = xs ! i \<and> ?p \<le> i \<and> i < ?q" by blast
    qed
    then show ?thesis by blast
  qed
  finally show "set (take (?q - ?p) (drop ?p xs)) = {x \<in> set xs. \<not> P x \<and> Q x}" .
qed

lemma keyguard_near_slice:
  assumes "sorted timestamps" "0 \<le> near" "epoch_ns stop"
  shows "keyguard_near near timestamps stop =
    Some (\<exists>t \<in> set timestamps. \<not> t < i64_saturating_sub stop (keyguard_window_ns near)
      \<and> t \<le> i64_saturating_add stop (keyguard_window_ns near) \<and> \<bar>seconds_between t stop\<bar> \<le> near)"
proof -
  let ?P = "\<lambda>t. t < i64_saturating_sub stop (keyguard_window_ns near)"
  let ?Q = "\<lambda>t. t \<le> i64_saturating_add stop (keyguard_window_ns near)"
  have "i64_saturating_sub stop (keyguard_window_ns near) \<le> i64_saturating_add stop (keyguard_window_ns near)"
    using keyguard_window_bounds [OF assms(2)]
    by (auto simp: i64_saturating_sub_def i64_saturating_add_def clamp_i64_def)
  then have PQ: "\<And>t. ?P t \<Longrightarrow> ?Q t" by simp
  have mono: "\<And>i j. i < j \<Longrightarrow> j < length timestamps \<Longrightarrow> timestamps ! i \<le> timestamps ! j"
    using assms(1) by (simp add: sorted_nth_mono)
  have P: "\<And>i j. i < j \<Longrightarrow> j < length timestamps \<Longrightarrow> ?P (timestamps ! j) \<Longrightarrow> ?P (timestamps ! i)"
    and Q: "\<And>i j. i < j \<Longrightarrow> j < length timestamps \<Longrightarrow> ?Q (timestamps ! j) \<Longrightarrow> ?Q (timestamps ! i)"
    using mono by force+
  have slice: "partition_point ?P timestamps \<le> partition_point ?Q timestamps"
    "set (take (partition_point ?Q timestamps - partition_point ?P timestamps) (drop (partition_point ?P timestamps) timestamps))
      = {t \<in> set timestamps. \<not> ?P t \<and> ?Q t}"
    by (rule list_ex_slice, rule P, assumption+, rule Q, assumption+, rule PQ, assumption)+
  show ?thesis
    unfolding keyguard_near_def Let_def list_ex_iff slice(2) using slice(1) by auto
qed

lemma near_inside_window:
  assumes "0 \<le> near" "near \<le> 1000000" "epoch_ns t" "epoch_ns stop" "\<bar>seconds_between t stop\<bar> \<le> near"
  shows "\<not> t < i64_saturating_sub stop (keyguard_window_ns near)"
    "t \<le> i64_saturating_add stop (keyguard_window_ns near)"
proof -
  have exact: "i64_sub stop t = stop - t"
    using assms(3,4) by (intro i64_sub_exact) (auto simp: epoch_ns_def in_i64_def i64_min_def i64_max_def)
  have w: "\<bar>stop - t\<bar> \<le> \<lceil>f64_mul near 1000000000\<rceil>"
    using window_holds_near [OF assms(1,2), of "stop - t"] assms(5) by (simp add: seconds_between_def exact)
  have "\<bar>stop - t\<bar> \<le> keyguard_window_ns near"
    using w assms(3,4) unfolding keyguard_window_ns_def
    by (auto simp: clamp_i64_def epoch_ns_def i64_min_def i64_max_def)
  then show "\<not> t < i64_saturating_sub stop (keyguard_window_ns near)"
    "t \<le> i64_saturating_add stop (keyguard_window_ns near)"
    using assms(3,4) by (auto simp: i64_saturating_sub_def i64_saturating_add_def clamp_i64_def epoch_ns_def i64_min_def i64_max_def)
qed

section \<open>Classification\<close>

lemma verdict_total:
  assumes "sorted keyguards" "0 \<le> scs_keyguard_near_stop_seconds settings" "epoch_ns stop"
  shows "\<exists>v. screen_end_verdict settings state stop_event_type stop label gap keyguards = Some v
    \<and> ev_reason v \<noteq> ''missing_stop''"
  using keyguard_near_slice [OF assms]
  by (auto simp: screen_end_verdict_def verdict_def split: option.split bool.split)

lemma screen_session_row_keeps:
  "row_start (screen_session_row chrono start_row c) = Some (ss_start_timestamp_ns (sc_state c))"
  "row_stop (screen_session_row chrono start_row c) = sc_stop_timestamp_ns c"
  "row_participant_id (screen_session_row chrono start_row c) = row_participant_id start_row"
  "row_source_data_rows (screen_session_row chrono start_row c) = ss_source_data_rows (sc_state c)"
  by (simp_all add: screen_session_row_def Let_def split: option.split)

definition session_of_close :: "pipeline_row list \<Rightarrow> screen_session_close \<Rightarrow> pipeline_row \<Rightarrow> bool" where
  "session_of_close rows c r \<longleftrightarrow>
     row_participant_id r = row_participant_id (rows ! ss_start_index (sc_state c))
     \<and> row_start r = Some (ss_start_timestamp_ns (sc_state c)) \<and> row_stop r = sc_stop_timestamp_ns c
     \<and> row_source_data_rows r = ss_source_data_rows (sc_state c)
     \<and> row_end_reason r \<noteq> None \<and> (row_end_reason r = Some ''missing_stop'' \<longleftrightarrow> sc_stop_timestamp_ns c = None)"

lemma classify_one:
  assumes "sorted keyguards" "0 \<le> scs_keyguard_near_stop_seconds settings"
    "\<forall>stop. sc_stop_timestamp_ns c = Some stop \<longrightarrow> epoch_ns stop"
  shows "\<exists>r. classify_screen_session chrono settings apps_forcing keyguards (rows ! ss_start_index (sc_state c)) c = Some r
    \<and> session_of_close rows c r"
proof (cases "sc_stop_timestamp_ns c")
  case None
  then show ?thesis
    by (simp add: classify_screen_session_def session_of_close_def Let_def screen_session_row_keeps)
next
  case (Some stop)
  then have "epoch_ns stop" using assms(3) by simp
  define label where "label = (case apps_forcing (case ss_last_meaningful_pkg (sc_state c) of
      Some p \<Rightarrow> p | None \<Rightarrow> (case ss_foreground_pkg (sc_state c) of None \<Rightarrow> [] | Some p \<Rightarrow> p)) of
      None \<Rightarrow> [] | Some label \<Rightarrow> label)"
  define gap where "gap = map_option (\<lambda>t. seconds_between t stop) (ss_last_meaningful_ts_ns (sc_state c))"
  obtain v where v: "screen_end_verdict settings (sc_state c) (sc_stop_event_type c) stop label gap keyguards = Some v"
      "ev_reason v \<noteq> ''missing_stop''"
    using verdict_total [OF assms(1,2) \<open>epoch_ns stop\<close>] by metis
  show ?thesis
    unfolding classify_screen_session_def Let_def Some option.case label_def [symmetric] gap_def [symmetric] v(1)
    using v(2) by (simp add: session_of_close_def screen_session_row_keeps Some)
qed

lemma classify_all:
  assumes "\<And>p ts. keyguard_timestamps p = Some ts \<Longrightarrow> sorted ts" "0 \<le> scs_keyguard_near_stop_seconds settings"
    "\<forall>c \<in> set cs. \<forall>stop. sc_stop_timestamp_ns c = Some stop \<longrightarrow> epoch_ns stop"
  shows "\<exists>sessions. classify_screen_sessions chrono rows cs keyguard_timestamps apps_forcing settings = Some sessions
    \<and> list_all2 (session_of_close rows) (filter (\<lambda>c. \<not> locked_out settings c) cs) sessions"
  using assms(3)
proof (induction cs)
  case (Cons c cs)
  then have "\<forall>c \<in> set cs. \<forall>stop. sc_stop_timestamp_ns c = Some stop \<longrightarrow> epoch_ns stop" by simp
  from Cons.IH [OF this]
  obtain rest where rest: "classify_screen_sessions chrono rows cs keyguard_timestamps apps_forcing settings = Some rest"
      "list_all2 (session_of_close rows) (filter (\<lambda>c. \<not> locked_out settings c) cs) rest" by blast
  let ?keyguards = "case keyguard_timestamps (row_participant_id (rows ! ss_start_index (sc_state c))) of
      None \<Rightarrow> [] | Some ts \<Rightarrow> ts"
  have "sorted ?keyguards" using assms(1) by (auto split: option.split)
  then obtain r where "classify_screen_session chrono settings apps_forcing ?keyguards (rows ! ss_start_index (sc_state c)) c = Some r"
      "session_of_close rows c r"
    using classify_one [OF _ assms(2), of ?keyguards c chrono apps_forcing rows] Cons.prems by auto
  with rest show ?case by (auto simp: Let_def)
qed simp

lemma index_keyguard_sorted: "index_keyguard_events rows p = Some ts \<Longrightarrow> sorted ts"
  by (auto simp: index_keyguard_events_def Let_def split: if_splits)

section \<open>Policies\<close>

lemma truncate_session_keeps [simp]:
  "row_participant_id (truncate_session m r) = row_participant_id r"
  "row_start (truncate_session m r) = row_start r"
  "row_index (truncate_session m r) = row_index r"
  by (simp_all add: truncate_session_def Let_def)

lemma truncate_session_capped:
  assumes "0 \<le> cap_ns m" "\<forall>start. row_start r = Some start \<longrightarrow> in_i64 start"
  shows "\<not> exceeds_cap (cap_ns m) (truncate_session m r)"
proof (cases "exceeds_cap (cap_ns m) r")
  case True
  then obtain start where start: "row_start r = Some start" by (auto simp: exceeds_cap_def split: option.splits)
  have "in_i64 start" using assms(2) start by simp
  then have "i64_saturating_sub (i64_saturating_add start (cap_ns m)) start \<le> cap_ns m"
    using assms(1) by (auto simp: i64_saturating_sub_def i64_saturating_add_def clamp_i64_def in_i64_def i64_min_def i64_max_def)
  then show ?thesis using True start by (simp add: truncate_session_def Let_def exceeds_cap_def)
qed (simp add: truncate_session_def)

lemma exceeds_cap_label [simp]:
  "exceeds_cap cap (r\<lparr>row_session_classification := label\<rparr>) \<longleftrightarrow> exceeds_cap cap r"
  by (simp add: exceeds_cap_def)

lemma session_label_label [simp]:
  "session_label policy (r\<lparr>row_session_classification := label\<rparr>) = session_label policy r"
  by (cases policy) (simp_all add: session_label_def)

lemma option_list: "x = (if c then Some y else None) \<Longrightarrow> (case x of None \<Rightarrow> [] | Some r \<Rightarrow> [r]) = (if c then [y] else [])"
  by simp

text \<open>The rows the policies keep.\<close>

definition kept_sessions ::
    "pipeline_row list \<Rightarrow> rat \<Rightarrow> screen_session_maximum_duration_disposition \<Rightarrow> locked_screen_audio_disposition
      \<Rightarrow> pipeline_row list" where
  "kept_sessions sessions m disposition locked =
     (let counted = filter (\<lambda>r. locked = ExcludeFromPhoneAndAppSessions \<longrightarrow> row_lock_screen_only r \<noteq> Some 1) sessions
      in filter (\<lambda>r. disposition = ExcludeParticipant
             \<longrightarrow> (\<forall>s \<in> set counted. row_participant_id s = row_participant_id r \<longrightarrow> \<not> exceeds_cap (cap_ns m) s)) counted)"

lemma policies_map:
  "apply_screen_session_policies sessions policy m disposition locked =
     map (\<lambda>r. let r = (if disposition = Truncate then truncate_session m r else r)
              in r\<lparr>row_session_classification := session_label policy r\<rparr>)
       (kept_sessions sessions m disposition locked)"
  unfolding apply_screen_session_policies_def kept_sessions_def Let_def
  by (cases locked; cases disposition)
    (auto intro!: arg_cong [where f = "map _"] filter_cong simp: image_iff simp del: filter_filter)

section \<open>A concrete stream\<close>

definition sample_screen :: "pipeline_row list" where
  "sample_screen =
     [event_row ''P'' ''Screen Interactive'' [] 10 1, event_row ''Q'' ''Screen Interactive'' [] 15 2,
      event_row ''P'' ''Keyguard Shown'' [] 20 3, event_row ''P'' ''Screen Non-Interactive'' [] 30 4]"

definition sample_screen_settings :: screen_classification_settings where
  "sample_screen_settings =
     \<lparr>scs_auto_lock_timeout_seconds = 30, scs_auto_lock_tolerance_seconds = 5,
      scs_manual_lock_max_tail_seconds = 3, scs_keyguard_near_stop_seconds = 2,
      scs_locked_screen_audio_disposition = IncludeLocked\<rparr>"

definition sample_long :: pipeline_row where
  "sample_long =
     (event_row ''P'' ''Screen Usage'' [] 0 1)
       \<lparr>row_timing := empty_timing\<lparr>et_start := Some 0, et_stop := Some 100000000000\<rparr>\<rparr>"

section \<open>Properties\<close>

text \<open>C5: the screen sessions of a participant are the bouts of its own events - from the first start after a stop
  to the next stop, or to the end - with the evidence read off these events, sorted by start; each start of
  the participant opens or is absorbed by exactly one bout. Events of other participants have no influence.\<close>

theorem screen_sessions_are_bouts:
  "filter (close_of_participant rows p) (infer_screen_session_skeletons rows)
    = sort_key (\<lambda>c. (ss_start_timestamp_ns (sc_state c), ss_start_index (sc_state c)))
        (map bout_close (bouts (participant_events_of rows p)))
    \<and> filter is_start (filter (\<lambda>r. row_participant_id r = p) rows)
      = concat (map (\<lambda>((i, s), body, stop). s # filter is_start body) (bouts (participant_events_of rows p)))"
  using closes_of_participant bouts_starts by (rule conjI)

text \<open>The keyguard search of the classification - a window cut out by two binary searches over rounded
  nanosecond bounds, then the exact test in seconds - finds exactly what a scan of all keyguard events of
  the participant would find, and never panics.\<close>

lemma keyguard_window_exact:
  assumes "sorted timestamps" "\<forall>t \<in> set timestamps. epoch_ns t" "epoch_ns stop" "0 \<le> near" "near \<le> 1000000"
  shows "keyguard_near near timestamps stop = Some (\<exists>t \<in> set timestamps. \<bar>seconds_between t stop\<bar> \<le> near)"
proof -
  have "\<not> t < i64_saturating_sub stop (keyguard_window_ns near) \<and> t \<le> i64_saturating_add stop (keyguard_window_ns near)"
    if "t \<in> set timestamps" "\<bar>seconds_between t stop\<bar> \<le> near" for t
    using near_inside_window [OF assms(4,5) _ assms(3) that(2)] assms(2) that(1) by blast
  then show ?thesis unfolding keyguard_near_slice [OF assms(1,4,3)] by blast
qed

lemma keyguard_window_exact_witness: "keyguard_near 2 [0, 5000000000] 6000000000 = Some True"
proof -
  have "keyguard_near 2 [0, 5000000000] 6000000000
      = Some (\<exists>t \<in> set [0, 5000000000]. \<bar>seconds_between t 6000000000\<bar> \<le> 2)"
    by (rule keyguard_window_exact) (simp_all add: epoch_ns_def i64_max_def)
  moreover have "\<bar>seconds_between 5000000000 6000000000\<bar> \<le> 2" by code_simp
  ultimately show ?thesis by simp
qed

text \<open>With the non-negative settings the options accept, the screen channel returns, and it classifies every
  session that is not excluded as locked, in order: same participant, bounds and lineage, a reason why it
  ended, and the reason \<open>missing_stop\<close> exactly for sessions without a stop.\<close>

lemma screen_classification_total:
  assumes "\<forall>r \<in> set rows. epoch_ns (row_event_timestamp_ns r)" "0 \<le> scs_keyguard_near_stop_seconds settings"
  shows "\<exists>sessions. classify_screen_sessions chrono rows (infer_screen_session_skeletons rows)
        (index_keyguard_events rows) apps_forcing settings = Some sessions
    \<and> list_all2 (session_of_close rows)
        (filter (\<lambda>c. \<not> locked_out settings c) (infer_screen_session_skeletons rows)) sessions"
proof (rule classify_all)
  show "\<And>p ts. index_keyguard_events rows p = Some ts \<Longrightarrow> sorted ts" by (rule index_keyguard_sorted)
  show "0 \<le> scs_keyguard_near_stop_seconds settings" by (rule assms(2))
  show "\<forall>c \<in> set (infer_screen_session_skeletons rows). \<forall>stop. sc_stop_timestamp_ns c = Some stop \<longrightarrow> epoch_ns stop"
    using close_stops_rows assms(1) by fastforce
qed

lemma screen_classification_total_witness:
  "\<exists>sessions. classify_screen_sessions sample_chrono sample_screen
      (infer_screen_session_skeletons sample_screen) (index_keyguard_events sample_screen) Map.empty sample_screen_settings
      = Some sessions
    \<and> list_all2 (session_of_close sample_screen)
        (filter (\<lambda>c. \<not> locked_out sample_screen_settings c) (infer_screen_session_skeletons sample_screen)) sessions"
  by (rule screen_classification_total)
    (simp_all add: sample_screen_def event_row_def epoch_ns_def i64_max_def sample_screen_settings_def)

text \<open>C26: after the policies no session exceeds the maximum duration when it is to be truncated or its
  participant excluded; the sessions kept are those not excluded, in order and with their participant and
  start, and each carries the label of its final duration and evidence.\<close>

theorem screen_policies_cap:
  assumes "0 \<le> cap_ns m" "\<forall>r \<in> set sessions. \<forall>start. row_start r = Some start \<longrightarrow> in_i64 start"
    and "out = apply_screen_session_policies sessions policy m disposition locked"
  shows "(disposition \<noteq> NoMaximum \<longrightarrow> (\<forall>r \<in> set out. \<not> exceeds_cap (cap_ns m) r))
    \<and> map (\<lambda>r. (row_participant_id r, row_start r, row_index r)) out
      = map (\<lambda>r. (row_participant_id r, row_start r, row_index r)) (kept_sessions sessions m disposition locked)
    \<and> (\<forall>r \<in> set out. row_session_classification r = session_label policy r)"
proof (intro conjI impI)
  have kept: "set (kept_sessions sessions m disposition locked) \<subseteq> set sessions" by (auto simp: kept_sessions_def Let_def)
  show "\<forall>r \<in> set out. \<not> exceeds_cap (cap_ns m) r" if "disposition \<noteq> NoMaximum"
  proof (cases "disposition = Truncate")
    case True
    have "\<not> exceeds_cap (cap_ns m) (truncate_session m r)" if "r \<in> set (kept_sessions sessions m disposition locked)" for r
      by (rule truncate_session_capped [OF assms(1)]) (use assms(2) kept that in blast)
    then show ?thesis unfolding assms(3) policies_map using True by (auto simp: Let_def)
  next
    case False
    then have "disposition = ExcludeParticipant" using that by (cases disposition) auto
    then show ?thesis unfolding assms(3) policies_map by (auto simp: Let_def kept_sessions_def)
  qed
  show "map (\<lambda>r. (row_participant_id r, row_start r, row_index r)) out
      = map (\<lambda>r. (row_participant_id r, row_start r, row_index r)) (kept_sessions sessions m disposition locked)"
    unfolding assms(3) policies_map by (auto simp: Let_def)
  show "\<forall>r \<in> set out. row_session_classification r = session_label policy r"
    unfolding assms(3) policies_map by (auto simp: Let_def)
qed

theorem screen_policies_cap_witness:
  "list_all (\<lambda>r. \<not> exceeds_cap (cap_ns 1) r)
     (apply_screen_session_policies [sample_long] NoClassification 1 Truncate IncludeLocked)"
proof -
  have "0 \<le> cap_ns 1" by code_simp
  moreover have "\<forall>r \<in> set [sample_long]. \<forall>start. row_start r = Some start \<longrightarrow> in_i64 start"
    by (simp add: sample_long_def in_i64_def i64_min_def i64_max_def)
  ultimately show ?thesis
    using screen_policies_cap [of 1 "[sample_long]" _ NoClassification Truncate IncludeLocked, OF _ _ refl]
    unfolding list_all_iff by blast
qed

text \<open>C27: an app row is kept exactly when it starts inside a screen interval of its participant and still has a
  positive width there; it is then bounded by the interval that starts last among those it starts in, cut at
  its stop when it outlasts it and unchanged otherwise. This holds for every order the unstable sort may
  leave intervals with equal starts in.\<close>

theorem app_rows_bounded_by_screen:
  assumes "sorts_by_start sorter" "row_start r = Some start"
    and "cover = screen_at screen_rows (row_participant_id r) start"
  shows "\<exists>kept. bound_app_rows_to_interactive_screen sorter (before @ r # after) screen_rows
      = bound_app_rows_to_interactive_screen sorter before screen_rows @ kept
          @ bound_app_rows_to_interactive_screen sorter after screen_rows
    \<and> (cover = {} \<longrightarrow> kept = [])
    \<and> (cover \<noteq> {} \<longrightarrow> (\<exists>(a, b) \<in> cover. (\<forall>(a', _) \<in> cover. a' \<le> a)
         \<and> (let bounded = (case b of None \<Rightarrow> r | Some b \<Rightarrow> if outlasts r b then cut_at start b r else r)
            in kept = (if row_stop bounded = None \<or> start < the (row_stop bounded) then [bounded] else []))))"
proof -
  let ?result = "bound_app_row (sorter (participant_intervals screen_rows (row_participant_id r))) r"
  let ?kept = "case ?result of None \<Rightarrow> [] | Some r \<Rightarrow> [r]"
  note spec = bound_app_row_spec [OF assms(1,2) refl assms(3)]
  have "bound_app_rows_to_interactive_screen sorter (before @ r # after) screen_rows
      = bound_app_rows_to_interactive_screen sorter before screen_rows @ ?kept
          @ bound_app_rows_to_interactive_screen sorter after screen_rows"
    by (simp add: bound_app_rows_to_interactive_screen_def List.map_filter_simps split: option.split)
  moreover have "cover = {} \<longrightarrow> ?kept = []" using spec(1) by simp
  moreover have "\<exists>(a, b) \<in> cover. (\<forall>(a', _) \<in> cover. a' \<le> a)
         \<and> (let bounded = (case b of None \<Rightarrow> r | Some b \<Rightarrow> if outlasts r b then cut_at start b r else r)
            in ?kept = (if row_stop bounded = None \<or> start < the (row_stop bounded) then [bounded] else []))"
    if cover: "cover \<noteq> {}"
  proof -
    obtain a b where ab: "(a, b) \<in> cover" "\<forall>(a', _) \<in> cover. a' \<le> a"
        "let bounded = (case b of None \<Rightarrow> r | Some b \<Rightarrow> if outlasts r b then cut_at start b r else r)
         in ?result = (if row_stop bounded = None \<or> start < the (row_stop bounded) then Some bounded else None)"
      using spec(2) [OF cover] by blast
    have "let bounded = (case b of None \<Rightarrow> r | Some b \<Rightarrow> if outlasts r b then cut_at start b r else r)
         in ?kept = (if row_stop bounded = None \<or> start < the (row_stop bounded) then [bounded] else [])"
      using ab(3) unfolding Let_def by (rule option_list)
    with ab(1,2) show ?thesis by blast
  qed
  ultimately show ?thesis by blast
qed

theorem app_rows_bounded_by_screen_witness:
  "\<exists>kept. bound_app_rows_to_interactive_screen (sort_key fst) [sample_long] [sample_long]
      = bound_app_rows_to_interactive_screen (sort_key fst) [] [sample_long] @ kept
          @ bound_app_rows_to_interactive_screen (sort_key fst) [] [sample_long]
    \<and> kept \<noteq> []"
proof -
  have sorter: "sorts_by_start (sort_key fst)" by (simp add: sorts_by_start_def)
  have start: "row_start sample_long = Some 0" "row_stop sample_long = Some 100000000000"
    by (simp_all add: sample_long_def)
  let ?cover = "screen_at [sample_long] (row_participant_id sample_long) 0"
  have "?cover = {(0, Some 100000000000)}" by (auto simp: screen_at_def start)
  then show ?thesis
    using app_rows_bounded_by_screen [OF sorter start(1), where cover = ?cover and screen_rows = "[sample_long]"
        and before = "[]" and after = "[]", OF refl]
    by (auto simp: outlasts_def start)
qed

end
