(* ===== verification/Polled.thy ===== *)
theory Polled
  imports Pipeline_Row
begin

text \<open>
  The emulation of a polling tracker (\<open>pipeline/stages/polled.rs\<close>): the episodes are sampled on a grid
  anchored at the epoch, the samples grouped into runs by one of two published rules, and each run becomes
  a row. Also the expansion of episodes into half-open seconds.
\<close>

section \<open>Samples\<close>

datatype polled_emulation_method = NoEmulation | Ross2025SampledGapV1 | Cerit2025SampleCountV1

definition method_id :: "polled_emulation_method \<Rightarrow> string" where
  "method_id m =
     (case m of
        NoEmulation \<Rightarrow> ''none''
      | Ross2025SampledGapV1 \<Rightarrow> ''ross_2025_sampled_gap_v1''
      | Cerit2025SampleCountV1 \<Rightarrow> ''cerit_2025_sample_count_v1'')"

definition uses_gap_threshold :: "polled_emulation_method \<Rightarrow> bool" where
  "uses_gap_threshold m \<longleftrightarrow> m = Ross2025SampledGapV1"

record polled_sample =
  ps_row_index :: nat
  ps_instant_ns :: int

text \<open>The grid instants from \<open>instant\<close> to \<open>stop\<close>; the addition that would overflow ends the loop.\<close>

function grid_from :: "int \<Rightarrow> int \<Rightarrow> int \<Rightarrow> int list" where
  "grid_from interval_ns stop instant =
     (if 0 < interval_ns \<and> instant \<le> stop
      then instant # (if in_i64 (instant + interval_ns) then grid_from interval_ns stop (instant + interval_ns) else [])
      else [])"
  by pat_completeness auto

termination by (relation "measure (\<lambda>(interval_ns, stop, instant). nat (stop - instant + 1))") auto

declare grid_from.simps [simp del]

definition first_instant :: "int \<Rightarrow> int \<Rightarrow> int" where
  "first_instant interval_ns start =
     (let first = wrap_i64 (start div interval_ns * interval_ns)
      in if first < start then i64_add first interval_ns else first)"

definition row_samples :: "int \<Rightarrow> nat \<times> pipeline_row \<Rightarrow> polled_sample list" where
  "row_samples interval_ns = (\<lambda>(row_index, r).
     (case (row_start r, row_stop r) of
        (Some start, Some stop) \<Rightarrow>
          if stop < start then []
          else map (\<lambda>t. \<lparr>ps_row_index = row_index, ps_instant_ns = t\<rparr>)
                 (grid_from interval_ns stop (first_instant interval_ns start))
      | _ \<Rightarrow> []))"

definition sample_polled_timeline :: "pipeline_row list \<Rightarrow> int \<Rightarrow> polled_sample list" where
  "sample_polled_timeline app_rows interval_ns =
     (if interval_ns \<le> 0 then []
      else sort_key ps_instant_ns (concat (map (row_samples interval_ns) (List.enumerate 0 app_rows))))"

section \<open>Runs\<close>

record polled_run =
  pr_row_index :: nat
  pr_first_instant_ns :: int
  pr_last_instant_ns :: int
  pr_sample_count :: nat
  pr_forced_terminal :: bool

definition sample_identity :: "pipeline_row list \<Rightarrow> nat \<Rightarrow> string \<times> string" where
  "sample_identity app_rows index =
     (row_participant_id (app_rows ! index), row_app_package_name (app_rows ! index))"

definition break_at :: "polled_emulation_method \<Rightarrow> int \<Rightarrow> int \<Rightarrow> int" where
  "break_at m interval_ns gap_ns = (if uses_gap_threshold m then gap_ns else i64_saturating_add interval_ns 1)"

definition continues_run :: "pipeline_row list \<Rightarrow> int \<Rightarrow> polled_run \<Rightarrow> polled_sample \<Rightarrow> bool" where
  "continues_run app_rows break_at_ns run s \<longleftrightarrow>
     sample_identity app_rows (pr_row_index run) = sample_identity app_rows (ps_row_index s)
     \<and> i64_saturating_sub (ps_instant_ns s) (pr_last_instant_ns run) < break_at_ns"

definition run_step ::
    "pipeline_row list \<Rightarrow> int \<Rightarrow> polled_sample \<Rightarrow> polled_run list \<times> polled_run option
      \<Rightarrow> polled_run list \<times> polled_run option" where
  "run_step app_rows break_at_ns s = (\<lambda>(runs, open_run).
     (case open_run of
        Some run \<Rightarrow>
          if continues_run app_rows break_at_ns run s
          then (runs, Some (run\<lparr>pr_last_instant_ns := ps_instant_ns s, pr_sample_count := pr_sample_count run + 1\<rparr>))
          else (runs @ [run],
                Some \<lparr>pr_row_index = ps_row_index s, pr_first_instant_ns = ps_instant_ns s,
                      pr_last_instant_ns = ps_instant_ns s, pr_sample_count = 1, pr_forced_terminal = False\<rparr>)
      | None \<Rightarrow>
          (runs, Some \<lparr>pr_row_index = ps_row_index s, pr_first_instant_ns = ps_instant_ns s,
                       pr_last_instant_ns = ps_instant_ns s, pr_sample_count = 1, pr_forced_terminal = False\<rparr>)))"

definition group_polled_runs ::
    "pipeline_row list \<Rightarrow> polled_sample list \<Rightarrow> polled_emulation_method \<Rightarrow> int \<Rightarrow> int \<Rightarrow> polled_run list" where
  "group_polled_runs app_rows samples m interval_ns gap_ns =
     (case fold (run_step app_rows (break_at m interval_ns gap_ns)) samples ([], None) of
        (runs, None) \<Rightarrow> runs
      | (runs, Some run) \<Rightarrow> runs @ [run\<lparr>pr_forced_terminal := uses_gap_threshold m\<rparr>])"

section \<open>Rows\<close>

definition polled_emulation_flag_prefix :: string where
  "polled_emulation_flag_prefix = ''POLLED EMULATION''"

definition polled_emulation_not_observed_flag :: string where
  "polled_emulation_not_observed_flag = ''EMULATED NOT OBSERVED''"

definition polled_emulation_forced_terminal_flag :: string where
  "polled_emulation_forced_terminal_flag = ''FORCED TERMINAL SAMPLE''"

text \<open>The cadence as text; the shortest decimal of an \<open>f64\<close> that is no whole number is left to a parameter.\<close>

definition signed_decimal :: "int \<Rightarrow> string" where
  "signed_decimal n = (if n < 0 then CHR ''-'' # decimal (nat (- n)) else decimal (nat n))"

definition format_cadence_seconds :: "(rat \<Rightarrow> string) \<Rightarrow> int \<Rightarrow> string" where
  "format_cadence_seconds show_f64 interval_ns =
     (if trunc_div interval_ns 1000000000 * 1000000000 = interval_ns
      then signed_decimal (trunc_div interval_ns 1000000000)
      else show_f64 (f64_div (i64_as_f64 interval_ns) 1000000000))"

definition run_seconds :: "polled_emulation_method \<Rightarrow> int \<Rightarrow> polled_run \<Rightarrow> rat" where
  "run_seconds m interval_ns run =
     (case m of
        Ross2025SampledGapV1 \<Rightarrow>
          f64_div (i64_as_f64 (i64_saturating_sub (pr_last_instant_ns run) (pr_first_instant_ns run))) 1000000000
      | Cerit2025SampleCountV1 \<Rightarrow>
          f64_div (f64_mul (i64_as_f64 (int (pr_sample_count run))) (i64_as_f64 interval_ns)) 1000000000
      | NoEmulation \<Rightarrow> 0)"

definition polled_row ::
    "(rat \<Rightarrow> string) \<Rightarrow> pipeline_row list \<Rightarrow> polled_emulation_method \<Rightarrow> int \<Rightarrow> polled_run \<Rightarrow> pipeline_row" where
  "polled_row show_f64 app_rows m interval_ns run =
     (let r = app_rows ! pr_row_index run;
          seconds = run_seconds m interval_ns run;
          r = r\<lparr>row_timing := (row_timing r)
                 \<lparr>et_start := Some (pr_first_instant_ns run), et_stop := Some (pr_last_instant_ns run),
                  et_duration_seconds := Some seconds, et_duration_minutes := Some (f64_div seconds 60)\<rparr>\<rparr>;
          r = push_row_flag (polled_emulation_flag_prefix @ '' '' @ method_id m @ '' @''
                @ format_cadence_seconds show_f64 interval_ns @ ''s'') r;
          r = push_row_flag polled_emulation_not_observed_flag r
      in if pr_forced_terminal run then push_row_flag polled_emulation_forced_terminal_flag r else r)"

definition materialize_polled_rows ::
    "(rat \<Rightarrow> string) \<Rightarrow> pipeline_row list \<Rightarrow> polled_run list \<Rightarrow> polled_emulation_method \<Rightarrow> int \<Rightarrow> pipeline_row list" where
  "materialize_polled_rows show_f64 app_rows runs m interval_ns =
     map (polled_row show_f64 app_rows m interval_ns) runs"

record polled_emulation_counts =
  pc_method :: string
  pc_interval_ns :: int
  pc_gap_ns :: int
  pc_samples :: nat
  pc_runs :: nat
  pc_forced_terminal_runs :: nat

definition polled_counts ::
    "polled_emulation_method \<Rightarrow> int \<Rightarrow> int \<Rightarrow> nat \<Rightarrow> polled_run list \<Rightarrow> polled_emulation_counts" where
  "polled_counts m interval_ns gap_ns samples runs =
     \<lparr>pc_method = method_id m, pc_interval_ns = interval_ns, pc_gap_ns = gap_ns, pc_samples = samples,
      pc_runs = length runs, pc_forced_terminal_runs = length (filter pr_forced_terminal runs)\<rparr>"

section \<open>Half-open seconds\<close>

definition second_ns :: int where "second_ns = 1000000000"

definition expansion_overflow :: string where
  "expansion_overflow = ''interval expansion timestamp overflow''"

definition i64_checked_sub :: "int \<Rightarrow> int \<Rightarrow> int option" where
  "i64_checked_sub a b = (if in_i64 (a - b) then Some (a - b) else None)"

definition i64_checked_add :: "int \<Rightarrow> int \<Rightarrow> int option" where
  "i64_checked_add a b = (if in_i64 (a + b) then Some (a + b) else None)"

text \<open>The number of rows a source row asks for. On the 32-bit target \<open>usize\<close> has the width of \<open>u32\<close>;
  \<open>usize_max\<close> is the largest value the target counts to.\<close>

definition expansion_seconds :: "nat \<Rightarrow> pipeline_row \<Rightarrow> string + nat" where
  "expansion_seconds usize_max r =
     (case (row_start r, row_stop r) of
        (Some start, Some stop) \<Rightarrow>
          if start < stop
          then (case i64_checked_sub stop start of
                  None \<Rightarrow> Inl expansion_overflow
                | Some width \<Rightarrow>
                    if usize_max < nat (trunc_div width second_ns)
                    then Inl ''interval expansion row count exceeds usize''
                    else Inr (nat (trunc_div width second_ns)))
          else Inr 0
      | _ \<Rightarrow> Inr 0)"

fun expansion_total :: "nat \<Rightarrow> pipeline_row list \<Rightarrow> nat \<Rightarrow> string + nat" where
  "expansion_total usize_max [] acc = Inr acc"
| "expansion_total usize_max (r # rs) acc =
     (case expansion_seconds usize_max r of
        Inl e \<Rightarrow> Inl e
      | Inr seconds \<Rightarrow>
          if usize_max < acc + seconds then Inl ''interval expansion row count overflow''
          else expansion_total usize_max rs (acc + seconds))"

definition interval_expansion_flag :: string where
  "interval_expansion_flag = ''INTERVAL EXPANSION behapp_start_anchored_half_open_1s_v1''"

definition second_row :: "'tz chrono \<Rightarrow> pipeline_row \<Rightarrow> int \<Rightarrow> int \<Rightarrow> pipeline_row" where
  "second_row chrono source instant stop =
     (let r = source
            \<lparr>row_event_timestamp_ns := instant,
             row_timing := (row_timing source)
               \<lparr>et_start := Some instant, et_stop := Some stop, et_duration_seconds := Some 1,
                et_duration_minutes := Some (f64_div 1 60)\<rparr>\<rparr>;
          r = push_row_flag interval_expansion_flag r
      in populate_time_columns chrono (timezone_or_utc chrono (row_timezone r)) r)"

fun expand_seconds ::
    "'tz chrono \<Rightarrow> pipeline_row \<Rightarrow> int \<Rightarrow> nat list \<Rightarrow> string + pipeline_row list" where
  "expand_seconds chrono source start [] = Inr []"
| "expand_seconds chrono source start (offset # offsets) =
     (case i64_checked_add start (clamp_i64 (int offset * second_ns)) of
        None \<Rightarrow> Inl expansion_overflow
      | Some instant \<Rightarrow>
          (case i64_checked_add instant second_ns of
             None \<Rightarrow> Inl expansion_overflow
           | Some stop \<Rightarrow>
               (case expand_seconds chrono source start offsets of
                  Inl e \<Rightarrow> Inl e
                | Inr rows \<Rightarrow> Inr (second_row chrono source instant stop # rows))))"

fun expand_rows :: "'tz chrono \<Rightarrow> pipeline_row list \<Rightarrow> string + pipeline_row list" where
  "expand_rows chrono [] = Inr []"
| "expand_rows chrono (source # sources) =
     (case (case (row_start source, row_stop source) of
              (Some start, Some stop) \<Rightarrow>
                (let whole_seconds = trunc_div (i64_saturating_sub stop start) second_ns
                 in if whole_seconds \<le> 0 then Inr []
                    else expand_seconds chrono source start [0..<nat whole_seconds])
            | _ \<Rightarrow> Inr []) of
        Inl e \<Rightarrow> Inl e
      | Inr rows \<Rightarrow> (case expand_rows chrono sources of Inl e \<Rightarrow> Inl e | Inr rest \<Rightarrow> Inr (rows @ rest)))"

text \<open>\<open>allocates\<close> is whether the allocator can reserve that many rows.\<close>

definition materialize_behapp_half_open_seconds ::
    "nat \<Rightarrow> (nat \<Rightarrow> bool) \<Rightarrow> 'tz chrono \<Rightarrow> pipeline_row list \<Rightarrow> string + pipeline_row list" where
  "materialize_behapp_half_open_seconds usize_max allocates chrono app_rows =
     (case expansion_total usize_max app_rows 0 of
        Inl e \<Rightarrow> Inl e
      | Inr n \<Rightarrow>
          if u32_max < n then Inl ''interval expansion row count exceeds u32''
          else if \<not> allocates n then Inl ''interval expansion allocation failed''
          else expand_rows chrono app_rows)"

end
