(* ===== verification/Polled_Properties.thy ===== *)
theory Polled_Properties
  imports Polled
begin

text \<open>
  The properties of the polling emulation: the samples are the grid instants inside the episodes, their
  number is the episode's length up to one cadence, and the runs are the maximal chains of samples of one
  app of one participant without a gap. Samples of all participants are merged first, so participants in
  use at the same time break each other's runs.
\<close>

section \<open>The grid\<close>

lemma grid_from_exact:
  assumes "0 < i" "in_i64 stop" "in_i64 a"
  shows "sorted_wrt (<) (grid_from i stop a)
    \<and> set (grid_from i stop a) = {t. a \<le> t \<and> t \<le> stop \<and> i dvd (t - a)}"
  using assms
proof (induction i stop a rule: grid_from.induct)
  case (1 i stop a)
  show ?case
  proof (cases "a \<le> stop")
    case False
    then show ?thesis by (simp add: grid_from.simps)
  next
    case le: True
    have split: "{t. a \<le> t \<and> t \<le> stop \<and> i dvd (t - a)} = insert a {t. a + i \<le> t \<and> t \<le> stop \<and> i dvd (t - (a + i))}"
    proof -
      have down: "a + i \<le> t \<and> i dvd (t - (a + i))" if "a \<le> t" "i dvd (t - a)" "t \<noteq> a" for t
      proof -
        have "i \<le> t - a" using that by (intro zdvd_imp_le) auto
        moreover have "i dvd (t - a - i)" using that(2) by (rule dvd_diff) simp
        ultimately show ?thesis by (simp add: algebra_simps)
      qed
      have up: "a \<le> t \<and> i dvd (t - a)" if "a + i \<le> t" "i dvd (t - (a + i))" for t
      proof -
        have "i dvd (t - (a + i) + i)" using that(2) by (rule dvd_add) simp
        then show ?thesis using that(1) "1.prems"(1) by simp
      qed
      show ?thesis
      proof (intro set_eqI iffI)
        fix t assume "t \<in> {t. a \<le> t \<and> t \<le> stop \<and> i dvd (t - a)}"
        then show "t \<in> insert a {t. a + i \<le> t \<and> t \<le> stop \<and> i dvd (t - (a + i))}" using down by auto
      next
        fix t assume "t \<in> insert a {t. a + i \<le> t \<and> t \<le> stop \<and> i dvd (t - (a + i))}"
        then show "t \<in> {t. a \<le> t \<and> t \<le> stop \<and> i dvd (t - a)}" using up le by auto
      qed
    qed
    show ?thesis
    proof (cases "in_i64 (a + i)")
      case True
      have step: "grid_from i stop a = a # grid_from i stop (a + i)"
        using le "1.prems"(1) True by (subst grid_from.simps) simp
      have IH: "sorted_wrt (<) (grid_from i stop (a + i))"
        "set (grid_from i stop (a + i)) = {t. a + i \<le> t \<and> t \<le> stop \<and> i dvd (t - (a + i))}"
        using "1.IH" [OF conjI [OF "1.prems"(1) le] True "1.prems"(1,2) True] by blast+
      have "\<forall>t \<in> set (grid_from i stop (a + i)). a < t" using "1.prems"(1) unfolding IH(2) by simp
      with IH(1) show ?thesis unfolding step split by (simp add: IH(2))
    next
      case False
      have step: "grid_from i stop a = [a]" using le "1.prems"(1) False by (subst grid_from.simps) simp
      have none: "{t. a + i \<le> t \<and> t \<le> stop \<and> i dvd (t - (a + i))} = {}"
        using False le "1.prems" by (auto simp: in_i64_def)
      show ?thesis unfolding step split none by simp
    qed
  qed
qed

lemma first_instant_exact:
  assumes "0 < i" "in_i64 i" "0 \<le> start" "start < 2 ^ 62"
  shows "i dvd first_instant i start \<and> start \<le> first_instant i start \<and> first_instant i start < start + i"
proof -
  have low: "0 \<le> start div i * i" "start div i * i \<le> start"
    using assms div_mult_mod_eq [of start i] pos_mod_sign [of i start]
    by (simp add: pos_imp_zdiv_nonneg_iff, linarith)
  have high: "start < start div i * i + i"
    using assms(1) pos_mod_bound [of i start] div_mult_mod_eq [of start i] by linarith
  have "start div i * i + i \<le> i64_max"
  proof (cases "start < i")
    case True
    then have "start div i = 0" using assms by (simp add: div_pos_pos_trivial)
    then show ?thesis using assms(2) by (simp add: in_i64_def)
  next
    case False
    then show ?thesis using low assms(4) by (simp add: i64_max_def)
  qed
  then have w: "wrap_i64 (start div i * i) = start div i * i" "i64_add (start div i * i) i = start div i * i + i"
    using low assms by (auto simp: i64_add_def in_i64_def i64_min_def intro!: wrap_i64_id)
  show ?thesis
  proof (cases "start div i * i < start")
    case True
    then show ?thesis using high low assms(1) by (simp add: first_instant_def Let_def w)
  next
    case False
    then have "start div i * i = start" using low by simp
    moreover have "i dvd start div i * i" by simp
    ultimately show ?thesis using assms(1) w(1) by (simp add: first_instant_def Let_def)
  qed
qed

text \<open>The number of multiples of the cadence in an interval.\<close>

lemma le_div_iff_multiple:
  fixes i e k :: int
  assumes "0 < i"
  shows "k \<le> e div i \<longleftrightarrow> k * i \<le> e"
proof
  assume "k \<le> e div i"
  then have "k * i \<le> e div i * i" using assms by (simp add: mult_right_mono)
  also have "\<dots> \<le> e" using assms div_mult_mod_eq [of e i] pos_mod_sign [of i e] by linarith
  finally show "k * i \<le> e" .
next
  assume "k * i \<le> e"
  then have "k * i div i \<le> e div i" using assms by (rule zdiv_mono1)
  then show "k \<le> e div i" using assms by simp
qed

lemma ceil_div_le_iff:
  fixes i s k :: int
  assumes "0 < i"
  shows "(s + i - 1) div i \<le> k \<longleftrightarrow> s \<le> k * i"
proof -
  have "(s + i - 1) div i \<le> k \<longleftrightarrow> \<not> k + 1 \<le> (s + i - 1) div i" by linarith
  also have "\<dots> \<longleftrightarrow> \<not> (k + 1) * i \<le> s + i - 1" using le_div_iff_multiple [OF assms] by simp
  also have "\<dots> \<longleftrightarrow> s \<le> k * i" by (simp add: algebra_simps) linarith
  finally show ?thesis .
qed

lemma card_multiples:
  fixes i s e :: int
  assumes "0 < i" "s \<le> e"
  shows "\<bar>int (card {t. s \<le> t \<and> t \<le> e \<and> i dvd t}) * i - (e - s)\<bar> \<le> i"
proof -
  let ?c = "(s + i - 1) div i" and ?f = "e div i"
  have "{t. s \<le> t \<and> t \<le> e \<and> i dvd t} = (\<lambda>k. k * i) ` {?c..?f}"
    using assms(1) by (auto simp: ceil_div_le_iff le_div_iff_multiple image_iff dvd_def mult.commute)
  moreover have "inj_on (\<lambda>k. k * i) {?c..?f}" using assms(1) by (simp add: inj_on_def)
  ultimately have card: "card {t. s \<le> t \<and> t \<le> e \<and> i dvd t} = nat (?f - ?c + 1)"
    by (simp add: card_image)
  have c: "s \<le> ?c * i" "?c * i < s + i"
    using ceil_div_le_iff [OF assms(1), of s ?c] ceil_div_le_iff [OF assms(1), of s "?c - 1"] by (simp_all add: algebra_simps)
  have f: "?f * i \<le> e" "e < ?f * i + i"
    using le_div_iff_multiple [OF assms(1), of ?f e] le_div_iff_multiple [OF assms(1), of "?f + 1" e] by (simp_all add: algebra_simps)
  show ?thesis
  proof (cases "?c \<le> ?f + 1")
    case True
    have "(?f - ?c + 1) * i = ?f * i - ?c * i + i" by (simp add: algebra_simps)
    then show ?thesis using True c f unfolding card by (simp add: abs_le_iff) 
  next
    case False
    then have "?f + 2 \<le> ?c" by simp
    then have "(?f + 2) * i \<le> ?c * i" using assms(1) by (simp add: mult_right_mono)
    then have "?f * i + 2 * i \<le> ?c * i" by (simp add: algebra_simps)
    then show ?thesis using c f assms by linarith
  qed
qed

section \<open>The samples\<close>

definition sampleable :: "int \<Rightarrow> pipeline_row list \<Rightarrow> bool" where
  "sampleable interval_ns app_rows \<longleftrightarrow>
     0 < interval_ns \<and> in_i64 interval_ns
     \<and> (\<forall>r \<in> set app_rows. \<forall>start stop. row_start r = Some start \<longrightarrow> row_stop r = Some stop
          \<longrightarrow> 0 \<le> start \<and> start < 2 ^ 62 \<and> in_i64 stop)"

lemma row_samples_exact:
  assumes "0 < i" "in_i64 i" "\<forall>start stop. row_start r = Some start \<longrightarrow> row_stop r = Some stop
      \<longrightarrow> 0 \<le> start \<and> start < 2 ^ 62 \<and> in_i64 stop"
  shows "distinct (row_samples i (k, r))"
    "set (row_samples i (k, r)) = {\<lparr>ps_row_index = k, ps_instant_ns = t\<rparr> |t.
       \<exists>start stop. row_start r = Some start \<and> row_stop r = Some stop \<and> start \<le> t \<and> t \<le> stop \<and> i dvd t}"
proof -
  have "distinct (row_samples i (k, r)) \<and> set (row_samples i (k, r)) = {\<lparr>ps_row_index = k, ps_instant_ns = t\<rparr> |t.
       \<exists>start stop. row_start r = Some start \<and> row_stop r = Some stop \<and> start \<le> t \<and> t \<le> stop \<and> i dvd t}"
  proof (cases "row_start r = None \<or> row_stop r = None")
    case True
    then show ?thesis by (auto simp: row_samples_def split: option.split)
  next
    case False
    then obtain start stop where r: "row_start r = Some start" "row_stop r = Some stop" by auto
    have range: "0 \<le> start" "start < 2 ^ 62" "in_i64 stop" using assms(3) r by blast+
    show ?thesis
    proof (cases "stop < start")
      case True
      with r show ?thesis by (auto simp: row_samples_def)
    next
      case False
      let ?a = "first_instant i start"
      have a: "i dvd ?a" "start \<le> ?a" "?a < start + i" using first_instant_exact [OF assms(1,2) range(1,2)] by blast+
      have "in_i64 ?a \<or> stop < ?a" using a range(1,3) by (auto simp: in_i64_def i64_min_def)
      then have grid: "sorted_wrt (<) (grid_from i stop ?a)"
          "set (grid_from i stop ?a) = {t. ?a \<le> t \<and> t \<le> stop \<and> i dvd (t - ?a)}"
        using grid_from_exact [OF assms(1) range(3), of ?a] by (auto simp: grid_from.simps [of i stop ?a])
      have "?a \<le> t \<and> i dvd (t - ?a) \<longleftrightarrow> start \<le> t \<and> i dvd t" for t
      proof -
        have "i dvd (t - ?a) \<longleftrightarrow> i dvd t" using a(1) by (simp add: dvd_diff_left_iff)
        moreover have "?a \<le> t" if "start \<le> t" "i dvd t"
        proof (rule ccontr)
          assume "\<not> ?a \<le> t"
          then have "0 < ?a - t" "?a - t < i" using that(1) a(3) by simp_all
          moreover have "i dvd ?a - t" using a(1) that(2) by simp
          ultimately show False using zdvd_imp_le by fastforce
        qed
        ultimately show ?thesis using a(2) by auto
      qed
      then have "set (grid_from i stop ?a) = {t. start \<le> t \<and> t \<le> stop \<and> i dvd t}" unfolding grid(2) by blast
      moreover have "distinct (grid_from i stop ?a)" using grid(1) by (simp add: strict_sorted_iff)
      ultimately show ?thesis using r False by (auto simp: row_samples_def distinct_map inj_on_def image_iff)
    qed
  qed
  then show "distinct (row_samples i (k, r))"
    "set (row_samples i (k, r)) = {\<lparr>ps_row_index = k, ps_instant_ns = t\<rparr> |t.
       \<exists>start stop. row_start r = Some start \<and> row_stop r = Some stop \<and> start \<le> t \<and> t \<le> stop \<and> i dvd t}"
    by blast+
qed

lemma row_samples_index:
  "s \<in> set (row_samples i (k, r)) \<Longrightarrow> ps_row_index s = k"
  by (auto simp: row_samples_def split: option.splits if_splits)

lemma samples_exact:
  assumes "sampleable i app_rows"
  shows "distinct (sample_polled_timeline app_rows i)"
    "set (sample_polled_timeline app_rows i) = {\<lparr>ps_row_index = k, ps_instant_ns = t\<rparr> |k t.
       k < length app_rows \<and> (\<exists>start stop. row_start (app_rows ! k) = Some start \<and> row_stop (app_rows ! k) = Some stop
         \<and> start \<le> t \<and> t \<le> stop) \<and> i dvd t}"
proof -
  let ?rows = "List.enumerate 0 app_rows"
  have one: "distinct (row_samples i (k, r))"
      "set (row_samples i (k, r)) = {\<lparr>ps_row_index = k, ps_instant_ns = t\<rparr> |t.
       \<exists>start stop. row_start r = Some start \<and> row_stop r = Some stop \<and> start \<le> t \<and> t \<le> stop \<and> i dvd t}"
    if "(k, r) \<in> set ?rows" for k r
  proof -
    have "r \<in> set app_rows" using that by (auto simp: in_set_enumerate_eq)
    with assms row_samples_exact [of i r k]
    show "distinct (row_samples i (k, r))"
      "set (row_samples i (k, r)) = {\<lparr>ps_row_index = k, ps_instant_ns = t\<rparr> |t.
       \<exists>start stop. row_start r = Some start \<and> row_stop r = Some stop \<and> start \<le> t \<and> t \<le> stop \<and> i dvd t}"
      by (auto simp: sampleable_def)
  qed
  have "distinct (concat (map (row_samples i) xs))" if "set xs \<subseteq> set ?rows" "distinct (map fst xs)" for xs
    using that
  proof (induction xs)
    case (Cons x xs)
    obtain k r where x: "x = (k, r)" by (cases x)
    have "ps_row_index s = k" if "s \<in> set (row_samples i (k, r))" for s
      using that by (rule row_samples_index)
    moreover have "ps_row_index s \<noteq> k" if "s \<in> set (concat (map (row_samples i) xs))" for s
    proof -
      from that obtain z where z: "z \<in> set xs" "s \<in> set (row_samples i z)"
        unfolding set_concat set_map by blast
      obtain l q where "z = (l, q)" by (cases z)
      with z have lq: "(l, q) \<in> set xs" "s \<in> set (row_samples i (l, q))" by simp_all
      from lq(2) have "ps_row_index s = l" by (rule row_samples_index)
      moreover have "l \<noteq> k" using lq(1) Cons.prems(2) x by force
      ultimately show ?thesis by simp
    qed
    ultimately show ?case using Cons one(1) [of k r] x by auto
  qed simp
  then have "distinct (concat (map (row_samples i) ?rows))" by simp
  moreover have "set (concat (map (row_samples i) ?rows)) = {\<lparr>ps_row_index = k, ps_instant_ns = t\<rparr> |k t.
       k < length app_rows \<and> (\<exists>start stop. row_start (app_rows ! k) = Some start \<and> row_stop (app_rows ! k) = Some stop
         \<and> start \<le> t \<and> t \<le> stop) \<and> i dvd t}"
    (is "_ = ?R")
  proof (intro set_eqI iffI)
    fix s assume "s \<in> set (concat (map (row_samples i) ?rows))"
    then obtain z where z: "z \<in> set ?rows" "s \<in> set (row_samples i z)" unfolding set_concat set_map by blast
    obtain k r where "z = (k, r)" by (cases z)
    with z one(2) [of k r] show "s \<in> ?R" by (auto simp: in_set_enumerate_eq)
  next
    fix s assume "s \<in> ?R"
    then obtain k t where k: "k < length app_rows" and s: "s = \<lparr>ps_row_index = k, ps_instant_ns = t\<rparr>" "i dvd t"
        "\<exists>start stop. row_start (app_rows ! k) = Some start \<and> row_stop (app_rows ! k) = Some stop \<and> start \<le> t \<and> t \<le> stop"
      by blast
    from k have in_rows: "(k, app_rows ! k) \<in> set ?rows" by (simp add: in_set_enumerate_eq)
    with s one(2) [OF in_rows] have "s \<in> set (row_samples i (k, app_rows ! k))" by blast
    with in_rows show "s \<in> set (concat (map (row_samples i) ?rows))" unfolding set_concat set_map by blast
  qed
  moreover have "0 < i" using assms by (simp add: sampleable_def)
  ultimately show "distinct (sample_polled_timeline app_rows i)"
    "set (sample_polled_timeline app_rows i) = {\<lparr>ps_row_index = k, ps_instant_ns = t\<rparr> |k t.
       k < length app_rows \<and> (\<exists>start stop. row_start (app_rows ! k) = Some start \<and> row_stop (app_rows ! k) = Some stop
         \<and> start \<le> t \<and> t \<le> stop) \<and> i dvd t}"
    by (simp_all add: sample_polled_timeline_def)
qed

section \<open>The runs\<close>

definition joined_samples :: "pipeline_row list \<Rightarrow> int \<Rightarrow> polled_sample \<Rightarrow> polled_sample \<Rightarrow> bool" where
  "joined_samples app_rows break_at_ns s t \<longleftrightarrow>
     sample_identity app_rows (ps_row_index s) = sample_identity app_rows (ps_row_index t)
     \<and> i64_saturating_sub (ps_instant_ns t) (ps_instant_ns s) < break_at_ns"

definition run_of :: "polled_sample list \<Rightarrow> polled_run" where
  "run_of grp =
     \<lparr>pr_row_index = ps_row_index (hd grp), pr_first_instant_ns = ps_instant_ns (hd grp),
      pr_last_instant_ns = ps_instant_ns (last grp), pr_sample_count = length grp, pr_forced_terminal = False\<rparr>"

definition chain_of_runs :: "pipeline_row list \<Rightarrow> int \<Rightarrow> polled_sample list list \<Rightarrow> bool" where
  "chain_of_runs app_rows b groups \<longleftrightarrow>
     (\<forall>g \<in> set groups. g \<noteq> [] \<and> successively (joined_samples app_rows b) g)
     \<and> successively (\<lambda>g h. \<not> joined_samples app_rows b (last g) (hd h)) groups"

lemma chain_identity:
  assumes "successively (joined_samples app_rows b) g" "g \<noteq> []"
  shows "sample_identity app_rows (ps_row_index (last g)) = sample_identity app_rows (ps_row_index (hd g))"
  using assms
proof (induction g rule: rev_induct)
  case (snoc s g)
  then show ?case by (cases "g = []") (auto simp: successively_append_iff joined_samples_def)
qed simp

lemma run_step_cases:
  "run_step app_rows b s (runs, None) = (runs, Some (run_of [s]))"
  "continues_run app_rows b run s \<Longrightarrow> run_step app_rows b s (runs, Some run)
    = (runs, Some (run\<lparr>pr_last_instant_ns := ps_instant_ns s, pr_sample_count := pr_sample_count run + 1\<rparr>))"
  "\<not> continues_run app_rows b run s \<Longrightarrow> run_step app_rows b s (runs, Some run) = (runs @ [run], Some (run_of [s]))"
  by (simp_all add: run_step_def run_of_def)

lemma run_groups:
  "\<exists>groups. concat groups = samples \<and> chain_of_runs app_rows b groups
    \<and> fold (run_step app_rows b) samples ([], None)
      = (if groups = [] then ([], None) else (map run_of (butlast groups), Some (run_of (last groups))))"
proof (induction samples rule: rev_induct)
  case Nil
  show ?case by (rule exI [of _ "[]"]) (simp add: chain_of_runs_def)
next
  case (snoc s samples)
  then obtain groups where g: "concat groups = samples" "chain_of_runs app_rows b groups"
      "fold (run_step app_rows b) samples ([], None)
        = (if groups = [] then ([], None) else (map run_of (butlast groups), Some (run_of (last groups))))" by blast
  show ?case
  proof (cases groups rule: rev_cases)
    case Nil
    with g have "concat [[s]] = samples @ [s]" "fold (run_step app_rows b) (samples @ [s]) ([], None) = ([], Some (run_of [s]))"
      by (auto simp: run_step_cases)
    then show ?thesis by (intro exI [of _ "[[s]]"]) (simp add: chain_of_runs_def)
  next
    case (snoc before grp)
    have ne: "grp \<noteq> []" and ok: "successively (joined_samples app_rows b) grp"
      using g(2) snoc by (auto simp: chain_of_runs_def)
    have cont: "continues_run app_rows b (run_of grp) s \<longleftrightarrow> joined_samples app_rows b (last grp) s"
      using chain_identity [OF ok ne] by (simp add: continues_run_def joined_samples_def run_of_def)
    have now: "fold (run_step app_rows b) (samples @ [s]) ([], None) = run_step app_rows b s (map run_of before, Some (run_of grp))"
      using g(3) snoc by simp
    show ?thesis
    proof (cases "joined_samples app_rows b (last grp) s")
      case True
      let ?groups = "before @ [grp @ [s]]"
      have "chain_of_runs app_rows b ?groups"
        using g(2) ne True unfolding snoc chain_of_runs_def by (auto simp: successively_append_iff)
      moreover have "fold (run_step app_rows b) (samples @ [s]) ([], None) = (map run_of before, Some (run_of (grp @ [s])))"
        unfolding now using ne True cont by (subst run_step_cases(2)) (simp_all add: run_of_def)
      moreover have "concat ?groups = samples @ [s]" using g(1) snoc by simp
      ultimately show ?thesis by (intro exI [of _ ?groups]) (simp del: fold_append)
    next
      case False
      let ?groups = "before @ [grp, [s]]"
      have "chain_of_runs app_rows b ?groups"
        using g(2) ne False unfolding snoc chain_of_runs_def by (auto simp: successively_append_iff)
      moreover have "fold (run_step app_rows b) (samples @ [s]) ([], None) = (map run_of (before @ [grp]), Some (run_of [s]))"
        unfolding now using False cont by (subst run_step_cases(3)) simp_all
      moreover have "concat ?groups = samples @ [s]" using g(1) snoc by simp
      ultimately show ?thesis by (intro exI [of _ ?groups]) (simp add: butlast_append del: fold_append)
    qed
  qed
qed

section \<open>Half-open seconds\<close>

definition whole_seconds :: "pipeline_row \<Rightarrow> nat" where
  "whole_seconds r =
     (case (row_start r, row_stop r) of
        (Some start, Some stop) \<Rightarrow> if start < stop then nat ((stop - start) div second_ns) else 0
      | _ \<Rightarrow> 0)"

definition seconds_of :: "'tz chrono \<Rightarrow> pipeline_row \<Rightarrow> pipeline_row list" where
  "seconds_of chrono r =
     map (\<lambda>k. second_row chrono r (the (row_start r) + int k * second_ns) (the (row_start r) + int (k + 1) * second_ns))
       [0..<whole_seconds r]"

definition i64_interval :: "pipeline_row \<Rightarrow> bool" where
  "i64_interval r \<longleftrightarrow> (\<forall>t. row_start r = Some t \<longrightarrow> in_i64 t) \<and> (\<forall>t. row_stop r = Some t \<longrightarrow> in_i64 t)"

lemma expand_seconds_exact:
  assumes "in_i64 start" "0 < n" "start + int n * second_ns \<le> i64_max" "int n * second_ns \<le> i64_max" "set offsets \<subseteq> {0..<n}"
  shows "expand_seconds chrono r start offsets
    = Inr (map (\<lambda>k. second_row chrono r (start + int k * second_ns) (start + int (k + 1) * second_ns)) offsets)"
  using assms(5)
proof (induction offsets)
  case (Cons k offsets)
  have k: "int k + 1 \<le> int n" using Cons.prems by auto
  then have "(int k + 1) * second_ns \<le> int n * second_ns" by (intro mult_right_mono) (simp_all add: second_ns_def)
  then have room: "int k * second_ns + second_ns \<le> int n * second_ns" by (simp add: algebra_simps)
  have low: "0 \<le> int k * second_ns" "0 < second_ns" by (simp_all add: second_ns_def)
  have "clamp_i64 (int k * second_ns) = int k * second_ns"
  proof (rule clamp_i64_id)
    have "i64_min \<le> 0" by (simp add: i64_min_def)
    then show "in_i64 (int k * second_ns)" unfolding in_i64_def using room low assms(4) by linarith
  qed
  moreover have "in_i64 (start + int k * second_ns)" "in_i64 (start + int k * second_ns + second_ns)"
    using room low assms(1,3) unfolding in_i64_def by linarith+
  ultimately show ?case using Cons by (simp add: i64_checked_add_def algebra_simps)
qed simp

lemma expansion_total_exact:
  "expansion_total usize_max rs acc = Inr n \<Longrightarrow> n = acc + sum_list (map whole_seconds rs)
    \<and> (\<forall>r \<in> set rs. \<forall>start stop. row_start r = Some start \<longrightarrow> row_stop r = Some stop \<longrightarrow> start < stop
         \<longrightarrow> in_i64 (stop - start))"
proof (induction rs arbitrary: acc)
  case (Cons r rs)
  obtain seconds where s: "expansion_seconds usize_max r = Inr seconds" "\<not> usize_max < acc + seconds"
      "expansion_total usize_max rs (acc + seconds) = Inr n"
    using Cons.prems by (auto split: sum.splits if_splits)
  have "seconds = whole_seconds r \<and> (\<forall>start stop. row_start r = Some start \<longrightarrow> row_stop r = Some stop \<longrightarrow> start < stop
      \<longrightarrow> in_i64 (stop - start))"
    using s(1) by (auto simp: expansion_seconds_def whole_seconds_def i64_checked_sub_def second_ns_def trunc_div_def
      split: option.splits if_splits)
  with Cons.IH [OF s(3)] show ?case by auto
qed simp

lemma expand_rows_exact:
  assumes "\<forall>r \<in> set rs. i64_interval r \<and> (\<forall>start stop. row_start r = Some start \<longrightarrow> row_stop r = Some stop \<longrightarrow> start < stop
      \<longrightarrow> in_i64 (stop - start))"
  shows "expand_rows chrono rs = Inr (concat (map (seconds_of chrono) rs))"
  using assms
proof (induction rs)
  case (Cons r rs)
  have rest: "expand_rows chrono rs = Inr (concat (map (seconds_of chrono) rs))" using Cons by simp
  show ?case
  proof (cases "row_start r = None \<or> row_stop r = None")
    case True
    then have "seconds_of chrono r = []" by (auto simp: seconds_of_def whole_seconds_def split: option.split)
    then show ?thesis using True rest by (auto split: option.split)
  next
    case False
    then obtain start stop where r: "row_start r = Some start" "row_stop r = Some stop" by auto
    have range: "in_i64 start" "in_i64 stop" using Cons.prems r by (auto simp: i64_interval_def)
    show ?thesis
    proof (cases "start < stop")
      case False
      have "i64_saturating_sub stop start \<le> 0"
        using False by (simp add: i64_saturating_sub_def clamp_i64_def i64_min_def i64_max_def)
      then have "trunc_div (i64_saturating_sub stop start) second_ns \<le> 0"
        by (auto simp: trunc_div_def second_ns_def sgn_if pos_imp_zdiv_nonneg_iff)
      moreover have "seconds_of chrono r = []" using r False by (simp add: seconds_of_def whole_seconds_def)
      ultimately show ?thesis using r rest by simp
    next
      case True
      have fits: "in_i64 (stop - start)" using Cons.prems r True by auto
      then have "i64_saturating_sub stop start = stop - start"
        by (simp add: i64_saturating_sub_def clamp_i64_def in_i64_def)
      then have whole: "trunc_div (i64_saturating_sub stop start) second_ns = (stop - start) div second_ns"
        using True by (simp add: trunc_div_def second_ns_def)
      let ?n = "whole_seconds r"
      have n: "int ?n = (stop - start) div second_ns"
        using True r by (simp add: whole_seconds_def second_ns_def pos_imp_zdiv_nonneg_iff)
      have "int ?n * second_ns \<le> stop - start"
        unfolding n using le_div_iff_multiple [of second_ns "(stop - start) div second_ns" "stop - start"]
        by (simp add: second_ns_def)
      then have bounds: "start + int ?n * second_ns \<le> i64_max" "int ?n * second_ns \<le> i64_max"
        using range(2) fits by (simp_all add: in_i64_def)
      show ?thesis
      proof (cases "?n = 0")
        case True
        then have "seconds_of chrono r = []" "(stop - start) div second_ns = 0" using n by (simp_all add: seconds_of_def)
        then show ?thesis using r rest whole by simp
      next
        case False
        then have "expand_seconds chrono r start [0..<?n] = Inr (seconds_of chrono r)"
          using expand_seconds_exact [OF range(1) _ bounds, of "[0..<?n]" chrono r] r by (simp add: seconds_of_def)
        moreover have "0 < (stop - start) div second_ns" "nat ((stop - start) div second_ns) = ?n"
          using False n by linarith+
        ultimately show ?thesis using r rest whole by simp
      qed
    qed
  qed
qed simp

lemma seconds_of_length: "length (concat (map (seconds_of chrono) rs)) = sum_list (map whole_seconds rs)"
  by (induction rs) (simp_all add: seconds_of_def)

section \<open>Properties\<close>

definition at_sample :: "nat \<Rightarrow> int \<Rightarrow> polled_sample" where
  "at_sample k t = \<lparr>ps_row_index = k, ps_instant_ns = t\<rparr>"

lemma samples_of_row:
  assumes "sampleable i app_rows" "k < length app_rows"
    "row_start (app_rows ! k) = Some start" "row_stop (app_rows ! k) = Some stop" "start \<le> stop"
  shows "length (filter (\<lambda>s. ps_row_index s = k) (sample_polled_timeline app_rows i))
    = card {t. start \<le> t \<and> t \<le> stop \<and> i dvd t}"
proof -
  let ?S = "filter (\<lambda>s. ps_row_index s = k) (sample_polled_timeline app_rows i)"
  have "set ?S = at_sample k ` {t. start \<le> t \<and> t \<le> stop \<and> i dvd t}"
    using assms(2-4) by (auto simp: samples_exact(2) [OF assms(1)] at_sample_def)
  moreover have "inj_on (at_sample k) A" for A by (simp add: inj_on_def at_sample_def)
  ultimately have "card (set ?S) = card {t. start \<le> t \<and> t \<le> stop \<and> i dvd t}" by (simp add: card_image)
  moreover have "distinct ?S" using samples_exact(1) [OF assms(1)] by simp
  ultimately show ?thesis using distinct_card [of ?S] by simp
qed

text \<open>C28: the sampled timeline is sorted by instant and repeats nothing; the samples of an episode are
  exactly the multiples of the cadence inside it, both ends included, whatever the episode's own phase; and
  their number times the cadence is the episode's length up to one cadence.\<close>

theorem polled_samples_are_grid:
  assumes "sampleable interval_ns app_rows"
  shows "sorted (map ps_instant_ns (sample_polled_timeline app_rows interval_ns))
    \<and> distinct (sample_polled_timeline app_rows interval_ns)
    \<and> (\<forall>k t. at_sample k t \<in> set (sample_polled_timeline app_rows interval_ns)
         \<longleftrightarrow> k < length app_rows \<and> interval_ns dvd t
             \<and> (\<exists>start stop. row_start (app_rows ! k) = Some start \<and> row_stop (app_rows ! k) = Some stop
                  \<and> start \<le> t \<and> t \<le> stop))
    \<and> (\<forall>k < length app_rows. \<forall>start stop.
         row_start (app_rows ! k) = Some start \<longrightarrow> row_stop (app_rows ! k) = Some stop \<longrightarrow> start \<le> stop
         \<longrightarrow> \<bar>int (length (filter (\<lambda>s. ps_row_index s = k) (sample_polled_timeline app_rows interval_ns)))
                * interval_ns - (stop - start)\<bar> \<le> interval_ns)"
proof (intro conjI allI impI)
  have i: "0 < interval_ns" using assms by (simp add: sampleable_def)
  show "sorted (map ps_instant_ns (sample_polled_timeline app_rows interval_ns))"
    using i by (simp add: sample_polled_timeline_def)
  show "distinct (sample_polled_timeline app_rows interval_ns)" by (rule samples_exact(1) [OF assms])
  show "at_sample k t \<in> set (sample_polled_timeline app_rows interval_ns)
      \<longleftrightarrow> k < length app_rows \<and> interval_ns dvd t
          \<and> (\<exists>start stop. row_start (app_rows ! k) = Some start \<and> row_stop (app_rows ! k) = Some stop
               \<and> start \<le> t \<and> t \<le> stop)" for k t
    unfolding samples_exact(2) [OF assms] by (auto simp: at_sample_def)
  show "\<bar>int (length (filter (\<lambda>s. ps_row_index s = k) (sample_polled_timeline app_rows interval_ns)))
      * interval_ns - (stop - start)\<bar> \<le> interval_ns"
    if "k < length app_rows" "row_start (app_rows ! k) = Some start" "row_stop (app_rows ! k) = Some stop" "start \<le> stop"
    for k start stop
    unfolding samples_of_row [OF assms that] by (rule card_multiples [OF i that(4)])
qed

definition sample_usage :: "string \<Rightarrow> int \<Rightarrow> int \<Rightarrow> pipeline_row" where
  "sample_usage participant start stop =
     (event_row participant ''App Usage'' ''a'' start 1)
       \<lparr>row_timing := empty_timing\<lparr>et_start := Some start, et_stop := Some stop\<rparr>\<rparr>"

lemma sample_usage_simps [simp]:
  "row_start (sample_usage p a b) = Some a" "row_stop (sample_usage p a b) = Some b"
  "row_participant_id (sample_usage p a b) = p" "row_app_package_name (sample_usage p a b) = ''a''"
  by (simp_all add: sample_usage_def event_row_def)

text \<open>An episode from 7 to 25 sampled every 10: the samples stand at 10 and 20.\<close>

theorem polled_samples_are_grid_witness:
  "at_sample 0 20 \<in> set (sample_polled_timeline [sample_usage ''P'' 7 25] 10)
    \<and> \<bar>int (length (filter (\<lambda>s. ps_row_index s = 0) (sample_polled_timeline [sample_usage ''P'' 7 25] 10))) * 10 - 18\<bar> \<le> 10"
proof -
  have ok: "sampleable 10 [sample_usage ''P'' 7 25]"
    by (simp add: sampleable_def in_i64_def i64_min_def i64_max_def)
  note P = polled_samples_are_grid [OF ok]
  have "at_sample 0 20 \<in> set (sample_polled_timeline [sample_usage ''P'' 7 25] 10)"
    using P by simp
  moreover have "\<bar>int (length (filter (\<lambda>s. ps_row_index s = 0) (sample_polled_timeline [sample_usage ''P'' 7 25] 10))) * 10
      - (25 - 7)\<bar> \<le> 10"
    using P [THEN conjunct2, THEN conjunct2, THEN conjunct2, rule_format, of 0 7 25] by simp
  ultimately show ?thesis by simp
qed

text \<open>C29: for every list of samples the runs are the maximal chains: the samples are cut, in their order,
  into non-empty groups, inside a group every sample has the participant and app of the one before it and
  comes less than the breaking gap after it, from the end of a group to the start of the next this fails,
  and the runs report exactly the groups (first and last instant, number of samples), the last one forced
  closed under the gap rule only.\<close>

theorem polled_runs_maximal:
  "\<exists>groups. concat groups = samples \<and> chain_of_runs app_rows (break_at m interval_ns gap_ns) groups
    \<and> group_polled_runs app_rows samples m interval_ns gap_ns
      = (if groups = [] then []
         else map run_of (butlast groups) @ [(run_of (last groups))\<lparr>pr_forced_terminal := uses_gap_threshold m\<rparr>])"
proof -
  obtain groups where g: "concat groups = samples" "chain_of_runs app_rows (break_at m interval_ns gap_ns) groups"
      "fold (run_step app_rows (break_at m interval_ns gap_ns)) samples ([], None)
        = (if groups = [] then ([], None) else (map run_of (butlast groups), Some (run_of (last groups))))"
    using run_groups by blast
  then have "group_polled_runs app_rows samples m interval_ns gap_ns
      = (if groups = [] then []
         else map run_of (butlast groups) @ [(run_of (last groups))\<lparr>pr_forced_terminal := uses_gap_threshold m\<rparr>])"
    by (simp add: group_polled_runs_def)
  with g(1,2) show ?thesis by blast
qed

lemma at_sample_instant [simp]: "ps_instant_ns (at_sample k t) = t" "ps_row_index (at_sample k t) = k"
  by (simp_all add: at_sample_def)

text \<open>Two people using the same app over the same twenty seconds.\<close>

abbreviation ten_seconds :: int where "ten_seconds \<equiv> 10000000000"

lemma sampled_usage:
  "row_samples ten_seconds (k, sample_usage p 0 (2 * ten_seconds))
    = [at_sample k 0, at_sample k ten_seconds, at_sample k (2 * ten_seconds)]"
proof -
  have "grid_from ten_seconds (2 * ten_seconds) 0 = [0, ten_seconds, 2 * ten_seconds]"
    by (subst grid_from.simps, subst grid_from.simps, subst grid_from.simps, subst grid_from.simps)
      (simp add: in_i64_def i64_min_def i64_max_def)
  moreover have "first_instant ten_seconds 0 = 0" by (simp add: first_instant_def wrap_i64_def)
  ultimately show ?thesis by (simp add: row_samples_def at_sample_def)
qed

text \<open>The merged timeline lets participants break each other's runs. Under the gap rule with a ten second
  cadence and a fifteen second gap, one person's usage from 0 to 20 seconds is one run of three samples over
  twenty seconds, but beside a second person's usage of the same app at the same time it becomes three runs
  of one sample and length zero, and so does the other's.\<close>

lemma polled_interleaving_breaks_runs:
  "let spans = (\<lambda>app_rows. map (\<lambda>r. (pr_row_index r, pr_last_instant_ns r - pr_first_instant_ns r, pr_sample_count r))
         (group_polled_runs app_rows (sample_polled_timeline app_rows ten_seconds) Ross2025SampledGapV1
            ten_seconds (15000000000)))
   in spans [sample_usage ''P'' 0 (2 * ten_seconds)] = [(0, 2 * ten_seconds, 3)]
      \<and> spans [sample_usage ''Q'' 0 (2 * ten_seconds)] = [(0, 2 * ten_seconds, 3)]
      \<and> spans [sample_usage ''P'' 0 (2 * ten_seconds), sample_usage ''Q'' 0 (2 * ten_seconds)]
        = [(0, 0, 1), (1, 0, 1), (0, 0, 1), (1, 0, 1), (0, 0, 1), (1, 0, 1)]"
proof -
  have one: "sample_polled_timeline [sample_usage p 0 (2 * ten_seconds)] ten_seconds
      = [at_sample 0 0, at_sample 0 ten_seconds, at_sample 0 (2 * ten_seconds)]" for p
    by (simp add: sample_polled_timeline_def sampled_usage [simplified])
  have two: "sample_polled_timeline [sample_usage p 0 (2 * ten_seconds), sample_usage q 0 (2 * ten_seconds)] ten_seconds
      = [at_sample 0 0, at_sample 1 0, at_sample 0 ten_seconds, at_sample 1 ten_seconds,
         at_sample 0 (2 * ten_seconds), at_sample 1 (2 * ten_seconds)]" for p q
    by (simp add: sample_polled_timeline_def sampled_usage [simplified])
  note eval = run_step_cases continues_run_def run_of_def sample_identity_def i64_saturating_sub_def
    clamp_i64_def i64_min_def i64_max_def
  have runs: "group_polled_runs app_rows samples Ross2025SampledGapV1 ten_seconds 15000000000
      = (case fold (run_step app_rows 15000000000) samples ([], None) of
           (runs, None) \<Rightarrow> runs | (runs, Some run) \<Rightarrow> runs @ [run\<lparr>pr_forced_terminal := True\<rparr>])" for app_rows samples
    by (simp add: group_polled_runs_def break_at_def uses_gap_threshold_def split: prod.split option.split)
  have alone: "fold (run_step [sample_usage p 0 (2 * ten_seconds)] 15000000000)
      [at_sample 0 0, at_sample 0 ten_seconds, at_sample 0 (2 * ten_seconds)] ([], None)
    = ([], Some \<lparr>pr_row_index = 0, pr_first_instant_ns = 0, pr_last_instant_ns = 2 * ten_seconds, pr_sample_count = 3,
               pr_forced_terminal = False\<rparr>)" for p
    by (simp add: eval)
  let ?zero = "\<lambda>k t. \<lparr>pr_row_index = k, pr_first_instant_ns = t, pr_last_instant_ns = t, pr_sample_count = 1,
      pr_forced_terminal = False\<rparr>"
  have both: "fold (run_step [sample_usage ''P'' 0 (2 * ten_seconds), sample_usage ''Q'' 0 (2 * ten_seconds)] 15000000000)
      [at_sample 0 0, at_sample 1 0, at_sample 0 ten_seconds, at_sample 1 ten_seconds,
       at_sample 0 (2 * ten_seconds), at_sample 1 (2 * ten_seconds)] ([], None)
    = ([?zero 0 0, ?zero 1 0, ?zero 0 ten_seconds, ?zero 1 ten_seconds, ?zero 0 (2 * ten_seconds)],
       Some (?zero 1 (2 * ten_seconds)))"
    by (simp add: eval)
  show ?thesis unfolding Let_def one two runs alone both by simp
qed

text \<open>When the expansion is accepted (no interval overflows, the rows fit \<open>u32\<close> and memory), every
  episode becomes the consecutive one-second rows from its start, as many as whole seconds fit before its
  stop, in order and without a gap, the addition of the offsets never overflowing; the number of rows is the
  number that was reserved.\<close>

lemma half_open_seconds_tile:
  assumes "\<forall>r \<in> set app_rows. i64_interval r"
    and "expansion_total usize_max app_rows 0 = Inr n" "n \<le> u32_max" "allocates n"
  shows "materialize_behapp_half_open_seconds usize_max allocates chrono app_rows
      = Inr (concat (map (seconds_of chrono) app_rows))
    \<and> length (concat (map (seconds_of chrono) app_rows)) = n"
proof -
  note accepted = expansion_total_exact [OF assms(2)]
  have "expand_rows chrono app_rows = Inr (concat (map (seconds_of chrono) app_rows))"
    using assms(1) accepted by (intro expand_rows_exact) blast
  moreover have "length (concat (map (seconds_of chrono) app_rows)) = n"
    unfolding seconds_of_length using accepted by simp
  ultimately show ?thesis using assms(2-4) by (simp add: materialize_behapp_half_open_seconds_def)
qed

text \<open>An episode of twenty seconds becomes twenty rows.\<close>

lemma half_open_seconds_tile_witness:
  "\<exists>rows. materialize_behapp_half_open_seconds u32_max (\<lambda>_. True) sample_chrono [sample_usage ''P'' 0 (2 * ten_seconds)]
    = Inr rows \<and> length rows = 20"
proof -
  have "expansion_total u32_max [sample_usage ''P'' 0 (2 * ten_seconds)] 0 = Inr 20"
    by (simp add: expansion_seconds_def i64_checked_sub_def in_i64_def i64_min_def i64_max_def trunc_div_def
      second_ns_def u32_max_def)
  then show ?thesis
    using half_open_seconds_tile [of "[sample_usage ''P'' 0 (2 * ten_seconds)]" u32_max 20 "\<lambda>_. True" sample_chrono]
    by (simp add: i64_interval_def in_i64_def i64_min_def i64_max_def u32_max_def)
qed

end
