(* ===== verification/Opener_Set.thy ===== *)
theory Opener_Set
  imports Pipeline_Row Eyes_Evidence Forward_Pairing Matcher_Proximity
begin

text \<open>
  What the reconstruction stage is configured with and what it returns: the reconstruction rules and the
  sets of opening events with their applicability (\<open>pipeline/options.rs\<close>), the event lists and published
  constants of the rules and \<open>MatcherOutput\<close> (\<open>pipeline/model.rs\<close>). \<open>MatcherOutput\<close> extends the matcher's own
  report; its three Schoedel fields, of types of \<open>b05_foundational_semantics.rs\<close>, are left out.
\<close>

section \<open>Rules and opener sets\<close>

datatype reconstruction_strategy =
    FusedMatcher
  | ParryTothForwardPairing
  | EyesComplement
  | GesisStartStopRepair
  | ForegroundBackgroundPairing
  | DraxlerInterruptionAware
  | MorrisonLockTolerant
  | Schoedel2026AppWithinScreenProseV1

fun strategy_id :: "reconstruction_strategy \<Rightarrow> string" where
  "strategy_id FusedMatcher = ''fused_matcher''"
| "strategy_id ParryTothForwardPairing = ''parry_toth_forward_pairing''"
| "strategy_id EyesComplement = ''eyes_complement''"
| "strategy_id GesisStartStopRepair = ''gesis_start_stop_repair''"
| "strategy_id ForegroundBackgroundPairing = ''foreground_background_pairing''"
| "strategy_id DraxlerInterruptionAware = ''draxler_interruption_aware''"
| "strategy_id MorrisonLockTolerant = ''morrison_lock_tolerant''"
| "strategy_id Schoedel2026AppWithinScreenProseV1 = ''schoedel_2026_app_within_screen_prose_v1''"

definition strategy_from_id :: "string \<Rightarrow> reconstruction_strategy" where
  "strategy_from_id v =
     (if v = ''parry_toth_forward_pairing'' then ParryTothForwardPairing
      else if v = ''eyes_complement'' then EyesComplement
      else if v = ''gesis_start_stop_repair'' then GesisStartStopRepair
      else if v = ''foreground_background_pairing'' then ForegroundBackgroundPairing
      else if v = ''draxler_interruption_aware'' then DraxlerInterruptionAware
      else if v = ''morrison_lock_tolerant'' then MorrisonLockTolerant
      else if v = ''schoedel_2026_app_within_screen_prose_v1'' then Schoedel2026AppWithinScreenProseV1
      else FusedMatcher)"

datatype opener_set = StrategyDefined | ActivityResumedOnly | GesisAppScopedStarts

fun opener_set_id :: "opener_set \<Rightarrow> string" where
  "opener_set_id StrategyDefined = ''strategy_defined''"
| "opener_set_id ActivityResumedOnly = ''activity_resumed_only''"
| "opener_set_id GesisAppScopedStarts = ''gesis_app_scoped_starts''"

definition opener_set_from_id :: "string \<Rightarrow> opener_set" where
  "opener_set_from_id v =
     (if v = ''activity_resumed_only'' then ActivityResumedOnly
      else if v = ''gesis_app_scoped_starts'' then GesisAppScopedStarts
      else StrategyDefined)"

fun explicit_eligible :: "opener_set \<Rightarrow> string \<Rightarrow> bool" where
  "explicit_eligible StrategyDefined interaction_type = False"
| "explicit_eligible ActivityResumedOnly interaction_type = (interaction_type \<in> set foreground_events)"
| "explicit_eligible GesisAppScopedStarts interaction_type =
     (interaction_type \<in> {''Activity Resumed'', ''Filtered App Resumed'', ''Continue Previous Day'',
        ''Standby Bucket Changed'', ''Slice Pinned App'', ''Foreground Service Start'',
        ''Rollover Foreground Service''})"

datatype opener_strategy_relation =
    BaselineNative
  | BaselineEquivalent
  | SourceEquivalent
  | SourceAlignedAdapter
  | ControlledDerivative
  | RelationRefused

datatype opener_refusal_reason = EyesRequiresLifecycleTriplets

fun refusal_id :: "opener_refusal_reason \<Rightarrow> string" where
  "refusal_id EyesRequiresLifecycleTriplets = ''eyes_requires_lifecycle_triplets''"

record opener_set_applicability =
  oa_requested :: opener_set
  oa_effective :: "opener_set option"
  oa_relation :: opener_strategy_relation
  oa_refusal_reason :: "opener_refusal_reason option"

definition applicability :: "opener_set \<Rightarrow> reconstruction_strategy \<Rightarrow> opener_set_applicability" where
  "applicability openers strategy =
     (case (case openers of
              StrategyDefined \<Rightarrow> (Some openers, BaselineNative, None)
            | ActivityResumedOnly \<Rightarrow>
                if strategy = FusedMatcher then (Some openers, BaselineEquivalent, None)
                else if strategy = GesisStartStopRepair then (Some openers, ControlledDerivative, None)
                else (Some openers, SourceEquivalent, None)
            | GesisAppScopedStarts \<Rightarrow>
                if strategy = EyesComplement then (None, RelationRefused, Some EyesRequiresLifecycleTriplets)
                else if strategy = GesisStartStopRepair then (Some openers, SourceAlignedAdapter, None)
                else (Some openers, ControlledDerivative, None)) of
        (effective, relation, refusal_reason) \<Rightarrow>
          \<lparr>oa_requested = openers, oa_effective = effective, oa_relation = relation,
           oa_refusal_reason = refusal_reason\<rparr>)"

definition is_executable :: "opener_set_applicability \<Rightarrow> bool" where
  "is_executable a \<longleftrightarrow> oa_relation a \<noteq> RelationRefused"

definition opener_set_applicability_of :: "string \<Rightarrow> string \<Rightarrow> opener_set_applicability" where
  "opener_set_applicability_of opener_id reconstruction_id =
     applicability (opener_set_from_id opener_id) (strategy_from_id reconstruction_id)"

section \<open>Event lists and constants\<close>

definition activity_resumed :: string where "activity_resumed = ''Activity Resumed''"

definition activity_paused :: string where "activity_paused = ''Activity Paused''"

definition activity_stopped :: string where "activity_stopped = ''Activity Stopped''"

definition notification_seen :: string where "notification_seen = ''Notification Seen''"

definition android_pseudo_package :: string where "android_pseudo_package = ''android''"

definition gesis_start_events :: "string list" where
  "gesis_start_events =
     [''Activity Resumed'', ''Filtered App Resumed'', ''Screen Interactive'', ''Keyguard Hidden'',
      ''Device Startup'', ''Screen Interactive/Keyguard Shown'']"

definition gesis_stop_events :: "string list" where
  "gesis_stop_events =
     [''Activity Paused'', ''Filtered App Paused'', ''Screen Non-Interactive'', ''Device Screen Off'',
      ''Keyguard Shown'', ''Activity Stopped'', ''Filtered App Stopped'', ''Activity Destroyed'',
      ''Filtered App Destroyed'', ''Device Shutdown'', ''Screen Non-Interactive/Keyguard Hidden'']"

definition gesis_unmatchable_stop_events :: "string list" where
  "gesis_unmatchable_stop_events = [notification_seen]"

definition gesis_max_timeout_ns :: int where "gesis_max_timeout_ns = 600 * 1000000000"

definition gesis_event_threshold :: nat where "gesis_event_threshold = 10"

definition draxler_inactivity_ns :: int where "draxler_inactivity_ns = 10 * 60 * 1000000000"

definition morrison_lock_timeout_ns :: int where "morrison_lock_timeout_ns = 30 * 1000000000"

section \<open>Outputs\<close>

text \<open>The counts of a \<open>BTreeMap<String, u32>\<close>; a stream has fewer than \<open>2^32\<close> rows.\<close>

definition count_type :: "string \<Rightarrow> (string \<rightharpoonup> nat) \<Rightarrow> (string \<rightharpoonup> nat)" where
  "count_type t counts = counts(t \<mapsto> (case counts t of None \<Rightarrow> 0 | Some n \<Rightarrow> n) + 1)"

record opener_set_evidence =
  oe_applicability :: opener_set_applicability
  oe_suppressed_device_opener_count :: nat
  oe_selected_counts :: "string \<rightharpoonup> nat"
  oe_materialized_counts :: "string \<rightharpoonup> nat"

definition empty_evidence :: "opener_set \<Rightarrow> reconstruction_strategy \<Rightarrow> opener_set_evidence" where
  "empty_evidence openers strategy =
     \<lparr>oe_applicability = applicability openers strategy, oe_suppressed_device_opener_count = 0,
      oe_selected_counts = Map.empty, oe_materialized_counts = Map.empty\<rparr>"

definition default_evidence :: opener_set_evidence where
  "default_evidence = empty_evidence StrategyDefined FusedMatcher"

record matcher_output = match_update_indices +
  start_timestamps_ns :: "int option list"
  selected_nonresume_closed :: "nat list"
  opener_evidence :: opener_set_evidence
  eyes_evidence :: "eyes_participant_evidence list"
  eyes_expected_participants :: "string set"

definition splits_episodes :: "matcher_output \<Rightarrow> bool" where
  "splits_episodes out \<longleftrightarrow> list_ex (\<lambda>t. t \<noteq> None) (start_timestamps_ns out)"

definition empty_output :: matcher_output where
  "empty_output =
     \<lparr>start_indices = [], stop_start_indices = [], stop_event_indices = [], missing_indices = [],
      stop_reasons = [], missing_reasons = [], stop_timestamps_ns = [], start_timestamps_ns = [],
      selected_nonresume_closed = [], opener_evidence = default_evidence, eyes_evidence = [],
      eyes_expected_participants = {}\<rparr>"

text \<open>The matcher's report in the pipeline's vocabulary: every episode begins at its own start row.\<close>

definition whole_episodes :: "match_update_indices \<Rightarrow> matcher_output" where
  "whole_episodes result =
     \<lparr>start_indices = start_indices result, stop_start_indices = stop_start_indices result,
      stop_event_indices = stop_event_indices result, missing_indices = missing_indices result,
      stop_reasons = stop_reasons result, missing_reasons = missing_reasons result,
      stop_timestamps_ns = stop_timestamps_ns result,
      start_timestamps_ns = replicate (length (stop_start_indices result)) None,
      selected_nonresume_closed = [], opener_evidence = default_evidence, eyes_evidence = [],
      eyes_expected_participants = {}\<rparr>"

lemma truncate_whole_episodes [simp]: "match_update_indices.truncate (whole_episodes result) = result"
  by (simp add: whole_episodes_def match_update_indices.truncate_def)

text \<open>The ids are read back.\<close>

lemma strategy_id_roundtrip: "strategy_from_id (strategy_id s) = s"
  by (cases s) (simp_all add: strategy_from_id_def)

lemma opener_set_id_roundtrip: "opener_set_from_id (opener_set_id s) = s"
  by (cases s) (simp_all add: opener_set_from_id_def)

end
