(* ===== verification/Single_Open.thy ===== *)
theory Single_Open
  imports Opener_Set
begin

text \<open>
  Rules that keep one episode open: an opener hands over from the open episode, and one test per row says
  whether the row ends it. \<open>single_open\<close> states the contract and shows what such a machine has closed after
  any number of rows: every opener by the first later row that ends it. The rules of Draxler and of Morrison
  (\<open>stages/reconstruction.rs\<close>) follow with the tests that describe them.
\<close>

section \<open>The first row that ends an episode\<close>

text \<open>The row a close is anchored to, its reason and an explicit end.\<close>

type_synonym episode_end = "nat \<times> episode_close_reason \<times> int option"

primrec first_end :: "(nat \<Rightarrow> episode_end option) \<Rightarrow> nat list \<Rightarrow> episode_end option" where
  "first_end f [] = None"
| "first_end f (j # js) = (case f j of None \<Rightarrow> first_end f js | Some e \<Rightarrow> Some e)"

lemma first_end_append:
  "first_end f (xs @ ys) = (case first_end f xs of None \<Rightarrow> first_end f ys | Some e \<Rightarrow> Some e)"
  by (induction xs) (auto split: option.split)

lemma first_end_None_iff: "first_end f xs = None \<longleftrightarrow> (\<forall>x \<in> set xs. f x = None)"
  by (induction xs) (auto split: option.split)

lemma first_end_Some_iff:
  "first_end f [a..<n] = Some e \<longleftrightarrow> (\<exists>j. a \<le> j \<and> j < n \<and> f j = Some e \<and> (\<forall>k. a \<le> k \<and> k < j \<longrightarrow> f k = None))"
proof (induction n)
  case (Suc n)
  show ?case
  proof (cases "a \<le> n")
    case True
    have none: "first_end f [a..<n] = None \<longleftrightarrow> (\<forall>k. a \<le> k \<and> k < n \<longrightarrow> f k = None)"
      by (auto simp: first_end_None_iff)
    have "first_end f [a..<Suc n] = (case first_end f [a..<n] of None \<Rightarrow> f n | Some e \<Rightarrow> Some e)"
      using True by (auto simp: first_end_append split: option.split)
    then show ?thesis
      using Suc none True by (cases "first_end f [a..<n]") (auto simp: less_Suc_eq le_less)
  qed auto
qed auto

definition openers_upto :: "(nat \<Rightarrow> bool) \<Rightarrow> nat \<Rightarrow> nat list" where
  "openers_upto opens n = filter opens [0..<n]"

definition ended_by :: "(nat \<Rightarrow> nat \<Rightarrow> episode_end option) \<Rightarrow> nat \<Rightarrow> nat \<Rightarrow> episode_end option" where
  "ended_by ends n i = first_end (ends i) [Suc i..<n]"

definition closes_upto ::
    "(nat \<Rightarrow> bool) \<Rightarrow> (nat \<Rightarrow> nat \<Rightarrow> episode_end option) \<Rightarrow> nat \<Rightarrow> (nat \<times> episode_end) list" where
  "closes_upto opens ends n =
     map (\<lambda>i. (i, the (ended_by ends n i))) (filter (\<lambda>i. ended_by ends n i \<noteq> None) (openers_upto opens n))"

definition open_at :: "(nat \<Rightarrow> bool) \<Rightarrow> (nat \<Rightarrow> nat \<Rightarrow> episode_end option) \<Rightarrow> nat \<Rightarrow> nat option" where
  "open_at opens ends n =
     (case filter (\<lambda>i. ended_by ends n i = None) (openers_upto opens n) of [] \<Rightarrow> None | i # _ \<Rightarrow> Some i)"

lemma ended_by_self [simp]: "n \<le> Suc i \<Longrightarrow> ended_by ends n i = None"
  by (simp add: ended_by_def)

lemma ended_by_Suc:
  "i < n \<Longrightarrow> ended_by ends (Suc n) i = (case ended_by ends n i of None \<Rightarrow> ends i n | Some e \<Rightarrow> Some e)"
  by (auto simp: ended_by_def first_end_append split: option.split)

lemma openers_upto_Suc: "openers_upto opens (Suc n) = openers_upto opens n @ (if opens n then [n] else [])"
  by (simp add: openers_upto_def)

section \<open>The contract of one open episode\<close>

locale single_open =
  fixes opens :: "nat \<Rightarrow> bool"
    and ends :: "nat \<Rightarrow> nat \<Rightarrow> episode_end option"
  assumes handover: "i < j \<Longrightarrow> opens j \<Longrightarrow> ends i j \<noteq> None"
begin

text \<open>An opener that is not the last has been ended.\<close>

lemma ended_before_next:
  assumes "i < j" "j < n" "opens j"
  shows "ended_by ends n i \<noteq> None"
proof -
  have "j \<in> set [Suc i..<n]" using assms by simp
  moreover have "ends i j \<noteq> None" using assms(1,3) by (rule handover)
  ultimately show ?thesis unfolding ended_by_def first_end_None_iff by (metis)
qed

lemma at_most_one_open:
  "filter (\<lambda>i. ended_by ends n i = None) (openers_upto opens n)
    = (case open_at opens ends n of None \<Rightarrow> [] | Some i \<Rightarrow> [i])"
proof -
  let ?open = "filter (\<lambda>i. ended_by ends n i = None) (openers_upto opens n)"
  have srt: "sorted_wrt (<) ?open" by (auto simp: openers_upto_def intro!: sorted_wrt_filter)
  have one: "ys = []" if "?open = i # ys" for i ys
  proof (rule ccontr)
    assume "ys \<noteq> []"
    then obtain j zs where ys: "ys = j # zs" by (cases ys) auto
    have "i < j" using srt unfolding that ys by simp
    moreover have "j \<in> set ?open" "i \<in> set ?open" unfolding that ys by simp_all
    then have "j < n" "opens j" "ended_by ends n i = None" by (auto simp: openers_upto_def)
    ultimately show False using ended_before_next by blast
  qed
  show ?thesis by (cases ?open) (use one in \<open>auto simp: open_at_def\<close>)
qed

lemma open_at_iff: "open_at opens ends n = Some i \<longleftrightarrow> i < n \<and> opens i \<and> ended_by ends n i = None"
proof -
  have "i \<in> set (filter (\<lambda>i. ended_by ends n i = None) (openers_upto opens n)) \<longleftrightarrow> open_at opens ends n = Some i"
    unfolding at_most_one_open by (auto split: option.split)
  then show ?thesis by (auto simp: openers_upto_def)
qed

text \<open>How one more row changes what is closed and what is open.\<close>

lemma closes_upto_Suc:
  "closes_upto opens ends (Suc n) = closes_upto opens ends n
    @ (case open_at opens ends n of None \<Rightarrow> []
       | Some i \<Rightarrow> (case ends i n of None \<Rightarrow> [] | Some e \<Rightarrow> [(i, e)]))"
proof -
  let ?js = "openers_upto opens n"
  have below: "\<forall>i \<in> set ?js. i < n" by (auto simp: openers_upto_def)
  have now: "closes_upto opens ends (Suc n)
      = map (\<lambda>i. (i, the (ended_by ends (Suc n) i))) (filter (\<lambda>i. ended_by ends (Suc n) i \<noteq> None) ?js)"
    by (simp add: closes_upto_def openers_upto_Suc)
  show ?thesis
  proof (cases "open_at opens ends n")
    case None
    have all: "ended_by ends n i \<noteq> None" if "i \<in> set ?js" for i
      using that None open_at_iff [of n i] by (simp add: openers_upto_def del: not_None_eq)
    have same: "\<forall>i \<in> set ?js. ended_by ends (Suc n) i = ended_by ends n i"
    proof
      fix i assume i: "i \<in> set ?js"
      then obtain e where "ended_by ends n i = Some e" using all by blast
      with below i show "ended_by ends (Suc n) i = ended_by ends n i" by (simp add: ended_by_Suc)
    qed
    then have "filter (\<lambda>i. ended_by ends (Suc n) i \<noteq> None) ?js = filter (\<lambda>i. ended_by ends n i \<noteq> None) ?js"
      by (intro filter_cong) simp_all
    then have "closes_upto opens ends (Suc n) = closes_upto opens ends n"
      unfolding now unfolding closes_upto_def using same by (intro map_cong) simp_all
    with None show ?thesis by simp
  next
    case (Some i)
    then have i: "i < n" "opens i" "ended_by ends n i = None" by (simp_all add: open_at_iff)
    have last: "j \<le> i" if "j \<in> set ?js" for j
    proof (rule ccontr)
      assume "\<not> j \<le> i"
      then show False using ended_before_next [of i j n] i that by (simp add: openers_upto_def)
    qed
    have "?js = openers_upto opens i @ i # filter opens [Suc i..<n]"
    proof -
      have "[0..<n] = [0..<i] @ i # [Suc i..<n]" using i(1) upt_add_eq_append [of 0 i "n - i"] by (simp add: upt_conv_Cons)
      then show ?thesis using i(2) by (simp add: openers_upto_def)
    qed
    moreover have "filter opens [Suc i..<n] = []"
      using last by (fastforce simp: openers_upto_def filter_empty_conv)
    ultimately have js: "?js = openers_upto opens i @ [i]" by simp
    have early: "ended_by ends n j \<noteq> None" if "j \<in> set (openers_upto opens i)" for j
      using that ended_before_next [of j i n] i by (auto simp: openers_upto_def)
    have same: "ended_by ends (Suc n) j = ended_by ends n j" if "j \<in> set (openers_upto opens i)" for j
      using early [OF that] that i(1) by (auto simp: ended_by_Suc openers_upto_def split: option.split)
    have kept: "filter (\<lambda>i. ended_by ends (Suc n) i \<noteq> None) (openers_upto opens i) = openers_upto opens i"
      "filter (\<lambda>i. ended_by ends n i \<noteq> None) (openers_upto opens i) = openers_upto opens i"
      using early same by (auto simp: filter_id_conv)
    have "ended_by ends (Suc n) i = ends i n" using i by (simp add: ended_by_Suc)
    then show ?thesis
      unfolding now unfolding closes_upto_def js using kept Some i(3) same
      by (cases "ends i n") (auto simp: kept)
  qed
qed

lemma open_at_Suc:
  "open_at opens ends (Suc n) = (if opens n then Some n
     else case open_at opens ends n of None \<Rightarrow> None | Some i \<Rightarrow> (if ends i n = None then Some i else None))"
proof (cases "opens n")
  case True
  then have "open_at opens ends (Suc n) = Some n" by (simp add: open_at_iff)
  with True show ?thesis by simp
next
  case False
  have step: "open_at opens ends (Suc n) = Some i \<longleftrightarrow> open_at opens ends n = Some i \<and> ends i n = None" for i
    using False unfolding open_at_iff
    by (cases "i < n") (auto simp: less_Suc_eq ended_by_Suc split: option.split)
  show ?thesis
  proof (cases "open_at opens ends (Suc n)")
    case None
    then have "\<not> (open_at opens ends n = Some i \<and> ends i n = None)" for i using step [of i] by simp
    with None False show ?thesis by (cases "open_at opens ends n") simp_all
  next
    case (Some i)
    with step [of i] False show ?thesis by simp
  qed
qed

lemma open_at_0 [simp]: "open_at opens ends 0 = None"
  by (simp add: open_at_def openers_upto_def)

lemma closes_upto_0 [simp]: "closes_upto opens ends 0 = []"
  by (simp add: closes_upto_def openers_upto_def)

text \<open>Closed and still open starts are the openers.\<close>

lemma outcomes:
  "mset (map fst (closes_upto opens ends n)) + mset (case open_at opens ends n of None \<Rightarrow> [] | Some i \<Rightarrow> [i])
    = mset (openers_upto opens n)"
proof -
  have "mset (filter (\<lambda>i. ended_by ends n i \<noteq> None) js) + mset (filter (\<lambda>i. ended_by ends n i = None) js) = mset js" for js
    by (induction js) auto
  then show ?thesis unfolding at_most_one_open [symmetric] by (simp add: closes_upto_def comp_def)
qed

end

end
