(* ===== verification/Screen_Rules.thy ===== *)
theory Screen_Rules
  imports Single_Open
begin

text \<open>
  The two rules under which a screen event ends an app episode: \<open>draxler_episodes\<close> and
  \<open>morrison_episodes\<close> of \<open>stages/reconstruction.rs\<close>. Both keep one episode open. They index the eligible
  openers by row; their callers pass one flag per row.
\<close>

section \<open>Appending to the report\<close>

definition push_close ::
    "nat \<Rightarrow> nat \<Rightarrow> episode_close_reason \<Rightarrow> int option \<Rightarrow> matcher_output \<Rightarrow> matcher_output" where
  "push_close start stop reason instant out =
     out\<lparr>stop_start_indices := stop_start_indices out @ [start],
         stop_event_indices := stop_event_indices out @ [stop],
         stop_reasons := stop_reasons out @ [reason],
         stop_timestamps_ns := stop_timestamps_ns out @ [instant],
         start_timestamps_ns := start_timestamps_ns out @ [None]\<rparr>"

definition push_start :: "nat \<Rightarrow> matcher_output \<Rightarrow> matcher_output" where
  "push_start index out = out\<lparr>start_indices := start_indices out @ [index]\<rparr>"

definition push_missing :: "nat \<Rightarrow> matcher_output \<Rightarrow> matcher_output" where
  "push_missing start out =
     out\<lparr>missing_indices := missing_indices out @ [start],
         missing_reasons := missing_reasons out @ [Unobserved]\<rparr>"

section \<open>Draxler: backgrounding, screen off or inactivity\<close>

type_synonym open_episode = "(nat \<times> string) option"

definition draxler_silence ::
    "nat \<Rightarrow> int \<Rightarrow> int option \<Rightarrow> matcher_output \<times> open_episode \<Rightarrow> matcher_output \<times> open_episode" where
  "draxler_silence index now last_seen_ns = (\<lambda>(out, current).
     (case (current, last_seen_ns) of
        (Some (start, package), Some previous) \<Rightarrow>
          if draxler_inactivity_ns < i64_sub now previous
          then (push_close start index DraxlerInactivityTimeout (Some previous) out, None)
          else (out, current)
      | _ \<Rightarrow> (out, current)))"

definition hand_over :: "nat \<Rightarrow> string \<Rightarrow> matcher_output \<times> open_episode \<Rightarrow> matcher_output \<times> open_episode" where
  "hand_over index package = (\<lambda>(out, current).
     (push_start index
        (case current of
           Some (start, _) \<Rightarrow> push_close start index ForegroundHandover None out
         | None \<Rightarrow> out),
      Some (index, package)))"

definition close_paused :: "nat \<Rightarrow> string \<Rightarrow> matcher_output \<times> open_episode \<Rightarrow> matcher_output \<times> open_episode" where
  "close_paused index paused_package = (\<lambda>(out, current).
     (case current of
        Some (start, package) \<Rightarrow>
          if package = paused_package
          then (push_close start index SamePackageBackgrounded None out, None)
          else (out, current)
      | None \<Rightarrow> (out, current)))"

definition close_screen_off :: "nat \<Rightarrow> matcher_output \<times> open_episode \<Rightarrow> matcher_output \<times> open_episode" where
  "close_screen_off index = (\<lambda>(out, current).
     (case current of
        Some (start, _) \<Rightarrow> (push_close start index ScreenNonInteractive None out, None)
      | None \<Rightarrow> (out, current)))"

definition draxler_step ::
    "pipeline_row list \<Rightarrow> bool list \<Rightarrow> nat \<Rightarrow> (matcher_output \<times> open_episode) \<times> int option
      \<Rightarrow> (matcher_output \<times> open_episode) \<times> int option" where
  "draxler_step rows eligible_opener index = (\<lambda>(st, last_seen_ns).
     (let r = rows ! index;
          now = row_event_timestamp_ns r;
          st = draxler_silence index now last_seen_ns st;
          st = (if eligible_opener ! index then hand_over index (row_app_package_name r) st
                else if row_interaction_type r = activity_paused then close_paused index (row_app_package_name r) st
                else if row_interaction_type r \<in> set screen_stop_events then close_screen_off index st
                else st)
      in (st, Some now)))"

definition draxler_episodes :: "pipeline_row list \<Rightarrow> bool list \<Rightarrow> matcher_output matcher_result" where
  "draxler_episodes rows eligible_opener =
     (case fold (draxler_step rows eligible_opener) [0..<length rows] ((empty_output, None), None) of
        ((out, None), _) \<Rightarrow> Inr out
      | ((out, Some (start, _)), _) \<Rightarrow> Inr (push_missing start out))"

section \<open>Morrison: a lock that lasts\<close>

type_synonym pending_lock = "(nat \<times> int) option"

definition resolve_lock ::
    "int \<Rightarrow> string \<Rightarrow> matcher_output \<times> open_episode \<times> pending_lock \<Rightarrow> matcher_output \<times> open_episode \<times> pending_lock" where
  "resolve_lock now interaction = (\<lambda>(out, current, pending).
     (case (current, pending) of
        (Some (start, _), Some (lock_index, lock_ns)) \<Rightarrow>
          if morrison_lock_timeout_ns \<le> i64_sub now lock_ns
          then (push_close start lock_index ScreenLockedPastTimeout (Some lock_ns) out, None, None)
          else if interaction \<in> set screen_start_events then (out, current, None)
          else (out, current, pending)
      | _ \<Rightarrow> (out, current, pending)))"

definition morrison_paused ::
    "nat \<Rightarrow> string \<Rightarrow> matcher_output \<times> open_episode \<times> pending_lock \<Rightarrow> matcher_output \<times> open_episode \<times> pending_lock" where
  "morrison_paused index paused_package = (\<lambda>(out, current, pending).
     (case current of
        Some (start, package) \<Rightarrow>
          if package = paused_package
          then (push_close start index SamePackageBackgrounded None out, None, None)
          else (out, current, pending)
      | None \<Rightarrow> (out, current, pending)))"

definition morrison_opens ::
    "nat \<Rightarrow> string \<Rightarrow> matcher_output \<times> open_episode \<times> pending_lock \<Rightarrow> matcher_output \<times> open_episode \<times> pending_lock" where
  "morrison_opens index package = (\<lambda>(out, current, pending).
     (case hand_over index package (out, current) of (out, current) \<Rightarrow> (out, current, None)))"

definition morrison_step ::
    "pipeline_row list \<Rightarrow> bool list \<Rightarrow> nat \<Rightarrow> matcher_output \<times> open_episode \<times> pending_lock
      \<Rightarrow> matcher_output \<times> open_episode \<times> pending_lock" where
  "morrison_step rows eligible_opener index st =
     (let r = rows ! index;
          now = row_event_timestamp_ns r;
          interaction = row_interaction_type r
      in case resolve_lock now interaction st of
           (out, current, pending) \<Rightarrow>
             if eligible_opener ! index then morrison_opens index (row_app_package_name r) (out, current, pending)
             else if interaction = activity_paused
             then morrison_paused index (row_app_package_name r) (out, current, pending)
             else if interaction \<in> set screen_stop_events \<and> current \<noteq> None \<and> pending = None
             then (out, current, Some (index, now))
             else (out, current, pending))"

definition morrison_episodes :: "pipeline_row list \<Rightarrow> bool list \<Rightarrow> matcher_output matcher_result" where
  "morrison_episodes rows eligible_opener =
     (case fold (morrison_step rows eligible_opener) [0..<length rows] (empty_output, None, None) of
        (out, current, pending) \<Rightarrow>
          (case current of
             Some (start, _) \<Rightarrow>
               (case pending of
                  Some (lock_index, lock_ns) \<Rightarrow>
                    Inr (push_close start lock_index ScreenLockedPastTimeout (Some lock_ns) out)
                | None \<Rightarrow> Inr (push_missing start out))
           | None \<Rightarrow> Inr out))"

section \<open>The reports\<close>

definition report_of :: "nat list \<Rightarrow> (nat \<times> episode_end) list \<Rightarrow> nat list \<Rightarrow> matcher_output" where
  "report_of starts closes missing =
     empty_output\<lparr>start_indices := starts,
       stop_start_indices := map fst closes,
       stop_event_indices := map (\<lambda>(_, stop, _, _). stop) closes,
       stop_reasons := map (\<lambda>(_, _, reason, _). reason) closes,
       stop_timestamps_ns := map (\<lambda>(_, _, _, instant). instant) closes,
       start_timestamps_ns := replicate (length closes) None,
       missing_indices := missing,
       missing_reasons := replicate (length missing) Unobserved\<rparr>"

lemma report_of_push [simp]:
  "push_close i j reason instant (report_of starts closes missing) = report_of starts (closes @ [(i, j, reason, instant)]) missing"
  "push_start i (report_of starts closes missing) = report_of (starts @ [i]) closes missing"
  "push_missing i (report_of starts closes missing) = report_of starts closes (missing @ [i])"
  by (simp_all add: report_of_def push_close_def push_start_def push_missing_def replicate_append_same)

lemma report_of_empty: "report_of [] [] [] = empty_output"
  by (simp add: report_of_def empty_output_def)

lemma report_of_fields [simp]:
  "start_indices (report_of starts closes missing) = starts"
  "stop_start_indices (report_of starts closes missing) = map fst closes"
  "missing_indices (report_of starts closes missing) = missing"
  by (simp_all add: report_of_def)

lemma report_of_well_reported:
  "mset (map fst closes) + mset missing = mset starts
    \<Longrightarrow> well_reported starts (match_update_indices.truncate (report_of starts closes missing))"
  by (simp add: well_reported_def report_of_def match_update_indices.truncate_def empty_output_def)

text \<open>The closes of a report, row by row.\<close>

definition reported_closes :: "matcher_output \<Rightarrow> (nat \<times> episode_end) list" where
  "reported_closes out =
     zip (stop_start_indices out) (zip (stop_event_indices out) (zip (stop_reasons out) (stop_timestamps_ns out)))"

lemma reported_closes_of [simp]: "reported_closes (report_of starts closes missing) = closes"
  by (induction closes) (auto simp: reported_closes_def report_of_def)

section \<open>What ends an episode\<close>

definition opens_at :: "bool list \<Rightarrow> nat \<Rightarrow> bool" where
  "opens_at eligible_opener j = eligible_opener ! j"

abbreviation row_at :: "pipeline_row list \<Rightarrow> nat \<Rightarrow> int" where
  "row_at rows j \<equiv> row_event_timestamp_ns (rows ! j)"

definition pauses :: "pipeline_row list \<Rightarrow> nat \<Rightarrow> nat \<Rightarrow> bool" where
  "pauses rows i j \<longleftrightarrow> row_interaction_type (rows ! j) = activity_paused
     \<and> row_app_package_name (rows ! j) = row_app_package_name (rows ! i)"

text \<open>The row ends the episode opened at \<open>i\<close>: after more than ten minutes of silence, at the last event
  before it; else as a new opener, as the package's own pause, or as the screen going off.\<close>

definition draxler_ends :: "pipeline_row list \<Rightarrow> bool list \<Rightarrow> nat \<Rightarrow> nat \<Rightarrow> episode_end option" where
  "draxler_ends rows eligible_opener i j =
     (if draxler_inactivity_ns < i64_sub (row_at rows j) (row_at rows (j - 1))
      then Some (j, DraxlerInactivityTimeout, Some (row_at rows (j - 1)))
      else if opens_at eligible_opener j then Some (j, ForegroundHandover, None)
      else if pauses rows i j then Some (j, SamePackageBackgrounded, None)
      else if row_interaction_type (rows ! j) \<in> set screen_stop_events then Some (j, ScreenNonInteractive, None)
      else None)"

interpretation draxler: single_open "opens_at eligible_opener" "draxler_ends rows eligible_opener"
  for rows eligible_opener
  by unfold_locales (simp add: draxler_ends_def)

text \<open>The screen-off still held before row \<open>j\<close> when the episode was opened at \<open>i\<close>.\<close>

definition lock_step :: "pipeline_row list \<Rightarrow> nat \<Rightarrow> nat option \<Rightarrow> nat option" where
  "lock_step rows k held =
     (case held of
        Some l \<Rightarrow> if row_interaction_type (rows ! k) \<in> set screen_start_events then None else Some l
      | None \<Rightarrow> if row_interaction_type (rows ! k) \<in> set screen_stop_events then Some k else None)"

definition held_lock :: "pipeline_row list \<Rightarrow> nat \<Rightarrow> nat \<Rightarrow> nat option" where
  "held_lock rows i j = fold (lock_step rows) [Suc i..<j] None"

definition lock_lasted :: "pipeline_row list \<Rightarrow> nat \<Rightarrow> nat \<Rightarrow> bool" where
  "lock_lasted rows l j \<longleftrightarrow> morrison_lock_timeout_ns \<le> i64_sub (row_at rows j) (row_at rows l)"

definition morrison_ends :: "pipeline_row list \<Rightarrow> bool list \<Rightarrow> nat \<Rightarrow> nat \<Rightarrow> episode_end option" where
  "morrison_ends rows eligible_opener i j =
     (let next = (if opens_at eligible_opener j then Some (j, ForegroundHandover, None)
                  else if pauses rows i j then Some (j, SamePackageBackgrounded, None)
                  else None)
      in case held_lock rows i j of
           None \<Rightarrow> next
         | Some l \<Rightarrow> if lock_lasted rows l j then Some (l, ScreenLockedPastTimeout, Some (row_at rows l)) else next)"

interpretation morrison: single_open "opens_at eligible_opener" "morrison_ends rows eligible_opener"
  for rows eligible_opener
  by unfold_locales (simp add: morrison_ends_def Let_def split: option.split)

section \<open>The loops follow the tests\<close>

abbreviation episode_of :: "pipeline_row list \<Rightarrow> nat \<Rightarrow> nat \<times> string" where
  "episode_of rows i \<equiv> (i, row_app_package_name (rows ! i))"

lemma kinds_apart:
  "activity_paused \<notin> set screen_stop_events" "activity_paused \<notin> set screen_start_events"
  "x \<in> set screen_start_events \<Longrightarrow> x \<notin> set screen_stop_events"
  "x \<in> set screen_start_events \<Longrightarrow> x \<noteq> activity_paused"
  by (auto simp: activity_paused_def screen_stop_events_def screen_start_events_def)

lemma draxler_loop:
  "fold (draxler_step rows elig) [0..<n] ((empty_output, None), None)
    = ((report_of (openers_upto (opens_at elig) n) (closes_upto (opens_at elig) (draxler_ends rows elig) n) [],
        map_option (episode_of rows) (open_at (opens_at elig) (draxler_ends rows elig) n)),
       if n = 0 then None else Some (row_at rows (n - 1)))"
proof (induction n)
  case 0
  show ?case by (simp add: report_of_empty openers_upto_def)
next
  case (Suc n)
  note step = draxler_step_def draxler_silence_def hand_over_def close_paused_def close_screen_off_def
  show ?case
  proof (cases "open_at (opens_at elig) (draxler_ends rows elig) n")
    case None
    then show ?thesis unfolding fold_upt_Suc Suc
      by (simp add: step Let_def draxler.closes_upto_Suc draxler.open_at_Suc openers_upto_Suc opens_at_def [of elig n])
  next
    case (Some i)
    then have "i < n" by (simp add: draxler.open_at_iff)
    with Some show ?thesis unfolding fold_upt_Suc Suc
      by (simp add: step Let_def draxler.closes_upto_Suc draxler.open_at_Suc openers_upto_Suc draxler_ends_def [of rows elig i n] pauses_def kinds_apart
          opens_at_def [of elig n])
  qed
qed

text \<open>Closed, and the one that is still open reported missing.\<close>

definition draxler_report :: "pipeline_row list \<Rightarrow> bool list \<Rightarrow> matcher_output" where
  "draxler_report rows elig =
     (let n = length rows in
      report_of (openers_upto (opens_at elig) n) (closes_upto (opens_at elig) (draxler_ends rows elig) n)
        (filter (\<lambda>i. ended_by (draxler_ends rows elig) n i = None) (openers_upto (opens_at elig) n)))"

lemma draxler_run: "draxler_episodes rows elig = Inr (draxler_report rows elig)"
  unfolding draxler_episodes_def draxler_loop draxler_report_def Let_def draxler.at_most_one_open
  by (cases "open_at (opens_at elig) (draxler_ends rows elig) (length rows)") simp_all

lemma held_lock_Suc: "i < j \<Longrightarrow> held_lock rows i (Suc j) = lock_step rows j (held_lock rows i j)"
  by (simp add: held_lock_def)

lemma held_lock_self [simp]: "j \<le> Suc i \<Longrightarrow> held_lock rows i j = None"
  by (simp add: held_lock_def)

lemma morrison_loop:
  "fold (morrison_step rows elig) [0..<n] (empty_output, None, None)
    = (report_of (openers_upto (opens_at elig) n) (closes_upto (opens_at elig) (morrison_ends rows elig) n) [],
       map_option (episode_of rows) (open_at (opens_at elig) (morrison_ends rows elig) n),
       case open_at (opens_at elig) (morrison_ends rows elig) n of
         None \<Rightarrow> None
       | Some i \<Rightarrow> map_option (\<lambda>l. (l, row_at rows l)) (held_lock rows i n))"
proof (induction n)
  case 0
  show ?case by (simp add: report_of_empty openers_upto_def)
next
  case (Suc n)
  note step = morrison_step_def resolve_lock_def morrison_paused_def morrison_opens_def hand_over_def
    morrison.closes_upto_Suc morrison.open_at_Suc openers_upto_Suc opens_at_def [of elig n]
  show ?case
  proof (cases "open_at (opens_at elig) (morrison_ends rows elig) n")
    case None
    then show ?thesis unfolding fold_upt_Suc Suc by (simp add: step Let_def)
  next
    case (Some i)
    then have i: "i < n" by (simp add: morrison.open_at_iff)
    note ends = morrison_ends_def [of rows elig i n] pauses_def lock_lasted_def lock_step_def held_lock_Suc [OF i]
    show ?thesis
    proof (cases "held_lock rows i n")
      case None
      with Some show ?thesis unfolding fold_upt_Suc Suc
        by (auto simp: step Let_def ends kinds_apart)
    next
      case held: (Some l)
      with Some show ?thesis unfolding fold_upt_Suc Suc
        by (auto simp: step Let_def ends kinds_apart)
    qed
  qed
qed

text \<open>At the end a lock that is still held counts; without one the open episode has no end.\<close>

definition morrison_report :: "pipeline_row list \<Rightarrow> bool list \<Rightarrow> matcher_output" where
  "morrison_report rows elig =
     (let n = length rows;
          ends = morrison_ends rows elig;
          unended = filter (\<lambda>i. ended_by ends n i = None) (openers_upto (opens_at elig) n)
      in report_of (openers_upto (opens_at elig) n)
           (closes_upto (opens_at elig) ends n
              @ concat (map (\<lambda>i. case held_lock rows i n of None \<Rightarrow> []
                                | Some l \<Rightarrow> [(i, l, ScreenLockedPastTimeout, Some (row_at rows l))]) unended))
           (filter (\<lambda>i. held_lock rows i n = None) unended))"

lemma morrison_run: "morrison_episodes rows elig = Inr (morrison_report rows elig)"
  unfolding morrison_episodes_def morrison_loop morrison_report_def Let_def morrison.at_most_one_open
  by (cases "open_at (opens_at elig) (morrison_ends rows elig) (length rows)") (auto split: option.split)

text \<open>Both rules keep the contract of an episode rule.\<close>

abbreviation row_openers :: "pipeline_row list \<times> bool list \<Rightarrow> nat list" where
  "row_openers i \<equiv> openers_upto (opens_at (snd i)) (length (fst i))"

abbreviation as_report :: "matcher_output matcher_result \<Rightarrow> match_update_indices matcher_result" where
  "as_report \<equiv> map_sum id match_update_indices.truncate"

lemma mset_partition: "mset (filter P xs) + mset (filter (\<lambda>x. \<not> P x) xs) = mset xs"
  by (induction xs) auto

lemma distinct_openers_upto: "distinct (openers_upto opens n)"
  by (simp add: openers_upto_def)

lemma draxler_report_well_reported:
  "well_reported (openers_upto (opens_at elig) (length rows)) (match_update_indices.truncate (draxler_report rows elig))"
proof -
  have "mset (map fst (closes_upto (opens_at elig) (draxler_ends rows elig) (length rows)))
      + mset (filter (\<lambda>i. ended_by (draxler_ends rows elig) (length rows) i = None) (openers_upto (opens_at elig) (length rows)))
    = mset (openers_upto (opens_at elig) (length rows))"
    unfolding draxler.at_most_one_open by (rule draxler.outcomes)
  then show ?thesis unfolding draxler_report_def Let_def by (simp add: report_of_well_reported)
qed

lemma morrison_report_well_reported:
  "well_reported (openers_upto (opens_at elig) (length rows)) (match_update_indices.truncate (morrison_report rows elig))"
proof -
  let ?n = "length rows" and ?closes = "closes_upto (opens_at elig) (morrison_ends rows elig) (length rows)"
  let ?unended = "filter (\<lambda>i. ended_by (morrison_ends rows elig) (length rows) i = None) (openers_upto (opens_at elig) (length rows))"
  let ?late = "concat (map (\<lambda>i. case held_lock rows i ?n of None \<Rightarrow> []
      | Some l \<Rightarrow> [(i, l, ScreenLockedPastTimeout, Some (row_at rows l))]) ?unended)"
  have "map fst (concat (map (\<lambda>i. case held_lock rows i ?n of None \<Rightarrow> []
      | Some l \<Rightarrow> [(i, l, ScreenLockedPastTimeout, Some (row_at rows l))]) is))
      = filter (\<lambda>i. held_lock rows i ?n \<noteq> None) is" for "is"
    by (induction "is") (auto split: option.split)
  then have "mset (map fst ?late) + mset (filter (\<lambda>i. held_lock rows i ?n = None) ?unended) = mset ?unended"
    using mset_partition [of "\<lambda>i. held_lock rows i ?n \<noteq> None" ?unended] by simp
  moreover have "mset (map fst ?closes) + mset ?unended = mset (openers_upto (opens_at elig) (length rows))"
    unfolding morrison.at_most_one_open by (rule morrison.outcomes)
  ultimately have "mset (map fst (?closes @ ?late)) + mset (filter (\<lambda>i. held_lock rows i ?n = None) ?unended)
      = mset (openers_upto (opens_at elig) (length rows))"
    by (simp add: ac_simps)
  then show ?thesis unfolding morrison_report_def Let_def by (rule report_of_well_reported)
qed

interpretation draxler_rule: episode_rule "\<lambda>i. as_report (draxler_episodes (fst i) (snd i))" "\<lambda>_. True" row_openers
  by unfold_locales (auto simp: draxler_run draxler_report_well_reported distinct_openers_upto)

interpretation morrison_rule: episode_rule "\<lambda>i. as_report (morrison_episodes (fst i) (snd i))" "\<lambda>_. True" row_openers
  by unfold_locales (auto simp: morrison_run morrison_report_well_reported distinct_openers_upto)

end
