(* ===== verification/Background_Pairing.thy ===== *)
theory Background_Pairing
  imports Screen_Rules "HOL-Library.AList"
begin

text \<open>
  \<open>foreground_background_episodes\<close> of \<open>stages/reconstruction.rs\<close>: every pause closes the oldest open resume
  of its package, and nothing else ends an episode. The map from packages to queues is an association list
  in first-use order; the source sorts what is left at the end, so the order of its hash map is not seen.
\<close>

section \<open>The rule\<close>

definition background_step ::
    "pipeline_row list \<Rightarrow> bool list \<Rightarrow> nat \<Rightarrow> matcher_output \<times> (string \<times> nat list) list
      \<Rightarrow> matcher_output \<times> (string \<times> nat list) list" where
  "background_step rows eligible_opener index = (\<lambda>(out, opened).
     (let r = rows ! index; package = row_app_package_name r
      in if eligible_opener ! index
         then (push_start index out, AList.map_default package [index] (\<lambda>q. q @ [index]) opened)
         else if row_interaction_type r = activity_paused
         then (case map_of opened package of
                 Some (start # rest) \<Rightarrow>
                   (push_close start index SamePackageBackgrounded None out, AList.update package rest opened)
               | _ \<Rightarrow> (out, opened))
         else (out, opened)))"

definition foreground_background_episodes ::
    "pipeline_row list \<Rightarrow> bool list \<Rightarrow> matcher_output matcher_result" where
  "foreground_background_episodes rows eligible_opener =
     (case fold (background_step rows eligible_opener) [0..<length rows] (empty_output, []) of
        (out, opened) \<Rightarrow> Inr (fold push_missing (sort (concat (map snd opened))) out))"

section \<open>The queues hold what is not closed\<close>

definition waiting :: "pipeline_row list \<Rightarrow> bool list \<Rightarrow> (nat \<times> episode_end) list \<Rightarrow> nat \<Rightarrow> string \<Rightarrow> nat list" where
  "waiting rows elig closes n package =
     filter (\<lambda>j. opens_at elig j \<and> row_app_package_name (rows ! j) = package \<and> j \<notin> fst ` set closes) [0..<n]"

primrec fifo_closes :: "pipeline_row list \<Rightarrow> bool list \<Rightarrow> nat \<Rightarrow> (nat \<times> episode_end) list" where
  "fifo_closes rows elig 0 = []"
| "fifo_closes rows elig (Suc n) = fifo_closes rows elig n
     @ (if \<not> opens_at elig n \<and> row_interaction_type (rows ! n) = activity_paused
        then (case waiting rows elig (fifo_closes rows elig n) n (row_app_package_name (rows ! n)) of
                [] \<Rightarrow> []
              | j # _ \<Rightarrow> [(j, n, SamePackageBackgrounded, None)])
        else [])"

definition queue_of :: "(string \<times> nat list) list \<Rightarrow> string \<Rightarrow> nat list" where
  "queue_of opened package = (case map_of opened package of None \<Rightarrow> [] | Some q \<Rightarrow> q)"

lemma queue_of_map_default:
  "queue_of (AList.map_default p [i] (\<lambda>q. q @ [i]) opened) p'
    = (if p' = p then queue_of opened p @ [i] else queue_of opened p')"
  by (simp add: queue_of_def map_of_map_default split: option.split)

lemma queue_of_update: "queue_of (AList.update p q opened) p' = (if p' = p then q else queue_of opened p')"
  by (simp add: queue_of_def update_conv')

lemma waiting_sorted: "sorted_wrt (<) (waiting rows elig closes n p)"
  by (simp add: waiting_def sorted_wrt_filter)

lemma waiting_mem:
  "j \<in> set (waiting rows elig closes n p)
    \<longleftrightarrow> j < n \<and> opens_at elig j \<and> row_app_package_name (rows ! j) = p \<and> j \<notin> fst ` set closes"
  by (auto simp: waiting_def)

lemma waiting_hd: "waiting rows elig closes n p = j # rest \<Longrightarrow> j \<in> set (waiting rows elig closes n p)"
  by simp

lemma waiting_hd_facts:
  assumes "waiting rows elig closes n p = j # rest"
  shows "j < n \<and> opens_at elig j \<and> row_app_package_name (rows ! j) = p \<and> j \<notin> fst ` set closes"
  using waiting_hd [OF assms] unfolding waiting_mem .

lemma fifo_mono: "set (fifo_closes rows elig n) \<subseteq> set (fifo_closes rows elig (Suc n))"
  unfolding fifo_closes.simps set_append by blast

lemma fifo_cases:
  assumes "(j, e) \<in> set (fifo_closes rows elig (Suc n))"
  obtains "(j, e) \<in> set (fifo_closes rows elig n)"
  | rest where "e = (n, SamePackageBackgrounded, None)" "\<not> opens_at elig n"
      "row_interaction_type (rows ! n) = activity_paused"
      "waiting rows elig (fifo_closes rows elig n) n (row_app_package_name (rows ! n)) = j # rest"
proof (cases "(j, e) \<in> set (fifo_closes rows elig n)")
  case False
  let ?w = "waiting rows elig (fifo_closes rows elig n) n (row_app_package_name (rows ! n))"
  have "\<not> opens_at elig n \<and> row_interaction_type (rows ! n) = activity_paused" (is ?thesis)
  proof (rule ccontr)
    assume "\<not> ?thesis"
    with assms False show False by auto
  qed
  then have fresh: "\<not> opens_at elig n" "row_interaction_type (rows ! n) = activity_paused" by simp_all
  obtain i rest where "?w = i # rest" using assms False fresh by (cases ?w) simp_all
  with assms False fresh that(2) show thesis by simp
qed (rule that(1))

lemma closed_below: "(j, e) \<in> set (fifo_closes rows elig n) \<Longrightarrow> j < n"
proof (induction n)
  case (Suc n)
  from Suc.prems show ?case
  proof (cases rule: fifo_cases)
    case 1
    with Suc.IH show ?thesis by simp
  next
    case 2
    from waiting_hd [OF 2(4)] show ?thesis by (simp add: waiting_mem)
  qed
qed simp

lemma waiting_opener:
  assumes "opens_at elig n"
  shows "waiting rows elig (fifo_closes rows elig (Suc n)) (Suc n) p
    = waiting rows elig (fifo_closes rows elig n) n p @ (if row_app_package_name (rows ! n) = p then [n] else [])"
proof -
  have "n \<notin> fst ` set (fifo_closes rows elig n)" using closed_below by fastforce
  with assms show ?thesis by (simp add: waiting_def)
qed

lemma waiting_close:
  assumes "waiting rows elig closes n p = j # rest" "\<not> opens_at elig n"
  shows "waiting rows elig (closes @ [(j, e)]) (Suc n) p' = (if p' = p then rest else waiting rows elig closes n p')"
proof -
  have "waiting rows elig (closes @ [(j, e)]) (Suc n) p' = filter (\<lambda>i. i \<noteq> j) (waiting rows elig closes n p')"
    using assms(2) by (auto simp: waiting_def intro: filter_cong)
  moreover have "filter (\<lambda>i. i \<noteq> j) (waiting rows elig closes n p) = rest"
    using waiting_sorted [of rows elig closes n p] unfolding assms(1) by (auto simp: filter_id_conv)
  moreover have "j \<notin> set (waiting rows elig closes n p')" if "p' \<noteq> p"
    using waiting_mem [of j rows elig closes n p] that unfolding assms(1) by (auto simp: waiting_mem)
  then have "filter (\<lambda>i. i \<noteq> j) (waiting rows elig closes n p') = waiting rows elig closes n p'" if "p' \<noteq> p"
    using that by (auto simp: filter_id_conv)
  ultimately show ?thesis by simp
qed

lemma waiting_skip: "\<not> opens_at elig n \<Longrightarrow> waiting rows elig closes (Suc n) p = waiting rows elig closes n p"
  by (simp add: waiting_def)

lemma background_loop:
  "\<exists>opened. fold (background_step rows elig) [0..<n] (empty_output, [])
      = (report_of (openers_upto (opens_at elig) n) (fifo_closes rows elig n) [], opened)
    \<and> distinct (map fst opened)
    \<and> (\<forall>p. queue_of opened p = waiting rows elig (fifo_closes rows elig n) n p)"
proof (induction n)
  case 0
  show ?case by (simp add: report_of_empty openers_upto_def queue_of_def waiting_def)
next
  case (Suc n)
  then obtain opened where IH: "fold (background_step rows elig) [0..<n] (empty_output, [])
        = (report_of (openers_upto (opens_at elig) n) (fifo_closes rows elig n) [], opened)"
      "distinct (map fst opened)" "\<And>p. queue_of opened p = waiting rows elig (fifo_closes rows elig n) n p" by blast
  let ?p = "row_app_package_name (rows ! n)"
  have elig: "opens_at elig n = elig ! n" by (rule opens_at_def)
  consider (opener) "elig ! n" | (pause) j rest where "\<not> elig ! n" "row_interaction_type (rows ! n) = activity_paused"
      "waiting rows elig (fifo_closes rows elig n) n ?p = j # rest"
    | (idle) "\<not> elig ! n" "row_interaction_type (rows ! n) = activity_paused
        \<longrightarrow> waiting rows elig (fifo_closes rows elig n) n ?p = []"
    by (cases "waiting rows elig (fifo_closes rows elig n) n ?p") auto
  then show ?case
  proof cases
    case opener
    have "fold (background_step rows elig) [0..<Suc n] (empty_output, [])
        = (report_of (openers_upto (opens_at elig) (Suc n)) (fifo_closes rows elig (Suc n)) [],
           AList.map_default ?p [n] (\<lambda>q. q @ [n]) opened)"
      unfolding fold_upt_Suc IH(1) using opener by (simp add: background_step_def Let_def openers_upto_Suc elig)
    moreover have "distinct (map fst (AList.map_default ?p [n] (\<lambda>q. q @ [n]) opened))"
      using IH(2) by (rule distinct_map_default)
    ultimately show ?thesis using opener
      by (intro exI conjI) (auto simp: queue_of_map_default IH(3) waiting_opener elig simp del: fifo_closes.simps)
  next
    case pause
    then have found: "map_of opened ?p = Some (j # rest)"
      using IH(3) [of ?p] by (auto simp: queue_of_def split: option.splits)
    have now: "fifo_closes rows elig (Suc n) = fifo_closes rows elig n @ [(j, n, SamePackageBackgrounded, None)]"
      using pause by (simp add: elig)
    have "fold (background_step rows elig) [0..<Suc n] (empty_output, [])
        = (report_of (openers_upto (opens_at elig) (Suc n)) (fifo_closes rows elig (Suc n)) [], AList.update ?p rest opened)"
      unfolding fold_upt_Suc IH(1) now using pause found by (simp add: background_step_def Let_def openers_upto_Suc elig)
    moreover have "distinct (map fst (AList.update ?p rest opened))" using IH(2) by (rule distinct_update)
    moreover have "queue_of (AList.update ?p rest opened) p = waiting rows elig (fifo_closes rows elig (Suc n)) (Suc n) p" for p
      unfolding now using waiting_close [OF pause(3)] pause(1) by (simp add: queue_of_update IH(3) elig)
    ultimately show ?thesis by blast
  next
    case idle
    have now: "fifo_closes rows elig (Suc n) = fifo_closes rows elig n" using idle by (auto simp: elig)
    have same: "background_step rows elig n (out, opened) = (out, opened)" for out
    proof (cases "row_interaction_type (rows ! n) = activity_paused")
      case True
      then have "queue_of opened ?p = []" using idle IH(3) by simp
      then show ?thesis using idle by (auto simp: background_step_def Let_def queue_of_def split: option.splits)
    next
      case False
      then show ?thesis using idle by (simp add: background_step_def Let_def)
    qed
    have "fold (background_step rows elig) [0..<Suc n] (empty_output, [])
        = (report_of (openers_upto (opens_at elig) (Suc n)) (fifo_closes rows elig (Suc n)) [], opened)"
      unfolding fold_upt_Suc IH(1) now same using idle by (simp add: openers_upto_Suc elig)
    with IH(2,3) idle(1) show ?thesis unfolding now by (intro exI [of _ opened]) (simp add: waiting_skip elig)
  qed
qed

section \<open>The report\<close>

definition background_report :: "pipeline_row list \<Rightarrow> bool list \<Rightarrow> matcher_output" where
  "background_report rows elig =
     (let n = length rows; closes = fifo_closes rows elig n
      in report_of (openers_upto (opens_at elig) n) closes
           (filter (\<lambda>j. j \<notin> fst ` set closes) (openers_upto (opens_at elig) n)))"

lemma push_missing_all:
  "fold push_missing js (report_of starts closes missing) = report_of starts closes (missing @ js)"
  by (induction js arbitrary: missing) simp_all

lemma queue_of_mem: "distinct (map fst opened) \<Longrightarrow> (p, q) \<in> set opened \<Longrightarrow> queue_of opened p = q"
  by (simp add: queue_of_def)

lemma distinct_queues:
  assumes "distinct (map fst opened)" "\<And>p. distinct (queue_of opened p)"
    and "\<And>p p' j. j \<in> set (queue_of opened p) \<Longrightarrow> j \<in> set (queue_of opened p') \<Longrightarrow> p = p'"
  shows "distinct (concat (map snd opened))"
    and "set (concat (map snd opened)) = (\<Union>p. set (queue_of opened p))"
proof -
  have "distinct (concat (map snd xs))" if "distinct (map fst xs)" "set xs \<subseteq> set opened" for xs
    using that
  proof (induction xs)
    case (Cons x xs)
    obtain p q where x: "x = (p, q)" by (cases x)
    have q: "queue_of opened p = q" using Cons.prems(2) x queue_of_mem [OF assms(1)] by auto
    have "j \<notin> set q" if "j \<in> set (concat (map snd xs))" for j
    proof
      assume "j \<in> set q"
      from that obtain z where z: "z \<in> set xs" "j \<in> set (snd z)" by auto
      obtain p' q' where "z = (p', q')" by (cases z)
      with z have pq: "(p', q') \<in> set xs" "j \<in> set q'" by simp_all
      then have "queue_of opened p' = q'" using Cons.prems(2) queue_of_mem [OF assms(1)] by auto
      then have "p' = p" using assms(3) [of j p' p] \<open>j \<in> set q\<close> pq q by simp
      with pq(1) Cons.prems(1) x show False by force
    qed
    moreover have "distinct q" using assms(2) [of p] q by simp
    ultimately show ?case using Cons x by auto
  qed simp
  then show "distinct (concat (map snd opened))" using assms(1) by blast
  show "set (concat (map snd opened)) = (\<Union>p. set (queue_of opened p))"
  proof
    show "set (concat (map snd opened)) \<subseteq> (\<Union>p. set (queue_of opened p))"
      using queue_of_mem [OF assms(1)] by fastforce
    show "(\<Union>p. set (queue_of opened p)) \<subseteq> set (concat (map snd opened))"
    proof
      fix j assume "j \<in> (\<Union>p. set (queue_of opened p))"
      then obtain p where "j \<in> set (queue_of opened p)" by blast
      then obtain q where "map_of opened p = Some q" "j \<in> set q" by (cases "map_of opened p") (simp_all add: queue_of_def)
      then have "(p, q) \<in> set opened" by (simp add: map_of_SomeD)
      with \<open>j \<in> set q\<close> show "j \<in> set (concat (map snd opened))" by force
    qed
  qed
qed

lemma background_run: "foreground_background_episodes rows elig = Inr (background_report rows elig)"
proof -
  let ?n = "length rows" and ?closes = "fifo_closes rows elig (length rows)"
  obtain opened where run: "fold (background_step rows elig) [0..<?n] (empty_output, [])
        = (report_of (openers_upto (opens_at elig) ?n) ?closes [], opened)"
      and keys: "distinct (map fst opened)" and q: "\<And>p. queue_of opened p = waiting rows elig ?closes ?n p"
    using background_loop by blast
  have "distinct (waiting rows elig ?closes ?n p)" for p by (simp add: waiting_def)
  then have "distinct (concat (map snd opened))"
      "set (concat (map snd opened)) = (\<Union>p. set (waiting rows elig ?closes ?n p))"
    using distinct_queues [OF keys] by (simp_all add: q waiting_mem)
  moreover have "(\<Union>p. set (waiting rows elig ?closes ?n p))
      = set (filter (\<lambda>j. j \<notin> fst ` set ?closes) (openers_upto (opens_at elig) ?n))"
    by (intro set_eqI) (simp add: waiting_mem openers_upto_def conj_commute)
  moreover have "sorted (filter (\<lambda>j. j \<notin> fst ` set ?closes) (openers_upto (opens_at elig) ?n))"
    by (simp add: openers_upto_def sorted_wrt_filter)
  ultimately have "sort (concat (map snd opened)) = filter (\<lambda>j. j \<notin> fst ` set ?closes) (openers_upto (opens_at elig) ?n)"
    by (intro sorted_distinct_set_unique) (simp_all add: distinct_openers_upto)
  then show ?thesis
    unfolding foreground_background_episodes_def run by (simp add: push_missing_all background_report_def Let_def)
qed

lemma fifo_Suc_cases:
  obtains "fifo_closes rows elig (Suc n) = fifo_closes rows elig n"
  | j rest where "fifo_closes rows elig (Suc n) = fifo_closes rows elig n @ [(j, n, SamePackageBackgrounded, None)]"
      "waiting rows elig (fifo_closes rows elig n) n (row_app_package_name (rows ! n)) = j # rest"
      "\<not> opens_at elig n" "row_interaction_type (rows ! n) = activity_paused"
proof (cases "\<not> opens_at elig n \<and> row_interaction_type (rows ! n) = activity_paused")
  case True
  with that show thesis
    by (cases "waiting rows elig (fifo_closes rows elig n) n (row_app_package_name (rows ! n))") auto
next
  case False
  then show thesis by (intro that(1)) auto
qed

lemma closes_once: "distinct (map fst (fifo_closes rows elig n))"
proof (induction n)
  case (Suc n)
  show ?case
  proof (rule fifo_Suc_cases [of rows elig n])
    fix j rest
    assume now: "fifo_closes rows elig (Suc n) = fifo_closes rows elig n @ [(j, n, SamePackageBackgrounded, None)]"
      and w: "waiting rows elig (fifo_closes rows elig n) n (row_app_package_name (rows ! n)) = j # rest"
    have "j \<notin> fst ` set (fifo_closes rows elig n)" using waiting_hd [OF w] by (simp add: waiting_mem)
    with Suc show ?thesis unfolding now by simp
  qed (use Suc in simp)
qed simp

lemma closes_openers: "(j, e) \<in> set (fifo_closes rows elig n) \<Longrightarrow> opens_at elig j"
proof (induction n)
  case (Suc n)
  from Suc.prems show ?case
  proof (cases rule: fifo_cases)
    case 2
    from waiting_hd [OF 2(4)] show ?thesis by (simp add: waiting_mem)
  qed (rule Suc.IH)
qed simp

lemma background_report_well_reported:
  "well_reported (openers_upto (opens_at elig) (length rows)) (match_update_indices.truncate (background_report rows elig))"
proof -
  let ?closes = "fifo_closes rows elig (length rows)" and ?js = "openers_upto (opens_at elig) (length rows)"
  have "mset (map fst ?closes) = mset (filter (\<lambda>j. j \<in> fst ` set ?closes) ?js)"
  proof (rule set_eq_iff_mset_eq_distinct [THEN iffD1])
    show "distinct (map fst ?closes)" by (rule closes_once)
    show "distinct (filter (\<lambda>j. j \<in> fst ` set ?closes) ?js)" by (simp add: openers_upto_def)
    show "set (map fst ?closes) = set (filter (\<lambda>j. j \<in> fst ` set ?closes) ?js)"
      using closed_below closes_openers by (fastforce simp: openers_upto_def)
  qed
  then show ?thesis unfolding background_report_def Let_def
    by (intro report_of_well_reported) (simp add: mset_partition)
qed

interpretation background_rule: episode_rule "\<lambda>i. as_report (foreground_background_episodes (fst i) (snd i))" "\<lambda>_. True"
    row_openers
  by unfold_locales (auto simp: background_run background_report_well_reported distinct_openers_upto)

section \<open>First in, first out\<close>

declare fifo_closes.simps(2) [simp del]

lemma fifo_close_exact:
  "(j, e) \<in> set (fifo_closes rows elig n) \<Longrightarrow> \<exists>stop. e = (stop, SamePackageBackgrounded, None) \<and> j < stop \<and> stop < n
     \<and> opens_at elig j \<and> \<not> opens_at elig stop \<and> pauses rows j stop"
proof (induction n)
  case (Suc n)
  from Suc.prems show ?case
  proof (cases rule: fifo_cases)
    case 1
    with Suc.IH show ?thesis by fastforce
  next
    case 2
    with waiting_hd_facts [OF 2(4)] show ?thesis by (simp add: pauses_def)
  qed
qed simp

abbreviation same_package :: "pipeline_row list \<Rightarrow> nat \<Rightarrow> nat \<Rightarrow> bool" where
  "same_package rows i j \<equiv> row_app_package_name (rows ! i) = row_app_package_name (rows ! j)"

text \<open>What is closed came before what waits.\<close>

lemma closed_before_waiting:
  "(j, e) \<in> set (fifo_closes rows elig n) \<Longrightarrow> i \<in> set (waiting rows elig (fifo_closes rows elig n) n p)
    \<Longrightarrow> row_app_package_name (rows ! j) = p \<Longrightarrow> j < i"
proof (induction n)
  case (Suc n)
  have i: "i < Suc n" "i \<notin> fst ` set (fifo_closes rows elig (Suc n))" "opens_at elig i" "row_app_package_name (rows ! i) = p"
    using Suc.prems(2) by (simp_all add: waiting_mem)
  note kept = fifo_mono [of rows elig n]
  from Suc.prems(1) show ?case
  proof (cases rule: fifo_cases)
    case 1
    show ?thesis
    proof (cases "i = n")
      case True
      with closed_below [OF 1] show ?thesis by simp
    next
      case False
      then have "i \<in> set (waiting rows elig (fifo_closes rows elig n) n p)"
        using i kept unfolding waiting_mem less_Suc_eq by blast
      with Suc.IH 1 Suc.prems(3) show ?thesis by blast
    qed
  next
    case (2 rest)
    have j: "row_app_package_name (rows ! j) = row_app_package_name (rows ! n)" using waiting_hd [OF 2(4)] by (simp add: waiting_mem)
    have "i \<noteq> n" using i(3) 2(2) by blast
    then have "i \<in> set (waiting rows elig (fifo_closes rows elig n) n (row_app_package_name (rows ! n)))"
      using i kept j Suc.prems(3) unfolding waiting_mem less_Suc_eq by (metis image_mono subsetD)
    moreover have "i \<noteq> j" using i(2) Suc.prems(1) by force
    ultimately have "i \<in> set rest" unfolding 2(4) by simp
    then show ?thesis using waiting_sorted [of rows elig "fifo_closes rows elig n" n "row_app_package_name (rows ! n)"]
      unfolding 2(4) by simp
  qed
qed simp

lemma fifo_order:
  "(j, stop, e) \<in> set (fifo_closes rows elig n) \<Longrightarrow> (j', stop', e') \<in> set (fifo_closes rows elig n)
    \<Longrightarrow> same_package rows j j' \<Longrightarrow> j < j' \<Longrightarrow> stop < stop'"
proof (induction n)
  case (Suc n)
  from Suc.prems(1) show ?case
  proof (cases rule: fifo_cases)
    case old: 1
    from Suc.prems(2) show ?thesis
    proof (cases rule: fifo_cases)
      case 1
      with old Suc show ?thesis by blast
    next
      case 2
      with fifo_close_exact [OF old] show ?thesis by auto
    qed
  next
    case new: (2 rest)
    from Suc.prems(2) show ?thesis
    proof (cases rule: fifo_cases)
      case 1
      have "row_app_package_name (rows ! j') = row_app_package_name (rows ! n)"
        using waiting_hd [OF new(4)] Suc.prems(3) by (simp add: waiting_mem)
      from closed_before_waiting [OF 1 waiting_hd [OF new(4)] this] Suc.prems(4) show ?thesis by simp
    next
      case 2
      with new Suc.prems(4) show ?thesis by simp
    qed
  qed
qed simp

text \<open>A pause is left unused only when every earlier opener of its package has been closed before it.\<close>

lemma no_pause_wasted:
  assumes "opens_at elig j" "j < k" "k < n" "\<not> opens_at elig k" "pauses rows j k"
  shows "(\<exists>j' e. j' \<le> j \<and> (j', k, e) \<in> set (fifo_closes rows elig n))
    \<or> (\<exists>stop e. stop < k \<and> (j, stop, e) \<in> set (fifo_closes rows elig n))"
  using assms(3)
proof (induction n)
  case (Suc n)
  note kept = fifo_mono [of rows elig n]
  show ?case
  proof (cases "k < n")
    case True
    with Suc.IH kept show ?thesis by blast
  next
    case False
    then have kn: "k = n" using Suc.prems by simp
    let ?w = "waiting rows elig (fifo_closes rows elig n) n (row_app_package_name (rows ! n))"
    have paused: "row_interaction_type (rows ! n) = activity_paused" "row_app_package_name (rows ! j) = row_app_package_name (rows ! n)"
      using assms(5) by (auto simp: pauses_def kn)
    show ?thesis
    proof (cases "j \<in> set ?w")
      case True
      then obtain j' rest where w: "?w = j' # rest" by (cases ?w) auto
      have "j' \<le> j" using True waiting_sorted [of rows elig "fifo_closes rows elig n" n "row_app_package_name (rows ! n)"]
        unfolding w by auto
      moreover have "(j', n, SamePackageBackgrounded, None) \<in> set (fifo_closes rows elig (Suc n))"
        using w paused assms(4) by (simp add: kn fifo_closes.simps(2))
      ultimately show ?thesis unfolding kn by blast
    next
      case False
      then have "j \<in> fst ` set (fifo_closes rows elig n)" using assms(1,2) paused by (simp add: waiting_mem kn)
      then obtain e where e: "(j, e) \<in> set (fifo_closes rows elig n)" by force
      from fifo_close_exact [OF e] obtain stop where "e = (stop, SamePackageBackgrounded, None)" "stop < n" by blast
      with e kept show ?thesis unfolding kn by blast
    qed
  qed
qed simp

end
