(* ===== verification/Reconstruction.thy ===== *)
theory Reconstruction
  imports Background_Pairing Eyes_Segment
begin

text \<open>
  The seam where a reconstruction rule becomes a choice at run time (\<open>stages/reconstruction.rs\<close>): the index
  of app events, the arms that adapt a matcher to rows, the partition of a table by participant, the merge of
  the participants' reports (\<open>MergedMatcherOutput\<close> of \<open>model.rs\<close>) and the opener evidence. The Schoedel arm
  answers with its error here, as in the source. An index out of range is a panic.
\<close>

section \<open>Rows before the index\<close>

definition resolve_excluded_packages :: "pipeline_row list \<Rightarrow> string set" where
  "resolve_excluded_packages rows =
     row_app_package_name ` set (filter (\<lambda>r. row_interaction_type r \<in>
       {''Filtered App Resumed'', ''Filtered App Paused'', ''Filtered App Stopped'', ''Filtered App Destroyed'',
        ''Filtered App Usage'', ''Filtered App Background Usage''}) rows)"

definition unfiltered_type :: "string \<Rightarrow> string option" where
  "unfiltered_type interaction =
     (if interaction = ''Filtered App Resumed'' then Some activity_resumed
      else if interaction = ''Filtered App Paused'' then Some activity_paused
      else if interaction = ''Filtered App Stopped'' then Some activity_stopped
      else if interaction = ''Filtered App Destroyed'' then Some ''Activity Destroyed''
      else None)"

definition mask_excluded_app_events :: "pipeline_row list \<Rightarrow> pipeline_row list" where
  "mask_excluded_app_events =
     map (\<lambda>r. case unfiltered_type (row_interaction_type r) of
                Some replacement \<Rightarrow> r\<lparr>row_interaction_type := replacement\<rparr>
              | None \<Rightarrow> r)"

section \<open>The index of app events\<close>

text \<open>Packages are numbered in the order they are first seen.\<close>

definition code_step ::
    "pipeline_row \<Rightarrow> (string \<rightharpoonup> int) \<times> nat \<times> int list \<Rightarrow> (string \<rightharpoonup> int) \<times> nat \<times> int list" where
  "code_step r = (\<lambda>(lookup, seen, codes).
     (case lookup (row_app_package_name r) of
        Some code \<Rightarrow> (lookup, seen, codes @ [code])
      | None \<Rightarrow> (lookup(row_app_package_name r \<mapsto> as_i32 seen), Suc seen, codes @ [as_i32 seen])))"

definition package_codes :: "pipeline_row list \<Rightarrow> int list" where
  "package_codes rows = (case fold code_step rows (Map.empty, 0, []) of (_, _, codes) \<Rightarrow> codes)"

definition build_app_event_index ::
    "pipeline_row list \<Rightarrow> string list \<Rightarrow> string list \<Rightarrow> string set \<Rightarrow> bool \<Rightarrow> match_input matcher_result" where
  "build_app_event_index rows same_stop_types other_stop_types background_apps model_concurrent_usage =
     (let is_background = (\<lambda>r. row_app_package_name r \<in> background_apps)
      in Inr \<lparr>app_codes = package_codes rows,
              timestamp_ns = map row_event_timestamp_ns rows,
              resumed = map (\<lambda>r. row_interaction_type r = activity_resumed) rows,
              same_stop = map (\<lambda>r. if is_background r
                  then row_interaction_type r = activity_resumed \<or> row_interaction_type r = activity_stopped
                  else row_interaction_type r \<in> set same_stop_types) rows,
              other_stop = map (\<lambda>r. \<not> model_concurrent_usage \<and> row_interaction_type r \<in> set other_stop_types) rows,
              stopped = map (\<lambda>r. \<not> is_background r \<and> row_interaction_type r = activity_stopped) rows,
              background = map is_background rows\<rparr>)"

section \<open>The arms\<close>

fun named_failure :: "matcher_failure \<Rightarrow> matcher_failure" where
  "named_failure (MatcherError message) = MatcherError (''matcher: '' @ message)"
| "named_failure failure = failure"

definition adapted :: "match_update_indices matcher_result \<Rightarrow> matcher_output matcher_result" where
  "adapted result = (case result of Inl failure \<Rightarrow> Inl (named_failure failure) | Inr out \<Rightarrow> Inr (whole_episodes out))"

definition match_app_episodes ::
    "match_input \<Rightarrow> bool list \<Rightarrow> match_options \<Rightarrow> int \<Rightarrow> matcher_output matcher_result" where
  "match_app_episodes inp eligible_opener opts proximity_interval_ns =
     adapted (match_app_usage_update_indices_with_proximity_openers_core inp eligible_opener opts
       proximity_interval_ns)"

definition of_type :: "string list \<Rightarrow> pipeline_row \<Rightarrow> bool" where
  "of_type types r \<longleftrightarrow> row_interaction_type r \<in> set types"

definition pseudo_rows :: "pipeline_row list \<Rightarrow> bool list" where
  "pseudo_rows rows = map (\<lambda>r. row_app_package_name r = android_pseudo_package) rows"

definition pairing_arm :: "match_input \<Rightarrow> pipeline_row list \<Rightarrow> bool list \<Rightarrow> matcher_output matcher_result" where
  "pairing_arm inp rows eligible_opener =
     adapted (match_app_usage_forward_pairing_with_openers_indices_core
       \<lparr>fp_codes = app_codes inp, fp_timestamp_ns = timestamp_ns inp, fp_eligible = eligible_opener,
        fp_resumed = resumed inp, fp_paused = map (of_type [activity_paused]) rows,
        fp_screen_off = map (of_type screen_stop_events) rows, fp_pseudo = pseudo_rows rows\<rparr>)"

definition gesis_arm :: "match_input \<Rightarrow> pipeline_row list \<Rightarrow> bool list \<Rightarrow> matcher_output matcher_result" where
  "gesis_arm inp rows eligible_opener =
     adapted (match_app_usage_gesis_with_openers_indices_core
       \<lparr>gs_codes = app_codes inp, gs_timestamp_ns = timestamp_ns inp, gs_eligible = eligible_opener,
        gs_classified_start = map (of_type gesis_start_events) rows,
        gs_is_stop = map (of_type gesis_stop_events) rows,
        gs_matchable = map (\<lambda>r. \<not> of_type gesis_unmatchable_stop_events r) rows,
        gs_pseudo = pseudo_rows rows\<rparr>
       gesis_max_timeout_ns gesis_event_threshold)"

section \<open>The EYES arm\<close>

fun eyes_close_reason :: "eyes_end_inference \<Rightarrow> episode_close_reason" where
  "eyes_close_reason ObservedStop = EyesTripletClose"
| "eyes_close_reason AppKilled = EyesTripletClose"
| "eyes_close_reason NextBlockStoppedInference = EyesTripletClose"
| "eyes_close_reason MissingStop = EyesNextBlockAssumed"
| "eyes_close_reason PauseFallback = SamePackageBackgrounded"
| "eyes_close_reason EndUnobserved = Unobserved"
| "eyes_close_reason SystemShutDown = EyesDeviceStateBoundary"

text \<open>The first row with a key.\<close>

definition resume_row :: "pipeline_row list \<Rightarrow> bool list \<Rightarrow> int \<Rightarrow> string \<Rightarrow> nat option" where
  "resume_row rows eligible_opener t package =
     find (\<lambda>i. eligible_opener ! i \<and> row_at rows i = t \<and> row_app_package_name (rows ! i) = package) [0..<length rows]"

definition any_row :: "pipeline_row list \<Rightarrow> int \<Rightarrow> nat option" where
  "any_row rows t = find (\<lambda>i. row_at rows i = t) [0..<length rows]"

definition episode_row :: "pipeline_row list \<Rightarrow> bool list \<Rightarrow> eyes_app_episode \<Rightarrow> nat option" where
  "episode_row rows eligible_opener episode =
     (case ep_resume episode of
        None \<Rightarrow> None
      | Some t \<Rightarrow> resume_row rows eligible_opener t (ep_package episode))"

definition eyes_options_for :: "int \<Rightarrow> eyes_options" where
  "eyes_options_for proximity_interval_ns =
     default_options\<lparr>proximity_interval_seconds := f64_div (i64_as_f64 proximity_interval_ns) 1000000000\<rparr>"

definition eyes_event_of :: "pipeline_row \<Rightarrow> eyes_event" where
  "eyes_event_of r =
     \<lparr>ev_timestamp_ns = row_event_timestamp_ns r, ev_interaction_type = row_interaction_type r,
      ev_package = row_app_package_name r\<rparr>"

text \<open>One credited fragment: its start row, its closing row and its bounds, unless no episode of its chunk has
  a known row.\<close>

definition eyes_fragment ::
    "pipeline_row list \<Rightarrow> eyes_segmentation \<Rightarrow> nat option list \<Rightarrow> eyes_final_app_usage
      \<Rightarrow> matcher_failure + (nat \<times> nat \<times> int \<times> int) option" where
  "eyes_fragment rows sg episode_start_rows fragment =
     (if length (sg_chunks sg) \<le> fu_chunk fragment then Inl Panic
      else
        (let episodes = ck_episodes (sg_chunks sg ! fu_chunk fragment)
         in if list_ex (\<lambda>i. length episode_start_rows \<le> i) episodes then Inl Panic
            else
              (case List.map_filter (\<lambda>i. episode_start_rows ! i) episodes of
                 [] \<Rightarrow> Inr None
               | known \<Rightarrow>
                   (let start_index = Min (set known);
                        stop_index = (case any_row rows (fu_end fragment) of
                            Some i \<Rightarrow> if start_index \<le> i then i else start_index
                          | None \<Rightarrow> start_index)
                    in Inr (Some (start_index, stop_index, fu_start fragment, fu_end fragment))))))"

fun eyes_fragments ::
    "pipeline_row list \<Rightarrow> eyes_segmentation \<Rightarrow> nat option list \<Rightarrow> eyes_final_app_usage list
      \<Rightarrow> matcher_failure + (nat \<times> nat \<times> int \<times> int) list" where
  "eyes_fragments rows sg episode_start_rows [] = Inr []"
| "eyes_fragments rows sg episode_start_rows (fragment # fragments) =
     (case eyes_fragment rows sg episode_start_rows fragment of
        Inl failure \<Rightarrow> Inl failure
      | Inr found \<Rightarrow>
          (case eyes_fragments rows sg episode_start_rows fragments of
             Inl failure \<Rightarrow> Inl failure
           | Inr rest \<Rightarrow> Inr ((case found of None \<Rightarrow> [] | Some f \<Rightarrow> [f]) @ rest)))"

text \<open>\<open>dedup_by_key\<close> on the row: the first of a run of equal keys stays.\<close>

fun dedup_rows :: "(nat \<times> episode_close_reason) list \<Rightarrow> (nat \<times> episode_close_reason) list" where
  "dedup_rows [] = []"
| "dedup_rows [m] = [m]"
| "dedup_rows (m # m' # ms) = (if fst m = fst m' then dedup_rows (m # ms) else m # dedup_rows (m' # ms))"

text \<open>\<open>sorter\<close> stands for \<open>sort_unstable_by_key\<close>, whose order among equal keys is not specified.\<close>

definition eyes_complement_episodes ::
    "((nat \<times> episode_close_reason) list \<Rightarrow> (nat \<times> episode_close_reason) list) \<Rightarrow> pipeline_row list \<Rightarrow> bool list \<Rightarrow> int
      \<Rightarrow> matcher_output matcher_result" where
  "eyes_complement_episodes sorter rows eligible_opener proximity_interval_ns =
     (let options = eyes_options_for proximity_interval_ns;
          participant = (case rows of [] \<Rightarrow> [] | r # _ \<Rightarrow> row_participant_id r)
      in case segment_eyes_complement (map eyes_event_of rows) options of
           None \<Rightarrow> Inl NoReturn
         | Some sg \<Rightarrow>
             (let episode_start_rows = map (episode_row rows eligible_opener) (sg_episodes sg);
                  anchored = List.map_filter (\<lambda>e. map_option (\<lambda>i. (i, e)) (episode_row rows eligible_opener e))
                    (sg_episodes sg);
                  missed = map (\<lambda>(i, e). (i, eyes_close_reason (ep_end_inference e)))
                    (filter (\<lambda>(_, e). ep_stop e = None) anchored)
              in case eyes_fragments rows sg episode_start_rows (credited_final_app_usage sg) of
                   Inl failure \<Rightarrow> Inl failure
                 | Inr fragments \<Rightarrow>
                     (let credited = set (map fst fragments);
                          misses = dedup_rows (sorter (filter (\<lambda>(i, _). i \<notin> credited) missed))
                      in Inr
                         \<lparr>start_indices = remdups_adj (sort (map fst anchored)),
                          stop_start_indices = map fst fragments,
                          stop_event_indices = map (\<lambda>(_, stop, _, _). stop) fragments,
                          missing_indices = map fst misses,
                          stop_reasons = replicate (length fragments) EyesDeviceStateBoundary,
                          missing_reasons = map snd misses,
                          stop_timestamps_ns = map (\<lambda>(_, _, _, end_ns'). Some end_ns') fragments,
                          start_timestamps_ns = map (\<lambda>(_, _, start_ns', _). Some start_ns') fragments,
                          selected_nonresume_closed = [],
                          opener_evidence = default_evidence,
                          eyes_evidence =
                            [\<lparr>pe_participant_id = participant, pe_evidence = tagged_fau_evidence sg options\<rparr>],
                          eyes_expected_participants = (if rows = [] then {} else {participant})\<rparr>)))"

section \<open>The dispatch\<close>

definition schoedel_seam_error :: string where
  "schoedel_seam_error =
     ''schoedel_2026_app_within_screen_prose_v1 requires the typed B05 reconstruction seam''"

fun match_app_episodes_for_one_participant ::
    "((nat \<times> episode_close_reason) list \<Rightarrow> (nat \<times> episode_close_reason) list)
      \<Rightarrow> match_input \<Rightarrow> pipeline_row list \<Rightarrow> bool list \<Rightarrow> match_options \<Rightarrow> int \<Rightarrow> reconstruction_strategy
      \<Rightarrow> matcher_output matcher_result" where
  "match_app_episodes_for_one_participant sorter inp rows eligible opts proximity_ns FusedMatcher =
     match_app_episodes inp eligible opts proximity_ns"
| "match_app_episodes_for_one_participant sorter inp rows eligible opts proximity_ns ParryTothForwardPairing =
     pairing_arm inp rows eligible"
| "match_app_episodes_for_one_participant sorter inp rows eligible opts proximity_ns EyesComplement =
     eyes_complement_episodes sorter rows eligible proximity_ns"
| "match_app_episodes_for_one_participant sorter inp rows eligible opts proximity_ns GesisStartStopRepair =
     gesis_arm inp rows eligible"
| "match_app_episodes_for_one_participant sorter inp rows eligible opts proximity_ns ForegroundBackgroundPairing =
     foreground_background_episodes rows eligible"
| "match_app_episodes_for_one_participant sorter inp rows eligible opts proximity_ns DraxlerInterruptionAware =
     draxler_episodes rows eligible"
| "match_app_episodes_for_one_participant sorter inp rows eligible opts proximity_ns MorrisonLockTolerant =
     morrison_episodes rows eligible"
| "match_app_episodes_for_one_participant sorter inp rows eligible opts proximity_ns
       Schoedel2026AppWithinScreenProseV1 = Inl (MatcherError schoedel_seam_error)"

text \<open>An index past the end of a vector is a panic.\<close>

definition gather :: "'a list \<Rightarrow> nat list \<Rightarrow> 'a list matcher_result" where
  "gather vs indices =
     (if list_all (\<lambda>index. index < length vs) indices then Inr (map (\<lambda>index. vs ! index) indices)
      else Inl Panic)"

definition gather_input :: "match_input \<Rightarrow> nat list \<Rightarrow> match_input matcher_result" where
  "gather_input inp indices =
     and_then (gather (app_codes inp) indices) (\<lambda>codes.
     and_then (gather (timestamp_ns inp) indices) (\<lambda>timestamps.
     and_then (gather (resumed inp) indices) (\<lambda>resumes.
     and_then (gather (same_stop inp) indices) (\<lambda>same.
     and_then (gather (other_stop inp) indices) (\<lambda>other.
     and_then (gather (stopped inp) indices) (\<lambda>stops.
     and_then (gather (background inp) indices) (\<lambda>backgrounds.
       Inr \<lparr>app_codes = codes, timestamp_ns = timestamps, resumed = resumes, same_stop = same,
            other_stop = other, stopped = stops, background = backgrounds\<rparr>)))))))"

section \<open>Merging the participants\<close>

type_synonym merged_episode = "nat \<times> nat \<times> episode_close_reason \<times> int option \<times> int option"

record merged_output =
  mg_starts :: "nat list"
  mg_closed :: "merged_episode list"
  mg_missing :: "(nat \<times> episode_close_reason) list"
  mg_evidence :: "eyes_participant_evidence list"
  mg_expected :: "string set"

definition empty_merged :: merged_output where
  "empty_merged = \<lparr>mg_starts = [], mg_closed = [], mg_missing = [], mg_evidence = [], mg_expected = {}\<rparr>"

definition closed_at :: "matcher_output \<Rightarrow> nat list \<Rightarrow> nat \<Rightarrow> merged_episode" where
  "closed_at out indices position =
     (indices ! (stop_start_indices out ! position), indices ! (stop_event_indices out ! position),
      stop_reasons out ! position, stop_timestamps_ns out ! position, start_timestamps_ns out ! position)"

definition absorb :: "matcher_output \<Rightarrow> nat list \<Rightarrow> merged_output \<Rightarrow> merged_output" where
  "absorb out indices mg =
     \<lparr>mg_starts = mg_starts mg @ map (\<lambda>i. indices ! i) (start_indices out),
      mg_closed = mg_closed mg @ map (closed_at out indices) [0..<length (stop_start_indices out)],
      mg_missing = mg_missing mg
        @ map (\<lambda>(i, reason). (indices ! i, reason)) (zip (missing_indices out) (missing_reasons out)),
      mg_evidence = mg_evidence mg @ eyes_evidence out,
      mg_expected = mg_expected mg \<union> eyes_expected_participants out\<rparr>"

definition into_output :: "merged_output \<Rightarrow> matcher_output" where
  "into_output mg =
     (let closed = sort_key fst (mg_closed mg); missing = sort_key fst (mg_missing mg)
      in \<lparr>start_indices = sort (mg_starts mg),
          stop_start_indices = map fst closed,
          stop_event_indices = map (\<lambda>(_, stop, _, _, _). stop) closed,
          missing_indices = map fst missing,
          stop_reasons = map (\<lambda>(_, _, reason, _, _). reason) closed,
          missing_reasons = map snd missing,
          stop_timestamps_ns = map (\<lambda>(_, _, _, end_ns', _). end_ns') closed,
          start_timestamps_ns = map (\<lambda>(_, _, _, _, start_ns'). start_ns') closed,
          selected_nonresume_closed = [], opener_evidence = default_evidence,
          eyes_evidence = sort_key pe_participant_id (mg_evidence mg),
          eyes_expected_participants = mg_expected mg\<rparr>)"

section \<open>The entry point\<close>

definition eligible_row :: "opener_set \<Rightarrow> reconstruction_strategy \<Rightarrow> pipeline_row \<Rightarrow> bool" where
  "eligible_row openers strategy r \<longleftrightarrow>
     (if openers = StrategyDefined
      then (if strategy = GesisStartStopRepair then of_type gesis_start_events r
            else row_interaction_type r = activity_resumed)
      else explicit_eligible openers (row_interaction_type r))"

definition device_openers :: "string list" where
  "device_openers =
     [''Screen Interactive'', ''Screen Interactive/Keyguard Shown'', ''Keyguard Hidden'', ''Device Startup'']"

definition selected_evidence ::
    "opener_set \<Rightarrow> reconstruction_strategy \<Rightarrow> pipeline_row list \<Rightarrow> opener_set_evidence" where
  "selected_evidence openers strategy rows =
     \<lparr>oe_applicability = applicability openers strategy,
      oe_suppressed_device_opener_count =
        (if openers = GesisAppScopedStarts then length (filter (of_type device_openers) rows) else 0),
      oe_selected_counts =
        fold (\<lambda>r. count_type (row_interaction_type r)) (filter (eligible_row openers strategy) rows) Map.empty,
      oe_materialized_counts = Map.empty\<rparr>"

definition finalize_opener_output ::
    "pipeline_row list \<Rightarrow> opener_set \<Rightarrow> opener_set_evidence \<Rightarrow> matcher_output \<Rightarrow> matcher_output" where
  "finalize_opener_output rows openers evidence out =
     (let closed = remdups_adj (sort (stop_start_indices out));
          native = (\<lambda>i. row_interaction_type (rows ! i) = activity_resumed);
          counted = filter (\<lambda>i. native i \<or> openers \<noteq> StrategyDefined) closed;
          nonresume = filter (\<lambda>i. openers \<noteq> StrategyDefined \<and> \<not> native i) closed
      in out\<lparr>selected_nonresume_closed := remdups_adj (sort (selected_nonresume_closed out @ nonresume)),
             opener_evidence := evidence\<lparr>oe_materialized_counts :=
               fold (\<lambda>i. count_type (row_interaction_type (rows ! i))) counted
                 (oe_materialized_counts evidence)\<rparr>\<rparr>)"

text \<open>The row numbers of every participant, participants in the order they first appear.\<close>

definition participant_groups :: "pipeline_row list \<Rightarrow> (string \<times> nat list) list" where
  "participant_groups rows =
     fold (\<lambda>index. AList.map_default (row_participant_id (rows ! index)) [index] (\<lambda>is. is @ [index]))
       [0..<length rows] []"

fun match_groups ::
    "((nat \<times> episode_close_reason) list \<Rightarrow> (nat \<times> episode_close_reason) list)
      \<Rightarrow> match_input \<Rightarrow> pipeline_row list \<Rightarrow> bool list \<Rightarrow> match_options \<Rightarrow> int \<Rightarrow> reconstruction_strategy
      \<Rightarrow> (string \<times> nat list) list \<Rightarrow> merged_output \<Rightarrow> merged_output matcher_result" where
  "match_groups sorter inp rows eligible opts proximity_ns strategy [] mg = Inr mg"
| "match_groups sorter inp rows eligible opts proximity_ns strategy ((participant, indices) # rest) mg =
     and_then (gather_input inp indices) (\<lambda>sub_input.
     and_then (gather rows indices) (\<lambda>sub_rows.
     and_then (gather eligible indices) (\<lambda>sub_eligible.
       if \<not> list_ex id sub_eligible \<and> \<not> list_ex (\<lambda>r. row_interaction_type r = activity_paused) sub_rows
       then match_groups sorter inp rows eligible opts proximity_ns strategy rest mg
       else
         and_then (match_app_episodes_for_one_participant sorter sub_input sub_rows sub_eligible opts
                     proximity_ns strategy) (\<lambda>out.
           match_groups sorter inp rows eligible opts proximity_ns strategy rest (absorb out indices mg)))))"

definition views_error :: "nat \<Rightarrow> nat \<Rightarrow> matcher_failure" where
  "views_error events row_count =
     MatcherError (''matcher: index has '' @ decimal events @ '' events but '' @ decimal row_count
       @ '' rows were supplied; the two views must describe the same events'')"

definition refusal_error :: "opener_set \<Rightarrow> reconstruction_strategy \<Rightarrow> opener_refusal_reason \<Rightarrow> matcher_failure" where
  "refusal_error openers strategy reason =
     MatcherError (''opener_set_refused:'' @ opener_set_id openers @ '':'' @ strategy_id strategy @ '':''
       @ refusal_id reason)"

definition no_usage_error :: matcher_failure where
  "no_usage_error = MatcherError ''No valid app usage data during the study period''"

definition match_app_episodes_with_strategy ::
    "((nat \<times> episode_close_reason) list \<Rightarrow> (nat \<times> episode_close_reason) list)
      \<Rightarrow> match_input \<Rightarrow> pipeline_row list \<Rightarrow> reconstruction_strategy \<Rightarrow> opener_set \<Rightarrow> match_options \<Rightarrow> int
      \<Rightarrow> matcher_output matcher_result" where
  "match_app_episodes_with_strategy sorter inp rows strategy openers opts proximity_ns =
     (if length (app_codes inp) \<noteq> length rows then Inl (views_error (length (app_codes inp)) (length rows))
      else if \<not> is_executable (applicability openers strategy)
      then (case oa_refusal_reason (applicability openers strategy) of
              None \<Rightarrow> Inl Panic
            | Some reason \<Rightarrow> Inl (refusal_error openers strategy reason))
      else
        (let eligible = map (eligible_row openers strategy) rows;
             has_pause = list_ex (\<lambda>r. row_interaction_type r = activity_paused) rows;
             has_valid_usage_signal =
               (if openers = StrategyDefined then list_ex id (resumed inp) \<or> has_pause
                else list_ex id eligible \<or> has_pause);
             finish = finalize_opener_output rows openers (selected_evidence openers strategy rows);
             groups = participant_groups rows
         in if \<not> has_valid_usage_signal then Inl no_usage_error
            else if length groups \<le> 1
            then (case match_app_episodes_for_one_participant sorter inp rows eligible opts proximity_ns strategy of
                    Inl failure \<Rightarrow> Inl failure
                  | Inr out \<Rightarrow> Inr (finish out))
            else (case match_groups sorter inp rows eligible opts proximity_ns strategy groups empty_merged of
                    Inl failure \<Rightarrow> Inl failure
                  | Inr mg \<Rightarrow> Inr (finish (into_output mg)))))"

end
