(* ===== verification/Reconstruction_Arms.thy ===== *)
theory Reconstruction_Arms
  imports Reconstruction Matcher_Properties
begin

text \<open>
  What the dispatch relies on: the index numbers packages faithfully, the groups partition the rows by
  participant, and every arm answers one table with rows of that table, every opener reported once.
\<close>

section \<open>Package numbers\<close>

definition codes_inv :: "pipeline_row list \<Rightarrow> (string \<rightharpoonup> int) \<times> nat \<times> int list \<Rightarrow> bool" where
  "codes_inv rows = (\<lambda>(lookup, seen, codes).
     dom lookup = row_app_package_name ` set rows \<and> inj_on lookup (dom lookup)
     \<and> (\<forall>c \<in> ran lookup. 0 \<le> c \<and> c < int seen) \<and> seen \<le> length rows
     \<and> codes = map (\<lambda>r. the (lookup (row_app_package_name r))) rows)"

lemma code_step_inv:
  assumes inv: "codes_inv rows (lookup, seen, codes)" and len: "length rows < 2 ^ 31"
  shows "codes_inv (rows @ [r]) (code_step r (lookup, seen, codes))"
proof (cases "lookup (row_app_package_name r)")
  case (Some c)
  then have "row_app_package_name r \<in> row_app_package_name ` set rows" using inv by (auto simp: codes_inv_def)
  with inv Some show ?thesis by (auto simp: codes_inv_def code_step_def insert_absorb)
next
  case None
  have new: "as_i32 seen = int seen" using inv len by (intro as_i32_id) (auto simp: codes_inv_def)
  let ?lookup = "lookup(row_app_package_name r \<mapsto> int seen)"
  have fresh: "int seen \<notin> ran lookup" using inv by (auto simp: codes_inv_def)
  have "inj_on ?lookup (dom ?lookup)"
    using inv fresh None by (auto simp: codes_inv_def inj_on_def ran_def)
  moreover have "\<forall>c \<in> ran ?lookup. 0 \<le> c \<and> c < int (Suc seen)"
    using inv None by (auto simp: codes_inv_def ran_map_upd)
  moreover have "row_app_package_name r' \<noteq> row_app_package_name r" if "r' \<in> set rows" for r'
  proof -
    have "row_app_package_name r' \<in> dom lookup" using inv that by (auto simp: codes_inv_def)
    with None show ?thesis by auto
  qed
  then have "map (\<lambda>r. the (?lookup (row_app_package_name r))) (rows @ [r]) = codes @ [int seen]"
    using inv by (auto simp: codes_inv_def)
  ultimately show ?thesis using inv None new by (auto simp: codes_inv_def code_step_def)
qed

lemma package_codes_inv:
  assumes "length rows \<le> 2 ^ 31"
  shows "codes_inv rows (fold code_step rows (Map.empty, 0, []))"
  using assms
proof (induction rows rule: rev_induct)
  case Nil
  show ?case by (simp add: codes_inv_def)
next
  case (snoc r rows)
  obtain lookup seen codes where st: "fold code_step rows (Map.empty, 0, []) = (lookup, seen, codes)"
    by (cases "fold code_step rows (Map.empty, 0, [])")
  have "codes_inv rows (lookup, seen, codes)" using snoc st by simp
  then show ?case using code_step_inv [of rows lookup seen codes r] snoc.prems st by simp
qed

lemma package_codes_exact:
  assumes "length rows \<le> 2 ^ 31"
  shows "length (package_codes rows) = length rows"
    and "\<forall>c \<in> set (package_codes rows). 0 \<le> c"
    and "i < length rows \<Longrightarrow> j < length rows \<Longrightarrow> package_codes rows ! i = package_codes rows ! j
      \<longleftrightarrow> row_app_package_name (rows ! i) = row_app_package_name (rows ! j)"
proof -
  obtain lookup seen codes where st: "fold code_step rows (Map.empty, 0, []) = (lookup, seen, codes)"
    by (cases "fold code_step rows (Map.empty, 0, [])")
  have inv: "dom lookup = row_app_package_name ` set rows" "inj_on lookup (dom lookup)"
      "\<forall>c \<in> ran lookup. 0 \<le> c \<and> c < int seen" "codes = map (\<lambda>r. the (lookup (row_app_package_name r))) rows"
    using package_codes_inv [OF assms] st by (auto simp: codes_inv_def)
  have codes: "package_codes rows = map (\<lambda>r. the (lookup (row_app_package_name r))) rows"
    using st inv(4) by (simp add: package_codes_def)
  have found: "lookup (row_app_package_name r) = Some (the (lookup (row_app_package_name r)))" if "r \<in> set rows" for r
    using inv(1) that by (metis domD image_eqI option.sel)
  show "length (package_codes rows) = length rows" by (simp add: codes)
  show "\<forall>c \<in> set (package_codes rows). 0 \<le> c" using found inv(3) by (auto simp: codes intro: ranI)
  assume ij: "i < length rows" "j < length rows"
  then have in_rows: "rows ! i \<in> set rows" "rows ! j \<in> set rows" by simp_all
  show "package_codes rows ! i = package_codes rows ! j
      \<longleftrightarrow> row_app_package_name (rows ! i) = row_app_package_name (rows ! j)"
  proof
    assume "package_codes rows ! i = package_codes rows ! j"
    then have "lookup (row_app_package_name (rows ! i)) = lookup (row_app_package_name (rows ! j))"
      using found [OF in_rows(1)] found [OF in_rows(2)] ij by (simp add: codes)
    then show "row_app_package_name (rows ! i) = row_app_package_name (rows ! j)"
      using inv(1,2) in_rows by (auto dest: inj_onD)
  qed (use ij in \<open>simp add: codes\<close>)
qed

text \<open>A table and its index describe the same events.\<close>

definition indexed :: "match_input \<Rightarrow> pipeline_row list \<Rightarrow> bool" where
  "indexed inp rows \<longleftrightarrow>
     aligned inp \<and> length (app_codes inp) = length rows \<and> length rows \<le> 2 ^ 31
     \<and> (\<forall>c \<in> set (app_codes inp). 0 \<le> c) \<and> sorted (timestamp_ns inp)"

lemma built_index_indexed:
  assumes "length rows \<le> 2 ^ 31" "sorted (map row_event_timestamp_ns rows)"
    and "build_app_event_index rows same_types other_types background_apps concurrent = Inr inp"
  shows "indexed inp rows"
  using assms package_codes_exact [OF assms(1)]
  by (auto simp: indexed_def build_app_event_index_def aligned_def Let_def)

text \<open>What a participant's slices are when every vector reaches its rows.\<close>

definition picked :: "'a list \<Rightarrow> nat list \<Rightarrow> 'a list" where
  "picked vs indices = map (\<lambda>index. vs ! index) indices"

definition picked_input :: "match_input \<Rightarrow> nat list \<Rightarrow> match_input" where
  "picked_input inp indices =
     \<lparr>app_codes = picked (app_codes inp) indices, timestamp_ns = picked (timestamp_ns inp) indices,
      resumed = picked (resumed inp) indices, same_stop = picked (same_stop inp) indices,
      other_stop = picked (other_stop inp) indices, stopped = picked (stopped inp) indices,
      background = picked (background inp) indices\<rparr>"

lemma gather_picked: "\<forall>i \<in> set is. i < length vs \<Longrightarrow> gather vs is = Inr (picked vs is)"
  by (simp add: gather_def picked_def list_all_iff)

lemma gather_input_picked:
  "aligned inp \<Longrightarrow> \<forall>i \<in> set is. i < length (app_codes inp) \<Longrightarrow> gather_input inp is = Inr (picked_input inp is)"
  by (simp add: gather_input_def picked_input_def gather_picked aligned_def)

lemma match_groups_step:
  assumes "aligned inp" "length (app_codes inp) = length rows" "length eligible = length rows"
    and "\<forall>i \<in> set is. i < length rows"
  shows "match_groups sorter inp rows eligible opts proximity_ns strategy ((p, is) # rest) mg =
     (if \<not> list_ex id (picked eligible is)
         \<and> \<not> list_ex (\<lambda>r. row_interaction_type r = activity_paused) (picked rows is)
      then match_groups sorter inp rows eligible opts proximity_ns strategy rest mg
      else
        and_then (match_app_episodes_for_one_participant sorter (picked_input inp is) (picked rows is)
                    (picked eligible is) opts proximity_ns strategy) (\<lambda>out.
          match_groups sorter inp rows eligible opts proximity_ns strategy rest (absorb out is mg)))"
  using assms by (simp add: gather_input_picked gather_picked)

lemma picked_indexed:
  assumes "indexed inp rows" "sorted_wrt (<) is" "\<forall>i \<in> set is. i < length rows"
  shows "indexed (picked_input inp is) (picked rows is)"
proof -
  have len: "length is \<le> length rows"
  proof -
    have "distinct is" using assms(2) strict_sorted_iff by blast
    then have "length is = card (set is)" by (simp add: distinct_card)
    also have "\<dots> \<le> card {..<length rows}" using assms(3) by (intro card_mono) auto
    finally show ?thesis by simp
  qed
  have ts: "length (timestamp_ns inp) = length rows" "sorted (timestamp_ns inp)" "length (app_codes inp) = length rows"
    using assms(1) by (auto simp: indexed_def aligned_def)
  have "sorted (map ((!) (timestamp_ns inp)) is)"
    using assms(2,3) ts
    by (auto simp: sorted_wrt_map intro!: sorted_wrt_mono_rel [OF _ assms(2)] sorted_nth_mono)
  moreover have "\<forall>c \<in> set (map ((!) (app_codes inp)) is). 0 \<le> c"
    using assms(1,3) ts(3) by (auto simp: indexed_def)
  ultimately show ?thesis using len assms(1) by (auto simp: indexed_def picked_input_def picked_def aligned_def)
qed

section \<open>The arms on one table\<close>

definition arm_opens :: "reconstruction_strategy \<Rightarrow> pipeline_row list \<Rightarrow> bool list \<Rightarrow> nat \<Rightarrow> bool" where
  "arm_opens strategy rows eligible i \<longleftrightarrow> eligible ! i
     \<and> \<not> (strategy \<in> {ParryTothForwardPairing, GesisStartStopRepair}
          \<and> row_app_package_name (rows ! i) = android_pseudo_package)"

definition arm_report :: "nat list \<Rightarrow> nat \<Rightarrow> matcher_output \<Rightarrow> bool" where
  "arm_report js n out \<longleftrightarrow>
     well_reported js (match_update_indices.truncate out)
     \<and> length (start_timestamps_ns out) = length (stop_start_indices out)
     \<and> (\<forall>e \<in> set (stop_event_indices out). e < n)"

lemma arm_report_adapted:
  "well_reported js out \<Longrightarrow> \<forall>e \<in> set (stop_event_indices out). e < n \<Longrightarrow> arm_report js n (whole_episodes out)"
  unfolding arm_report_def truncate_whole_episodes by (simp add: whole_episodes_def)

lemma fused_arm:
  assumes "indexed inp rows" "length eligible = length rows" "0 \<le> proximity_ns"
  shows "\<exists>out. match_app_episodes inp eligible opts proximity_ns = Inr out
    \<and> arm_report (filter (\<lambda>i. eligible ! i) [0..<length rows]) (length rows) out"
proof -
  have ok: "aligned inp" "length (app_codes inp) = length rows" "length eligible = length (app_codes inp)"
    using assms by (auto simp: indexed_def)
  have "\<exists>out. match_app_usage_update_indices_with_proximity_openers_core inp eligible opts proximity_ns = Inr out
      \<and> well_reported (openers_of inp eligible) out \<and> (\<forall>e \<in> set (stop_event_indices out). e < length rows)"
  proof (cases "proximity_ns = 0")
    case True
    let ?inp = "inp\<lparr>resumed := eligible\<rparr>"
    have "ordered_input ?inp" using assms(1) ok by (auto simp: indexed_def ordered_input_def aligned_def)
    then obtain out log ends where R: "match_app_usage_update_indices_core ?inp opts = Inr out"
        "reports_log ?inp eligible log ends (missing_indices out) out"
        "mset (log @ ends) = mset (fused_closed ?inp opts eligible never_held)"
        "mset (missing_indices out) = mset (fused_missing ?inp opts eligible never_held)"
      using match_app_usage_update_indices_core_spec [of ?inp opts] by auto
    have "mset (map fst (log @ ends)) + mset (missing_indices out) = mset (openers_of ?inp eligible)"
      using R(3,4) fused_partition [of ?inp opts eligible never_held] by (metis mset_map)
    then have "well_reported (openers_of inp eligible) out" using reports_log_well_reported [OF R(2)] by simp
    moreover have "e < length rows" if "e \<in> set (stop_event_indices out)" for e
    proof -
      have "e \<in> snd ` set (log @ ends)" using that R(2) unfolding reports_log_def by (metis list.set_map)
      then obtain j where "(j, e) \<in> set (log @ ends)" by force
      then have "(j, e) \<in> set (fused_closed ?inp opts eligible never_held)" using R(3) by (metis set_mset_mset)
      from fused_closed_valid [OF this] show ?thesis using ok by simp
    qed
    moreover have "match_app_usage_update_indices_with_proximity_openers_core inp eligible opts proximity_ns = Inr out"
      using True R(1) ok
      by (simp add: match_app_usage_update_indices_with_proximity_openers_core_def validate_lengths_aligned)
    ultimately show ?thesis by blast
  next
    case False
    let ?out = "fused_report inp opts eligible (held_open inp opts (resumed inp) proximity_ns)"
    have pin: "proximity_input inp eligible proximity_ns"
      using False assms ok by (auto simp: proximity_input_def indexed_def)
    have "e < length rows" if e: "e \<in> set (stop_event_indices ?out)" for e
    proof -
      from e obtain k where k: "k < length (stop_event_indices ?out)" "e = stop_event_indices ?out ! k"
        by (auto simp: in_set_conv_nth)
      moreover have "length (stop_event_indices ?out) = length (stop_start_indices ?out)"
        using fused_report_well_reported by (simp add: well_reported_def)
      ultimately show ?thesis
        using fused_report_justified [of k inp opts eligible] ok(2) by (simp add: close_justified_def)
    qed
    then show ?thesis using proximity_entry [OF pin] fused_report_well_reported by blast
  qed
  then obtain out where out: "match_app_usage_update_indices_with_proximity_openers_core inp eligible opts proximity_ns
        = Inr out" "well_reported (openers_of inp eligible) out" "\<forall>e \<in> set (stop_event_indices out). e < length rows"
    by blast
  then show ?thesis
    using arm_report_adapted [OF out(2,3)] ok(2) by (simp add: match_app_episodes_def adapted_def)
qed

lemma pairing_stops_in_range:
  assumes "e \<in> set (stop_event_indices (pairing_report g js))"
  shows "e < length (fp_codes g)"
proof -
  from assms obtain j where "pairing_closer g j = Some e" by (auto simp: pairing_report_def Let_def)
  then show ?thesis by (simp add: pairing_closer_Some)
qed

lemma gesis_stops_in_range:
  assumes "j < length (gs_codes g)"
  shows "(case fst (gesis_episode g timeout threshold j) of None \<Rightarrow> j | Some e \<Rightarrow> e) < length (gs_codes g)"
proof -
  define e where "e = (case fst (gesis_episode g timeout threshold j) of None \<Rightarrow> j | Some e \<Rightarrow> e)"
  define t where "t = fst (snd (gesis_episode g timeout threshold j))"
  define reason where "reason = snd (snd (gesis_episode g timeout threshold j))"
  have "gesis_tier g timeout threshold j e t reason"
    using gesis_episode_tier [OF assms] by (simp add: e_def t_def reason_def)
  then have "e < length (gs_codes g)" using assms by (cases reason) (simp_all add: gesis_nearest_stop_def)
  then show ?thesis by (simp add: e_def)
qed

lemma pairing_arm_report:
  assumes "indexed inp rows" "length eligible = length rows"
  shows "\<exists>out. pairing_arm inp rows eligible = Inr out
    \<and> arm_report (filter (arm_opens ParryTothForwardPairing rows eligible) [0..<length rows]) (length rows) out"
proof -
  obtain g where g: "g = \<lparr>fp_codes = app_codes inp, fp_timestamp_ns = timestamp_ns inp, fp_eligible = eligible,
        fp_resumed = resumed inp, fp_paused = map (of_type [activity_paused]) rows,
        fp_screen_off = map (of_type screen_stop_events) rows, fp_pseudo = pseudo_rows rows\<rparr>" by simp
  have len: "length (fp_codes g) = length rows" and al: "pairing_aligned g"
    using assms by (auto simp: g indexed_def aligned_def pairing_aligned_def pseudo_rows_def Let_def)
  have js: "pairing_openers g = filter (arm_opens ParryTothForwardPairing rows eligible) [0..<length rows]"
    unfolding len by (rule filter_cong) (simp_all add: g arm_opens_def pseudo_rows_def)
  let ?out = "pairing_report g (pairing_openers g)"
  have "pairing_arm inp rows eligible = Inr (whole_episodes ?out)"
    unfolding pairing_arm_def g [symmetric] pairing_run using al by (simp add: adapted_def)
  moreover have "arm_report (pairing_openers g) (length rows) (whole_episodes ?out)"
    using pairing_stops_in_range [of _ g] len by (intro arm_report_adapted pairing_report_well_reported) simp
  ultimately show ?thesis unfolding js by blast
qed

lemma gesis_arm_report:
  assumes "indexed inp rows" "length eligible = length rows"
  shows "\<exists>out. gesis_arm inp rows eligible = Inr out
    \<and> arm_report (filter (arm_opens GesisStartStopRepair rows eligible) [0..<length rows]) (length rows) out"
proof -
  obtain g where g: "g = \<lparr>gs_codes = app_codes inp, gs_timestamp_ns = timestamp_ns inp, gs_eligible = eligible,
        gs_classified_start = map (of_type gesis_start_events) rows,
        gs_is_stop = map (of_type gesis_stop_events) rows,
        gs_matchable = map (\<lambda>r. \<not> of_type gesis_unmatchable_stop_events r) rows, gs_pseudo = pseudo_rows rows\<rparr>" by simp
  have len: "length (gs_codes g) = length rows" and al: "gesis_aligned g"
    using assms by (auto simp: g indexed_def aligned_def gesis_aligned_def pseudo_rows_def Let_def)
  have js: "gesis_openers g = filter (arm_opens GesisStartStopRepair rows eligible) [0..<length rows]"
    unfolding len by (rule filter_cong) (simp_all add: g arm_opens_def pseudo_rows_def)
  let ?out = "gesis_report g gesis_max_timeout_ns gesis_event_threshold (gesis_openers g)"
  have "gesis_arm inp rows eligible = Inr (whole_episodes ?out)"
    unfolding gesis_arm_def g [symmetric] gesis_run using al by (simp add: adapted_def)
  moreover have "arm_report (gesis_openers g) (length rows) (whole_episodes ?out)"
  proof (rule arm_report_adapted [OF gesis_report_well_reported])
    show "\<forall>e \<in> set (stop_event_indices ?out). e < length rows"
      using gesis_stops_in_range [of _ g] len by (auto simp: gesis_report_def)
  qed
  ultimately show ?thesis unfolding js by blast
qed

lemma report_of_arm_report:
  assumes "well_reported js (match_update_indices.truncate (report_of js closes missing))"
    and "\<And>i stop reason instant. (i, stop, reason, instant) \<in> set closes \<Longrightarrow> stop < n"
  shows "arm_report js n (report_of js closes missing)"
  using assms by (auto simp: arm_report_def report_of_def)

lemma ended_by_row: "ended_by ends n i = Some e \<Longrightarrow> \<exists>j. i < j \<and> j < n \<and> ends i j = Some e"
  by (auto simp: ended_by_def first_end_Some_iff)

lemma closes_upto_row:
  "(i, e) \<in> set (closes_upto opens ends n) \<Longrightarrow> \<exists>j. i < j \<and> j < n \<and> ends i j = Some e"
  using ended_by_row [of ends n i] by (auto simp: closes_upto_def)

lemma held_lock_below: "held_lock rows i j = Some l \<Longrightarrow> i < l \<and> l < j"
proof (induction j)
  case (Suc j)
  show ?case
  proof (cases "i < j")
    case True
    then have "lock_step rows j (held_lock rows i j) = Some l" using Suc.prems by (simp add: held_lock_Suc)
    then have "held_lock rows i j = Some l \<or> l = j"
      by (cases "held_lock rows i j") (auto simp: lock_step_def split: if_splits)
    with Suc.IH True show ?thesis by auto
  next
    case False
    then show ?thesis using Suc.prems by simp
  qed
qed (simp add: held_lock_def)

lemma draxler_arm_report: "arm_report (openers_upto (opens_at elig) (length rows)) (length rows) (draxler_report rows elig)"
  using draxler_report_well_reported [of elig rows] unfolding draxler_report_def Let_def
  by (rule report_of_arm_report) (auto dest!: closes_upto_row simp: draxler_ends_def split: if_splits)

lemma morrison_arm_report: "arm_report (openers_upto (opens_at elig) (length rows)) (length rows) (morrison_report rows elig)"
  using morrison_report_well_reported [of elig rows] unfolding morrison_report_def Let_def
proof (rule report_of_arm_report)
  fix i stop reason instant
  assume "(i, stop, reason, instant) \<in> set (closes_upto (opens_at elig) (morrison_ends rows elig) (length rows)
      @ concat (map (\<lambda>i. case held_lock rows i (length rows) of None \<Rightarrow> []
          | Some l \<Rightarrow> [(i, l, ScreenLockedPastTimeout, Some (row_at rows l))])
          (filter (\<lambda>i. ended_by (morrison_ends rows elig) (length rows) i = None)
             (openers_upto (opens_at elig) (length rows)))))"
  then consider "(i, stop, reason, instant) \<in> set (closes_upto (opens_at elig) (morrison_ends rows elig) (length rows))"
    | "held_lock rows i (length rows) = Some stop"
    by (auto split: option.splits)
  then show "stop < length rows"
  proof cases
    case 1
    from closes_upto_row [OF this] obtain j where "j < length rows" "morrison_ends rows elig i j = Some (stop, reason, instant)"
      by blast
    then show ?thesis
      by (auto simp: morrison_ends_def Let_def split: option.splits if_splits dest!: held_lock_below)
  next
    case 2
    then show ?thesis using held_lock_below by blast
  qed
qed

lemma fifo_close_row: "(j, stop, reason, instant) \<in> set (fifo_closes rows elig n) \<Longrightarrow> stop < n"
proof (induction n)
  case (Suc n)
  from Suc.prems show ?case
    by (cases rule: fifo_cases) (use Suc.IH in auto)
qed simp

lemma background_arm_report:
  "arm_report (openers_upto (opens_at elig) (length rows)) (length rows) (background_report rows elig)"
  using background_report_well_reported [of elig rows] unfolding background_report_def Let_def
  by (rule report_of_arm_report) (rule fifo_close_row)

text \<open>Every arm but the two that read more than the matcher's index.\<close>

definition indexed_arm :: "reconstruction_strategy \<Rightarrow> bool" where
  "indexed_arm strategy \<longleftrightarrow> strategy \<noteq> EyesComplement \<and> strategy \<noteq> Schoedel2026AppWithinScreenProseV1"

lemma one_participant_report:
  assumes "indexed inp rows" "length eligible = length rows" "0 \<le> proximity_ns" "indexed_arm strategy"
  shows "\<exists>out. match_app_episodes_for_one_participant sorter inp rows eligible opts proximity_ns strategy = Inr out
    \<and> arm_report (filter (arm_opens strategy rows eligible) [0..<length rows]) (length rows) out"
proof -
  have plain: "filter (arm_opens s rows eligible) [0..<length rows] = filter (\<lambda>i. eligible ! i) [0..<length rows]"
    "filter (arm_opens s rows eligible) [0..<length rows] = openers_upto (opens_at eligible) (length rows)"
    if "s \<notin> {ParryTothForwardPairing, GesisStartStopRepair}" for s
    using that by (auto simp: arm_opens_def openers_upto_def opens_at_def intro!: filter_cong)
  show ?thesis
  proof (cases strategy)
    case FusedMatcher
    then show ?thesis using fused_arm [OF assms(1-3)] plain(1) by simp
  next
    case ParryTothForwardPairing
    then show ?thesis using pairing_arm_report [OF assms(1,2)] by simp
  next
    case GesisStartStopRepair
    then show ?thesis using gesis_arm_report [OF assms(1,2)] by simp
  next
    case ForegroundBackgroundPairing
    then show ?thesis using background_arm_report plain(2) by (simp add: background_run)
  next
    case DraxlerInterruptionAware
    then show ?thesis using draxler_arm_report plain(2) by (simp add: draxler_run)
  next
    case MorrisonLockTolerant
    then show ?thesis using morrison_arm_report plain(2) by (simp add: morrison_run)
  qed (use assms(4) in \<open>simp_all add: indexed_arm_def\<close>)
qed

end
