(* ===== verification/Reconstruction_Properties.thy ===== *)
theory Reconstruction_Properties
  imports Reconstruction_Arms
begin

text \<open>
  The properties of the reconstruction stage: the index of app events, what ends an episode under the rules
  of Draxler and Morrison, the queues of the pairing rule, and the dispatch over several participants: every
  opener of every participant is reported once and no episode ends on another participant's row.
\<close>

section \<open>The participants' rows\<close>

definition rows_of :: "pipeline_row list \<Rightarrow> nat \<Rightarrow> string \<Rightarrow> nat list" where
  "rows_of rows n p = filter (\<lambda>i. row_participant_id (rows ! i) = p) [0..<n]"

lemma participant_groups_exact:
  "distinct (map fst (participant_groups rows)) \<and> (\<forall>p. queue_of (participant_groups rows) p = rows_of rows (length rows) p)"
proof -
  let ?step = "\<lambda>index. AList.map_default (row_participant_id (rows ! index)) [index] (\<lambda>is. is @ [index])"
  have "distinct (map fst (fold ?step [0..<n] [])) \<and> (\<forall>p. queue_of (fold ?step [0..<n] []) p = rows_of rows n p)" for n
  proof (induction n)
    case (Suc n)
    then show ?case unfolding fold_upt_Suc
      by (auto simp: queue_of_map_default rows_of_def intro: distinct_map_default)
  qed (simp add: queue_of_def rows_of_def)
  then show ?thesis unfolding participant_groups_def by blast
qed

lemma group_rows:
  assumes "(p, is) \<in> set (participant_groups rows)"
  shows "is = rows_of rows (length rows) p"
  using participant_groups_exact [of rows] queue_of_mem [OF _ assms] by simp

lemma groups_in_rows:
  "\<forall>(p, is) \<in> set (participant_groups rows). sorted_wrt (<) is \<and> (\<forall>i \<in> set is. i < length rows)"
proof (intro ballI, clarify, intro conjI)
  fix p "is" assume "(p, is) \<in> set (participant_groups rows)"
  note g = group_rows [OF this]
  show "sorted_wrt (<) is" by (simp add: g rows_of_def sorted_wrt_filter)
  show "\<forall>i \<in> set is. i < length rows" by (simp add: g rows_of_def)
qed

lemma groups_cover: "mset (concat (map snd (participant_groups rows))) = mset [0..<length rows]"
proof -
  let ?gs = "participant_groups rows"
  have keys: "distinct (map fst ?gs)" and q: "\<And>p. queue_of ?gs p = rows_of rows (length rows) p"
    using participant_groups_exact by blast+
  have one: "distinct (queue_of ?gs p)" for p by (simp add: q rows_of_def)
  have apart: "p = p'" if "j \<in> set (queue_of ?gs p)" "j \<in> set (queue_of ?gs p')" for p p' j
    using that by (simp add: q rows_of_def)
  have "distinct (concat (map snd ?gs))" by (rule distinct_queues(1) [OF keys one apart])
  moreover have "set (concat (map snd ?gs)) = (\<Union>p. set (rows_of rows (length rows) p))"
    unfolding q [symmetric] by (rule distinct_queues(2) [OF keys one apart])
  moreover have "(\<Union>p. set (rows_of rows (length rows) p)) = set [0..<length rows]" by (auto simp: rows_of_def)
  ultimately show ?thesis by (metis distinct_upt set_eq_iff_mset_eq_distinct)
qed

section \<open>Absorbing a participant's report\<close>

text \<open>What the merge keeps: which openers were reported, and that every close stays in its group.\<close>

definition merged_openers :: "merged_output \<Rightarrow> nat multiset" where
  "merged_openers mg = mset (map fst (mg_closed mg)) + mset (map fst (mg_missing mg))"

definition within_groups :: "(string \<times> nat list) list \<Rightarrow> merged_episode list \<Rightarrow> bool" where
  "within_groups groups entries \<longleftrightarrow>
     (\<forall>(start, stop, _) \<in> set entries. \<exists>(p, is) \<in> set groups. start \<in> set is \<and> stop \<in> set is)"

lemma gathered_openers:
  "map ((!) is) (filter (arm_opens strategy (picked rows is) (picked eligible is)) [0..<length is])
    = filter (arm_opens strategy rows eligible) is"
proof -
  have "filter (arm_opens strategy (picked rows is) (picked eligible is)) [0..<length is]
      = filter (arm_opens strategy rows eligible \<circ> (!) is) [0..<length is]"
    by (rule filter_cong) (simp_all add: arm_opens_def picked_def)
  then have "map ((!) is) (filter (arm_opens strategy (picked rows is) (picked eligible is)) [0..<length is])
      = filter (arm_opens strategy rows eligible) (map ((!) is) [0..<length is])"
    by (simp add: filter_map)
  then show ?thesis by (simp add: map_nth)
qed

lemma absorb_report:
  assumes "arm_report js (length is) out" "\<forall>j \<in> set js. j < length is"
  shows "mg_starts (absorb out is mg) = mg_starts mg @ map ((!) is) js"
    and "merged_openers (absorb out is mg) = merged_openers mg + mset (map ((!) is) js)"
    and "\<forall>(start, stop, _) \<in> set (map (closed_at out is) [0..<length (stop_start_indices out)]).
      start \<in> set is \<and> stop \<in> set is"
proof -
  have wr: "start_indices out = js" "mset (stop_start_indices out) + mset (missing_indices out) = mset js"
      "length (stop_event_indices out) = length (stop_start_indices out)"
      "length (missing_reasons out) = length (missing_indices out)"
      "\<forall>e \<in> set (stop_event_indices out). e < length is"
    using assms(1) by (simp_all add: arm_report_def well_reported_def match_update_indices.truncate_def)
  show "mg_starts (absorb out is mg) = mg_starts mg @ map ((!) is) js" by (simp add: absorb_def wr(1))
  have closed: "map fst (map (closed_at out is) [0..<length (stop_start_indices out)]) = map ((!) is) (stop_start_indices out)"
    by (rule nth_equalityI) (simp_all add: closed_at_def)
  have missing: "map fst (map (\<lambda>(i, reason). (is ! i, reason)) (zip (missing_indices out) (missing_reasons out)))
      = map ((!) is) (missing_indices out)"
    by (rule nth_equalityI) (simp_all add: wr(4))
  have "merged_openers (absorb out is mg)
      = merged_openers mg + image_mset ((!) is) (mset (stop_start_indices out) + mset (missing_indices out))"
    using closed missing by (simp add: merged_openers_def absorb_def mset_map ac_simps)
  then show "merged_openers (absorb out is mg) = merged_openers mg + mset (map ((!) is) js)"
    unfolding wr(2) by simp
  have starts: "\<forall>s \<in> set (stop_start_indices out). s < length is"
    using wr(2) assms(2) by (metis UnCI mset_append set_append set_mset_mset)
  show "\<forall>(start, stop, _) \<in> set (map (closed_at out is) [0..<length (stop_start_indices out)]).
      start \<in> set is \<and> stop \<in> set is"
    using starts wr(3,5) by (auto simp: closed_at_def)
qed

lemma match_groups_report:
  assumes ok: "indexed inp rows" "length eligible = length rows" "0 \<le> proximity_ns" "indexed_arm strategy"
    and "\<forall>(p, is) \<in> set groups. sorted_wrt (<) is \<and> (\<forall>i \<in> set is. i < length rows)"
  shows "\<exists>mg' new. match_groups sorter inp rows eligible opts proximity_ns strategy groups mg = Inr mg'
    \<and> mset (mg_starts mg') = mset (mg_starts mg) + mset (filter (arm_opens strategy rows eligible) (concat (map snd groups)))
    \<and> merged_openers mg' = merged_openers mg + mset (filter (arm_opens strategy rows eligible) (concat (map snd groups)))
    \<and> mg_closed mg' = mg_closed mg @ new \<and> within_groups groups new"
  using assms(5)
proof (induction groups arbitrary: mg)
  case Nil
  show ?case by (simp add: within_groups_def)
next
  case (Cons g groups)
  obtain p "is" where g: "g = (p, is)" by (cases g)
  have range: "sorted_wrt (<) is" "\<forall>i \<in> set is. i < length rows" using Cons.prems g by auto
  let ?P = "arm_opens strategy rows eligible"
  show ?case
  proof (cases "\<not> list_ex id (picked eligible is)
      \<and> \<not> list_ex (\<lambda>r. row_interaction_type r = activity_paused) (picked rows is)")
    case True
    have "filter ?P is = []"
      using True by (auto simp: filter_empty_conv list_ex_iff picked_def arm_opens_def)
    moreover obtain mg' new where IH: "match_groups sorter inp rows eligible opts proximity_ns strategy groups mg = Inr mg'"
        "mset (mg_starts mg') = mset (mg_starts mg) + mset (filter ?P (concat (map snd groups)))"
        "merged_openers mg' = merged_openers mg + mset (filter ?P (concat (map snd groups)))"
        "mg_closed mg' = mg_closed mg @ new" "within_groups groups new"
      using Cons.IH [of mg] Cons.prems by auto
    moreover have "within_groups (g # groups) new" using IH(5) by (fastforce simp: within_groups_def)
    moreover have "match_groups sorter inp rows eligible opts proximity_ns strategy (g # groups) mg = Inr mg'"
      using True IH(1) match_groups_step [OF _ _ ok(2) range(2), of inp] ok(1) by (simp add: g indexed_def del: match_groups.simps)
    ultimately show ?thesis by (intro exI [of _ mg'] exI [of _ new]) (simp add: g)
  next
    case False
    let ?js = "filter (arm_opens strategy (picked rows is) (picked eligible is)) [0..<length is]"
    have "length (picked rows is) = length is" "length (picked eligible is) = length is" by (simp_all add: picked_def)
    then obtain out where out: "match_app_episodes_for_one_participant sorter (picked_input inp is) (picked rows is)
          (picked eligible is) opts proximity_ns strategy = Inr out" "arm_report ?js (length is) out"
      using one_participant_report [OF picked_indexed [OF ok(1) range], of "picked eligible is" proximity_ns strategy sorter opts]
        ok(3,4) by auto
    note A = absorb_report [OF out(2), unfolded gathered_openers, simplified]
    obtain mg' new where IH: "match_groups sorter inp rows eligible opts proximity_ns strategy groups (absorb out is mg) = Inr mg'"
        "mset (mg_starts mg') = mset (mg_starts (absorb out is mg)) + mset (filter ?P (concat (map snd groups)))"
        "merged_openers mg' = merged_openers (absorb out is mg) + mset (filter ?P (concat (map snd groups)))"
        "mg_closed mg' = mg_closed (absorb out is mg) @ new" "within_groups groups new"
      using Cons.IH [of "absorb out is mg"] Cons.prems by auto
    let ?new = "map (closed_at out is) [0..<length (stop_start_indices out)] @ new"
    have "mg_closed mg' = mg_closed mg @ ?new" using IH(4) by (simp add: absorb_def)
    moreover have "within_groups (g # groups) ?new"
      using A(3) IH(5) unfolding within_groups_def g by fastforce
    moreover have "match_groups sorter inp rows eligible opts proximity_ns strategy (g # groups) mg = Inr mg'"
      using False out(1) IH(1) match_groups_step [OF _ _ ok(2) range(2), of inp] ok(1)
      by (auto simp: g indexed_def simp del: match_groups.simps)
    moreover have "mset (mg_starts mg') = mset (mg_starts mg) + mset (filter ?P (concat (map snd (g # groups))))"
      using IH(2) A(1) by (simp add: g ac_simps)
    moreover have "merged_openers mg' = merged_openers mg + mset (filter ?P (concat (map snd (g # groups))))"
      using IH(3) A(2) by (simp add: g ac_simps)
    ultimately show ?thesis by blast
  qed
qed

section \<open>The dispatch\<close>

definition usage_signal :: "match_input \<Rightarrow> pipeline_row list \<Rightarrow> reconstruction_strategy \<Rightarrow> opener_set \<Rightarrow> bool" where
  "usage_signal inp rows strategy openers \<longleftrightarrow>
     list_ex (\<lambda>r. row_interaction_type r = activity_paused) rows
     \<or> (if openers = StrategyDefined then list_ex id (resumed inp) else list_ex (eligible_row openers strategy) rows)"

text \<open>A report of every opener of the table, no close leaving its participant.\<close>

definition participants_report :: "pipeline_row list \<Rightarrow> nat list \<Rightarrow> matcher_output \<Rightarrow> bool" where
  "participants_report rows js out \<longleftrightarrow>
     start_indices out = js
     \<and> mset (stop_start_indices out) + mset (missing_indices out) = mset js
     \<and> length (stop_event_indices out) = length (stop_start_indices out)
     \<and> (\<forall>k < length (stop_start_indices out).
          stop_event_indices out ! k < length rows
          \<and> row_participant_id (rows ! (stop_start_indices out ! k)) = row_participant_id (rows ! (stop_event_indices out ! k)))"

lemma participants_report_finalize [simp]:
  "participants_report rows js (finalize_opener_output rows openers evidence out) = participants_report rows js out"
  by (simp add: participants_report_def finalize_opener_output_def Let_def)

lemma single_participant:
  assumes "length (participant_groups rows) \<le> 1" "i < length rows" "j < length rows"
  shows "row_participant_id (rows ! i) = row_participant_id (rows ! j)"
proof -
  let ?gs = "participant_groups rows"
  have found: "\<exists>q. (row_participant_id (rows ! k), q) \<in> set ?gs" if "k < length rows" for k
  proof -
    have "k \<in> set (queue_of ?gs (row_participant_id (rows ! k)))"
      using participant_groups_exact [of rows] that by (simp add: rows_of_def)
    then obtain q where "map_of ?gs (row_participant_id (rows ! k)) = Some q"
      by (cases "map_of ?gs (row_participant_id (rows ! k))") (simp_all add: queue_of_def)
    then show ?thesis by (blast dest: map_of_SomeD)
  qed
  obtain q q' where "(row_participant_id (rows ! i), q) \<in> set ?gs" "(row_participant_id (rows ! j), q') \<in> set ?gs"
    using found assms(2,3) by blast
  moreover have "x = y" if "x \<in> set ?gs" "y \<in> set ?gs" for x y
    using assms(1) that by (cases ?gs) auto
  ultimately show ?thesis by blast
qed

lemma arm_report_participants:
  assumes "arm_report js (length rows) out" "length (participant_groups rows) \<le> 1" "\<forall>j \<in> set js. j < length rows"
  shows "participants_report rows js out"
proof -
  have wr: "start_indices out = js" "mset (stop_start_indices out) + mset (missing_indices out) = mset js"
      "length (stop_event_indices out) = length (stop_start_indices out)"
      "\<forall>e \<in> set (stop_event_indices out). e < length rows"
    using assms(1) by (simp_all add: arm_report_def well_reported_def match_update_indices.truncate_def)
  have "\<forall>s \<in> set (stop_start_indices out). s < length rows"
    using wr(2) assms(3) by (metis UnCI mset_append set_append set_mset_mset)
  then show ?thesis
    using wr single_participant [OF assms(2)] by (auto simp: participants_report_def)
qed

lemma merged_participants:
  assumes "mset (mg_starts mg) = mset (filter P [0..<length rows])"
    and "merged_openers mg = mset (filter P [0..<length rows])"
    and "within_groups (participant_groups rows) (mg_closed mg)"
  shows "participants_report rows (filter P [0..<length rows]) (into_output mg)"
proof -
  let ?closed = "sort_key fst (mg_closed mg)" and ?out = "into_output mg"
  have "sort (mg_starts mg) = filter P [0..<length rows]"
    using assms(1) by (intro properties_for_sort) (simp_all add: sorted_wrt_filter)
  moreover have "mset (map fst ?closed) + mset (map fst (sort_key fst (mg_missing mg))) = mset (filter P [0..<length rows])"
    using assms(2) by (simp add: merged_openers_def)
  moreover have "stop_event_indices ?out ! k < length rows
      \<and> row_participant_id (rows ! (stop_start_indices ?out ! k)) = row_participant_id (rows ! (stop_event_indices ?out ! k))"
    if k: "k < length ?closed" for k
  proof -
    obtain start stop rest where entry: "?closed ! k = (start, stop, rest)" by (cases "?closed ! k") auto
    have "?closed ! k \<in> set (mg_closed mg)" using nth_mem [OF k] by simp
    then obtain p "is" where group: "(p, is) \<in> set (participant_groups rows)" "start \<in> set is" "stop \<in> set is"
      using assms(3) unfolding entry within_groups_def by fastforce
    then have "start < length rows" "stop < length rows" "row_participant_id (rows ! start) = p"
        "row_participant_id (rows ! stop) = p"
      using group_rows [OF group(1)] by (auto simp: rows_of_def)
    then show ?thesis using k entry by (simp add: into_output_def Let_def case_prod_beta)
  qed
  ultimately show ?thesis by (simp add: participants_report_def into_output_def Let_def del: set_sort)
qed

lemma indexed_arm_executable: "indexed_arm strategy \<Longrightarrow> is_executable (applicability openers strategy)"
  by (cases openers) (auto simp: indexed_arm_def applicability_def is_executable_def)

lemma dispatch_report:
  assumes "indexed inp rows" "0 \<le> proximity_ns" "indexed_arm strategy" "usage_signal inp rows strategy openers"
  shows "\<exists>out. match_app_episodes_with_strategy sorter inp rows strategy openers opts proximity_ns = Inr out
    \<and> participants_report rows
        (filter (arm_opens strategy rows (map (eligible_row openers strategy) rows)) [0..<length rows]) out"
proof -
  let ?eligible = "map (eligible_row openers strategy) rows"
  let ?P = "arm_opens strategy rows ?eligible" and ?gs = "participant_groups rows"
  let ?finish = "finalize_opener_output rows openers (selected_evidence openers strategy rows)"
  have len: "length (app_codes inp) = length rows" using assms(1) by (simp add: indexed_def)
  have signal: "if openers = StrategyDefined then list_ex id (resumed inp) \<or> list_ex (\<lambda>r. row_interaction_type r = activity_paused) rows
      else list_ex id ?eligible \<or> list_ex (\<lambda>r. row_interaction_type r = activity_paused) rows"
    using assms(4) by (auto simp: usage_signal_def list_ex_iff)
  show ?thesis
  proof (cases "length ?gs \<le> 1")
    case True
    obtain out where out: "match_app_episodes_for_one_participant sorter inp rows ?eligible opts proximity_ns strategy = Inr out"
        "arm_report (filter ?P [0..<length rows]) (length rows) out"
      using one_participant_report [OF assms(1) _ assms(2,3), of ?eligible sorter opts] by auto
    then have "match_app_episodes_with_strategy sorter inp rows strategy openers opts proximity_ns = Inr (?finish out)"
      using True len signal indexed_arm_executable [OF assms(3)]
      by (simp add: match_app_episodes_with_strategy_def Let_def)
    moreover have "participants_report rows (filter ?P [0..<length rows]) out"
      using out(2) True by (rule arm_report_participants) simp
    ultimately show ?thesis by simp
  next
    case False
    note groups = groups_in_rows [of rows]
    obtain mg new where mg: "match_groups sorter inp rows ?eligible opts proximity_ns strategy ?gs empty_merged = Inr mg"
        "mset (mg_starts mg) = mset (mg_starts empty_merged) + mset (filter ?P (concat (map snd ?gs)))"
        "merged_openers mg = merged_openers empty_merged + mset (filter ?P (concat (map snd ?gs)))"
        "mg_closed mg = mg_closed empty_merged @ new" "within_groups ?gs new"
      using match_groups_report [OF assms(1) _ assms(2,3) groups, of ?eligible sorter opts empty_merged] by auto
    have "mset (filter ?P (concat (map snd ?gs))) = mset (filter ?P [0..<length rows])"
      using groups_cover [of rows] by (metis mset_filter)
    then have "participants_report rows (filter ?P [0..<length rows]) (into_output mg)"
      using mg by (intro merged_participants) (simp_all add: empty_merged_def merged_openers_def)
    moreover have "match_app_episodes_with_strategy sorter inp rows strategy openers opts proximity_ns
        = Inr (?finish (into_output mg))"
      using False mg(1) len signal indexed_arm_executable [OF assms(3)]
      by (simp add: match_app_episodes_with_strategy_def Let_def)
    ultimately show ?thesis by simp
  qed
qed

section \<open>Properties\<close>

text \<open>C2: the dispatch over participants. For every rule that works on the matcher's index and any opener set,
  a table without a usage signal is refused; any other gives a report in which the starts are exactly the
  eligible rows of all participants in stream order (less the system pseudo-package for the two rules that
  refuse it), every one of them is closed or missing exactly once, and no episode ends on a row of another
  participant.\<close>

theorem every_participant_reported:
  assumes "length rows \<le> 2 ^ 31" "sorted (map row_event_timestamp_ns rows)"
    and "build_app_event_index rows same_types other_types background_apps concurrent = Inr inp"
    and "0 \<le> proximity_ns" "indexed_arm strategy"
  shows "if usage_signal inp rows strategy openers
    then \<exists>out. match_app_episodes_with_strategy sorter inp rows strategy openers opts proximity_ns = Inr out
      \<and> participants_report rows
          (filter (arm_opens strategy rows (map (eligible_row openers strategy) rows)) [0..<length rows]) out
    else match_app_episodes_with_strategy sorter inp rows strategy openers opts proximity_ns = Inl no_usage_error"
proof (cases "usage_signal inp rows strategy openers")
  case True
  with dispatch_report [OF built_index_indexed [OF assms(1-3)] assms(4,5) True, of sorter opts] show ?thesis by simp
next
  case False
  have "length (app_codes inp) = length rows"
    using built_index_indexed [OF assms(1-3)] by (simp add: indexed_def)
  moreover have "\<not> list_ex id (map (eligible_row openers strategy) rows)" if "openers \<noteq> StrategyDefined"
    using False that by (auto simp: usage_signal_def list_ex_iff)
  moreover have "\<not> list_ex id (resumed inp)" if "openers = StrategyDefined"
    using False that by (auto simp: usage_signal_def)
  moreover have "\<not> list_ex (\<lambda>r. row_interaction_type r = activity_paused) rows"
    using False by (simp add: usage_signal_def)
  ultimately show ?thesis
    using False indexed_arm_executable [OF assms(5)] by (simp add: match_app_episodes_with_strategy_def Let_def)
qed

text \<open>Two people using the same app, each start before the other's stop.\<close>

definition sample_two :: "pipeline_row list" where
  "sample_two =
     [event_row ''P'' ''Activity Resumed'' ''a'' 10 1, event_row ''Q'' ''Activity Resumed'' ''a'' 20 2,
      event_row ''Q'' ''Activity Paused'' ''a'' 30 3, event_row ''P'' ''Activity Paused'' ''a'' 40 4]"

theorem every_participant_reported_witness:
  "\<exists>inp out. build_app_event_index sample_two [] [] {} False = Inr inp
    \<and> match_app_episodes_with_strategy id inp sample_two DraxlerInterruptionAware StrategyDefined
        \<lparr>allow_stop_event_reuse = False, use_activity_stopped_as_fallback = False, apply_threshold_to_fallback = False,
         long_duration_threshold_ns = 100\<rparr> 0 = Inr out
    \<and> participants_report sample_two
        (filter (arm_opens DraxlerInterruptionAware sample_two
           (map (eligible_row StrategyDefined DraxlerInterruptionAware) sample_two)) [0..<length sample_two]) out"
proof -
  obtain inp where inp: "build_app_event_index sample_two [] [] {} False = Inr inp"
    by (simp add: build_app_event_index_def Let_def)
  have "usage_signal inp sample_two DraxlerInterruptionAware StrategyDefined"
    by (simp add: usage_signal_def sample_two_def event_row_def activity_paused_def)
  with every_participant_reported [OF _ _ inp, of 0 DraxlerInterruptionAware StrategyDefined id
      "\<lparr>allow_stop_event_reuse = False, use_activity_stopped_as_fallback = False, apply_threshold_to_fallback = False,
         long_duration_threshold_ns = 100\<rparr>"] inp
  show ?thesis by (simp add: indexed_arm_def sample_two_def event_row_def)
qed

text \<open>C34: the index numbers packages faithfully: two rows have the same code exactly when they have the same
  package, every code is non-negative, and the seven vectors have one entry per row.\<close>

theorem app_index_codes_packages:
  assumes "length rows \<le> 2 ^ 31"
  shows "\<exists>inp. build_app_event_index rows same_types other_types background_apps concurrent = Inr inp
    \<and> aligned inp \<and> length (app_codes inp) = length rows \<and> (\<forall>c \<in> set (app_codes inp). 0 \<le> c)
    \<and> (\<forall>i < length rows. \<forall>j < length rows.
         app_codes inp ! i = app_codes inp ! j \<longleftrightarrow> row_app_package_name (rows ! i) = row_app_package_name (rows ! j))"
  using package_codes_exact [OF assms] by (auto simp: build_app_event_index_def Let_def aligned_def)

theorem app_index_codes_packages_witness:
  "\<exists>inp. build_app_event_index sample_two [] [] {} False = Inr inp \<and> app_codes inp ! 0 = app_codes inp ! 3"
proof -
  have "length sample_two \<le> 2 ^ 31" by (simp add: sample_two_def)
  from app_index_codes_packages [OF this, of "[]" "[]" "{}" False]
  obtain inp where "build_app_event_index sample_two [] [] {} False = Inr inp"
      "\<forall>i < length sample_two. \<forall>j < length sample_two.
         app_codes inp ! i = app_codes inp ! j
           \<longleftrightarrow> row_app_package_name (sample_two ! i) = row_app_package_name (sample_two ! j)"
    by blast
  moreover have "row_app_package_name (sample_two ! 0) = row_app_package_name (sample_two ! 3)" "length sample_two = 4"
    by (simp_all add: sample_two_def event_row_def)
  ultimately have "app_codes inp ! 0 = app_codes inp ! 3" by simp
  with \<open>build_app_event_index sample_two [] [] {} False = Inr inp\<close> show ?thesis by blast
qed

section \<open>The rules\<close>

text \<open>The end of an episode: at the first row of the stream after its start that ends it.\<close>

definition first_ended :: "(nat \<Rightarrow> nat \<Rightarrow> episode_end option) \<Rightarrow> nat \<Rightarrow> nat \<Rightarrow> episode_end \<Rightarrow> bool" where
  "first_ended ends n i e \<longleftrightarrow>
     (\<exists>j. i < j \<and> j < n \<and> ends i j = Some e \<and> (\<forall>k. i < k \<and> k < j \<longrightarrow> ends i k = None))"

definition never_ended :: "(nat \<Rightarrow> nat \<Rightarrow> episode_end option) \<Rightarrow> nat \<Rightarrow> nat \<Rightarrow> bool" where
  "never_ended ends n i \<longleftrightarrow> (\<forall>k. i < k \<and> k < n \<longrightarrow> ends i k = None)"

lemma ended_by_iff:
  "ended_by ends n i = Some e \<longleftrightarrow> first_ended ends n i e"
  "ended_by ends n i = None \<longleftrightarrow> never_ended ends n i"
  by (auto simp: ended_by_def first_end_Some_iff first_ended_def first_end_None_iff never_ended_def Suc_le_eq)

lemma closes_upto_iff:
  "(i, e) \<in> set (closes_upto opens ends n) \<longleftrightarrow> i < n \<and> opens i \<and> first_ended ends n i e"
proof -
  have "(i, e) \<in> set (closes_upto opens ends n) \<longleftrightarrow> i < n \<and> opens i \<and> ended_by ends n i = Some e"
    by (cases "ended_by ends n i") (auto simp: closes_upto_def openers_upto_def image_iff)
  then show ?thesis by (simp add: ended_by_iff)
qed

text \<open>C31: under Draxler's rule every eligible row starts an episode, and the episode ends at the first later row
  that ends it by the tests of \<open>draxler_ends\<close> (in this order: a silence of more than ten minutes before the row,
  which ends it at the last event seen; a new opener; the pause of its package; the screen going off), or has no
  end when no later row does.\<close>

theorem draxler_ends_first:
  "\<exists>out. draxler_episodes rows elig = Inr out
    \<and> start_indices out = openers_upto (opens_at elig) (length rows)
    \<and> (\<forall>i e. (i, e) \<in> set (reported_closes out)
         \<longleftrightarrow> i < length rows \<and> opens_at elig i \<and> first_ended (draxler_ends rows elig) (length rows) i e)
    \<and> (\<forall>i. i \<in> set (missing_indices out)
         \<longleftrightarrow> i < length rows \<and> opens_at elig i \<and> never_ended (draxler_ends rows elig) (length rows) i)"
  unfolding draxler_run
  by (auto simp: draxler_report_def Let_def closes_upto_iff openers_upto_def simp flip: ended_by_iff(2))

text \<open>C32: under Morrison's rule a screen-off ends the episode only when the screen stays off for thirty seconds:
  every eligible row starts an episode, and it ends at the first later row that ends it by the tests of
  \<open>morrison_ends\<close> (a lock held for thirty seconds, which ends it at the screen-off; a new opener; the pause of
  its package); with no such row it ends at a lock still held when the stream ends, and has no end otherwise.\<close>

theorem morrison_ends_first:
  "\<exists>out. morrison_episodes rows elig = Inr out
    \<and> start_indices out = openers_upto (opens_at elig) (length rows)
    \<and> (\<forall>i e. (i, e) \<in> set (reported_closes out)
         \<longleftrightarrow> i < length rows \<and> opens_at elig i
           \<and> (first_ended (morrison_ends rows elig) (length rows) i e
              \<or> never_ended (morrison_ends rows elig) (length rows) i
                \<and> (\<exists>l. held_lock rows i (length rows) = Some l \<and> e = (l, ScreenLockedPastTimeout, Some (row_at rows l)))))
    \<and> (\<forall>i. i \<in> set (missing_indices out)
         \<longleftrightarrow> i < length rows \<and> opens_at elig i \<and> never_ended (morrison_ends rows elig) (length rows) i
           \<and> held_lock rows i (length rows) = None)"
proof -
  let ?n = "length rows" and ?out = "morrison_report rows elig"
  have closes: "(i, e) \<in> set (reported_closes ?out)
      \<longleftrightarrow> i < ?n \<and> opens_at elig i
        \<and> (first_ended (morrison_ends rows elig) ?n i e
           \<or> never_ended (morrison_ends rows elig) ?n i
             \<and> (\<exists>l. held_lock rows i ?n = Some l \<and> e = (l, ScreenLockedPastTimeout, Some (row_at rows l))))" for i e
    by (auto simp: morrison_report_def Let_def closes_upto_iff openers_upto_def ended_by_iff split: option.splits)
  have "i \<in> set (missing_indices ?out)
      \<longleftrightarrow> i < ?n \<and> opens_at elig i \<and> never_ended (morrison_ends rows elig) ?n i \<and> held_lock rows i ?n = None" for i
    by (auto simp: morrison_report_def Let_def openers_upto_def ended_by_iff)
  moreover have "start_indices ?out = openers_upto (opens_at elig) ?n" by (simp add: morrison_report_def Let_def)
  ultimately show ?thesis unfolding morrison_run using closes by blast
qed

text \<open>The lock that is held before a row: the first screen-off since the episode or the last screen-on.\<close>

definition screen_off_at :: "pipeline_row list \<Rightarrow> nat \<Rightarrow> bool" where
  "screen_off_at rows k \<longleftrightarrow> row_interaction_type (rows ! k) \<in> set screen_stop_events"

definition screen_on_at :: "pipeline_row list \<Rightarrow> nat \<Rightarrow> bool" where
  "screen_on_at rows k \<longleftrightarrow> row_interaction_type (rows ! k) \<in> set screen_start_events"

lemma held_lock_exact:
  "case held_lock rows i j of
     None \<Rightarrow> \<forall>k. i < k \<and> k < j \<and> screen_off_at rows k \<longrightarrow> (\<exists>m. k < m \<and> m < j \<and> screen_on_at rows m)
   | Some l \<Rightarrow> i < l \<and> l < j \<and> screen_off_at rows l \<and> (\<forall>m. l < m \<and> m < j \<longrightarrow> \<not> screen_on_at rows m)
       \<and> (\<forall>k. i < k \<and> k < l \<and> screen_off_at rows k \<longrightarrow> (\<exists>m. k < m \<and> m < l \<and> screen_on_at rows m))"
proof (induction j)
  case (Suc j)
  show ?case
  proof (cases "i < j")
    case True
    have on_off: "\<not> (screen_on_at rows j \<and> screen_off_at rows j)"
      using kinds_apart(3) by (auto simp: screen_on_at_def screen_off_at_def)
    have step: "held_lock rows i (Suc j) = (case held_lock rows i j of
        Some l \<Rightarrow> if screen_on_at rows j then None else Some l
      | None \<Rightarrow> if screen_off_at rows j then Some j else None)"
      using True by (simp add: held_lock_Suc lock_step_def screen_on_at_def screen_off_at_def split: option.split)
    show ?thesis
    proof (cases "held_lock rows i j")
      case None
      with Suc.IH have IH: "\<forall>k. i < k \<and> k < j \<and> screen_off_at rows k \<longrightarrow> (\<exists>m. k < m \<and> m < j \<and> screen_on_at rows m)" by simp
      show ?thesis
      proof (cases "screen_off_at rows j")
        case off: True
        then show ?thesis using IH True None unfolding step by (auto simp: less_Suc_eq)
      next
        case False
        then have "\<forall>k. i < k \<and> k < Suc j \<and> screen_off_at rows k \<longrightarrow> (\<exists>m. k < m \<and> m < Suc j \<and> screen_on_at rows m)"
          using IH by (metis less_Suc_eq)
        then show ?thesis using None False unfolding step by simp
      qed
    next
      case (Some l)
      with Suc.IH have IH: "i < l" "l < j" "screen_off_at rows l" "\<forall>m. l < m \<and> m < j \<longrightarrow> \<not> screen_on_at rows m"
        "\<forall>k. i < k \<and> k < l \<and> screen_off_at rows k \<longrightarrow> (\<exists>m. k < m \<and> m < l \<and> screen_on_at rows m)" by simp_all
      show ?thesis
      proof (cases "screen_on_at rows j")
        case on: True
        have "\<exists>m. k < m \<and> m < Suc j \<and> screen_on_at rows m" if "i < k" "k < Suc j" "screen_off_at rows k" for k
          using on on_off that by (metis less_Suc_eq)
        then show ?thesis using Some on unfolding step by simp
      next
        case False
        then have "\<forall>m. l < m \<and> m < Suc j \<longrightarrow> \<not> screen_on_at rows m" using IH(4) by (auto simp: less_Suc_eq)
        then show ?thesis using Some False IH unfolding step by simp
      qed
    qed
  next
    case False
    then have none: "held_lock rows i (Suc j) = None" and empty: "\<not> (i < k \<and> k < Suc j)" for k by auto
    then show ?thesis by auto
  qed
qed (simp add: held_lock_def)

text \<open>C33: the pairing of foreground and background is first in, first out within a package: every close is by a
  later pause of the start's package; of two episodes of a package the one that started first ends first; a
  pause ends nothing only when every earlier start of its package has already ended; and exactly the starts that
  are not closed are missing, in stream order.\<close>

theorem pairing_is_fifo:
  "\<exists>out closes. foreground_background_episodes rows elig = Inr out \<and> closes = set (reported_closes out)
    \<and> start_indices out = openers_upto (opens_at elig) (length rows)
    \<and> (\<forall>(j, stop, reason, instant) \<in> closes.
         reason = SamePackageBackgrounded \<and> instant = None \<and> j < stop \<and> stop < length rows
         \<and> opens_at elig j \<and> \<not> opens_at elig stop \<and> pauses rows j stop)
    \<and> (\<forall>(j, stop, _) \<in> closes. \<forall>(j', stop', _) \<in> closes. same_package rows j j' \<and> j < j' \<longrightarrow> stop < stop')
    \<and> (\<forall>j k. opens_at elig j \<and> j < k \<and> k < length rows \<and> \<not> opens_at elig k \<and> pauses rows j k
         \<longrightarrow> (\<exists>j' e. j' \<le> j \<and> (j', k, e) \<in> closes) \<or> (\<exists>stop e. stop < k \<and> (j, stop, e) \<in> closes))
    \<and> missing_indices out = filter (\<lambda>j. j \<notin> fst ` closes) (openers_upto (opens_at elig) (length rows))"
proof (intro exI conjI)
  let ?closes = "set (fifo_closes rows elig (length rows))"
  show "foreground_background_episodes rows elig = Inr (background_report rows elig)" by (rule background_run)
  show "?closes = set (reported_closes (background_report rows elig))"
    and "start_indices (background_report rows elig) = openers_upto (opens_at elig) (length rows)"
    and "missing_indices (background_report rows elig) = filter (\<lambda>j. j \<notin> fst ` ?closes) (openers_upto (opens_at elig) (length rows))"
    by (simp_all add: background_report_def Let_def)
  show "\<forall>(j, stop, reason, instant) \<in> ?closes.
      reason = SamePackageBackgrounded \<and> instant = None \<and> j < stop \<and> stop < length rows
      \<and> opens_at elig j \<and> \<not> opens_at elig stop \<and> pauses rows j stop"
    using fifo_close_exact [of _ _ rows elig "length rows"] by fastforce
  show "\<forall>(j, stop, _) \<in> ?closes. \<forall>(j', stop', _) \<in> ?closes. same_package rows j j' \<and> j < j' \<longrightarrow> stop < stop'"
    using fifo_order [of _ _ _ rows elig "length rows"] by fastforce
  show "\<forall>j k. opens_at elig j \<and> j < k \<and> k < length rows \<and> \<not> opens_at elig k \<and> pauses rows j k
      \<longrightarrow> (\<exists>j' e. j' \<le> j \<and> (j', k, e) \<in> ?closes) \<or> (\<exists>stop e. stop < k \<and> (j, stop, e) \<in> ?closes)"
    using no_pause_wasted by blast
qed

definition sample_repeat :: "pipeline_row list" where
  "sample_repeat =
     [event_row ''P'' ''Activity Resumed'' ''a'' 10 1, event_row ''P'' ''Activity Resumed'' ''a'' 20 2,
      event_row ''P'' ''Activity Paused'' ''a'' 30 3]"

text \<open>Of two starts and one pause the second start is missing.\<close>

theorem pairing_is_fifo_witness:
  "\<exists>out. foreground_background_episodes sample_repeat [True, True, False] = Inr out
    \<and> length (start_indices out) = 2"
  using pairing_is_fifo [of sample_repeat "[True, True, False]"]
  by (fastforce simp: sample_repeat_def openers_upto_def opens_at_def upt_rec numeral_eq_Suc)

text \<open>The comment of the rule says that every resume is closed by the next pause of its package, and only a
  resume with no later pause has no episode. A resume whose package is already open is not: of two resumes and
  one later pause the first is closed by it and the second has no end.\<close>

lemma pairing_later_resume_unclosed:
  "\<exists>out. foreground_background_episodes sample_repeat [True, True, False] = Inr out
    \<and> reported_closes out = [(0, 2, SamePackageBackgrounded, None)] \<and> missing_indices out = [1]
    \<and> pauses sample_repeat 1 2"
  unfolding background_run
  by (simp add: background_report_def Let_def sample_repeat_def openers_upto_def opens_at_def waiting_def
      fifo_closes.simps(2) event_row_def activity_paused_def pauses_def numeral_eq_Suc)

end
