(* ===== verification/Eyes_Arm.thy ===== *)
theory Eyes_Arm
  imports Reconstruction_Properties
begin

text \<open>
  The EYES arm of the dispatch, \<open>eyes_complement_episodes\<close>: it returns for every table with epoch
  timestamps, never indexes out of range, and every interval it credits is anchored to rows of its table.
\<close>

section \<open>The segmentation's indices are in range\<close>

lemma chunk_episodes_below:
  assumes "spans_ordered eps" "c \<in> set (merge_app_chunks eps)" "i \<in> set (ck_episodes c)"
  shows "i < length eps"
proof -
  let ?p = "ck_package c"
  obtain ivs where ivs: "mset ivs = mset (package_intervals eps ?p)"
      "merged ?p ivs (merge_intervals ?p (package_intervals eps ?p))"
    using package_chunks [OF assms(1)] by blast
  have "c \<in> set (merge_intervals ?p (package_intervals eps ?p))"
    using mset_eq_setD [OF filter_package_chunks [OF assms(1), of ?p]] assms(2) by fastforce
  then have "i \<in> set (concat (map ck_episodes (merge_intervals ?p (package_intervals eps ?p))))"
    using assms(3) by auto
  moreover have "concat (map ck_episodes (merge_intervals ?p (package_intervals eps ?p))) = map (\<lambda>(s, e, i). i) ivs"
    using ivs(2) unfolding merged_def by blast
  ultimately have "i \<in> (\<lambda>(s, e, i). i) ` set ivs" by (metis list.set_map)
  then obtain s e where "(s, e, i) \<in> set ivs" by force
  then have "(s, e, i) \<in> set (package_intervals eps ?p)" unfolding mset_eq_setD [OF ivs(1)] .
  then show ?thesis by (simp add: package_intervals_iff)
qed

definition sound_segmentation :: "eyes_segmentation \<Rightarrow> bool" where
  "sound_segmentation sg \<longleftrightarrow>
     (\<forall>r \<in> set (sg_usage sg). fu_chunk r < length (sg_chunks sg) \<and> fu_start r < fu_end r)
     \<and> (\<forall>c \<in> set (sg_chunks sg). \<forall>i \<in> set (ck_episodes c). i < length (sg_episodes sg))"

lemma segmentation_sound:
  assumes "\<forall>e \<in> set events. epoch_ns (ev_timestamp_ns e)"
  shows "\<exists>sg. segment_eyes_complement events opts = Some sg \<and> sound_segmentation sg"
proof (cases "events = []")
  case True
  then show ?thesis
    by (simp add: segment_eyes_complement_def sound_segmentation_def empty_segmentation_def)
next
  case False
  obtain sg where sg: "segment_eyes_complement events opts = Some sg"
      "sg_chunks sg = merge_app_chunks (sg_episodes sg)"
      "sg_usage sg = split_and_tag_app_usage (sg_chunks sg) (sg_blocks sg) opts"
      "\<forall>ep \<in> set (sg_episodes sg). episode_ok (duration_mode opts) (ev_timestamp_ns ` set events) ep"
    using segment_parts [OF False assms, of opts] by metis
  have "spans_ordered (sg_episodes sg)" using sg(4) by (rule episode_ok_spans)
  then have "sound_segmentation sg"
    using split_and_tag_mem chunk_episodes_below unfolding sound_segmentation_def sg(2,3) by blast
  with sg(1) show ?thesis by blast
qed

section \<open>The fragments\<close>

definition fragment_in_rows :: "nat \<Rightarrow> nat \<times> nat \<times> int \<times> int \<Rightarrow> bool" where
  "fragment_in_rows n = (\<lambda>(start, stop, s, e). start \<le> stop \<and> stop < n \<and> s < e)"

lemma any_row_below: "any_row rows t = Some i \<Longrightarrow> i < length rows"
  by (auto simp: any_row_def find_Some_iff)

lemma episode_row_below: "episode_row rows eligible ep = Some i \<Longrightarrow> i < length rows"
  by (auto simp: episode_row_def resume_row_def find_Some_iff split: option.splits)

lemma eyes_fragment_ok:
  assumes "sound_segmentation sg" "r \<in> set (sg_usage sg)"
  shows "\<exists>found. eyes_fragment rows sg (map (episode_row rows eligible) (sg_episodes sg)) r = Inr found
    \<and> (\<forall>f. found = Some f \<longrightarrow> fragment_in_rows (length rows) f)"
proof -
  let ?eps = "ck_episodes (sg_chunks sg ! fu_chunk r)" and ?starts = "map (episode_row rows eligible) (sg_episodes sg)"
  have range: "fu_chunk r < length (sg_chunks sg)" "fu_start r < fu_end r" "\<forall>i \<in> set ?eps. i < length (sg_episodes sg)"
    using assms by (auto simp: sound_segmentation_def)
  have no_panic: "\<not> list_ex (\<lambda>i. length ?starts \<le> i) ?eps" using range(3) by (auto simp: list_ex_iff)
  show ?thesis
  proof (cases "List.map_filter (\<lambda>i. ?starts ! i) ?eps")
    case Nil
    with range(1) no_panic show ?thesis by (simp add: eyes_fragment_def Let_def)
  next
    case (Cons k ks)
    define start where "start = Min (set (k # ks))"
    have "start \<in> set (k # ks)" unfolding start_def by (rule Min_in) simp_all
    then obtain i where "i \<in> set ?eps" "?starts ! i = Some start" unfolding Cons [symmetric] in_map_filter by auto
    with range(3) have start: "start < length rows" by (auto dest: episode_row_below)
    define stop where "stop = (case any_row rows (fu_end r) of Some i \<Rightarrow> if start \<le> i then i else start | None \<Rightarrow> start)"
    have "start \<le> stop" "stop < length rows"
      using start by (auto simp: stop_def dest: any_row_below split: option.split)
    moreover have "Min (insert k (set ks)) = start" by (simp add: start_def)
    then have "eyes_fragment rows sg ?starts r = Inr (Some (start, stop, fu_start r, fu_end r))"
      using range(1) no_panic by (simp add: eyes_fragment_def Let_def Cons stop_def split: option.split)
    ultimately show ?thesis using range(2) by (simp add: fragment_in_rows_def)
  qed
qed

lemma eyes_fragments_ok:
  assumes "sound_segmentation sg" "set rs \<subseteq> set (sg_usage sg)"
  shows "\<exists>fs. eyes_fragments rows sg (map (episode_row rows eligible) (sg_episodes sg)) rs = Inr fs
    \<and> (\<forall>f \<in> set fs. fragment_in_rows (length rows) f)"
  using assms(2)
proof (induction rs)
  case (Cons r rs)
  then obtain fs where fs: "eyes_fragments rows sg (map (episode_row rows eligible) (sg_episodes sg)) rs = Inr fs"
      "\<forall>f \<in> set fs. fragment_in_rows (length rows) f" by auto
  obtain found where "eyes_fragment rows sg (map (episode_row rows eligible) (sg_episodes sg)) r = Inr found"
      "\<forall>f. found = Some f \<longrightarrow> fragment_in_rows (length rows) f"
    using eyes_fragment_ok [OF assms(1), of r rows eligible] Cons.prems by auto
  with fs show ?case by (auto split: option.split)
qed simp

section \<open>The arm\<close>

text \<open>A close of the arm: a start row no later than its closing row, and explicit bounds of positive width.\<close>

definition bounded_close :: "merged_episode \<Rightarrow> bool" where
  "bounded_close = (\<lambda>(start, stop, reason, end_at, start_at).
     start \<le> stop \<and> reason = EyesDeviceStateBoundary
     \<and> (\<exists>s e. start_at = Some s \<and> end_at = Some e \<and> s < e))"

definition close_at :: "matcher_output \<Rightarrow> nat \<Rightarrow> merged_episode" where
  "close_at out k =
     (stop_start_indices out ! k, stop_event_indices out ! k, stop_reasons out ! k, stop_timestamps_ns out ! k,
      start_timestamps_ns out ! k)"

definition eyes_report :: "nat \<Rightarrow> matcher_output \<Rightarrow> bool" where
  "eyes_report n out \<longleftrightarrow>
     (\<forall>position < length (stop_start_indices out).
        bounded_close (close_at out position) \<and> stop_event_indices out ! position < n)"

lemma eyes_arm_report:
  assumes "\<forall>r \<in> set rows. epoch_ns (row_event_timestamp_ns r)"
  shows "\<exists>out. eyes_complement_episodes sorter rows eligible proximity_ns = Inr out \<and> eyes_report (length rows) out"
proof -
  let ?n = "length rows"
  have "\<forall>e \<in> set (map eyes_event_of rows). epoch_ns (ev_timestamp_ns e)"
    using assms by (auto simp: eyes_event_of_def)
  from segmentation_sound [OF this] obtain sg where sg: "segment_eyes_complement (map eyes_event_of rows)
        (eyes_options_for proximity_ns) = Some sg" "sound_segmentation sg" by blast
  have "set (credited_final_app_usage sg) \<subseteq> set (sg_usage sg)" by (auto simp: credited_final_app_usage_def)
  from eyes_fragments_ok [OF sg(2) this, of rows eligible] obtain fs where
    fs: "eyes_fragments rows sg (map (episode_row rows eligible) (sg_episodes sg)) (credited_final_app_usage sg) = Inr fs"
      "\<forall>f \<in> set fs. fragment_in_rows ?n f" by blast
  have close: "bounded_close (fst (fs ! k), fst (snd (fs ! k)), EyesDeviceStateBoundary,
      Some (snd (snd (snd (fs ! k)))), Some (fst (snd (snd (fs ! k))))) \<and> fst (snd (fs ! k)) < ?n" if k: "k < length fs" for k
  proof -
    obtain a b c d where f: "fs ! k = (a, b, c, d)" by (cases "fs ! k") auto
    with fs(2) nth_mem [OF k] have "fragment_in_rows ?n (a, b, c, d)" by metis
    then show ?thesis by (simp add: f fragment_in_rows_def bounded_close_def)
  qed
  show ?thesis
    unfolding eyes_complement_episodes_def Let_def sg(1) option.case fs(1) sum.case
    by (intro exI conjI, rule refl)
      (use close in \<open>simp add: eyes_report_def close_at_def case_prod_beta\<close>)
qed

lemma absorbed_bounded:
  assumes "eyes_report (length is) out" "sorted_wrt (<) is"
    and "entry \<in> set (map (closed_at out is) [0..<length (stop_start_indices out)])"
  shows "bounded_close entry \<and> fst entry \<in> set is \<and> fst (snd entry) \<in> set is"
proof -
  obtain k where k: "k < length (stop_start_indices out)" "entry = closed_at out is k" using assms(3) by auto
  let ?start = "stop_start_indices out ! k" and ?stop = "stop_event_indices out ! k"
  have B: "bounded_close (close_at out k)" "?stop < length is" using assms(1) k(1) by (auto simp: eyes_report_def)
  then have "?start \<le> ?stop" by (simp add: bounded_close_def close_at_def)
  moreover have "is ! ?start \<le> is ! ?stop"
    using assms(2) B(2) \<open>?start \<le> ?stop\<close> by (intro sorted_nth_mono) (auto simp: strict_sorted_iff)
  ultimately show ?thesis using B by (auto simp: k(2) closed_at_def close_at_def bounded_close_def)
qed

lemma within_groups_iff:
  "within_groups groups entries \<longleftrightarrow>
     (\<forall>entry \<in> set entries. \<exists>g \<in> set groups. fst entry \<in> set (snd g) \<and> fst (snd entry) \<in> set (snd g))"
  by (simp add: within_groups_def case_prod_beta)

lemma match_groups_eyes:
  assumes "\<forall>r \<in> set rows. epoch_ns (row_event_timestamp_ns r)"
    and ok: "aligned inp" "length (app_codes inp) = length rows" "length eligible = length rows"
    and groups: "\<forall>(p, is) \<in> set groups. sorted_wrt (<) is \<and> (\<forall>i \<in> set is. i < length rows)"
  shows "\<exists>mg' new. match_groups sorter inp rows eligible opts proximity_ns EyesComplement groups mg = Inr mg'
    \<and> mg_closed mg' = mg_closed mg @ new \<and> within_groups groups new \<and> (\<forall>entry \<in> set new. bounded_close entry)"
  using groups
proof (induction groups arbitrary: mg)
  case Nil
  show ?case by (simp add: within_groups_def)
next
  case (Cons g groups)
  obtain p "is" where g: "g = (p, is)" by (cases g)
  have range: "sorted_wrt (<) is" "\<forall>i \<in> set is. i < length rows" using Cons.prems g by auto
  have wider: "within_groups (g # groups) new" if "within_groups groups new" for new
    using that by (fastforce simp: within_groups_def)
  show ?case
  proof (cases "\<not> list_ex id (picked eligible is)
      \<and> \<not> list_ex (\<lambda>r. row_interaction_type r = activity_paused) (picked rows is)")
    case True
    have "match_groups sorter inp rows eligible opts proximity_ns EyesComplement (g # groups) mg
        = match_groups sorter inp rows eligible opts proximity_ns EyesComplement groups mg"
      using True match_groups_step [OF ok range(2)] by (simp add: g del: match_groups.simps)
    moreover obtain mg' new where "match_groups sorter inp rows eligible opts proximity_ns EyesComplement groups mg = Inr mg'"
        "mg_closed mg' = mg_closed mg @ new" "within_groups groups new" "\<forall>entry \<in> set new. bounded_close entry"
      using Cons.IH [of mg] Cons.prems by auto
    ultimately show ?thesis using wider by (intro exI [of _ mg'] exI [of _ new]) (simp del: match_groups.simps)
  next
    case False
    have "\<forall>r \<in> set (picked rows is). epoch_ns (row_event_timestamp_ns r)"
      using assms(1) range(2) by (auto simp: picked_def)
    then obtain out where out: "eyes_complement_episodes sorter (picked rows is) (picked eligible is) proximity_ns = Inr out"
        "eyes_report (length (picked rows is)) out"
      using eyes_arm_report by blast
    have report: "eyes_report (length is) out" using out(2) by (simp add: picked_def)
    obtain mg' new where IH: "match_groups sorter inp rows eligible opts proximity_ns EyesComplement groups (absorb out is mg)
          = Inr mg'" "mg_closed mg' = mg_closed (absorb out is mg) @ new" "within_groups groups new"
        "\<forall>entry \<in> set new. bounded_close entry"
      using Cons.IH [of "absorb out is mg"] Cons.prems by auto
    let ?added = "map (closed_at out is) [0..<length (stop_start_indices out)]"
    note added = absorbed_bounded [OF report range(1)]
    have "within_groups (g # groups) ?added"
      unfolding within_groups_iff using added g by (intro ballI bexI [of _ g]) (simp_all del: set_map)
    then have "within_groups (g # groups) (?added @ new)"
      using wider [OF IH(3)] unfolding within_groups_iff set_append by blast
    moreover have "\<forall>entry \<in> set (?added @ new). bounded_close entry" using added IH(4) by (metis UnE set_append)
    moreover have "match_groups sorter inp rows eligible opts proximity_ns EyesComplement (g # groups) mg = Inr mg'"
      using False out(1) IH(1) match_groups_step [OF ok range(2)] by (auto simp: g simp del: match_groups.simps)
    moreover have "mg_closed mg' = mg_closed mg @ ?added @ new" using IH(2) by (simp add: absorb_def)
    ultimately show ?thesis by blast
  qed
qed

lemma close_at_finalize [simp]:
  "close_at (finalize_opener_output rows openers evidence out) k = close_at out k"
  "stop_start_indices (finalize_opener_output rows openers evidence out) = stop_start_indices out"
  by (simp_all add: close_at_def finalize_opener_output_def Let_def)

lemma close_at_merged:
  "k < length (mg_closed mg) \<Longrightarrow> close_at (into_output mg) k = sort_key fst (mg_closed mg) ! k"
  by (simp add: close_at_def into_output_def Let_def case_prod_beta)

definition credited_report :: "pipeline_row list \<Rightarrow> matcher_output \<Rightarrow> bool" where
  "credited_report rows out \<longleftrightarrow>
     (\<forall>k < length (stop_start_indices out).
        bounded_close (close_at out k) \<and> stop_event_indices out ! k < length rows
        \<and> row_participant_id (rows ! (stop_start_indices out ! k)) = row_participant_id (rows ! (stop_event_indices out ! k)))"

lemma credited_report_finalize [simp]:
  "credited_report rows (finalize_opener_output rows' openers evidence out) = credited_report rows out"
  by (simp add: credited_report_def close_at_def finalize_opener_output_def Let_def)

lemma eyes_report_credited:
  assumes "eyes_report (length rows) out" "length (participant_groups rows) \<le> 1"
  shows "credited_report rows out"
  unfolding credited_report_def
proof (intro allI impI)
  fix k assume "k < length (stop_start_indices out)"
  then have B: "bounded_close (close_at out k)" "stop_event_indices out ! k < length rows"
    using assms(1) by (auto simp: eyes_report_def)
  then have "stop_start_indices out ! k < length rows" by (simp add: bounded_close_def close_at_def)
  with B show "bounded_close (close_at out k) \<and> stop_event_indices out ! k < length rows
      \<and> row_participant_id (rows ! (stop_start_indices out ! k)) = row_participant_id (rows ! (stop_event_indices out ! k))"
    using single_participant [OF assms(2), of "stop_start_indices out ! k" "stop_event_indices out ! k"] by blast
qed

lemma merged_credited:
  assumes "within_groups (participant_groups rows) (mg_closed mg)" "\<forall>entry \<in> set (mg_closed mg). bounded_close entry"
  shows "credited_report rows (into_output mg)"
  unfolding credited_report_def
proof (intro allI impI)
  let ?out = "into_output mg"
  fix k assume "k < length (stop_start_indices ?out)"
  then have k: "k < length (mg_closed mg)" by (simp add: into_output_def Let_def)
  let ?entry = "sort_key fst (mg_closed mg) ! k"
  have entry: "?entry \<in> set (mg_closed mg)" using nth_mem [of k "sort_key fst (mg_closed mg)"] k by simp
  then obtain g where G: "g \<in> set (participant_groups rows)" "fst ?entry \<in> set (snd g)" "fst (snd ?entry) \<in> set (snd g)"
    using assms(1) unfolding within_groups_iff by blast
  obtain p "is" where "g = (p, is)" by (cases g)
  with G have g: "(p, is) \<in> set (participant_groups rows)" "fst ?entry \<in> set is" "fst (snd ?entry) \<in> set is" by simp_all
  have at: "close_at ?out k = ?entry" by (rule close_at_merged [OF k])
  have fields: "stop_start_indices ?out ! k = fst ?entry" "stop_event_indices ?out ! k = fst (snd ?entry)"
    unfolding at [symmetric] by (simp_all add: close_at_def)
  show "bounded_close (close_at ?out k) \<and> stop_event_indices ?out ! k < length rows
      \<and> row_participant_id (rows ! (stop_start_indices ?out ! k)) = row_participant_id (rows ! (stop_event_indices ?out ! k))"
    unfolding at fields using assms(2) entry g(2,3) unfolding group_rows [OF g(1)] rows_of_def by simp
qed

text \<open>C30: the EYES arm over participants. The opener set of GESIS is refused with its reason and a table without a
  usage signal with its error. Any other table with epoch timestamps, beside an index whose seven vectors all have
  one entry per row, gives a report (the segmentation returns and no index is out of range), in which every
  credited interval carries explicit bounds of positive width, its start row is no later than its closing row,
  and both rows belong to the same participant.\<close>

theorem eyes_arm_stays_with_participant:
  assumes "\<forall>r \<in> set rows. epoch_ns (row_event_timestamp_ns r)" "length (app_codes inp) = length rows"
    and "result = match_app_episodes_with_strategy sorter inp rows EyesComplement openers opts proximity_ns"
    and "aligned inp"
  shows "if openers = GesisAppScopedStarts
    then result = Inl (refusal_error openers EyesComplement EyesRequiresLifecycleTriplets)
    else if \<not> usage_signal inp rows EyesComplement openers then result = Inl no_usage_error
    else \<exists>out. result = Inr out \<and> credited_report rows out"
proof -
  let ?eligible = "map (eligible_row openers EyesComplement) rows" and ?gs = "participant_groups rows"
  have dispatch: "result = (if length ?gs \<le> 1
      then map_sum id (finalize_opener_output rows openers (selected_evidence openers EyesComplement rows))
        (eyes_complement_episodes sorter rows ?eligible proximity_ns)
      else map_sum id (\<lambda>mg. finalize_opener_output rows openers (selected_evidence openers EyesComplement rows) (into_output mg))
        (match_groups sorter inp rows ?eligible opts proximity_ns EyesComplement ?gs empty_merged))"
    if "usage_signal inp rows EyesComplement openers" "openers \<noteq> GesisAppScopedStarts"
    using that assms(2,3)
    by (cases openers) (auto simp: match_app_episodes_with_strategy_def Let_def usage_signal_def applicability_def
        is_executable_def list_ex_iff split: sum.split)
  have "\<exists>out. result = Inr out \<and> credited_report rows out"
    if signal: "usage_signal inp rows EyesComplement openers" "openers \<noteq> GesisAppScopedStarts"
  proof (cases "length ?gs \<le> 1")
    case True
    obtain out where "eyes_complement_episodes sorter rows ?eligible proximity_ns = Inr out" "eyes_report (length rows) out"
      using eyes_arm_report [OF assms(1)] by blast
    then show ?thesis using True eyes_report_credited unfolding dispatch [OF signal] by simp
  next
    case False
    from match_groups_eyes [OF assms(1,4,2) _ groups_in_rows, of ?eligible sorter opts proximity_ns empty_merged]
    obtain mg where "match_groups sorter inp rows ?eligible opts proximity_ns EyesComplement ?gs empty_merged = Inr mg"
        "within_groups ?gs (mg_closed mg)" "\<forall>entry \<in> set (mg_closed mg). bounded_close entry"
      by (auto simp: empty_merged_def)
    then show ?thesis using False merged_credited unfolding dispatch [OF signal] by simp
  qed
  moreover have "result = Inl (refusal_error openers EyesComplement EyesRequiresLifecycleTriplets)"
    if "openers = GesisAppScopedStarts"
    using that assms(2,3) by (simp add: match_app_episodes_with_strategy_def applicability_def is_executable_def)
  moreover have "result = Inl no_usage_error"
    if "openers \<noteq> GesisAppScopedStarts" "\<not> usage_signal inp rows EyesComplement openers"
    using that assms(2,3)
    by (cases openers) (auto simp: match_app_episodes_with_strategy_def applicability_def is_executable_def Let_def
        usage_signal_def list_ex_iff)
  ultimately show ?thesis by simp
qed

text \<open>The two people of \<open>sample_two\<close> under the EYES rule.\<close>

theorem eyes_arm_stays_with_participant_witness:
  "\<exists>inp out. build_app_event_index sample_two [] [] {} False = Inr inp
    \<and> match_app_episodes_with_strategy id inp sample_two EyesComplement StrategyDefined
        \<lparr>allow_stop_event_reuse = False, use_activity_stopped_as_fallback = False, apply_threshold_to_fallback = False,
         long_duration_threshold_ns = 100\<rparr> 2000000000 = Inr out
    \<and> credited_report sample_two out"
proof -
  obtain inp where inp: "build_app_event_index sample_two [] [] {} False = Inr inp"
    by (simp add: build_app_event_index_def Let_def)
  have "length sample_two \<le> 2 ^ 31" "sorted (map row_event_timestamp_ns sample_two)"
    by (simp_all add: sample_two_def event_row_def)
  from built_index_indexed [OF this inp] have "aligned inp" "length (app_codes inp) = length sample_two"
    by (simp_all add: indexed_def)
  moreover have "\<forall>r \<in> set sample_two. epoch_ns (row_event_timestamp_ns r)"
    by (simp add: sample_two_def event_row_def epoch_ns_def i64_max_def)
  moreover have "usage_signal inp sample_two EyesComplement StrategyDefined"
    by (simp add: usage_signal_def sample_two_def event_row_def activity_paused_def)
  ultimately show ?thesis
    using eyes_arm_stays_with_participant [of sample_two inp _ id StrategyDefined
      "\<lparr>allow_stop_event_reuse = False, use_activity_stopped_as_fallback = False, apply_threshold_to_fallback = False,
         long_duration_threshold_ns = 100\<rparr>" 2000000000, OF _ _ refl] inp
    by simp
qed

end
