(* ===== verification/Float_Text.thy ===== *)
theory Float_Text
  imports Pipeline_Row
begin

text \<open>
  Rust's conversions between text and \<open>f64\<close>, as far as \<open>b06_maximum_duration.rs\<close> relies on them: the
  correctly rounded \<open>str::parse::<f64>\<close> over the whole range of binary64, with its grammar, and the
  shortest decimal that reads back as the same number, which \<open>format!("{value}")\<close> prints without an exponent.
\<close>

section \<open>The range of binary64\<close>

datatype f64 = Finite rat | Infinite bool | NotANumber

definition binary64 :: "rat \<Rightarrow> f64" where
  "binary64 x =
     (if x = 0 then Finite 0
      else let u = pow2 (max (f64_exponent x - 52) (- 1074));
               r = of_int (round_half_even (x / u)) * u
           in if pow2 1024 \<le> \<bar>r\<bar> then Infinite (x < 0) else Finite r)"

section \<open>Reading\<close>

definition is_digit :: "char \<Rightarrow> bool" where
  "is_digit c \<longleftrightarrow> 48 \<le> (of_char c :: nat) \<and> (of_char c :: nat) \<le> 57"

definition digit_value :: "char \<Rightarrow> nat" where
  "digit_value c = of_char c - 48"

definition digits_value :: "nat list \<Rightarrow> nat" where
  "digits_value ds = foldl (\<lambda>v d. 10 * v + d) 0 ds"

definition pow10 :: "int \<Rightarrow> rat" where
  "pow10 e = (if 0 \<le> e then 10 ^ nat e else 1 / 10 ^ nat (- e))"

definition split_sign :: "string \<Rightarrow> bool \<times> string" where
  "split_sign s =
     (if s \<noteq> [] \<and> hd s = CHR ''-'' then (True, tl s)
      else if s \<noteq> [] \<and> hd s = CHR ''+'' then (False, tl s)
      else (False, s))"

text \<open>The exponent after the mantissa: none, or a letter, a sign and at least one digit.\<close>

definition read_exponent :: "string \<Rightarrow> int option" where
  "read_exponent s =
     (if s = [] then Some 0
      else if hd s = CHR ''e'' \<or> hd s = CHR ''E'' then
        (case split_sign (tl s) of (negative, ds) \<Rightarrow>
           if ds \<noteq> [] \<and> list_all is_digit ds
           then Some (if negative then - int (digits_value (map digit_value ds))
                      else int (digits_value (map digit_value ds)))
           else None)
      else None)"

definition read_number :: "string \<Rightarrow> rat option" where
  "read_number s =
     (let whole = takeWhile is_digit s;
          rest = dropWhile is_digit s;
          (fraction, rest) = (if rest \<noteq> [] \<and> hd rest = CHR ''.''
                              then (takeWhile is_digit (tl rest), dropWhile is_digit (tl rest))
                              else ([], rest))
      in if whole = [] \<and> fraction = [] then None
         else case read_exponent rest of
                None \<Rightarrow> None
              | Some e \<Rightarrow>
                  Some (of_nat (digits_value (map digit_value (whole @ fraction)))
                        * pow10 (e - int (length fraction))))"

definition lower_ascii :: "char \<Rightarrow> char" where
  "lower_ascii c =
     (if 65 \<le> (of_char c :: nat) \<and> (of_char c :: nat) \<le> 90 then char_of ((of_char c :: nat) + 32) else c)"

definition parse_f64 :: "string \<Rightarrow> f64 option" where
  "parse_f64 s =
     (case split_sign s of (negative, body) \<Rightarrow>
        case read_number body of
          Some v \<Rightarrow> Some (binary64 (if negative then - v else v))
        | None \<Rightarrow>
            let word = map lower_ascii body in
            if word = ''inf'' \<or> word = ''infinity'' then Some (Infinite negative)
            else if word = ''nan'' then Some NotANumber
            else None)"

section \<open>Printing\<close>

text \<open>The power of ten at the first digit of a positive number.\<close>

definition decimal_magnitude :: "rat \<Rightarrow> int" where
  "decimal_magnitude x =
     (case quotient_of x of (p, q) \<Rightarrow>
        let e = int (length (decimal (nat p))) - int (length (decimal (nat q))) in
        if pow10 e \<le> x then e else e - 1)"

text \<open>
  With \<open>n\<close> digits, the two neighbours of the number; one that reads back as it is chosen, the nearer one
  when both do and the upper one on a tie.
\<close>

definition short_candidate :: "rat \<Rightarrow> nat \<Rightarrow> (int \<times> int) option" where
  "short_candidate x n =
     (let k = decimal_magnitude x - (int n - 1);
          q = x / pow10 k;
          low = \<lfloor>q\<rfloor>;
          down = binary64 (of_int low * pow10 k) = Finite x;
          up = binary64 (of_int (low + 1) * pow10 k) = Finite x
      in if up \<and> (\<not> down \<or> 1 / 2 \<le> q - of_int low) then Some (low + 1, k)
         else if down then Some (low, k)
         else None)"

text \<open>Seventeen digits tell every binary64 apart.\<close>

definition shortest_decimal :: "rat \<Rightarrow> int \<times> int" where
  "shortest_decimal x =
     (case List.map_filter (short_candidate x) [1..<18] of
        [] \<Rightarrow> (0, 0)
      | c # _ \<Rightarrow> c)"

fun drop_zeros :: "nat \<Rightarrow> int \<Rightarrow> nat \<times> int" where
  "drop_zeros d k = (if 0 < d \<and> d mod 10 = 0 then drop_zeros (d div 10) (k + 1) else (d, k))"

declare drop_zeros.simps [simp del]

definition plain_decimal :: "nat \<Rightarrow> int \<Rightarrow> string" where
  "plain_decimal d k =
     (let ds = decimal d; m = nat (- k) in
      if 0 \<le> k then ds @ replicate (nat k) CHR ''0''
      else if m < length ds then take (length ds - m) ds @ ''.'' @ drop (length ds - m) ds
      else ''0.'' @ replicate (m - length ds) CHR ''0'' @ ds)"

definition display_f64 :: "rat \<Rightarrow> string" where
  "display_f64 x =
     (if x = 0 then ''0''
      else case shortest_decimal \<bar>x\<bar> of (d, k) \<Rightarrow>
        case drop_zeros (nat d) k of (d, k) \<Rightarrow>
          (if x < 0 then ''-'' else []) @ plain_decimal d k)"

section \<open>Digit strings\<close>

lemma digits_value_simps [simp]:
  "digits_value [] = 0"
  "digits_value (ds @ [d]) = 10 * digits_value ds + d"
  by (simp_all add: digits_value_def)

lemma digits_value_append: "digits_value (ds @ es) = 10 ^ length es * digits_value ds + digits_value es"
  by (induction es rule: rev_induct) (simp_all add: append_assoc [symmetric] algebra_simps del: append_assoc)

lemma digits_value_Cons: "digits_value (d # ds) = 10 ^ length ds * d + digits_value ds"
  using digits_value_append [of "[d]" ds] by (simp add: digits_value_def)

lemma digits_value_zeros [simp]: "digits_value (replicate n 0) = 0"
  by (induction n) (simp_all add: digits_value_Cons)

lemma digits_value_less: "list_all (\<lambda>d. d < 10) ds \<Longrightarrow> digits_value ds < 10 ^ length ds"
  by (induction ds rule: rev_induct) auto

lemma digits_value_eq_0: "digits_value ds = 0 \<longleftrightarrow> list_all (\<lambda>d. d = 0) ds"
  by (induction ds rule: rev_induct) auto

lemma digit_value_less: "is_digit c \<Longrightarrow> digit_value c < 10"
  by (auto simp: is_digit_def digit_value_def)

lemma digit_value_zero: "is_digit c \<Longrightarrow> digit_value c = 0 \<Longrightarrow> c = CHR ''0''"
proof -
  assume "is_digit c" "digit_value c = 0"
  then have "of_char c = (of_char CHR ''0'' :: nat)" by (simp add: is_digit_def digit_value_def)
  then show ?thesis by (simp only: of_char_eq_iff)
qed

lemma is_digit_simps [simp]:
  "\<not> is_digit CHR ''.''" "\<not> is_digit CHR ''-''" "\<not> is_digit CHR ''+''" "is_digit CHR ''0''"
  by (simp_all add: is_digit_def)

lemma pow10_simps [simp]: "0 < pow10 e" "pow10 0 = 1" "pow10 (- int n) = 1 / 10 ^ n"
  by (simp_all add: pow10_def)

text \<open>A digit string with an optional fraction is read as the number it denotes.\<close>

lemma read_number_plain:
  assumes "whole \<noteq> []" "list_all is_digit whole" "list_all is_digit fraction"
  shows "read_number (whole @ (if fraction = [] then [] else CHR ''.'' # fraction)) =
           Some (of_nat (digits_value (map digit_value (whole @ fraction))) / 10 ^ length fraction)"
proof -
  have take: "takeWhile is_digit (whole @ rest) = whole" "dropWhile is_digit (whole @ rest) = rest"
    if "rest = [] \<or> \<not> is_digit (hd rest)" for rest
    using assms(2) that by (cases rest; auto simp: list_all_iff takeWhile_append2)+
  have none: "read_exponent [] = Some 0" by (simp add: read_exponent_def)
  show ?thesis
  proof (cases "fraction = []")
    case True
    then show ?thesis
      using assms(1) take [of "[]"] unfolding read_number_def Let_def
      by (simp add: none del: dropWhile_eq_Nil_conv takeWhile_eq_all_conv)
  next
    case False
    have all: "takeWhile is_digit fraction = fraction" "dropWhile is_digit fraction = []"
      using assms(3) by (simp_all add: list_all_iff)
    show ?thesis
      using assms(1) False take [of "CHR ''.'' # fraction"] unfolding read_number_def Let_def
      by (simp add: none all del: dropWhile_eq_Nil_conv takeWhile_eq_all_conv)
  qed
qed

text \<open>Rounding keeps the sign.\<close>

lemma binary64_nonpos: "x \<le> 0 \<Longrightarrow> binary64 x = Finite v \<Longrightarrow> v \<le> 0"
proof -
  assume x: "x \<le> 0" and v: "binary64 x = Finite v"
  define u where "u = pow2 (max (f64_exponent x - 52) (- 1074))"
  have u: "0 < u" by (simp add: u_def)
  have "round_half_even y \<le> 0" if "y \<le> 0" for y
  proof (cases "y = 0")
    case False
    then have "\<lfloor>y\<rfloor> \<le> - 1" using that by linarith
    then show ?thesis by (simp add: round_half_even_def Let_def)
  qed (simp add: round_half_even_def)
  moreover have "x / u \<le> 0" using x u by (simp add: divide_nonpos_pos)
  ultimately have "of_int (round_half_even (x / u)) * u \<le> 0"
    using u by (simp add: mult_nonpos_nonneg)
  then show ?thesis using v by (auto simp: binary64_def Let_def u_def [symmetric] split: if_splits)
qed

end
