(* ===== verification/Maximum_Duration.thy ===== *)
theory Maximum_Duration
  imports Opener_Set Float_Text
begin

text \<open>
  The maximum-duration policy of \<open>b06_maximum_duration.rs\<close>: its closed vocabularies, the grammar of the
  threshold, the exact conversion of legacy hours to nanoseconds on digit strings, the five legal request
  shapes, the resolution of a request against the reconstruction rule, the row stage and the arithmetic of
  qualification and truncation. The receipt is in \<open>Maximum_Receipt\<close>.
\<close>

section \<open>Closed vocabularies\<close>

text \<open>An identifier is looked up among all members of the vocabulary.\<close>

definition member_with_id :: "'a list \<Rightarrow> ('a \<Rightarrow> string) \<Rightarrow> string \<Rightarrow> 'a option" where
  "member_with_id members id_of v = find (\<lambda>c. id_of c = v) members"

locale closed_vocabulary =
  fixes members :: "'a list"
    and id_of :: "'a \<Rightarrow> string"
  assumes exhaustive: "set members = UNIV"
    and distinct_ids: "distinct (map id_of members)"
begin

lemma id_of_inject: "id_of a = id_of b \<Longrightarrow> a = b"
  using distinct_ids exhaustive by (metis UNIV_I distinct_map inj_onD)

lemma member_iff: "member_with_id members id_of v = Some c \<longleftrightarrow> v = id_of c"
proof
  assume "member_with_id members id_of v = Some c"
  then show "v = id_of c" by (auto simp: member_with_id_def dest!: find_SomeD)
next
  assume v: "v = id_of c"
  have "member_with_id members id_of v \<noteq> None"
    using exhaustive v by (auto simp: member_with_id_def find_None_iff)
  then obtain d where "member_with_id members id_of v = Some d" by blast
  moreover have "id_of d = v" using calculation by (auto simp: member_with_id_def dest!: find_SomeD)
  ultimately show "member_with_id members id_of v = Some c" using v id_of_inject by simp
qed

lemma member_of_id [simp]: "member_with_id members id_of (id_of c) = Some c"
  by (simp add: member_iff)

lemma unknown_iff: "member_with_id members id_of v = None \<longleftrightarrow> v \<notin> range id_of"
  using exhaustive by (auto simp: member_with_id_def find_None_iff)

end

datatype maximum_policy =
    DelegateToStrategy
  | ChronicleObservedCloseRejectionV1
  | PostReconstructionStrictMaxV1

definition all_maximum_policies :: "maximum_policy list" where
  "all_maximum_policies =
     [DelegateToStrategy, ChronicleObservedCloseRejectionV1, PostReconstructionStrictMaxV1]"

fun maximum_policy_id :: "maximum_policy \<Rightarrow> string" where
  "maximum_policy_id DelegateToStrategy = ''strategy_native''"
| "maximum_policy_id ChronicleObservedCloseRejectionV1 = ''chronicle_observed_close_rejection_v1''"
| "maximum_policy_id PostReconstructionStrictMaxV1 = ''post_reconstruction_strict_max_v1''"

datatype maximum_disposition =
    NoDisposition
  | FlagAndRetain
  | ExcludeAboveMaximum
  | TruncateToThreshold
  | DropAboveMaximum

definition all_maximum_dispositions :: "maximum_disposition list" where
  "all_maximum_dispositions =
     [NoDisposition, FlagAndRetain, ExcludeAboveMaximum, TruncateToThreshold, DropAboveMaximum]"

fun maximum_disposition_id :: "maximum_disposition \<Rightarrow> string" where
  "maximum_disposition_id NoDisposition = ''not_applicable''"
| "maximum_disposition_id FlagAndRetain = ''flag_and_retain''"
| "maximum_disposition_id ExcludeAboveMaximum = ''retain_but_exclude''"
| "maximum_disposition_id TruncateToThreshold = ''truncate_to_threshold''"
| "maximum_disposition_id DropAboveMaximum = ''drop_row''"

definition disposition_active :: "maximum_disposition \<Rightarrow> bool" where
  "disposition_active d \<longleftrightarrow> d \<noteq> NoDisposition"

datatype threshold_source =
    StrategyThreshold
  | ChronicleLegacyConfig
  | FixedParameter
  | B12AdaptiveParticipant

definition all_threshold_sources :: "threshold_source list" where
  "all_threshold_sources =
     [StrategyThreshold, ChronicleLegacyConfig, FixedParameter, B12AdaptiveParticipant]"

fun threshold_source_id :: "threshold_source \<Rightarrow> string" where
  "threshold_source_id StrategyThreshold = ''strategy_native''"
| "threshold_source_id ChronicleLegacyConfig = ''chronicle_legacy_config''"
| "threshold_source_id FixedParameter = ''fixed_parameter''"
| "threshold_source_id B12AdaptiveParticipant = ''b12_adaptive_participant''"

interpretation policies: closed_vocabulary all_maximum_policies maximum_policy_id
proof unfold_locales
  show "set all_maximum_policies = UNIV"
    by (auto simp: all_maximum_policies_def intro: maximum_policy.exhaust)
qed (simp add: all_maximum_policies_def)

interpretation dispositions: closed_vocabulary all_maximum_dispositions maximum_disposition_id
proof unfold_locales
  show "set all_maximum_dispositions = UNIV"
    by (auto simp: all_maximum_dispositions_def intro: maximum_disposition.exhaust)
qed (simp add: all_maximum_dispositions_def)

interpretation sources: closed_vocabulary all_threshold_sources threshold_source_id
proof unfold_locales
  show "set all_threshold_sources = UNIV"
    by (auto simp: all_threshold_sources_def intro: threshold_source.exhaust)
qed (simp add: all_threshold_sources_def)

fun endpoint_reason_id :: "endpoint_reason \<Rightarrow> string" where
  "endpoint_reason_id MaximumDurationTruncationBoundary = ''maximum_duration_truncation_boundary''"

datatype row_outcome =
    BoundedNotQualified
  | FlaggedRetained
  | RetainedExcluded
  | Truncated
  | Dropped
  | UnboundedNoAction
  | NativePolicyOwned

fun row_outcome_id :: "row_outcome \<Rightarrow> string" where
  "row_outcome_id BoundedNotQualified = ''bounded_not_qualified''"
| "row_outcome_id FlaggedRetained = ''flagged_retained''"
| "row_outcome_id RetainedExcluded = ''retained_excluded''"
| "row_outcome_id Truncated = ''truncated''"
| "row_outcome_id Dropped = ''dropped''"
| "row_outcome_id UnboundedNoAction = ''unbounded_no_action''"
| "row_outcome_id NativePolicyOwned = ''native_policy_owned''"

definition all_row_outcomes :: "row_outcome list" where
  "all_row_outcomes =
     [BoundedNotQualified, FlaggedRetained, RetainedExcluded, Truncated, Dropped, UnboundedNoAction,
      NativePolicyOwned]"

interpretation outcomes: closed_vocabulary all_row_outcomes row_outcome_id
proof unfold_locales
  show "set all_row_outcomes = UNIV"
    by (auto simp: all_row_outcomes_def intro: row_outcome.exhaust)
qed (simp add: all_row_outcomes_def)

section \<open>Refusals\<close>

datatype maximum_refusal =
    RequestShapeInvalid
  | ThresholdMalformed
  | PolicyIncompatibleWithReconstructionStrategy
  | AdaptiveMaximumThresholdProviderUnavailable
  | LegacyThresholdNonpositive
  | LegacyThresholdNotIntegerNs
  | LegacyThresholdOverflow
  | LegacyThresholdBinary64MappingMismatch
  | LegacyThresholdCanonicalizationMismatch
  | RawDurationUnrepresentable
  | EffectiveEndpointUnrepresentable
  | DuplicateTimestampAdjustmentUnrepresentable

fun maximum_refusal_id :: "maximum_refusal \<Rightarrow> string" where
  "maximum_refusal_id RequestShapeInvalid = ''maximum_duration_request_shape_invalid''"
| "maximum_refusal_id ThresholdMalformed = ''maximum_duration_threshold_malformed''"
| "maximum_refusal_id PolicyIncompatibleWithReconstructionStrategy =
     ''maximum_duration_policy_incompatible_with_reconstruction_strategy''"
| "maximum_refusal_id AdaptiveMaximumThresholdProviderUnavailable =
     ''adaptive_maximum_threshold_provider_unavailable''"
| "maximum_refusal_id LegacyThresholdNonpositive = ''maximum_duration_legacy_threshold_nonpositive''"
| "maximum_refusal_id LegacyThresholdNotIntegerNs = ''maximum_duration_legacy_threshold_not_integer_ns''"
| "maximum_refusal_id LegacyThresholdOverflow = ''maximum_duration_legacy_threshold_overflow''"
| "maximum_refusal_id LegacyThresholdBinary64MappingMismatch =
     ''maximum_duration_legacy_threshold_binary64_mapping_mismatch''"
| "maximum_refusal_id LegacyThresholdCanonicalizationMismatch =
     ''maximum_duration_legacy_threshold_canonicalization_mismatch''"
| "maximum_refusal_id RawDurationUnrepresentable = ''maximum_duration_raw_duration_unrepresentable''"
| "maximum_refusal_id EffectiveEndpointUnrepresentable =
     ''maximum_duration_effective_endpoint_unrepresentable''"
| "maximum_refusal_id DuplicateTimestampAdjustmentUnrepresentable =
     ''maximum_duration_duplicate_timestamp_adjustment_unrepresentable''"

definition error_token :: "maximum_refusal \<Rightarrow> string" where
  "error_token reason = ''b06='' @ maximum_refusal_id reason"

definition is_applicability_refusal :: "maximum_refusal \<Rightarrow> bool" where
  "is_applicability_refusal reason \<longleftrightarrow>
     reason \<in> {PolicyIncompatibleWithReconstructionStrategy, AdaptiveMaximumThresholdProviderUnavailable}"

definition execution_error :: "maximum_refusal \<Rightarrow> string" where
  "execution_error reason = ''pipeline_refused:'' @ error_token reason"

definition maximum_policy_from_id :: "string \<Rightarrow> maximum_refusal + maximum_policy" where
  "maximum_policy_from_id v =
     ok_or (member_with_id all_maximum_policies maximum_policy_id v) RequestShapeInvalid"

definition maximum_disposition_from_id :: "string \<Rightarrow> maximum_refusal + maximum_disposition" where
  "maximum_disposition_from_id v =
     ok_or (member_with_id all_maximum_dispositions maximum_disposition_id v) RequestShapeInvalid"

definition threshold_source_from_id :: "string \<Rightarrow> maximum_refusal + threshold_source" where
  "threshold_source_from_id v =
     ok_or (member_with_id all_threshold_sources threshold_source_id v) RequestShapeInvalid"

section \<open>Requests and configurations\<close>

record maximum_request =
  mq_policy :: "string option"
  mq_disposition :: "string option"
  mq_threshold_source :: "string option"
  mq_threshold_ns :: "string option"
  mq_long_threshold_explicit :: bool
  mq_legacy_hours_canonical :: "string option"
  mq_legacy_ns_canonical :: "string option"

definition request_explicit :: "maximum_request \<Rightarrow> bool" where
  "request_explicit q \<longleftrightarrow>
     mq_policy q \<noteq> None \<or> mq_disposition q \<noteq> None \<or> mq_threshold_source q \<noteq> None
     \<or> mq_threshold_ns q \<noteq> None"

datatype selection_shape =
    OmittedLegacy
  | ExplicitStrategyNative
  | ExplicitChronicleRejection
  | ExplicitGenericFixed
  | ExplicitGenericAdaptive

fun selection_shape_id :: "selection_shape \<Rightarrow> string" where
  "selection_shape_id OmittedLegacy = ''omitted_legacy''"
| "selection_shape_id ExplicitStrategyNative = ''explicit_strategy_native''"
| "selection_shape_id ExplicitChronicleRejection = ''explicit_chronicle_rejection''"
| "selection_shape_id ExplicitGenericFixed = ''explicit_generic_fixed''"
| "selection_shape_id ExplicitGenericAdaptive = ''explicit_generic_adaptive''"

record maximum_config =
  mc_shape :: selection_shape
  mc_explicit :: bool
  mc_policy :: maximum_policy
  mc_disposition :: maximum_disposition
  mc_threshold_source :: threshold_source
  mc_threshold_ns :: "int option"
  mc_long_threshold_explicit :: bool
  mc_legacy_hours_canonical :: "string option"
  mc_legacy_ns_canonical :: "string option"

definition omitted_config :: maximum_config where
  "omitted_config =
     \<lparr>mc_shape = OmittedLegacy, mc_explicit = False, mc_policy = DelegateToStrategy,
      mc_disposition = NoDisposition, mc_threshold_source = StrategyThreshold, mc_threshold_ns = None,
      mc_long_threshold_explicit = False, mc_legacy_hours_canonical = None,
      mc_legacy_ns_canonical = None\<rparr>"

definition config_generic_active :: "maximum_config \<Rightarrow> bool" where
  "config_generic_active c \<longleftrightarrow>
     mc_policy c = PostReconstructionStrictMaxV1 \<and> mc_threshold_ns c \<noteq> None"

definition config_checked_i128_active :: "maximum_config \<Rightarrow> bool" where
  "config_checked_i128_active c = mc_explicit c"

section \<open>Thresholds\<close>

definition int_text :: "int \<Rightarrow> string" where
  "int_text n = (if n < 0 then CHR ''-'' # decimal (nat (- n)) else decimal (nat n))"

definition parse_threshold_ns :: "string \<Rightarrow> maximum_refusal + int" where
  "parse_threshold_ns text =
     (if text = [] \<or> 19 < length text then Inl ThresholdMalformed
      else if \<not> (is_digit (hd text) \<and> hd text \<noteq> CHR ''0'') \<or> \<not> list_all is_digit text
      then Inl ThresholdMalformed
      else let n = int (digits_value (map digit_value text)) in
           if i64_max < n then Inl ThresholdMalformed else Inr n)"

definition canonical_legacy_hours_from_binary64_v1 :: "f64 \<Rightarrow> string option" where
  "canonical_legacy_hours_from_binary64_v1 v =
     (case v of Finite x \<Rightarrow> Some (if x = 0 then ''0'' else display_f64 x) | _ \<Rightarrow> None)"

text \<open>Digits are multiplied from the last one up; a result loses its leading zeros, down to one digit.\<close>

fun carry_digits :: "nat \<Rightarrow> nat list" where
  "carry_digits carry = (if 0 < carry then carry mod 10 # carry_digits (carry div 10) else [])"

declare carry_digits.simps [simp del]

fun multiply_loop :: "nat \<Rightarrow> nat list \<Rightarrow> nat \<Rightarrow> nat list" where
  "multiply_loop factor [] carry = carry_digits carry"
| "multiply_loop factor (d # ds) carry =
     (d * factor + carry) mod 10 # multiply_loop factor ds ((d * factor + carry) div 10)"

definition strip_leading_zeros :: "nat list \<Rightarrow> nat list" where
  "strip_leading_zeros ds =
     (if list_ex (\<lambda>d. d \<noteq> 0) ds then dropWhile (\<lambda>d. d = 0) ds else drop (length ds - 1) ds)"

definition multiply_digits :: "nat list \<Rightarrow> nat \<Rightarrow> nat list" where
  "multiply_digits ds factor = strip_leading_zeros (rev (multiply_loop factor (rev ds) 0))"

definition split_point :: "string \<Rightarrow> string \<times> string" where
  "split_point s = (takeWhile (\<lambda>c. c \<noteq> CHR ''.'') s, tl (dropWhile (\<lambda>c. c \<noteq> CHR ''.'') s))"

definition well_formed_hours :: "string \<Rightarrow> bool" where
  "well_formed_hours unsigned =
     (case split_point unsigned of (whole, fraction) \<Rightarrow>
        whole \<noteq> [] \<and> list_all is_digit whole \<and> list_all is_digit fraction
        \<and> (whole = ''0'' \<or> hd whole \<noteq> CHR ''0'')
        \<and> \<not> (fraction \<noteq> [] \<and> last fraction = CHR ''0'')
        \<and> \<not> (CHR ''.'' \<in> set unsigned \<and> fraction = []))"

definition scale_digits :: "nat list \<Rightarrow> nat \<Rightarrow> maximum_refusal + nat list" where
  "scale_digits product scale =
     (if 11 < scale then
        let excess = scale - 11 in
        if length (takeWhile (\<lambda>d. d = 0) (rev product)) < excess then Inl LegacyThresholdNotIntegerNs
        else Inr (take (length product - excess) product)
      else Inr (product @ replicate (11 - scale) 0))"

definition exact_legacy_hours_to_ns :: "string \<Rightarrow> maximum_refusal + int" where
  "exact_legacy_hours_to_ns text =
     (let negative = (text \<noteq> [] \<and> hd text = CHR ''-'');
          unsigned = (if negative then tl text else text) in
      if \<not> well_formed_hours unsigned then Inl LegacyThresholdCanonicalizationMismatch
      else case split_point unsigned of (whole, fraction) \<Rightarrow>
        and_then (scale_digits (multiply_digits (map digit_value (whole @ fraction)) 36) (length fraction))
          (\<lambda>mantissa.
             let mantissa = strip_leading_zeros mantissa in
             if 19 < length mantissa then Inl LegacyThresholdOverflow
             else let magnitude = int (digits_value mantissa);
                      signed = (if negative then - magnitude else magnitude)
                  in if in_i64 signed then Inr signed else Inl LegacyThresholdOverflow))"

record legacy_canonicalization =
  lc_hours_canonical :: string
  lc_ns_canonical :: string
  lc_ns :: int

fun f64_nonpositive :: "f64 \<Rightarrow> bool" where
  "f64_nonpositive (Finite x) = (x \<le> 0)"
| "f64_nonpositive (Infinite negative) = negative"
| "f64_nonpositive NotANumber = False"

text \<open>The product in binary64 is a finite whole number below \<open>2^127\<close> and equal to the exact one.\<close>

definition binary64_product_matches :: "f64 \<Rightarrow> int \<Rightarrow> bool" where
  "binary64_product_matches hours n =
     (case hours of
        Finite h \<Rightarrow>
          (case binary64 (h * 3600000000000) of
             Finite p \<Rightarrow> of_int \<lfloor>p\<rfloor> = p \<and> \<bar>p\<bar> < 2 ^ 127 \<and> \<lfloor>p\<rfloor> = n
           | _ \<Rightarrow> False)
      | _ \<Rightarrow> False)"

definition canonicalize_legacy_threshold ::
    "maximum_request \<Rightarrow> int \<Rightarrow> bool \<Rightarrow> maximum_refusal + legacy_canonicalization" where
  "canonicalize_legacy_threshold q wire_ns legacy_bound =
     and_then (ok_or (mq_legacy_hours_canonical q) LegacyThresholdCanonicalizationMismatch) (\<lambda>hours_text.
     and_then (ok_or (mq_legacy_ns_canonical q) LegacyThresholdCanonicalizationMismatch) (\<lambda>ns_text.
     and_then (ok_or (parse_f64 hours_text) LegacyThresholdCanonicalizationMismatch) (\<lambda>hours.
       if legacy_bound \<and> (f64_nonpositive hours \<or> hours_text \<noteq> [] \<and> hd hours_text = CHR ''-'')
       then Inl LegacyThresholdNonpositive
       else
     and_then (ok_or (canonical_legacy_hours_from_binary64_v1 hours) LegacyThresholdCanonicalizationMismatch)
       (\<lambda>reparsed.
       if reparsed \<noteq> hours_text then Inl LegacyThresholdCanonicalizationMismatch
       else
     and_then (exact_legacy_hours_to_ns hours_text) (\<lambda>ns.
       if \<not> binary64_product_matches hours ns then Inl LegacyThresholdBinary64MappingMismatch
       else if ns_text \<noteq> int_text ns \<or> wire_ns \<noteq> ns
       then Inl LegacyThresholdCanonicalizationMismatch
       else Inr \<lparr>lc_hours_canonical = hours_text, lc_ns_canonical = ns_text, lc_ns = ns\<rparr>)))))"

end
