(* ===== verification/Maximum_Threshold.thy ===== *)
theory Maximum_Threshold
  imports Maximum_Duration
begin

text \<open>
  The digit-string conversion of legacy hours is rational arithmetic: the product with the nanoseconds of an
  hour is formed digit by digit, scaled by moving zeros, and read back, and the two refusals are the two ways
  the exact product is not an \<open>i64\<close>.
\<close>

section \<open>Digits from the last one up\<close>

definition low_value :: "nat list \<Rightarrow> nat" where
  "low_value ds = foldr (\<lambda>d v. d + 10 * v) ds 0"

lemma low_value_simps [simp]: "low_value [] = 0" "low_value (d # ds) = d + 10 * low_value ds"
  by (simp_all add: low_value_def)

lemma digits_value_rev: "digits_value (rev ds) = low_value ds"
  by (induction ds) auto

lemma digits_value_low: "digits_value ds = low_value (rev ds)"
  using digits_value_rev [of "rev ds"] by simp

lemma carry_digits_value: "low_value (carry_digits c) = c"
  by (induction c rule: carry_digits.induct) (subst carry_digits.simps, auto)

lemma carry_digits_digits: "list_all (\<lambda>d. d < 10) (carry_digits c)"
  by (induction c rule: carry_digits.induct) (subst carry_digits.simps, auto)

lemma multiply_loop_value: "low_value (multiply_loop f ds c) = f * low_value ds + c"
proof (induction ds arbitrary: c)
  case (Cons d ds)
  let ?v = "d * f + c"
  have "low_value (multiply_loop f (d # ds) c) = ?v mod 10 + 10 * (f * low_value ds + ?v div 10)"
    by (simp add: Cons.IH)
  also have "\<dots> = 10 * (f * low_value ds) + (10 * (?v div 10) + ?v mod 10)" by (simp add: algebra_simps)
  also have "10 * (?v div 10) + ?v mod 10 = ?v" by (rule mult_div_mod_eq)
  finally show ?case by (simp add: algebra_simps)
qed (simp add: carry_digits_value)

lemma multiply_loop_digits: "list_all (\<lambda>d. d < 10) (multiply_loop f ds c)"
  by (induction f ds c rule: multiply_loop.induct) (simp_all add: carry_digits_digits)

section \<open>Leading and trailing zeros\<close>

lemma strip_value [simp]: "digits_value (strip_leading_zeros ds) = digits_value ds"
proof (cases "list_ex (\<lambda>d. d \<noteq> 0) ds")
  case True
  have "digits_value (dropWhile (\<lambda>d. d = 0) ds) = digits_value ds"
    by (induction ds) (auto simp: digits_value_Cons)
  with True show ?thesis by (simp add: strip_leading_zeros_def)
next
  case False
  then have "list_all (\<lambda>d. d = 0) ds" by (simp add: list_ex_iff list_all_iff)
  moreover from this have "list_all (\<lambda>d. d = 0) (drop n ds)" for n
    by (auto simp: list_all_iff dest: in_set_dropD)
  ultimately show ?thesis
    using False by (metis digits_value_eq_0 strip_leading_zeros_def)
qed

lemma strip_digits: "list_all (\<lambda>d. d < 10) ds \<Longrightarrow> list_all (\<lambda>d. d < 10) (strip_leading_zeros ds)"
  by (auto simp: strip_leading_zeros_def list_all_iff dest: set_dropWhileD in_set_dropD)

lemma multiply_digits_value: "digits_value (multiply_digits ds f) = f * digits_value ds"
  by (simp add: multiply_digits_def digits_value_rev multiply_loop_value) (simp add: digits_value_low)

lemma multiply_digits_digits: "list_all (\<lambda>d. d < 10) (multiply_digits ds f)"
  by (simp add: multiply_digits_def strip_digits multiply_loop_digits)

text \<open>A stripped string is as long as its number.\<close>

lemma strip_length:
  assumes "list_all (\<lambda>d. d < 10) ds" "0 < n"
  shows "n < length (strip_leading_zeros ds) \<longleftrightarrow> 10 ^ n \<le> digits_value ds"
proof (cases "list_ex (\<lambda>d. d \<noteq> 0) ds")
  case True
  let ?s = "strip_leading_zeros ds"
  have s: "?s = dropWhile (\<lambda>d. d = 0) ds" using True by (simp add: strip_leading_zeros_def)
  have ne: "?s \<noteq> []" using True by (auto simp: s dropWhile_eq_Nil_conv list_ex_iff)
  then obtain d r where dr: "?s = d # r" by (cases ?s) auto
  have d: "0 < d" using hd_dropWhile [of "\<lambda>d. d = 0" ds] unfolding s [symmetric] dr by simp
  have v: "digits_value ds = 10 ^ length r * d + digits_value r"
    using strip_value [of ds] unfolding dr digits_value_Cons by simp
  have small: "digits_value ds < 10 ^ length ?s"
    using digits_value_less [OF strip_digits [OF assms(1)]] by simp
  have "n < length ?s \<longleftrightarrow> n \<le> length r" using dr by (simp add: less_Suc_eq_le)
  also have "\<dots> \<longleftrightarrow> 10 ^ n \<le> digits_value ds"
  proof
    assume "n \<le> length r"
    then have "(10::nat) ^ n \<le> 10 ^ length r" by (simp add: power_increasing)
    also have "\<dots> \<le> 10 ^ length r * d" using d by simp
    finally show "10 ^ n \<le> digits_value ds" using v by linarith
  next
    assume "10 ^ n \<le> digits_value ds"
    with small have "(10::nat) ^ n < 10 ^ length ?s" by linarith
    then have "n < length ?s" by (simp only: power_strict_increasing_iff)
    then show "n \<le> length r" using dr by simp
  qed
  finally show ?thesis .
next
  case False
  then have "digits_value ds = 0" by (auto simp: digits_value_eq_0 list_ex_iff list_all_iff)
  then show ?thesis using False assms(2) by (simp add: strip_leading_zeros_def)
qed

lemma low_zeros_dvd:
  assumes "list_all (\<lambda>d. d < 10) ds"
  shows "n \<le> length (takeWhile (\<lambda>d. d = 0) ds)
    \<Longrightarrow> 10 ^ n dvd low_value ds \<and> low_value (drop n ds) = low_value ds div 10 ^ n"
    and "10 ^ n dvd low_value ds \<Longrightarrow> 0 < low_value ds \<Longrightarrow> n \<le> length (takeWhile (\<lambda>d. d = 0) ds)"
  using assms
proof (induction n arbitrary: ds)
  case (Suc n)
  {
    case 1
    then obtain d r where ds: "ds = d # r" by (cases ds) auto
    with 1 have d: "d = 0" and r: "n \<le> length (takeWhile (\<lambda>d. d = 0) r)" "list_all (\<lambda>d. d < 10) r"
      by (auto split: if_splits)
    with Suc.IH(1) [of r] ds show ?case by simp
  next
    case 2
    then obtain d r where ds: "ds = d # r" by (cases ds) auto
    have "10 dvd low_value ds" using 2(1) by (metis dvd_mult_left power_Suc)
    then have "10 dvd d" using ds by (simp add: dvd_add_left_iff)
    then have d: "d = 0" using 2(3) ds by auto
    then have "10 ^ n dvd low_value r" "0 < low_value r" using 2(1,2) ds by auto
    then show ?case using Suc.IH(2) [of r] 2(3) ds d by simp
  }
qed simp_all

section \<open>The exact product\<close>

text \<open>The mantissa is the product times \<open>10 ^ 11\<close> over \<open>10 ^ scale\<close>, refused when that is no whole number.\<close>

lemma scale_digits_value:
  assumes "list_all (\<lambda>d. d < 10) p" "11 < k \<Longrightarrow> 0 < digits_value p"
  shows "case scale_digits p k of
      Inr mantissa \<Rightarrow> list_all (\<lambda>d. d < 10) mantissa
        \<and> digits_value mantissa * 10 ^ k = digits_value p * 10 ^ 11
    | Inl reason \<Rightarrow> reason = LegacyThresholdNotIntegerNs \<and> \<not> 10 ^ k dvd digits_value p * 10 ^ 11"
proof (cases "11 < k")
  case False
  then have "(10::nat) ^ 11 = 10 ^ (11 - k) * 10 ^ k" by (simp add: power_add [symmetric])
  with False assms(1) show ?thesis
    by (auto simp: scale_digits_def digits_value_append list_all_iff)
next
  case True
  define e where "e = k - 11"
  have "k = e + 11" using True by (simp add: e_def)
  then have k: "(10::nat) ^ k = 10 ^ e * 10 ^ 11" by (simp only: power_add)
  have low: "digits_value p = low_value (rev p)" by (rule digits_value_low)
  have digits: "list_all (\<lambda>d. d < 10) (rev p)" using assms(1) by (simp add: list_all_iff)
  show ?thesis
  proof (cases "length (takeWhile (\<lambda>d. d = 0) (rev p)) < e")
    case short: True
    then have "\<not> 10 ^ e dvd digits_value p"
      using low_zeros_dvd(2) [OF digits, of e] assms(2) [OF True] low by auto
    then have "\<not> 10 ^ k dvd digits_value p * 10 ^ 11" by (simp add: k)
    with short True show ?thesis by (simp add: scale_digits_def e_def)
  next
    case False
    then have e: "10 ^ e dvd digits_value p" "low_value (drop e (rev p)) = digits_value p div 10 ^ e"
      using low_zeros_dvd(1) [OF digits, of e] low by auto
    have "e \<le> length p" using False by (metis length_rev length_takeWhile_le not_less order_trans)
    then have "digits_value (take (length p - e) p) = digits_value p div 10 ^ e"
      using e(2) by (simp add: digits_value_low rev_take)
    then have "digits_value (take (length p - e) p) * 10 ^ k = digits_value p * 10 ^ 11"
      using e(1) by (simp add: k)
    moreover have "scale_digits p k = Inr (take (length p - e) p)"
      using False True by (simp add: scale_digits_def e_def)
    ultimately show ?thesis using assms(1) by (auto simp: list_all_iff dest: in_set_takeD)
  qed
qed

text \<open>A canonical spelling of an optionally negative decimal.\<close>

definition hours_spelling :: "bool \<Rightarrow> string \<Rightarrow> string \<Rightarrow> string" where
  "hours_spelling negative whole fraction =
     (if negative then ''-'' else []) @ whole @ (if fraction = [] then [] else CHR ''.'' # fraction)"

definition canonical_digits :: "string \<Rightarrow> string \<Rightarrow> bool" where
  "canonical_digits whole fraction \<longleftrightarrow>
     whole \<noteq> [] \<and> list_all is_digit whole \<and> list_all is_digit fraction
     \<and> (whole = ''0'' \<or> hd whole \<noteq> CHR ''0'') \<and> (fraction = [] \<or> last fraction \<noteq> CHR ''0'')"

definition spelled_hours :: "bool \<Rightarrow> string \<Rightarrow> string \<Rightarrow> rat" where
  "spelled_hours negative whole fraction =
     (if negative then - 1 else 1)
     * (of_nat (digits_value (map digit_value (whole @ fraction))) / 10 ^ length fraction)"

lemma split_point_spelling:
  assumes "list_all is_digit whole"
  shows "split_point (whole @ (if fraction = [] then [] else CHR ''.'' # fraction)) = (whole, fraction)"
proof -
  have "c \<noteq> CHR ''.''" if "c \<in> set whole" for c
    using assms that by (metis is_digit_simps(1) list_all_iff)
  then show ?thesis by (auto simp: split_point_def takeWhile_append2 dropWhile_append2)
qed

lemma well_formed_spelling:
  "canonical_digits whole fraction
     \<Longrightarrow> well_formed_hours (whole @ (if fraction = [] then [] else CHR ''.'' # fraction))"
  using split_point_spelling [of whole fraction]
  by (auto simp: well_formed_hours_def canonical_digits_def list_all_iff)

lemma well_formed_cases:
  assumes "well_formed_hours u"
  obtains whole fraction where "canonical_digits whole fraction"
    "u = whole @ (if fraction = [] then [] else CHR ''.'' # fraction)"
proof -
  let ?w = "takeWhile (\<lambda>c. c \<noteq> CHR ''.'') u" and ?r = "dropWhile (\<lambda>c. c \<noteq> CHR ''.'') u"
  have wf: "canonical_digits ?w (tl ?r)" "CHR ''.'' \<in> set u \<Longrightarrow> tl ?r \<noteq> []"
    using assms by (auto simp: well_formed_hours_def split_point_def canonical_digits_def)
  have "?r = (if tl ?r = [] then [] else CHR ''.'' # tl ?r)"
  proof (cases ?r)
    case Nil
    then show ?thesis by (simp del: dropWhile_eq_Nil_conv)
  next
    case (Cons c r)
    then have c: "c = CHR ''.''" using hd_dropWhile [of "\<lambda>c. c \<noteq> CHR ''.''" u] by simp
    have "c \<in> set u" using Cons by (metis list.set_intros(1) set_dropWhileD)
    with wf(2) Cons c show ?thesis by simp
  qed
  moreover have "u = ?w @ ?r" by simp
  ultimately have "u = ?w @ (if tl ?r = [] then [] else CHR ''.'' # tl ?r)" by argo
  with wf(1) show thesis by (rule that)
qed

lemma hours_spelling_sign:
  assumes "canonical_digits whole fraction"
  defines "u \<equiv> whole @ (if fraction = [] then [] else CHR ''.'' # fraction)"
  shows "(hours_spelling negative whole fraction \<noteq> [] \<and> hd (hours_spelling negative whole fraction) = CHR ''-'')
      = negative"
    and "split_sign (hours_spelling negative whole fraction) = (negative, u)"
proof -
  obtain c cs where w: "whole = c # cs" "is_digit c"
    using assms(1) by (cases whole) (auto simp: canonical_digits_def)
  then have "c \<noteq> CHR ''-''" "c \<noteq> CHR ''+''" using is_digit_simps(2,3) by metis+
  then show "(hours_spelling negative whole fraction \<noteq> [] \<and> hd (hours_spelling negative whole fraction) = CHR ''-'')
      = negative" "split_sign (hours_spelling negative whole fraction) = (negative, u)"
    by (simp_all add: hours_spelling_def split_sign_def w u_def)
qed

text \<open>The digits of a canonical spelling with a fraction are not all zero.\<close>

lemma fraction_positive:
  assumes "canonical_digits whole fraction" "fraction \<noteq> []"
  shows "0 < digits_value (map digit_value (whole @ fraction))"
proof -
  have "is_digit (last fraction)" "last fraction \<noteq> CHR ''0''"
    using assms by (auto simp: canonical_digits_def list_all_iff)
  then have "digit_value (last fraction) \<noteq> 0" using digit_value_zero by blast
  then have "\<not> list_all (\<lambda>d. d = 0) (map digit_value (whole @ fraction))"
    using assms(2) by (auto simp: list_all_iff)
  then show ?thesis using digits_value_eq_0 by (metis gr0I)
qed

text \<open>What the conversion answers on every canonical spelling.\<close>

definition hours_to_ns_spec :: "rat \<Rightarrow> maximum_refusal + int" where
  "hours_to_ns_spec hours =
     (let ns = hours * 3600000000000 in
      if of_int \<lfloor>ns\<rfloor> \<noteq> ns then Inl LegacyThresholdNotIntegerNs
      else if in_i64 \<lfloor>ns\<rfloor> then Inr \<lfloor>ns\<rfloor>
      else Inl LegacyThresholdOverflow)"

lemma hours_to_ns_spec_whole:
  "hours * 3600000000000 = of_int n
     \<Longrightarrow> hours_to_ns_spec hours = (if in_i64 n then Inr n else Inl LegacyThresholdOverflow)"
  by (simp add: hours_to_ns_spec_def Let_def)

lemma signed_magnitude:
  "of_nat m * 10 ^ k = (of_nat c * 3600000000000 :: rat)
     \<Longrightarrow> (if neg then - 1 else 1) * (of_nat c / 10 ^ k) * 3600000000000
         = (of_int (if neg then - int m else int m) :: rat)"
  by (simp add: field_simps)

lemma whole_ns_dvd:
  assumes "(if neg then - 1 else 1) * (of_nat c / 10 ^ k) * 3600000000000 = (of_int z :: rat)"
  shows "(10::nat) ^ k dvd c * 36 * 10 ^ 11"
proof -
  have "of_int ((if neg then - 1 else 1) * int (c * 36 * 10 ^ 11)) = (of_int (z * 10 ^ k) :: rat)"
    using assms by (auto simp: field_simps)
  then have "(if neg then - 1 else 1) * int (c * 36 * 10 ^ 11) = z * 10 ^ k" by (simp only: of_int_eq_iff)
  then have "10 ^ k dvd (if neg then - 1 else 1) * int (c * 36 * 10 ^ 11)" by simp
  then have "int (10 ^ k) dvd int (c * 36 * 10 ^ 11)" by (simp split: if_splits)
  then show ?thesis by (simp only: int_dvd_int_iff)
qed

lemma exact_hours_spec:
  assumes canonical: "canonical_digits whole fraction"
  shows "exact_legacy_hours_to_ns (hours_spelling negative whole fraction)
       = hours_to_ns_spec (spelled_hours negative whole fraction)"
proof -
  let ?u = "whole @ (if fraction = [] then [] else CHR ''.'' # fraction)"
  let ?ds = "map digit_value (whole @ fraction)" and ?k = "length fraction"
  let ?p = "multiply_digits ?ds 36"
  let ?h = "spelled_hours negative whole fraction"
  note sign = hours_spelling_sign [OF canonical, of negative]
  have tail: "(if negative then tl (hours_spelling negative whole fraction)
      else hours_spelling negative whole fraction) = ?u"
    by (simp add: hours_spelling_def)
  have whole: "list_all is_digit whole" using canonical by (simp add: canonical_digits_def)
  have digits: "list_all (\<lambda>d. d < 10) ?p" by (rule multiply_digits_digits)
  have "0 < digits_value ?p" if "11 < ?k"
  proof -
    have "fraction \<noteq> []" using that by auto
    from fraction_positive [OF canonical this] show ?thesis by (simp add: multiply_digits_value)
  qed
  note scale = scale_digits_value [OF digits, of ?k, OF this]
  have h: "?h * 3600000000000 = (if negative then - 1 else 1) * (of_nat (digits_value ?ds) / 10 ^ ?k) * 3600000000000"
    by (simp add: spelled_hours_def)
  have step: "exact_legacy_hours_to_ns (hours_spelling negative whole fraction) =
      and_then (scale_digits ?p ?k) (\<lambda>m. if 19 < length (strip_leading_zeros m) then Inl LegacyThresholdOverflow
        else if in_i64 (if negative then - int (digits_value m) else int (digits_value m))
        then Inr (if negative then - int (digits_value m) else int (digits_value m))
        else Inl LegacyThresholdOverflow)"
    unfolding exact_legacy_hours_to_ns_def Let_def sign(1) tail split_point_spelling [OF whole]
    using well_formed_spelling [OF canonical] by (simp cong: if_cong)
  show ?thesis
  proof (cases "scale_digits ?p ?k")
    case (Inl reason)
    then have "reason = LegacyThresholdNotIntegerNs" "\<not> 10 ^ ?k dvd digits_value ?ds * 36 * 10 ^ 11"
      using scale by (simp_all add: multiply_digits_value mult.commute)
    moreover have "of_int \<lfloor>?h * 3600000000000\<rfloor> \<noteq> ?h * 3600000000000"
      using calculation(2) whole_ns_dvd [of negative "digits_value ?ds" ?k] h by metis
    ultimately show ?thesis using Inl step by (simp add: hours_to_ns_spec_def Let_def)
  next
    case (Inr m)
    then have m: "list_all (\<lambda>d. d < 10) m" "digits_value m * 10 ^ ?k = digits_value ?ds * 36 * 10 ^ 11"
      using scale by (simp_all add: multiply_digits_value mult.commute)
    let ?z = "if negative then - int (digits_value m) else int (digits_value m)"
    have "of_nat (digits_value m * 10 ^ ?k) = (of_nat (digits_value ?ds * 36 * 10 ^ 11) :: rat)"
      using m(2) by (simp only:)
    then have "?h * 3600000000000 = of_int ?z"
      unfolding h by (intro signed_magnitude) simp
    note spec = hours_to_ns_spec_whole [OF this]
    have "\<not> in_i64 ?z" if "19 < length (strip_leading_zeros m)"
      using that strip_length [OF m(1), of 19] by (auto simp: in_i64_def i64_min_def i64_max_def)
    then show ?thesis using step Inr spec by auto
  qed
qed

end
