(* ===== verification/Maximum_Resolution.thy ===== *)
theory Maximum_Resolution
  imports Maximum_Threshold
begin

text \<open>
  The resolution of a maximum-duration request (\<open>b06_maximum_duration.rs\<close>): the five legal shapes of the
  selection keys, the applicability of a shape to a reconstruction rule, the entry points for execution and
  for the configuration-only preflight, the row stage, and the arithmetic the row stage uses.
\<close>

section \<open>Shapes\<close>

definition select_shape ::
    "maximum_policy \<Rightarrow> maximum_disposition \<Rightarrow> threshold_source \<Rightarrow> string option
      \<Rightarrow> maximum_refusal + selection_shape \<times> int option" where
  "select_shape policy disposition source text =
     (if policy = DelegateToStrategy \<and> disposition = NoDisposition \<and> source = StrategyThreshold \<and> text = None
      then Inr (ExplicitStrategyNative, None)
      else if policy = ChronicleObservedCloseRejectionV1 \<and> disposition = NoDisposition
              \<and> source = ChronicleLegacyConfig \<and> text = None
      then Inr (ExplicitChronicleRejection, None)
      else if policy = PostReconstructionStrictMaxV1 \<and> source = FixedParameter \<and> text \<noteq> None
              \<and> disposition_active disposition
      then and_then (parse_threshold_ns (the text)) (\<lambda>n. Inr (ExplicitGenericFixed, Some n))
      else if policy = PostReconstructionStrictMaxV1 \<and> source = B12AdaptiveParticipant \<and> text = None
              \<and> disposition_active disposition
      then Inr (ExplicitGenericAdaptive, None)
      else Inl RequestShapeInvalid)"

datatype maximum_relation = RelNative | RelEquivalent | RelDerivative | RelRefused

fun maximum_relation_id :: "maximum_relation \<Rightarrow> string" where
  "maximum_relation_id RelNative = ''baseline_native''"
| "maximum_relation_id RelEquivalent = ''baseline_equivalent''"
| "maximum_relation_id RelDerivative = ''controlled_derivative''"
| "maximum_relation_id RelRefused = ''refused''"

fun reconstruction_native_stage :: "reconstruction_strategy \<Rightarrow> string" where
  "reconstruction_native_stage FusedMatcher = ''fused_candidate_close_admissibility''"
| "reconstruction_native_stage GesisStartStopRepair = ''gesis_fallback_timeout_600s''"
| "reconstruction_native_stage EyesComplement = ''eyes_device_state_blocks''"
| "reconstruction_native_stage DraxlerInterruptionAware = ''draxler_inactivity_closer_600s''"
| "reconstruction_native_stage _ = ''none''"

record maximum_applicability =
  ma_protocol_version :: string
  ma_shape :: selection_shape
  ma_requested_policy :: maximum_policy
  ma_effective_policy :: "maximum_policy option"
  ma_disposition :: maximum_disposition
  ma_threshold_source :: threshold_source
  ma_threshold_ns :: "string option"
  ma_relation :: maximum_relation
  ma_refusal_reason :: "maximum_refusal option"
  ma_effective_stage :: string
  ma_native_stage :: string
  ma_checked_i128_preflight :: "string option"
  ma_legacy_hours_canonical :: "string option"
  ma_legacy_ns_canonical :: "string option"
  ma_legacy_origin :: string

definition maximum_executable :: "maximum_applicability \<Rightarrow> bool" where
  "maximum_executable a \<longleftrightarrow> ma_relation a \<noteq> RelRefused"

definition b06_protocol_version :: string where
  "b06_protocol_version = ''chronicle-maximum-duration/v1''"

definition b06_checked_i128_preflight :: string where
  "b06_checked_i128_preflight = ''chronicle_explicit_b06_checked_i128_preflight_v1''"

definition legacy_origin :: "maximum_request \<Rightarrow> string" where
  "legacy_origin q =
     (if mq_long_threshold_explicit q then ''chronicle_legacy_explicit_v1''
      else ''chronicle_legacy_default_v1'')"

section \<open>Resolution\<close>

definition omitted_applicability :: "maximum_request \<Rightarrow> reconstruction_strategy \<Rightarrow> maximum_applicability" where
  "omitted_applicability q strategy =
     \<lparr>ma_protocol_version = b06_protocol_version, ma_shape = OmittedLegacy,
      ma_requested_policy = DelegateToStrategy, ma_effective_policy = Some DelegateToStrategy,
      ma_disposition = NoDisposition, ma_threshold_source = StrategyThreshold, ma_threshold_ns = None,
      ma_relation = RelNative, ma_refusal_reason = None, ma_effective_stage = ''none'',
      ma_native_stage = reconstruction_native_stage strategy, ma_checked_i128_preflight = None,
      ma_legacy_hours_canonical = None, ma_legacy_ns_canonical = None, ma_legacy_origin = legacy_origin q\<rparr>"

text \<open>An omitted shape cannot occur here; the source marks that arm unreachable.\<close>

fun shape_relation ::
    "selection_shape \<Rightarrow> reconstruction_strategy \<Rightarrow> maximum_relation \<times> maximum_refusal option \<times> string" where
  "shape_relation ExplicitStrategyNative strategy = (RelEquivalent, None, ''none'')"
| "shape_relation ExplicitChronicleRejection strategy =
     (if strategy = FusedMatcher then (RelEquivalent, None, ''native_candidate_admissibility'')
      else (RelRefused, Some PolicyIncompatibleWithReconstructionStrategy, ''none''))"
| "shape_relation ExplicitGenericFixed strategy =
     (RelDerivative, None, ''post_reconstruction_pre_concurrency'')"
| "shape_relation ExplicitGenericAdaptive strategy =
     (RelRefused, Some AdaptiveMaximumThresholdProviderUnavailable, ''none'')"
| "shape_relation OmittedLegacy strategy = undefined"

definition explicit_applicability ::
    "maximum_request \<Rightarrow> reconstruction_strategy \<Rightarrow> maximum_policy \<Rightarrow> maximum_disposition \<Rightarrow> threshold_source
      \<Rightarrow> selection_shape \<Rightarrow> int option \<Rightarrow> legacy_canonicalization \<Rightarrow> maximum_applicability" where
  "explicit_applicability q strategy policy disposition source shape threshold legacy =
     (case shape_relation shape strategy of (relation, refusal, stage) \<Rightarrow>
        \<lparr>ma_protocol_version = b06_protocol_version, ma_shape = shape, ma_requested_policy = policy,
         ma_effective_policy = (if refusal = None then Some policy else None),
         ma_disposition = disposition, ma_threshold_source = source,
         ma_threshold_ns = map_option int_text threshold, ma_relation = relation,
         ma_refusal_reason = refusal, ma_effective_stage = stage,
         ma_native_stage = reconstruction_native_stage strategy,
         ma_checked_i128_preflight = Some b06_checked_i128_preflight,
         ma_legacy_hours_canonical = Some (lc_hours_canonical legacy),
         ma_legacy_ns_canonical = Some (lc_ns_canonical legacy), ma_legacy_origin = legacy_origin q\<rparr>)"

definition explicit_config ::
    "maximum_request \<Rightarrow> maximum_policy \<Rightarrow> maximum_disposition \<Rightarrow> threshold_source
      \<Rightarrow> selection_shape \<Rightarrow> int option \<Rightarrow> legacy_canonicalization \<Rightarrow> maximum_config" where
  "explicit_config q policy disposition source shape threshold legacy =
     \<lparr>mc_shape = shape, mc_explicit = True, mc_policy = policy, mc_disposition = disposition,
      mc_threshold_source = source, mc_threshold_ns = threshold,
      mc_long_threshold_explicit = mq_long_threshold_explicit q,
      mc_legacy_hours_canonical = Some (lc_hours_canonical legacy),
      mc_legacy_ns_canonical = Some (lc_ns_canonical legacy)\<rparr>"

text \<open>The three selection keys of an explicit request, then its shape.\<close>

definition selection_keys ::
    "string option \<Rightarrow> string option \<Rightarrow> string option
      \<Rightarrow> maximum_refusal + maximum_policy \<times> maximum_disposition \<times> threshold_source" where
  "selection_keys policy disposition source =
     (if policy = None \<or> disposition = None \<or> source = None then Inl RequestShapeInvalid
      else and_then (maximum_policy_from_id (the policy)) (\<lambda>p.
           and_then (maximum_disposition_from_id (the disposition)) (\<lambda>d.
           and_then (threshold_source_from_id (the source)) (\<lambda>s. Inr (p, d, s)))))"

definition resolve_maximum_duration_parts ::
    "maximum_request \<Rightarrow> reconstruction_strategy \<Rightarrow> int
      \<Rightarrow> maximum_refusal + maximum_config option \<times> maximum_applicability" where
  "resolve_maximum_duration_parts q strategy wire_ns =
     (if \<not> request_explicit q then Inr (Some omitted_config, omitted_applicability q strategy)
      else
        and_then (selection_keys (mq_policy q) (mq_disposition q) (mq_threshold_source q)) (\<lambda>(p, d, s).
        and_then (select_shape p d s (mq_threshold_ns q)) (\<lambda>(shape, threshold).
        and_then (canonicalize_legacy_threshold q wire_ns
                    (strategy = FusedMatcher \<or> shape = ExplicitChronicleRejection)) (\<lambda>legacy.
          let a = explicit_applicability q strategy p d s shape threshold legacy in
          if ma_refusal_reason a \<noteq> None then Inr (None, a)
          else Inr (Some (explicit_config q p d s shape threshold legacy), a)))))"

definition resolve_maximum_duration ::
    "maximum_request \<Rightarrow> reconstruction_strategy \<Rightarrow> int
      \<Rightarrow> maximum_refusal + maximum_config \<times> maximum_applicability" where
  "resolve_maximum_duration q strategy wire_ns =
     and_then (resolve_maximum_duration_parts q strategy wire_ns) (\<lambda>(config, a).
       case config of
         Some c \<Rightarrow> Inr (c, a)
       | None \<Rightarrow> Inl (the (ma_refusal_reason a)))"

text \<open>A malformed request has no shape: the preflight reports what of its keys can be read.\<close>

definition readable :: "'a \<Rightarrow> (string \<Rightarrow> 'e + 'a) \<Rightarrow> string option \<Rightarrow> 'a" where
  "readable fallback read key =
     (case key of
        None \<Rightarrow> fallback
      | Some text \<Rightarrow> (case read text of Inl _ \<Rightarrow> fallback | Inr v \<Rightarrow> v))"

definition maximum_duration_applicability ::
    "maximum_request \<Rightarrow> reconstruction_strategy \<Rightarrow> int \<Rightarrow> maximum_applicability" where
  "maximum_duration_applicability q strategy wire_ns =
     (case resolve_maximum_duration_parts q strategy wire_ns of
        Inr (_, a) \<Rightarrow> a
      | Inl reason \<Rightarrow>
          \<lparr>ma_protocol_version = b06_protocol_version, ma_shape = OmittedLegacy,
           ma_requested_policy = readable DelegateToStrategy maximum_policy_from_id (mq_policy q),
           ma_effective_policy = None,
           ma_disposition = readable NoDisposition maximum_disposition_from_id (mq_disposition q),
           ma_threshold_source = readable StrategyThreshold threshold_source_from_id (mq_threshold_source q),
           ma_threshold_ns = None, ma_relation = RelRefused, ma_refusal_reason = Some reason,
           ma_effective_stage = ''none'', ma_native_stage = reconstruction_native_stage strategy,
           ma_checked_i128_preflight = Some b06_checked_i128_preflight,
           ma_legacy_hours_canonical = mq_legacy_hours_canonical q,
           ma_legacy_ns_canonical = mq_legacy_ns_canonical q, ma_legacy_origin = legacy_origin q\<rparr>)"

section \<open>The row stage\<close>

record maximum_row_stage =
  mr_explicit :: bool
  mr_threshold_ns :: "int option"
  mr_disposition :: maximum_disposition

definition omitted_row_stage :: maximum_row_stage where
  "omitted_row_stage = \<lparr>mr_explicit = False, mr_threshold_ns = None, mr_disposition = NoDisposition\<rparr>"

definition stage_generic_active :: "maximum_row_stage \<Rightarrow> bool" where
  "stage_generic_active st \<longleftrightarrow> mr_threshold_ns st \<noteq> None"

definition stage_checked_i128_active :: "maximum_row_stage \<Rightarrow> bool" where
  "stage_checked_i128_active st = mr_explicit st"

definition row_stage_of :: "maximum_config \<Rightarrow> maximum_row_stage" where
  "row_stage_of c =
     \<lparr>mr_explicit = mc_explicit c,
      mr_threshold_ns = (if config_generic_active c then mc_threshold_ns c else None),
      mr_disposition = mc_disposition c\<rparr>"

definition resolve_row_stage ::
    "string option \<Rightarrow> string option \<Rightarrow> string option \<Rightarrow> string option \<Rightarrow> maximum_refusal + maximum_row_stage" where
  "resolve_row_stage policy disposition source text =
     (if policy = None \<and> disposition = None \<and> source = None \<and> text = None then Inr omitted_row_stage
      else
        and_then (selection_keys policy disposition source) (\<lambda>(p, d, s).
        and_then (select_shape p d s text) (\<lambda>(shape, threshold).
          Inr \<lparr>mr_explicit = True,
               mr_threshold_ns = (if shape = ExplicitGenericFixed then threshold else None),
               mr_disposition = d\<rparr>)))"

section \<open>Qualification and truncation\<close>

definition exceeds_maximum :: "int \<Rightarrow> int \<Rightarrow> bool" where
  "exceeds_maximum raw_duration_ns threshold_ns \<longleftrightarrow> threshold_ns < raw_duration_ns"

definition checked_raw_duration_ns :: "int \<Rightarrow> int \<Rightarrow> maximum_refusal + int option" where
  "checked_raw_duration_ns start stop =
     (if stop - start < 0 then Inr None
      else if in_i64 (stop - start) then Inr (Some (stop - start))
      else Inl RawDurationUnrepresentable)"

definition truncated_stop_ns :: "int \<Rightarrow> int \<Rightarrow> maximum_refusal + int" where
  "truncated_stop_ns start threshold_ns =
     (if in_i64 (start + threshold_ns) then Inr (start + threshold_ns)
      else Inl EffectiveEndpointUnrepresentable)"

section \<open>Facts\<close>

lemma shape_relation_refusal:
  "shape \<noteq> OmittedLegacy \<Longrightarrow> shape_relation shape strategy = (relation, refusal, stage)
     \<Longrightarrow> (refusal = None \<longleftrightarrow> relation \<noteq> RelRefused) \<and> relation \<noteq> RelNative"
  by (cases shape) (auto split: if_splits)

lemma select_shape_cases:
  assumes "select_shape p d s text = Inr (shape, threshold)"
  shows "shape \<noteq> OmittedLegacy" "(shape = ExplicitGenericFixed) = (p = PostReconstructionStrictMaxV1 \<and> threshold \<noteq> None)"
    "threshold \<noteq> None \<Longrightarrow> shape = ExplicitGenericFixed"
  using assms by (auto simp: select_shape_def and_then_Inr split: if_splits)

lemma parse_threshold_range:
  "parse_threshold_ns t = Inr n \<Longrightarrow> 0 < n \<and> n \<le> i64_max"
proof -
  assume ok: "parse_threshold_ns t = Inr n"
  then have c: "t \<noteq> []" "is_digit (hd t)" "hd t \<noteq> CHR ''0''" and n: "n \<le> i64_max"
    "n = int (digits_value (map digit_value t))"
    by (auto simp: parse_threshold_ns_def Let_def split: if_splits)
  have "digit_value (hd t) \<noteq> 0" using c(2,3) digit_value_zero by blast
  then have "\<not> list_all (\<lambda>d. d = 0) (map digit_value t)" using c(1) by (cases t) auto
  with n show ?thesis by (auto simp: digits_value_eq_0 intro: gr0I)
qed

end
