(* ===== verification/Maximum_Properties.thy ===== *)
theory Maximum_Properties
  imports Maximum_Resolution
begin

text \<open>
  Properties of the maximum-duration policy: legacy hours are converted exactly, an accepted legacy threshold
  is the one the matcher uses, and the preflight, the execution entry point and the row stage agree.
\<close>

section \<open>Legacy hours\<close>

text \<open>C36: On a canonical decimal spelling of hours, whatever its number of digits, the digit-string conversion
  answers what exact rational arithmetic prescribes: the number of nanoseconds when it is a whole number in
  the range of \<open>i64\<close>, the refusal for a fraction of a nanosecond, or the refusal for an overflow.\<close>

theorem legacy_hours_exact:
  assumes "canonical_digits whole fraction"
  shows "exact_legacy_hours_to_ns (hours_spelling negative whole fraction)
       = (let ns = (if negative then - 1 else 1)
                   * (of_nat (digits_value (map digit_value (whole @ fraction))) / 10 ^ length fraction :: rat)
                   * 3600000000000 in
          if of_int \<lfloor>ns\<rfloor> \<noteq> ns then Inl LegacyThresholdNotIntegerNs
          else if in_i64 \<lfloor>ns\<rfloor> then Inr \<lfloor>ns\<rfloor>
          else Inl LegacyThresholdOverflow)"
  using exact_hours_spec [OF assms, of negative]
  by (simp only: hours_to_ns_spec_def spelled_hours_def)

theorem legacy_hours_exact_witness:
  "canonical_digits ''1'' ''25''
   \<and> exact_legacy_hours_to_ns ''1.25'' = Inr 4500000000000
   \<and> canonical_digits ''0'' ''000000000000001''
   \<and> exact_legacy_hours_to_ns ''-0.000000000000001'' = Inl LegacyThresholdNotIntegerNs"
proof -
  have a: "canonical_digits ''1'' ''25''" "canonical_digits ''0'' ''000000000000001''"
    by (simp_all add: canonical_digits_def is_digit_def)
  have s: "hours_spelling False ''1'' ''25'' = ''1.25''"
    "hours_spelling True ''0'' ''000000000000001'' = ''-0.000000000000001''"
    by (simp_all add: hours_spelling_def)
  have fractional: "- (9 / 2500) \<noteq> (of_int n :: rat)" for n
  proof
    assume "- (9 / 2500) = (of_int n :: rat)"
    then have "of_int (2500 * n) = (of_int (- 9) :: rat)" by simp
    then have "2500 * n = - 9" by (simp only: of_int_eq_iff)
    moreover have "10 dvd 2500 * n" by (rule dvd_mult2) simp
    ultimately show False by simp
  qed
  have "exact_legacy_hours_to_ns ''1.25'' = Inr 4500000000000"
    using legacy_hours_exact [OF a(1), of False] unfolding s
    by (simp add: digits_value_def digit_value_def in_i64_def i64_min_def i64_max_def)
  moreover have "exact_legacy_hours_to_ns ''-0.000000000000001'' = Inl LegacyThresholdNotIntegerNs"
  proof -
    have "exact_legacy_hours_to_ns ''-0.000000000000001'' =
        (if \<forall>n. - (9 / 2500) \<noteq> rat_of_int n then Inl LegacyThresholdNotIntegerNs
         else if in_i64 \<lfloor>- (9 / 2500 :: rat)\<rfloor> then Inr \<lfloor>- (9 / 2500 :: rat)\<rfloor> else Inl LegacyThresholdOverflow)"
      using legacy_hours_exact [OF a(2), of True] unfolding s
      by (simp add: digits_value_def digit_value_def Let_def)
    moreover have "\<forall>n. - (9 / 2500) \<noteq> rat_of_int n" using fractional by blast
    ultimately show ?thesis by simp
  qed
  ultimately show ?thesis using a by simp
qed

text \<open>What is accepted as hours is a canonical spelling, and \<open>parse::<f64>\<close> reads the number it spells.\<close>

lemma accepted_hours:
  assumes "exact_legacy_hours_to_ns s = Inr ns"
  obtains negative whole fraction where "canonical_digits whole fraction"
    "s = hours_spelling negative whole fraction"
    "spelled_hours negative whole fraction * 3600000000000 = of_int ns" "in_i64 ns"
    "parse_f64 s = Some (binary64 (spelled_hours negative whole fraction))"
proof -
  define negative where "negative = (s \<noteq> [] \<and> hd s = CHR ''-'')"
  define u where "u = (if negative then tl s else s)"
  have "well_formed_hours u"
    using assms by (auto simp: exact_legacy_hours_to_ns_def Let_def u_def negative_def split: if_splits)
  then obtain whole fraction where c: "canonical_digits whole fraction"
    and u: "u = whole @ (if fraction = [] then [] else CHR ''.'' # fraction)"
    by (rule well_formed_cases)
  have s: "s = hours_spelling negative whole fraction"
  proof (cases negative)
    case True
    then have "s = CHR ''-'' # u" unfolding negative_def u_def by (cases s) auto
    with True u show ?thesis by (simp add: hours_spelling_def)
  qed (use u in \<open>simp add: hours_spelling_def u_def\<close>)
  have spec: "hours_to_ns_spec (spelled_hours negative whole fraction) = Inr ns"
    using assms exact_hours_spec [OF c, of negative] s by simp
  then have ns: "spelled_hours negative whole fraction * 3600000000000 = of_int ns" "in_i64 ns"
    by (auto simp: hours_to_ns_spec_def Let_def split: if_splits)
  have "read_number u = Some (of_nat (digits_value (map digit_value (whole @ fraction))) / 10 ^ length fraction)"
    unfolding u using c by (intro read_number_plain) (auto simp: canonical_digits_def)
  moreover have "split_sign s = (negative, u)"
    unfolding s u by (rule hours_spelling_sign(2) [OF c])
  ultimately have "parse_f64 s = Some (binary64 (spelled_hours negative whole fraction))"
    by (simp add: parse_f64_def spelled_hours_def)
  with c s ns that show thesis by blast
qed

text \<open>C35: A legacy threshold that is accepted is exact: its text is the shortest spelling of the binary64 it
  denotes, the nanoseconds the browser sent are the exact product of those hours with the nanoseconds of an
  hour, written canonically, and they are positive whenever the fused matcher or the Chronicle arm reads them.\<close>

theorem accepted_threshold_exact:
  assumes "canonicalize_legacy_threshold q wire_ns bound = Inr c"
  shows "\<exists>negative whole fraction h.
     canonical_digits whole fraction
     \<and> mq_legacy_hours_canonical q = Some (hours_spelling negative whole fraction)
     \<and> parse_f64 (hours_spelling negative whole fraction) = Some (Finite h)
     \<and> (if h = 0 then ''0'' else display_f64 h) = hours_spelling negative whole fraction
     \<and> spelled_hours negative whole fraction * 3600000000000 = of_int wire_ns
     \<and> in_i64 wire_ns \<and> mq_legacy_ns_canonical q = Some (int_text wire_ns)
     \<and> lc_ns c = wire_ns
     \<and> (bound \<longrightarrow> 0 < wire_ns)"
proof -
  obtain t hours where q: "mq_legacy_hours_canonical q = Some t" "parse_f64 t = Some hours"
    "canonical_legacy_hours_from_binary64_v1 hours = Some t"
    "exact_legacy_hours_to_ns t = Inr wire_ns" "mq_legacy_ns_canonical q = Some (int_text wire_ns)"
    and c: "lc_ns c = wire_ns" and bound: "bound \<Longrightarrow> \<not> f64_nonpositive hours"
    using assms by (auto simp: canonicalize_legacy_threshold_def and_then_Inr split: if_splits)
  obtain negative whole fraction where h: "canonical_digits whole fraction"
    "t = hours_spelling negative whole fraction"
    "spelled_hours negative whole fraction * 3600000000000 = of_int wire_ns" "in_i64 wire_ns"
    "parse_f64 t = Some (binary64 (spelled_hours negative whole fraction))"
    using accepted_hours [OF q(4)] by metis
  obtain v where v: "hours = Finite v" "(if v = 0 then ''0'' else display_f64 v) = t"
    using q(3) by (cases hours) (auto simp: canonical_legacy_hours_from_binary64_v1_def)
  have "0 < wire_ns" if bound
  proof (rule ccontr)
    assume "\<not> 0 < wire_ns"
    then have "(of_int wire_ns :: rat) \<le> 0" by simp
    then have "spelled_hours negative whole fraction \<le> 0" using h(3) by linarith
    moreover have "binary64 (spelled_hours negative whole fraction) = Finite v" using h(5) q(2) v(1) by simp
    ultimately have "v \<le> 0" by (rule binary64_nonpos)
    then show False using bound [OF that] v(1) by simp
  qed
  moreover have "parse_f64 t = Some (Finite v)" using q(2) v(1) by simp
  ultimately show ?thesis using q(1,5) c h(1,3,4) v(2) unfolding h(2) by metis
qed

text \<open>The threshold of three hours, as the application ships it.\<close>

definition three_hours_request :: maximum_request where
  "three_hours_request =
     \<lparr>mq_policy = Some ''strategy_native'', mq_disposition = Some ''not_applicable'',
      mq_threshold_source = Some ''strategy_native'', mq_threshold_ns = None,
      mq_long_threshold_explicit = False, mq_legacy_hours_canonical = Some ''3'',
      mq_legacy_ns_canonical = Some ''10800000000000''\<rparr>"

lemma display_three: "display_f64 3 = ''3''"
proof -
  have low: "binary64 3 = Finite 3" by code_simp
  have magnitude: "decimal_magnitude 3 = 0" by (simp add: decimal_magnitude_def decimal.simps)
  have first: "short_candidate 3 (Suc 0) = Some (3, 0)"
    by (simp add: short_candidate_def magnitude low)
  have "[1..<18] = 1 # [2..<18]" by (simp add: upt_rec)
  then have "shortest_decimal 3 = (3, 0)"
    by (simp add: shortest_decimal_def first List.map_filter_simps del: upt_Suc upt_rec_numeral)
  moreover have "plain_decimal 3 0 = ''3''"
    by (simp add: plain_decimal_def decimal.simps char_of_def bit_0)
  ultimately show ?thesis by (simp add: display_f64_def drop_zeros.simps)
qed

lemma three_hours_accepted:
  "canonicalize_legacy_threshold three_hours_request 10800000000000 True =
     Inr \<lparr>lc_hours_canonical = ''3'', lc_ns_canonical = ''10800000000000'', lc_ns = 10800000000000\<rparr>"
proof -
  have "parse_f64 ''3'' = Some (Finite 3)" "binary64_product_matches (Finite 3) 10800000000000"
    by (code_simp, code_simp)
  moreover have "canonical_legacy_hours_from_binary64_v1 (Finite 3) = Some ''3''"
    by (simp add: canonical_legacy_hours_from_binary64_v1_def display_three)
  moreover have "exact_legacy_hours_to_ns ''3'' = Inr 10800000000000"
    using exact_hours_spec [of "''3''" "[]" False]
    by (simp add: canonical_digits_def is_digit_def hours_spelling_def spelled_hours_def hours_to_ns_spec_def
        digits_value_def digit_value_def in_i64_def i64_min_def i64_max_def)
  moreover have "int_text 10800000000000 = ''10800000000000''"
    by (simp add: int_text_def decimal.simps char_of_def bit_0 bit_numeral_rec)
  ultimately show ?thesis by (simp add: canonicalize_legacy_threshold_def three_hours_request_def)
qed

theorem accepted_threshold_exact_witness:
  "canonicalize_legacy_threshold three_hours_request 10800000000000 True
     = Inr \<lparr>lc_hours_canonical = ''3'', lc_ns_canonical = ''10800000000000'', lc_ns = 10800000000000\<rparr>
   \<and> in_i64 10800000000000
   \<and> mq_legacy_ns_canonical three_hours_request = Some (int_text 10800000000000)"
  using accepted_threshold_exact [OF three_hours_accepted] three_hours_accepted by blast

section \<open>Preflight, execution and row stage\<close>

lemma parts_shape:
  assumes "resolve_maximum_duration_parts q strategy wire_ns = Inr (config, a)"
  shows "maximum_executable a \<longleftrightarrow> config \<noteq> None" "ma_refusal_reason a = None \<longleftrightarrow> config \<noteq> None"
    "config = Some c \<Longrightarrow> resolve_row_stage (mq_policy q) (mq_disposition q) (mq_threshold_source q)
       (mq_threshold_ns q) = Inr (row_stage_of c)"
proof -
  have "(maximum_executable a \<longleftrightarrow> config \<noteq> None) \<and> (ma_refusal_reason a = None \<longleftrightarrow> config \<noteq> None)
      \<and> (\<forall>c. config = Some c \<longrightarrow> resolve_row_stage (mq_policy q) (mq_disposition q) (mq_threshold_source q)
       (mq_threshold_ns q) = Inr (row_stage_of c))"
  proof (cases "request_explicit q")
    case False
    then have "config = Some omitted_config" "a = omitted_applicability q strategy"
      using assms by (simp_all add: resolve_maximum_duration_parts_def)
    with False show ?thesis
      by (auto simp: maximum_executable_def omitted_applicability_def request_explicit_def
          resolve_row_stage_def omitted_row_stage_def row_stage_of_def omitted_config_def
          config_generic_active_def)
  next
    case True
    then obtain p d s shape threshold legacy where
      keys: "selection_keys (mq_policy q) (mq_disposition q) (mq_threshold_source q) = Inr (p, d, s)"
      and sel: "select_shape p d s (mq_threshold_ns q) = Inr (shape, threshold)"
      and a: "a = explicit_applicability q strategy p d s shape threshold legacy"
      and config: "config = (if ma_refusal_reason a \<noteq> None then None
        else Some (explicit_config q p d s shape threshold legacy))"
      using assms by (auto simp: resolve_maximum_duration_parts_def and_then_Inr Let_def split: if_splits)
    obtain relation refusal stage where rel: "shape_relation shape strategy = (relation, refusal, stage)"
      by (metis prod.collapse)
    have "maximum_executable a \<longleftrightarrow> refusal = None" "ma_refusal_reason a = refusal"
      using shape_relation_refusal [OF select_shape_cases(1) [OF sel] rel]
      by (simp_all add: a explicit_applicability_def maximum_executable_def rel)
    moreover have "\<not> (mq_policy q = None \<and> mq_disposition q = None \<and> mq_threshold_source q = None
        \<and> mq_threshold_ns q = None)"
      using True by (auto simp: request_explicit_def)
    then have "resolve_row_stage (mq_policy q) (mq_disposition q) (mq_threshold_source q) (mq_threshold_ns q)
        = Inr (row_stage_of (explicit_config q p d s shape threshold legacy))"
      using keys sel select_shape_cases [OF sel]
      by (auto simp: resolve_row_stage_def row_stage_of_def explicit_config_def config_generic_active_def)
    ultimately show ?thesis using config by auto
  qed
  then show "maximum_executable a \<longleftrightarrow> config \<noteq> None" "ma_refusal_reason a = None \<longleftrightarrow> config \<noteq> None"
    "config = Some c \<Longrightarrow> resolve_row_stage (mq_policy q) (mq_disposition q) (mq_threshold_source q)
       (mq_threshold_ns q) = Inr (row_stage_of c)"
    by blast+
qed

text \<open>C37: The configuration-only preflight and the execution entry point agree on every request: execution
  goes ahead exactly when the preflight reports an executable selection, then with the same applicability and
  with the row stage that the four selection keys alone determine; otherwise it is refused with the reason the
  preflight names.\<close>

theorem preflight_agrees_with_execution:
  "case resolve_maximum_duration q strategy wire_ns of
     Inr (config, a) \<Rightarrow>
       maximum_duration_applicability q strategy wire_ns = a \<and> maximum_executable a
       \<and> ma_refusal_reason a = None
       \<and> resolve_row_stage (mq_policy q) (mq_disposition q) (mq_threshold_source q) (mq_threshold_ns q)
           = Inr (row_stage_of config)
   | Inl reason \<Rightarrow>
       \<not> maximum_executable (maximum_duration_applicability q strategy wire_ns)
       \<and> ma_refusal_reason (maximum_duration_applicability q strategy wire_ns) = Some reason"
proof (cases "resolve_maximum_duration_parts q strategy wire_ns")
  case (Inl reason)
  then show ?thesis
    by (simp add: resolve_maximum_duration_def maximum_duration_applicability_def maximum_executable_def)
next
  case (Inr parts)
  obtain config a where parts: "parts = (config, a)" by force
  note shape = parts_shape [OF Inr [unfolded parts]]
  show ?thesis
  proof (cases config)
    case None
    with shape(2) obtain reason where "ma_refusal_reason a = Some reason" by auto
    with None shape(1) Inr parts show ?thesis
      by (simp add: resolve_maximum_duration_def maximum_duration_applicability_def)
  next
    case (Some c)
    with shape(1,2) shape(3) [OF Some] Inr parts show ?thesis
      by (simp add: resolve_maximum_duration_def maximum_duration_applicability_def)
  qed
qed

end
