(* ===== verification/Episode_Durations.thy ===== *)
theory Episode_Durations
  imports Maximum_Resolution Reconstruction Split_Sessions
begin

text \<open>
  What the reconstruction stage does to a row once its episode is known (\<open>stages/reconstruction.rs\<close>): the
  micro-use class, the minimum-duration floor with its dispositions, the generic maximum-duration stage, the
  policy for filtered apps, the order of the rows, and the layers of concurrent usage within a participant.
\<close>

section \<open>Settings\<close>

definition app_usage :: string where "app_usage = ''App Usage''"

definition filtered_app_usage :: string where "filtered_app_usage = ''Filtered App Usage''"

definition filtered_app_background_usage :: string where
  "filtered_app_background_usage = ''Filtered App Background Usage''"

definition filtered_stopped :: string where "filtered_stopped = ''Filtered App Stopped''"

definition end_of_usage_missing :: string where "end_of_usage_missing = ''End of Usage Missing''"

datatype micro_use_policy = NoMicroUse | OkoshiLt5s

definition okoshi_threshold_ns :: int where "okoshi_threshold_ns = 5000000000"

datatype minimum_comparator = StrictLt | InclusiveLe

fun minimum_qualifies :: "minimum_comparator \<Rightarrow> int \<Rightarrow> int \<Rightarrow> bool" where
  "minimum_qualifies StrictLt span_ns threshold_ns = (span_ns < threshold_ns)"
| "minimum_qualifies InclusiveLe span_ns threshold_ns = (span_ns \<le> threshold_ns)"

datatype minimum_disposition =
    ChronicleBlankKeepRow
  | RetainAndCredit
  | ExcludeBelowMinimum
  | DropBelowMinimum

datatype minimum_error =
    MinimumUsageDurationNonFinite
  | MinimumUsageDurationNegative
  | MinimumUsageDurationNanosecondOverflow

definition checked_minimum_duration_threshold_ns :: "f64 \<Rightarrow> minimum_error + int option" where
  "checked_minimum_duration_threshold_ns seconds =
     (case seconds of
        Finite s \<Rightarrow>
          if s < 0 then Inl MinimumUsageDurationNegative
          else if s = 0 then Inr None
          else
            (case binary64 (s * 1000000000) of
               Finite ns \<Rightarrow>
                 if 2 ^ 63 \<le> f64_round ns then Inl MinimumUsageDurationNanosecondOverflow
                 else Inr (if 0 < f64_round ns then Some (f64_round ns) else None)
             | _ \<Rightarrow> Inl MinimumUsageDurationNanosecondOverflow)
      | _ \<Rightarrow> Inl MinimumUsageDurationNonFinite)"

definition minimum_duration_threshold_ns :: "f64 \<Rightarrow> int option" where
  "minimum_duration_threshold_ns seconds =
     (case checked_minimum_duration_threshold_ns seconds of Inl _ \<Rightarrow> None | Inr threshold \<Rightarrow> threshold)"

section \<open>The maximum on one row\<close>

fun refuse :: "maximum_refusal + 'a \<Rightarrow> string + 'a" where
  "refuse (Inl reason) = Inl (execution_error reason)"
| "refuse (Inr v) = Inr v"

definition ns_as_seconds :: "int \<Rightarrow> rat" where
  "ns_as_seconds ns = f64_div (i64_as_f64 ns) 1000000000"

definition set_timing :: "(episode_timing \<Rightarrow> episode_timing) \<Rightarrow> pipeline_row \<Rightarrow> pipeline_row" where
  "set_timing f r = r\<lparr>row_timing := f (row_timing r)\<rparr>"

definition set_durations :: "rat option \<Rightarrow> episode_timing \<Rightarrow> episode_timing" where
  "set_durations seconds t =
     t\<lparr>et_duration_seconds := seconds,
       et_duration_minutes := map_option (\<lambda>s. f64_div s 60) seconds\<rparr>"

definition mark_maximum :: "bool \<Rightarrow> episode_timing \<Rightarrow> episode_timing" where
  "mark_maximum exceeds t =
     t\<lparr>et_maximum_qualified := Some exceeds, et_maximum_aggregate_eligible := True,
       et_maximum_drop_pending := False, et_maximum_trimmed_ns := None,
       et_effective_endpoint_reason := None\<rparr>"

text \<open>The endpoint moves to the threshold; a floor that blanked the duration keeps it blank.\<close>

definition truncate_timing :: "int \<Rightarrow> int \<Rightarrow> episode_timing \<Rightarrow> episode_timing" where
  "truncate_timing effective_stop threshold t =
     (let t = t\<lparr>et_stop := Some effective_stop,
                et_effective_endpoint_reason := Some MaximumDurationTruncationBoundary\<rparr>
      in if et_minimum_blank_applied t then t else set_durations (Some (ns_as_seconds threshold)) t)"

definition dispose_maximum ::
    "maximum_disposition \<Rightarrow> bool \<Rightarrow> int \<Rightarrow> int \<Rightarrow> int \<Rightarrow> episode_timing \<Rightarrow> string + episode_timing \<times> bool" where
  "dispose_maximum disposition is_filtered raw_start raw_duration threshold t =
     (case disposition of
        NoDisposition \<Rightarrow> Inr (t, False)
      | FlagAndRetain \<Rightarrow> Inr (t, False)
      | ExcludeAboveMaximum \<Rightarrow> Inr (t\<lparr>et_maximum_aggregate_eligible := False\<rparr>, False)
      | TruncateToThreshold \<Rightarrow>
          and_then (refuse (truncated_stop_ns raw_start threshold)) (\<lambda>effective_stop.
            let t = t\<lparr>et_maximum_trimmed_ns := Some (i64_sub raw_duration threshold)\<rparr> in
            if is_filtered then Inr (t, False)
            else Inr (truncate_timing effective_stop threshold t, True))
      | DropAboveMaximum \<Rightarrow> Inr (t\<lparr>et_maximum_drop_pending := True\<rparr>, False))"

definition apply_maximum_duration_to_row ::
    "pipeline_row \<Rightarrow> bool \<Rightarrow> maximum_row_stage \<Rightarrow> string + pipeline_row \<times> bool" where
  "apply_maximum_duration_to_row r is_filtered st =
     (case (et_raw_start (row_timing r), et_raw_stop (row_timing r)) of
        (Some raw_start, Some raw_stop) \<Rightarrow>
          and_then (if stage_checked_i128_active st
                    then refuse (checked_raw_duration_ns raw_start raw_stop) else Inr None)
            (\<lambda>span.
               case mr_threshold_ns st of
                 None \<Rightarrow> Inr (r, False)
               | Some threshold \<Rightarrow>
                   let raw_duration =
                         (case span of Some d \<Rightarrow> d | None \<Rightarrow> i64_saturating_sub raw_stop raw_start);
                       exceeds = exceeds_maximum raw_duration threshold;
                       t = mark_maximum exceeds (row_timing r)
                   in if \<not> exceeds then Inr (r\<lparr>row_timing := t\<rparr>, False)
                      else and_then (dispose_maximum (mr_disposition st) is_filtered raw_start raw_duration threshold t)
                             (\<lambda>(t, changed). Inr (r\<lparr>row_timing := t\<rparr>, changed)))
      | _ \<Rightarrow> Inr (r, False))"

section \<open>Duration classes\<close>

record duration_settings =
  ds_filtered_packages :: "string set"
  ds_micro_use :: micro_use_policy
  ds_minimum_seconds :: f64
  ds_minimum_comparator :: minimum_comparator
  ds_minimum_disposition :: minimum_disposition
  ds_closed_indices :: "nat list"
  ds_maximum :: maximum_row_stage

definition micro_use_of :: "micro_use_policy \<Rightarrow> int \<Rightarrow> micro_use_classification option" where
  "micro_use_of policy span_ns =
     (case policy of
        NoMicroUse \<Rightarrow> None
      | OkoshiLt5s \<Rightarrow>
          if span_ns \<le> 0 then Some NotClassifiable
          else if span_ns < okoshi_threshold_ns then Some MicroUse
          else Some NotMicroUse)"

text \<open>An opening row that will carry an episode, by its type or by the rule that closed it.\<close>

definition selected_start :: "duration_settings \<Rightarrow> nat \<Rightarrow> pipeline_row \<Rightarrow> bool" where
  "selected_start ds index r \<longleftrightarrow>
     row_interaction_type r = activity_resumed \<or> index \<in> set (ds_closed_indices ds)"

definition retained :: "duration_settings \<Rightarrow> nat \<Rightarrow> pipeline_row \<Rightarrow> bool" where
  "retained ds index r \<longleftrightarrow>
     row_interaction_type r \<noteq> activity_paused
     \<and> (selected_start ds index r \<longrightarrow> row_start r \<noteq> None \<and> row_stop r \<noteq> None)"

definition unbounded_evidence :: "duration_settings \<Rightarrow> pipeline_row \<Rightarrow> pipeline_row" where
  "unbounded_evidence ds r =
     (if row_interaction_type r = end_of_usage_missing
         \<and> (et_raw_start (row_timing r) \<noteq> None \<or> row_start r \<noteq> None)
      then
        let raw_start = (case et_raw_start (row_timing r) of None \<Rightarrow> row_start r | Some s \<Rightarrow> Some s);
            r = (if ds_micro_use ds \<noteq> NoMicroUse
                 then r\<lparr>row_micro_use_classification := Some NotClassifiable\<rparr> else r)
        in set_timing (\<lambda>t. t\<lparr>et_raw_start := raw_start, et_raw_stop := None, et_raw_duration_ns := None,
                             et_minimum_qualified := None\<rparr>) r
      else r)"

definition record_evidence :: "int \<Rightarrow> int \<Rightarrow> int \<Rightarrow> bool \<Rightarrow> episode_timing \<Rightarrow> episode_timing" where
  "record_evidence start stop span_ns qualified t =
     t\<lparr>et_raw_start := Some start, et_raw_stop := Some stop, et_raw_duration_ns := Some span_ns,
       et_minimum_qualified := Some qualified, et_aggregate_eligible := True,
       et_minimum_blank_applied := False, et_subinterval_floor_blank_applied := False,
       et_minimum_drop_pending := False\<rparr>"

definition blank_timing :: "episode_timing \<Rightarrow> episode_timing" where
  "blank_timing t = set_durations None (t\<lparr>et_start := None, et_stop := None\<rparr>)"

fun dispose_minimum :: "minimum_disposition \<Rightarrow> episode_timing \<Rightarrow> episode_timing" where
  "dispose_minimum ChronicleBlankKeepRow t = (set_durations None t)\<lparr>et_minimum_blank_applied := True\<rparr>"
| "dispose_minimum RetainAndCredit t = t"
| "dispose_minimum ExcludeBelowMinimum t = t\<lparr>et_aggregate_eligible := False\<rparr>"
| "dispose_minimum DropBelowMinimum t = t\<lparr>et_minimum_drop_pending := True\<rparr>"

definition below_minimum :: "duration_settings \<Rightarrow> int \<Rightarrow> bool" where
  "below_minimum ds span_ns =
     (case minimum_duration_threshold_ns (ds_minimum_seconds ds) of
        None \<Rightarrow> False
      | Some threshold \<Rightarrow> minimum_qualifies (ds_minimum_comparator ds) span_ns threshold)"

definition bounded_usage :: "duration_settings \<Rightarrow> pipeline_row \<Rightarrow> string + pipeline_row" where
  "bounded_usage ds r =
     (let is_filtered = row_app_package_name r \<in> ds_filtered_packages ds;
          start = the (row_start r);
          stop = the (row_stop r);
          span_ns = i64_saturating_sub stop start;
          qualified = below_minimum ds span_ns;
          t = record_evidence start stop span_ns qualified (row_timing r);
          t = (if is_filtered then blank_timing t else set_durations (Some (ns_as_seconds span_ns)) t);
          t = (if qualified then dispose_minimum (ds_minimum_disposition ds) t else t);
          r = r\<lparr>row_interaction_type := (if is_filtered then filtered_app_usage else app_usage),
                row_micro_use_classification := micro_use_of (ds_micro_use ds) span_ns,
                row_timing := t\<rparr>
      in if mr_explicit (ds_maximum ds)
         then and_then (apply_maximum_duration_to_row r is_filtered (ds_maximum ds)) (\<lambda>(r, _). Inr r)
         else Inr r)"

definition classify_row :: "duration_settings \<Rightarrow> nat \<times> pipeline_row \<Rightarrow> string + pipeline_row" where
  "classify_row ds = (\<lambda>(index, r).
     if row_interaction_type r = activity_resumed \<or> index \<in> set (ds_closed_indices ds)
     then bounded_usage ds (unbounded_evidence ds r)
     else Inr (unbounded_evidence ds r))"

fun collect_results :: "('e + 'a) list \<Rightarrow> 'e + 'a list" where
  "collect_results [] = Inr []"
| "collect_results (r # rs) = and_then r (\<lambda>x. and_then (collect_results rs) (\<lambda>xs. Inr (x # xs)))"

definition classify_episode_durations ::
    "duration_settings \<Rightarrow> pipeline_row list \<Rightarrow> string + pipeline_row list" where
  "classify_episode_durations ds rows =
     collect_results
       (map (classify_row ds)
          (filter (\<lambda>(index, r). retained ds index r) (zip [0..<length rows] rows)))"

section \<open>Filtered apps and the order of rows\<close>

definition timing_blanked_packages :: "string set \<Rightarrow> string set \<Rightarrow> string set" where
  "timing_blanked_packages filtered background_apps = {p \<in> filtered. p \<notin> background_apps}"

definition include_row :: "string set \<Rightarrow> string set \<Rightarrow> string set \<Rightarrow> pipeline_row \<Rightarrow> pipeline_row" where
  "include_row filtered labels background_apps r =
     (if row_app_package_name r \<notin> filtered \<and> row_application_label r \<notin> labels then r
      else if row_interaction_type r = app_usage \<and> row_app_package_name r \<in> background_apps
      then r\<lparr>row_interaction_type := filtered_app_background_usage\<rparr>
      else if row_interaction_type r = app_usage
      then set_timing (set_durations None) (r\<lparr>row_interaction_type := filtered_app_usage\<rparr>)
      else
        let r = (if row_interaction_type r = activity_stopped
                 then r\<lparr>row_interaction_type := filtered_stopped\<rparr> else r)
        in set_timing blank_timing r)"

definition apply_app_inclusion_policy ::
    "string set \<Rightarrow> string set \<Rightarrow> string set \<Rightarrow> pipeline_row list \<Rightarrow> pipeline_row list" where
  "apply_app_inclusion_policy filtered labels background_apps rows =
     map (include_row filtered labels background_apps)
       (filter (\<lambda>r. \<not> et_minimum_drop_pending (row_timing r) \<and> \<not> et_maximum_drop_pending (row_timing r)) rows)"

definition order_app_episodes :: "pipeline_row list \<Rightarrow> pipeline_row list" where
  "order_app_episodes rows = sort_key (\<lambda>r. (row_event_timestamp_ns r, row_index r)) rows"

section \<open>Concurrent usage\<close>

definition layered_usage :: "string set \<Rightarrow> pipeline_row \<Rightarrow> bool" where
  "layered_usage filtered r \<longleftrightarrow> row_interaction_type r = app_usage \<and> row_app_package_name r \<notin> filtered"

definition usage_indices :: "string set \<Rightarrow> pipeline_row list \<Rightarrow> string \<Rightarrow> nat list" where
  "usage_indices filtered rows p =
     filter (\<lambda>i. layered_usage filtered (rows ! i) \<and> row_participant_id (rows ! i) = p) [0..<length rows]"

text \<open>The participants in the order of the \<open>BTreeMap\<close>.\<close>

definition usage_participants :: "string set \<Rightarrow> pipeline_row list \<Rightarrow> string list" where
  "usage_participants filtered rows =
     sort (remdups (map row_participant_id (filter (layered_usage filtered) rows)))"

definition or_zero :: "int option \<Rightarrow> int" where
  "or_zero v = (case v of None \<Rightarrow> 0 | Some x \<Rightarrow> x)"

fun split_named :: "matcher_failure \<Rightarrow> matcher_failure" where
  "split_named (MatcherError message) = MatcherError (''split_overlapping_sessions: '' @ message)"
| "split_named failure = failure"

definition layered_of ::
    "string set \<Rightarrow> pipeline_row list \<Rightarrow> string \<Rightarrow> (nat \<times> layered_session) list matcher_result" where
  "layered_of filtered rows p =
     (let is = usage_indices filtered rows p in
      case split_overlapping_sessions (map (\<lambda>i. or_zero (row_start (rows ! i))) is)
             (map (\<lambda>i. or_zero (row_stop (rows ! i))) is) of
        Inl failure \<Rightarrow> Inl (split_named failure)
      | Inr sessions \<Rightarrow> Inr (map (\<lambda>s. (is ! ls_session s, s)) sessions))"

fun layer_name :: "usage_layer \<Rightarrow> string" where
  "layer_name Primary = ''primary''"
| "layer_name Secondary = ''secondary''"

definition layered_row :: "int option \<Rightarrow> bool \<Rightarrow> pipeline_row list \<Rightarrow> nat \<times> layered_session \<Rightarrow> pipeline_row" where
  "layered_row threshold apply_minimum rows = (\<lambda>(source_index, s).
     let r = rows ! source_index;
         span_ns = i64_sub (ls_stop s) (ls_start s);
         preserve = et_minimum_blank_applied (row_timing r);
         floor_blank = (\<not> preserve \<and> apply_minimum
                         \<and> (case threshold of None \<Rightarrow> False | Some t \<Rightarrow> span_ns < t));
         t = (row_timing r)\<lparr>et_start := Some (ls_start s), et_stop := Some (ls_stop s),
                            et_subinterval_floor_blank_applied := floor_blank\<rparr>
     in r\<lparr>row_timing := set_durations (if preserve \<or> floor_blank then None
                                       else Some (ns_as_seconds span_ns)) t,
          row_usage_layer := Some (layer_name (ls_layer s))\<rparr>)"

definition segment_concurrent_usage ::
    "string set \<Rightarrow> string set \<Rightarrow> bool \<Rightarrow> f64 \<Rightarrow> bool \<Rightarrow> pipeline_row list \<Rightarrow> pipeline_row list matcher_result" where
  "segment_concurrent_usage filtered background_apps model_concurrent minimum_seconds apply_minimum rows =
     (if \<not> model_concurrent \<and> background_apps = {} then Inr (order_app_episodes rows)
      else
        (case collect_results (map (layered_of filtered rows) (usage_participants filtered rows)) of
           Inl failure \<Rightarrow> Inl failure
         | Inr layered \<Rightarrow>
             Inr (order_app_episodes
               (filter (\<lambda>r. \<not> layered_usage filtered r) rows
                @ map (layered_row (minimum_duration_threshold_ns minimum_seconds) apply_minimum rows)
                    (concat layered)))))"

end
