(* ===== verification/Duration_Properties.thy ===== *)
theory Duration_Properties
  imports Episode_Durations
begin

text \<open>
  Properties of the duration classes: what a classified row publishes, and that the minimum and the maximum
  hold for the rows that are published.
\<close>

section \<open>One row under the maximum\<close>

definition usable_stage :: "maximum_row_stage \<Rightarrow> bool" where
  "usable_stage st \<longleftrightarrow> (case mr_threshold_ns st of None \<Rightarrow> True | Some T \<Rightarrow> 0 < T \<and> T \<le> i64_max)"

definition cut_to :: "maximum_row_stage \<Rightarrow> int \<Rightarrow> int \<Rightarrow> int option" where
  "cut_to st start stop =
     (case mr_threshold_ns st of
        None \<Rightarrow> None
      | Some T \<Rightarrow> if mr_disposition st = TruncateToThreshold \<and> T < stop - start then Some T else None)"

lemma threshold_span: "0 < T \<Longrightarrow> T \<le> i64_max \<Longrightarrow> i64_saturating_sub (start + T) start = T"
  by (simp add: i64_saturating_sub_def clamp_i64_def i64_min_def)

lemma checked_span_exceeds:
  assumes "refuse (checked_raw_duration_ns start stop) = Inr sp" "0 < T"
  shows "exceeds_maximum (case sp of Some d \<Rightarrow> d | None \<Rightarrow> i64_saturating_sub stop start) T \<longleftrightarrow> T < stop - start"
  using assms
  by (auto simp: checked_raw_duration_ns_def exceeds_maximum_def i64_saturating_sub_def clamp_i64_def
      i64_min_def i64_max_def split: if_splits)

lemma dispose_maximum_timing:
  assumes "dispose_maximum disposition False start raw_duration T t = Inr (t', changed)"
  shows "et_start t' = et_start t" "et_raw_start t' = et_raw_start t" "et_raw_stop t' = et_raw_stop t"
    "et_raw_duration_ns t' = et_raw_duration_ns t" "et_minimum_qualified t' = et_minimum_qualified t"
    "et_minimum_drop_pending t' = et_minimum_drop_pending t"
    "et_stop t' = (if disposition = TruncateToThreshold then Some (start + T) else et_stop t)"
    "et_duration_seconds t' = (if disposition = TruncateToThreshold \<and> \<not> et_minimum_blank_applied t
       then Some (ns_as_seconds T) else et_duration_seconds t)"
    "et_maximum_drop_pending t' = (disposition = DropAboveMaximum \<or> et_maximum_drop_pending t)"
  using assms
  by (cases disposition;
      auto simp: dispose_maximum_def and_then_Inr truncated_stop_ns_def truncate_timing_def set_durations_def
        Let_def split: if_splits)+

lemma mark_maximum_keeps [simp]:
  "et_start (mark_maximum b t) = et_start t" "et_stop (mark_maximum b t) = et_stop t"
  "et_raw_start (mark_maximum b t) = et_raw_start t" "et_raw_stop (mark_maximum b t) = et_raw_stop t"
  "et_raw_duration_ns (mark_maximum b t) = et_raw_duration_ns t"
  "et_minimum_qualified (mark_maximum b t) = et_minimum_qualified t"
  "et_minimum_drop_pending (mark_maximum b t) = et_minimum_drop_pending t"
  "et_minimum_blank_applied (mark_maximum b t) = et_minimum_blank_applied t"
  "et_duration_seconds (mark_maximum b t) = et_duration_seconds t"
  "et_maximum_drop_pending (mark_maximum b t) = False"
  by (simp_all add: mark_maximum_def)

text \<open>Without a threshold the row is unchanged; with one, the disposition acts on the rows above it.\<close>

lemma apply_maximum_cases:
  assumes "apply_maximum_duration_to_row r False st = Inr (r', changed)"
    and "et_raw_start (row_timing r) = Some start" "et_raw_stop (row_timing r) = Some stop"
    and "mr_explicit st" "usable_stage st"
  obtains (no_threshold) "mr_threshold_ns st = None" "r' = r"
    | (within) T where "mr_threshold_ns st = Some T" "\<not> T < stop - start"
        "r' = r\<lparr>row_timing := mark_maximum False (row_timing r)\<rparr>"
    | (above) T d t' where "mr_threshold_ns st = Some T" "T < stop - start"
        "dispose_maximum (mr_disposition st) False start d T (mark_maximum True (row_timing r)) = Inr (t', changed)"
        "r' = r\<lparr>row_timing := t'\<rparr>"
proof -
  obtain sp where sp: "refuse (checked_raw_duration_ns start stop) = Inr sp"
    using assms by (auto simp: apply_maximum_duration_to_row_def and_then_Inr stage_checked_i128_active_def)
  show thesis
  proof (cases "mr_threshold_ns st")
    case None
    with assms sp show thesis
      by (auto simp: apply_maximum_duration_to_row_def stage_checked_i128_active_def intro: no_threshold)
  next
    case (Some T)
    then have "0 < T" using assms(5) by (simp add: usable_stage_def)
    note exceeds = checked_span_exceeds [OF sp this]
    show thesis
      using assms(1-4) sp Some exceeds
      by (auto simp: apply_maximum_duration_to_row_def stage_checked_i128_active_def and_then_Inr Let_def
          intro: within above split: if_splits)
  qed
qed

section \<open>Classified rows\<close>

definition maximum_in_force :: "duration_settings \<Rightarrow> maximum_row_stage" where
  "maximum_in_force ds =
     (if mr_explicit (ds_maximum ds) then ds_maximum ds else omitted_row_stage)"

definition published_stop :: "duration_settings \<Rightarrow> int \<Rightarrow> int \<Rightarrow> int" where
  "published_stop ds start stop =
     (case cut_to (maximum_in_force ds) start stop of None \<Rightarrow> stop | Some T \<Rightarrow> start + T)"

definition floor_blanks :: "duration_settings \<Rightarrow> int \<Rightarrow> bool" where
  "floor_blanks ds d \<longleftrightarrow> below_minimum ds d \<and> ds_minimum_disposition ds = ChronicleBlankKeepRow"

lemma dispose_minimum_timing:
  "et_start (dispose_minimum m t) = et_start t" "et_stop (dispose_minimum m t) = et_stop t"
  "et_raw_start (dispose_minimum m t) = et_raw_start t" "et_raw_stop (dispose_minimum m t) = et_raw_stop t"
  "et_raw_duration_ns (dispose_minimum m t) = et_raw_duration_ns t"
  "et_minimum_qualified (dispose_minimum m t) = et_minimum_qualified t"
  "et_duration_seconds (dispose_minimum m t) =
     (if m = ChronicleBlankKeepRow then None else et_duration_seconds t)"
  "et_minimum_blank_applied (dispose_minimum m t) = (m = ChronicleBlankKeepRow \<or> et_minimum_blank_applied t)"
  "et_minimum_drop_pending (dispose_minimum m t) = (m = DropBelowMinimum \<or> et_minimum_drop_pending t)"
  "et_maximum_drop_pending (dispose_minimum m t) = et_maximum_drop_pending t"
  by (cases m; simp add: set_durations_def)+

text \<open>The row before the maximum acts on it.\<close>

definition measured_row :: "duration_settings \<Rightarrow> int \<Rightarrow> int \<Rightarrow> pipeline_row \<Rightarrow> pipeline_row" where
  "measured_row ds start stop r =
     (let d = i64_saturating_sub stop start;
          t = set_durations (Some (ns_as_seconds d))
                (record_evidence start stop d (below_minimum ds d) (row_timing r));
          t = (if below_minimum ds d then dispose_minimum (ds_minimum_disposition ds) t else t)
      in r\<lparr>row_interaction_type := app_usage,
           row_micro_use_classification := micro_use_of (ds_micro_use ds) d, row_timing := t\<rparr>)"

lemma measured_row_timing:
  fixes ds :: duration_settings
  assumes "row_start r = Some start" "row_stop r = Some stop"
  defines "d \<equiv> i64_saturating_sub stop start" and "t \<equiv> row_timing (measured_row ds start stop r)"
  shows "et_start t = Some start" "et_stop t = Some stop" "et_raw_start t = Some start"
    "et_raw_stop t = Some stop" "et_raw_duration_ns t = Some d"
    "et_minimum_qualified t = Some (below_minimum ds d)"
    "et_duration_seconds t = (if floor_blanks ds d then None else Some (ns_as_seconds d))"
    "et_minimum_blank_applied t = floor_blanks ds d"
    "et_minimum_drop_pending t = (below_minimum ds d \<and> ds_minimum_disposition ds = DropBelowMinimum)"
    "et_maximum_drop_pending t = et_maximum_drop_pending (row_timing r)"
  using assms(1,2)
  by (simp_all add: t_def d_def measured_row_def Let_def dispose_minimum_timing record_evidence_def
      set_durations_def floor_blanks_def)

lemma bounded_usage_measured:
  assumes "row_start r = Some start" "row_stop r = Some stop" "row_app_package_name r \<notin> ds_filtered_packages ds"
  shows "bounded_usage ds r =
     (if mr_explicit (ds_maximum ds)
      then and_then (apply_maximum_duration_to_row (measured_row ds start stop r) False (ds_maximum ds)) (\<lambda>(r, _). Inr r)
      else Inr (measured_row ds start stop r))"
  using assms by (simp add: bounded_usage_def measured_row_def Let_def)

lemma bounded_usage_row:
  assumes ok: "bounded_usage ds r = Inr r'"
    and ends: "row_start r = Some start" "row_stop r = Some stop"
    and pkg: "row_app_package_name r \<notin> ds_filtered_packages ds"
    and stage: "usable_stage (ds_maximum ds)"
  defines "d \<equiv> i64_saturating_sub stop start" and "t \<equiv> row_timing r'"
  shows "row_interaction_type r' = app_usage \<and> et_start t = Some start
    \<and> et_stop t = Some (published_stop ds start stop)
    \<and> et_raw_start t = Some start \<and> et_raw_stop t = Some stop \<and> et_raw_duration_ns t = Some d
    \<and> et_minimum_qualified t = Some (below_minimum ds d)
    \<and> et_duration_seconds t = (if floor_blanks ds d then None
        else Some (ns_as_seconds (i64_saturating_sub (published_stop ds start stop) start)))
    \<and> et_minimum_drop_pending t = (below_minimum ds d \<and> ds_minimum_disposition ds = DropBelowMinimum)
    \<and> (mr_disposition (maximum_in_force ds) = DropAboveMaximum \<longrightarrow>
         (\<forall>T. mr_threshold_ns (maximum_in_force ds) = Some T \<longrightarrow>
            et_maximum_drop_pending t = (T < stop - start)))"
proof -
  let ?m = "measured_row ds start stop r" and ?st = "ds_maximum ds"
  note m = measured_row_timing [OF ends, of ds, folded d_def]
  have type: "row_interaction_type ?m = app_usage" by (simp add: measured_row_def Let_def)
  show ?thesis
  proof (cases "mr_explicit ?st")
    case False
    then have "r' = ?m" using ok bounded_usage_measured [OF ends pkg] by simp
    then show ?thesis
      using False m type
      by (simp add: t_def maximum_in_force_def omitted_row_stage_def published_stop_def cut_to_def d_def)
  next
    case True
    then have force: "maximum_in_force ds = ?st" by (simp add: maximum_in_force_def)
    obtain changed where ap: "apply_maximum_duration_to_row ?m False ?st = Inr (r', changed)"
      using ok bounded_usage_measured [OF ends pkg] True by (auto simp: and_then_Inr)
    show ?thesis
    proof (cases rule: apply_maximum_cases [OF ap m(3,4) True stage])
      case 1
      then show ?thesis using m type by (simp add: t_def force published_stop_def cut_to_def d_def)
    next
      case (2 T)
      then show ?thesis using m type by (simp add: t_def force published_stop_def cut_to_def d_def)
    next
      case (3 T raw t')
      note t' = dispose_maximum_timing [OF 3(3), unfolded mark_maximum_keeps]
      have "i64_saturating_sub (start + T) start = T"
        using stage 3(1) threshold_span by (auto simp: usable_stage_def)
      then show ?thesis
        using 3(1,2,4) t' m type
        by (simp add: t_def force published_stop_def cut_to_def d_def)
    qed
  qed
qed

lemma collect_results_nth:
  "collect_results rs = Inr xs \<Longrightarrow> length xs = length rs \<and> (\<forall>i < length rs. rs ! i = Inr (xs ! i))"
proof (induction rs arbitrary: xs)
  case (Cons r rs)
  then obtain x ys where "r = Inr x" "collect_results rs = Inr ys" "xs = x # ys"
    by (auto simp: and_then_Inr)
  with Cons.IH [of ys] show ?case by (auto simp: nth_Cons split: nat.split)
qed simp

lemma collect_results_mem: "collect_results rs = Inr xs \<Longrightarrow> x \<in> set xs \<Longrightarrow> Inr x \<in> set rs"
  by (metis collect_results_nth in_set_conv_nth)

lemma unbounded_evidence_keeps [simp]:
  "row_start (unbounded_evidence ds r) = row_start r" "row_stop (unbounded_evidence ds r) = row_stop r"
  "row_app_package_name (unbounded_evidence ds r) = row_app_package_name r"
  "row_interaction_type (unbounded_evidence ds r) = row_interaction_type r"
  by (simp_all add: unbounded_evidence_def set_timing_def Let_def)

text \<open>Classification writes the type, the micro-use class and the timing, and nothing else.\<close>

definition same_but_class :: "pipeline_row \<Rightarrow> pipeline_row \<Rightarrow> bool" where
  "same_but_class r r' \<longleftrightarrow>
     (\<exists>kind micro timing.
        r' = r\<lparr>row_interaction_type := kind, row_micro_use_classification := micro, row_timing := timing\<rparr>)"

lemma same_but_class_trans: "same_but_class a b \<Longrightarrow> same_but_class b c \<Longrightarrow> same_but_class a c"
  unfolding same_but_class_def by (elim exE) (hypsubst, simp, blast)

lemma same_but_class_refl: "same_but_class r r"
proof -
  have "r = r\<lparr>row_interaction_type := row_interaction_type r,
      row_micro_use_classification := row_micro_use_classification r, row_timing := row_timing r\<rparr>"
    by simp
  then show ?thesis unfolding same_but_class_def by blast
qed

lemma same_but_class_updates:
  "same_but_class r (r\<lparr>row_interaction_type := k, row_micro_use_classification := m, row_timing := t\<rparr>)"
  "same_but_class r (r\<lparr>row_micro_use_classification := m\<rparr>)" "same_but_class r (r\<lparr>row_timing := t\<rparr>)"
proof -
  show "same_but_class r (r\<lparr>row_interaction_type := k, row_micro_use_classification := m, row_timing := t\<rparr>)" for r k m t
    unfolding same_but_class_def by blast
  note u = this
  show "same_but_class r (r\<lparr>row_micro_use_classification := m\<rparr>)" "same_but_class r (r\<lparr>row_timing := t\<rparr>)"
    using u [where r = r and k = "row_interaction_type r" and m = m and t = "row_timing r"]
      u [where r = r and k = "row_interaction_type r" and m = "row_micro_use_classification r" and t = t]
    by simp_all
qed

lemma unbounded_evidence_same: "same_but_class r (unbounded_evidence ds r)"
  unfolding unbounded_evidence_def set_timing_def Let_def
  by (auto intro: same_but_class_refl same_but_class_updates(3)
      same_but_class_trans [OF same_but_class_updates(2) same_but_class_updates(3)])

lemma apply_maximum_timing_only:
  assumes "apply_maximum_duration_to_row r f st = Inr (r', changed)"
  shows "r' = r\<lparr>row_timing := row_timing r'\<rparr>"
proof (cases "et_raw_start (row_timing r)"; cases "et_raw_stop (row_timing r)")
  fix start stop
  assume raw: "et_raw_start (row_timing r) = Some start" "et_raw_stop (row_timing r) = Some stop"
  show ?thesis
  proof (cases "mr_threshold_ns st")
    case None
    then have "r' = r"
      using assms raw by (simp add: apply_maximum_duration_to_row_def and_then_Inr del: split_paired_Ex)
    then show ?thesis by simp
  next
    case (Some T)
    then have "\<exists>t. r' = r\<lparr>row_timing := t\<rparr>"
      using assms raw
      by (simp add: apply_maximum_duration_to_row_def and_then_Inr Let_def split: if_splits) blast+
    then show ?thesis by (elim exE) simp
  qed
qed (use assms in \<open>simp_all add: apply_maximum_duration_to_row_def\<close>)

lemma apply_maximum_same:
  "apply_maximum_duration_to_row r f st = Inr (r', changed) \<Longrightarrow> same_but_class r r'"
  by (drule apply_maximum_timing_only) (metis same_but_class_updates(3))

lemma bounded_usage_same:
  assumes "bounded_usage ds r = Inr r'"
  shows "same_but_class r r'"
proof -
  obtain kind m t f where "bounded_usage ds r =
     (let q = r\<lparr>row_interaction_type := kind, row_micro_use_classification := m, row_timing := t\<rparr> in
      if mr_explicit (ds_maximum ds)
      then and_then (apply_maximum_duration_to_row q f (ds_maximum ds)) (\<lambda>(r, _). Inr r)
      else Inr q)"
    unfolding bounded_usage_def Let_def by blast
  with assms have "same_but_class (r\<lparr>row_interaction_type := kind, row_micro_use_classification := m,
      row_timing := t\<rparr>) r'"
    by (auto simp: and_then_Inr Let_def same_but_class_refl intro: apply_maximum_same split: if_splits)
  then show ?thesis by (rule same_but_class_trans [OF same_but_class_updates(1)])
qed

lemma apply_maximum_type:
  "apply_maximum_duration_to_row r f st = Inr (r', changed) \<Longrightarrow> row_interaction_type r' = row_interaction_type r"
  by (drule apply_maximum_timing_only) (metis pipeline_row.select_convs(8) pipeline_row.surjective pipeline_row.update_convs(20))

lemma filtered_usage_type:
  assumes "bounded_usage ds r = Inr r'" "row_app_package_name r \<in> ds_filtered_packages ds"
  shows "row_interaction_type r' = filtered_app_usage"
  using assms by (auto simp: bounded_usage_def Let_def and_then_Inr dest: apply_maximum_type split: if_splits)

lemma classify_row_same: "classify_row ds (index, r) = Inr r' \<Longrightarrow> same_but_class r r'"
  by (auto simp: classify_row_def unbounded_evidence_same split: if_splits
      intro: same_but_class_trans [OF unbounded_evidence_same bounded_usage_same])

text \<open>The rows that are kept, with their positions.\<close>

definition kept_rows :: "duration_settings \<Rightarrow> pipeline_row list \<Rightarrow> (nat \<times> pipeline_row) list" where
  "kept_rows ds rows = filter (\<lambda>(index, r). retained ds index r) (zip [0..<length rows] rows)"

lemma classified_nth:
  assumes "classify_episode_durations ds rows = Inr out"
  shows "length out = length (kept_rows ds rows)"
    "k < length out \<Longrightarrow> classify_row ds (kept_rows ds rows ! k) = Inr (out ! k)"
  using collect_results_nth [OF assms [unfolded classify_episode_durations_def kept_rows_def [symmetric]]]
  by auto

lemma kept_rows_retained:
  assumes "k < length (kept_rows ds rows)" "kept_rows ds rows ! k = (index, r)"
  shows "retained ds index r" "r \<in> set rows"
proof -
  have "(index, r) \<in> set (kept_rows ds rows)" using assms by (metis nth_mem)
  then show "retained ds index r" "r \<in> set rows"
    by (auto simp: kept_rows_def dest: set_zip_rightD)
qed

lemma classified_usage:
  assumes ok: "classify_row ds (index, r) = Inr r'" and kept: "retained ds index r"
    and sel: "selected_start ds index r" and pkg: "row_app_package_name r \<notin> ds_filtered_packages ds"
    and stage: "usable_stage (ds_maximum ds)"
  obtains start stop where "row_start r = Some start" "row_stop r = Some stop"
    "bounded_usage ds (unbounded_evidence ds r) = Inr r'"
    "row_start (unbounded_evidence ds r) = Some start" "row_stop (unbounded_evidence ds r) = Some stop"
    "row_app_package_name (unbounded_evidence ds r) \<notin> ds_filtered_packages ds"
proof -
  obtain start stop where "row_start r = Some start" "row_stop r = Some stop"
    using kept sel by (auto simp: retained_def)
  moreover have "bounded_usage ds (unbounded_evidence ds r) = Inr r'"
    using ok sel by (simp add: classify_row_def selected_start_def)
  ultimately show thesis using pkg that by simp
qed

text \<open>C40: classification keeps, in order, every row that is no pause and no opener without both endpoints,
  and changes only its type, its micro-use class and its timing. An opener of an app that is not filtered
  becomes a usage row: its raw duration is the saturating difference of its endpoints, its published stop is cut
  back to the maximum, which is positive when there is one, exactly when that is to be truncated and exceeded, and
  its published duration is the time between the published endpoints, blank exactly when the floor blanks it.\<close>

theorem classified_rows_exact:
  assumes "classify_episode_durations ds rows = Inr out" "usable_stage (ds_maximum ds)"
  shows "length out = length (kept_rows ds rows)
    \<and> (\<forall>k < length out. case kept_rows ds rows ! k of (index, r) \<Rightarrow>
         same_but_class r (out ! k)
         \<and> (selected_start ds index r \<and> row_app_package_name r \<notin> ds_filtered_packages ds \<longrightarrow>
              (\<exists>start stop. row_start r = Some start \<and> row_stop r = Some stop
                 \<and> row_interaction_type (out ! k) = app_usage
                 \<and> row_start (out ! k) = Some start
                 \<and> row_stop (out ! k) = Some (published_stop ds start stop)
                 \<and> et_raw_duration_ns (row_timing (out ! k)) = Some (i64_saturating_sub stop start)
                 \<and> et_minimum_qualified (row_timing (out ! k))
                     = Some (below_minimum ds (i64_saturating_sub stop start))
                 \<and> et_duration_seconds (row_timing (out ! k)) =
                     (if floor_blanks ds (i64_saturating_sub stop start) then None
                      else Some (ns_as_seconds
                             (i64_saturating_sub (published_stop ds start stop) start))))))"
proof -
  have "case kept_rows ds rows ! k of (index, r) \<Rightarrow>
         same_but_class r (out ! k)
         \<and> (selected_start ds index r \<and> row_app_package_name r \<notin> ds_filtered_packages ds \<longrightarrow>
              (\<exists>start stop. row_start r = Some start \<and> row_stop r = Some stop
                 \<and> row_interaction_type (out ! k) = app_usage
                 \<and> row_start (out ! k) = Some start
                 \<and> row_stop (out ! k) = Some (published_stop ds start stop)
                 \<and> et_raw_duration_ns (row_timing (out ! k)) = Some (i64_saturating_sub stop start)
                 \<and> et_minimum_qualified (row_timing (out ! k))
                     = Some (below_minimum ds (i64_saturating_sub stop start))
                 \<and> et_duration_seconds (row_timing (out ! k)) =
                     (if floor_blanks ds (i64_saturating_sub stop start) then None
                      else Some (ns_as_seconds
                             (i64_saturating_sub (published_stop ds start stop) start)))))"
    if k: "k < length out" for k
  proof (cases "kept_rows ds rows ! k")
    case (Pair index r)
    note row = classified_nth(2) [OF assms(1) k, unfolded Pair]
    have kept: "retained ds index r"
      using kept_rows_retained(1) [OF _ Pair] k classified_nth(1) [OF assms(1)] by simp
    have "\<exists>start stop. row_start r = Some start \<and> row_stop r = Some stop
                 \<and> row_interaction_type (out ! k) = app_usage
                 \<and> row_start (out ! k) = Some start
                 \<and> row_stop (out ! k) = Some (published_stop ds start stop)
                 \<and> et_raw_duration_ns (row_timing (out ! k)) = Some (i64_saturating_sub stop start)
                 \<and> et_minimum_qualified (row_timing (out ! k))
                     = Some (below_minimum ds (i64_saturating_sub stop start))
                 \<and> et_duration_seconds (row_timing (out ! k)) =
                     (if floor_blanks ds (i64_saturating_sub stop start) then None
                      else Some (ns_as_seconds
                             (i64_saturating_sub (published_stop ds start stop) start)))"
      if sel: "selected_start ds index r" "row_app_package_name r \<notin> ds_filtered_packages ds"
    proof -
      obtain start stop where e: "row_start r = Some start" "row_stop r = Some stop"
        and u: "bounded_usage ds (unbounded_evidence ds r) = Inr (out ! k)"
          "row_start (unbounded_evidence ds r) = Some start" "row_stop (unbounded_evidence ds r) = Some stop"
          "row_app_package_name (unbounded_evidence ds r) \<notin> ds_filtered_packages ds"
        using classified_usage [OF row kept sel assms(2)] by metis
      from bounded_usage_row [OF u assms(2)] e show ?thesis by blast
    qed
    with Pair classify_row_same [OF row] show ?thesis by simp
  qed
  with classified_nth(1) [OF assms(1)] show ?thesis by blast
qed

text \<open>Two episodes of one app, of forty and five nanoseconds, under a maximum of twenty that truncates.\<close>

definition timed_row :: "string \<Rightarrow> string \<Rightarrow> string \<Rightarrow> int \<Rightarrow> int \<Rightarrow> pipeline_row" where
  "timed_row participant kind package start stop =
     set_timing (\<lambda>t. t\<lparr>et_start := Some start, et_stop := Some stop\<rparr>)
       (event_row participant kind package start 1)"

definition sample_episodes :: "pipeline_row list" where
  "sample_episodes =
     [timed_row ''P'' activity_resumed ''a'' 10 50, event_row ''P'' activity_paused ''a'' 50 2,
      timed_row ''P'' activity_resumed ''a'' 60 65]"

definition sample_durations :: "maximum_disposition \<Rightarrow> duration_settings" where
  "sample_durations disposition =
     \<lparr>ds_filtered_packages = {}, ds_micro_use = NoMicroUse, ds_minimum_seconds = Finite 0,
      ds_minimum_comparator = StrictLt, ds_minimum_disposition = ChronicleBlankKeepRow, ds_closed_indices = [],
      ds_maximum = \<lparr>mr_explicit = True, mr_threshold_ns = Some 20, mr_disposition = disposition\<rparr>\<rparr>"

lemma sample_stage: "usable_stage (ds_maximum (sample_durations disposition))"
  by (simp add: usable_stage_def sample_durations_def i64_max_def)

lemma sample_classified:
  "\<exists>a b. classify_episode_durations (sample_durations TruncateToThreshold) sample_episodes = Inr [a, b]
     \<and> row_interaction_type a = app_usage
     \<and> \<not> et_minimum_drop_pending (row_timing a) \<and> \<not> et_maximum_drop_pending (row_timing a)"
  by (simp add: classify_episode_durations_def sample_episodes_def sample_durations_def timed_row_def set_timing_def
      event_row_def retained_def selected_start_def activity_resumed_def activity_paused_def classify_row_def
      unbounded_evidence_def end_of_usage_missing_def bounded_usage_def below_minimum_def
      minimum_duration_threshold_ns_def checked_minimum_duration_threshold_ns_def apply_maximum_duration_to_row_def
      record_evidence_def set_durations_def micro_use_of_def stage_checked_i128_active_def checked_raw_duration_ns_def
      exceeds_maximum_def dispose_maximum_def truncated_stop_ns_def truncate_timing_def mark_maximum_def
      in_i64_def i64_min_def i64_max_def Let_def upt_rec)

lemma sample_kept:
  "kept_rows (sample_durations disposition) sample_episodes =
     [(0, timed_row ''P'' activity_resumed ''a'' 10 50), (2, timed_row ''P'' activity_resumed ''a'' 60 65)]"
  by (simp add: kept_rows_def sample_episodes_def sample_durations_def retained_def selected_start_def timed_row_def
      set_timing_def event_row_def activity_resumed_def activity_paused_def upt_rec)

theorem classified_rows_exact_witness:
  "\<exists>a b. classify_episode_durations (sample_durations TruncateToThreshold) sample_episodes = Inr [a, b]
    \<and> row_start a = Some 10 \<and> row_stop a = Some 30 \<and> row_stop b = Some 65
    \<and> et_raw_duration_ns (row_timing a) = Some 40"
proof -
  obtain a b where ok: "classify_episode_durations (sample_durations TruncateToThreshold) sample_episodes = Inr [a, b]"
    using sample_classified by blast
  note exact = classified_rows_exact [OF ok sample_stage, unfolded sample_kept, THEN conjunct2, rule_format]
  have sel: "selected_start ds i (timed_row ''P'' activity_resumed ''a'' start stop)" for ds i start stop
    by (simp add: selected_start_def timed_row_def set_timing_def event_row_def)
  have pkg: "row_app_package_name (timed_row ''P'' activity_resumed ''a'' start stop)
      \<notin> ds_filtered_packages (sample_durations TruncateToThreshold)" for start stop
    by (simp add: sample_durations_def)
  have ends: "row_start (timed_row ''P'' activity_resumed ''a'' start stop) = Some start"
    "row_stop (timed_row ''P'' activity_resumed ''a'' start stop) = Some stop" for start stop
    by (simp_all add: timed_row_def set_timing_def)
  have stop: "published_stop (sample_durations TruncateToThreshold) 10 50 = 30"
    "published_stop (sample_durations TruncateToThreshold) 60 65 = 65"
    by (simp_all add: published_stop_def cut_to_def maximum_in_force_def sample_durations_def)
  have "i64_saturating_sub 50 10 = 40" by (simp add: i64_saturating_sub_def clamp_i64_def i64_min_def i64_max_def)
  then show ?thesis
    using ok exact [of 0] exact [of 1] sel pkg stop by (simp add: ends)
qed

section \<open>What is published\<close>

text \<open>A usage row after classification was an opener of an app that is not filtered, when no row of the table
  was a usage row before.\<close>

lemma usage_row_classified:
  assumes ok: "classify_episode_durations ds rows = Inr out" and r': "r' \<in> set out"
    and fresh: "\<forall>r \<in> set rows. row_interaction_type r \<noteq> app_usage"
    and type: "row_interaction_type r' = app_usage" and stage: "usable_stage (ds_maximum ds)"
  obtains r start stop where "bounded_usage ds r = Inr r'" "row_start r = Some start" "row_stop r = Some stop"
    "row_app_package_name r \<notin> ds_filtered_packages ds"
proof -
  obtain k where k: "k < length out" "out ! k = r'" using r' by (auto simp: in_set_conv_nth)
  obtain index r where kept: "kept_rows ds rows ! k = (index, r)" by (cases "kept_rows ds rows ! k")
  note row = classified_nth(2) [OF ok k(1), unfolded kept k(2)]
  have in_rows: "retained ds index r" "row_interaction_type r \<noteq> app_usage"
    using kept_rows_retained [OF _ kept] k(1) classified_nth(1) [OF ok] fresh by auto
  have sel: "selected_start ds index r"
  proof (rule ccontr)
    assume "\<not> selected_start ds index r"
    then have "r' = unbounded_evidence ds r" using row by (simp add: classify_row_def selected_start_def)
    with in_rows(2) type show False by simp
  qed
  have u: "bounded_usage ds (unbounded_evidence ds r) = Inr r'"
    using row sel by (simp add: classify_row_def selected_start_def)
  have pkg: "row_app_package_name r \<notin> ds_filtered_packages ds"
  proof
    assume "row_app_package_name r \<in> ds_filtered_packages ds"
    then have "row_interaction_type r' = filtered_app_usage"
      using filtered_usage_type [OF u] by simp
    with type show False by (simp add: app_usage_def filtered_app_usage_def)
  qed
  from in_rows(1) sel obtain start stop where "row_start r = Some start" "row_stop r = Some stop"
    by (auto simp: retained_def)
  with u pkg that [of "unbounded_evidence ds r"] show thesis by simp
qed

lemma included_usage_row:
  assumes "r' \<in> set (apply_app_inclusion_policy filtered labels background_apps rows)"
    and "row_interaction_type r' = app_usage"
  shows "r' \<in> set rows \<and> \<not> et_minimum_drop_pending (row_timing r') \<and> \<not> et_maximum_drop_pending (row_timing r')"
  using assms
  by (auto simp: apply_app_inclusion_policy_def include_row_def set_timing_def Let_def app_usage_def
      filtered_app_background_usage_def filtered_app_usage_def filtered_stopped_def activity_stopped_def split: if_splits)

text \<open>C38: when no row of the table is a usage row beforehand and the maximum is positive, every usage row that is
  published after classification and the policy for filtered apps has both endpoints. A maximum that truncates or
  drops bounds its length; a floor that drops leaves only rows whose raw duration it does not catch, and a floor
  that blanks leaves no duration on the rows it catches.\<close>

theorem published_durations_enforced:
  assumes "classify_episode_durations ds rows = Inr classified" "usable_stage (ds_maximum ds)"
    and "\<forall>r \<in> set rows. row_interaction_type r \<noteq> app_usage"
    and "r \<in> set (apply_app_inclusion_policy filtered labels background_apps classified)"
    and "row_interaction_type r = app_usage"
  shows "\<exists>start stop span. row_start r = Some start \<and> row_stop r = Some stop
    \<and> et_raw_duration_ns (row_timing r) = Some span
    \<and> (mr_disposition (maximum_in_force ds) \<in> {TruncateToThreshold, DropAboveMaximum} \<longrightarrow>
         (\<forall>T. mr_threshold_ns (maximum_in_force ds) = Some T \<longrightarrow> stop - start \<le> T))
    \<and> (ds_minimum_disposition ds = DropBelowMinimum \<longrightarrow> \<not> below_minimum ds span)
    \<and> (ds_minimum_disposition ds = ChronicleBlankKeepRow \<and> below_minimum ds span \<longrightarrow>
         et_duration_seconds (row_timing r) = None)"
proof -
  note r = included_usage_row [OF assms(4,5)]
  obtain q start stop where q: "bounded_usage ds q = Inr r" "row_start q = Some start" "row_stop q = Some stop"
      "row_app_package_name q \<notin> ds_filtered_packages ds"
    using usage_row_classified [OF assms(1) conjunct1 [OF r] assms(3,5,2)] .
  note facts = bounded_usage_row [OF q assms(2)]
  have "published_stop ds start stop - start \<le> T"
    if "mr_disposition (maximum_in_force ds) \<in> {TruncateToThreshold, DropAboveMaximum}"
      "mr_threshold_ns (maximum_in_force ds) = Some T" for T
    using that facts r by (auto simp: published_stop_def cut_to_def)
  with facts r show ?thesis by (auto simp: floor_blanks_def)
qed

theorem published_durations_enforced_witness:
  "\<exists>classified r start stop.
      classify_episode_durations (sample_durations TruncateToThreshold) sample_episodes = Inr classified
    \<and> r \<in> set (apply_app_inclusion_policy {} {} {} classified)
    \<and> row_start r = Some start \<and> row_stop r = Some stop \<and> stop - start \<le> 20"
proof -
  let ?ds = "sample_durations TruncateToThreshold"
  obtain a b where ok: "classify_episode_durations ?ds sample_episodes = Inr [a, b]"
    and a: "row_interaction_type a = app_usage" "\<not> et_minimum_drop_pending (row_timing a)"
      "\<not> et_maximum_drop_pending (row_timing a)"
    using sample_classified by blast
  have fresh: "\<forall>r \<in> set sample_episodes. row_interaction_type r \<noteq> app_usage"
    by (simp add: sample_episodes_def timed_row_def set_timing_def event_row_def activity_resumed_def
        activity_paused_def app_usage_def)
  have r: "a \<in> set (apply_app_inclusion_policy {} {} {} [a, b])"
    using a by (simp add: apply_app_inclusion_policy_def include_row_def)
  have "mr_threshold_ns (maximum_in_force ?ds) = Some 20" "mr_disposition (maximum_in_force ?ds) = TruncateToThreshold"
    by (simp_all add: maximum_in_force_def sample_durations_def)
  then show ?thesis
    using published_durations_enforced [OF ok sample_stage fresh r a(1)] ok r by auto
qed

end
