(* ===== verification/Concurrent_Usage.thy ===== *)
theory Concurrent_Usage
  imports Duration_Properties Matcher_Properties
begin

text \<open>
  Layers across the table: what \<open>segment_concurrent_usage\<close> does to the usage rows of each participant, from
  what the sweep does to one vector of sessions.
\<close>

section \<open>Counting the rows of a sweep\<close>

definition open_indices :: "int list \<Rightarrow> int list \<Rightarrow> int \<Rightarrow> nat set" where
  "open_indices starts stops \<tau> = {i. i < length starts \<and> starts ! i \<le> \<tau> \<and> \<tau> < stops ! i}"

lemma finite_open_indices [simp]: "finite (open_indices starts stops \<tau>)"
  by (simp add: open_indices_def)

lemma newest_unique:
  assumes "open_indices starts stops \<tau> \<noteq> {}"
  shows "\<exists>i. {k \<in> open_indices starts stops \<tau>. newest_at starts stops \<tau> k} = {i}"
proof -
  let ?O = "open_indices starts stops \<tau>" and ?f = "\<lambda>i. (starts ! i, i)"
  have "Max (?f ` ?O) \<in> ?f ` ?O" using assms by (intro Max_in) auto
  then obtain i where i: "i \<in> ?O" "Max (?f ` ?O) = ?f i" by auto
  have "starts ! j < starts ! i \<or> starts ! j = starts ! i \<and> j \<le> i" if "j \<in> ?O" for j
  proof -
    have "?f j \<le> Max (?f ` ?O)" using that by (intro Max_ge) auto
    then show ?thesis unfolding i(2) by auto
  qed
  then have "newest_at starts stops \<tau> i" by (simp add: newest_at_def open_indices_def)
  moreover have "k = i" if "k \<in> ?O" "newest_at starts stops \<tau> k" for k
  proof -
    have "starts ! i < starts ! k \<or> starts ! i = starts ! k \<and> i \<le> k"
      "starts ! k < starts ! i \<or> starts ! k = starts ! i \<and> k \<le> i"
      using that i(1) calculation by (simp_all add: newest_at_def open_indices_def)
    then show ?thesis by auto
  qed
  ultimately show ?thesis using i(1) by blast
qed

lemma length_by_session:
  assumes "\<forall>r \<in> set out. ls_session r < n"
  shows "length (filter P out) = (\<Sum>i<n. length (filter P (filter (\<lambda>r. ls_session r = i) out)))"
  using assms
proof (induction out)
  case (Cons r out)
  have "(\<Sum>i<n. length (filter P (filter (\<lambda>r. ls_session r = i) (r # out))))
      = (\<Sum>i<n. (if i = ls_session r then (if P r then 1 else 0) else 0)
          + length (filter P (filter (\<lambda>r. ls_session r = i) out)))"
    by (intro sum.cong) auto
  also have "\<dots> = (if P r then 1 else 0) + length (filter P out)"
    using Cons by (simp add: sum.distrib)
  finally show ?case by simp
qed simp

text \<open>At an instant there are as many rows as open sessions, and one of them is primary.\<close>

lemma split_counts:
  assumes "length starts = length stops" "\<forall>i < length starts. starts ! i \<le> stops ! i"
  obtains out where "split_overlapping_sessions starts stops = Inr out"
    "\<forall>r \<in> set out. ls_session r < length starts"
    "\<And>\<tau>. length (filter (\<lambda>r. ls_start r \<le> \<tau> \<and> \<tau> < ls_stop r) out) = card (open_indices starts stops \<tau>)"
    "\<And>\<tau>. length (filter (\<lambda>r. (ls_start r \<le> \<tau> \<and> \<tau> < ls_stop r) \<and> ls_layer r = Primary) out)
      = (if open_indices starts stops \<tau> = {} then 0 else 1)"
proof -
  obtain out where out: "split_overlapping_sessions starts stops = Inr out"
    and pt: "\<forall>i < length starts. \<forall>\<tau>. if starts ! i \<le> \<tau> \<and> \<tau> < stops ! i
         then \<exists>r. rows_at out i \<tau> = [r] \<and> (ls_layer r = Primary \<longleftrightarrow> newest_at starts stops \<tau> i)
         else rows_at out i \<tau> = []"
    using split_rows_pointwise [OF assms] by blast
  have bound: "\<forall>r \<in> set out. ls_session r < length starts"
    using split_rows_ordered [OF assms] out by auto
  let ?O = "open_indices starts stops"
  have rows: "filter (\<lambda>r. ls_start r \<le> \<tau> \<and> \<tau> < ls_stop r) (filter (\<lambda>r. ls_session r = i) out) = rows_at out i \<tau>"
    for i \<tau> by (simp add: rows_at_def conj_commute)
  have one: "length (rows_at out i \<tau>) = (if i \<in> ?O \<tau> then 1 else 0)"
    and prim: "length (filter (\<lambda>r. ls_layer r = Primary) (rows_at out i \<tau>))
      = (if i \<in> ?O \<tau> \<and> newest_at starts stops \<tau> i then 1 else 0)"
    if "i < length starts" for i \<tau>
    using pt [rule_format, OF that, of \<tau>] that by (auto simp: open_indices_def split: if_splits)
  have card: "(\<Sum>i<length starts. if i \<in> A then 1 else 0) = card A" if "A \<subseteq> ?O \<tau>" for A \<tau>
  proof -
    have "{..<length starts} \<inter> A = A" using that by (auto simp: open_indices_def)
    then show ?thesis by (simp add: sum.If_cases)
  qed
  have "length (filter (\<lambda>r. ls_start r \<le> \<tau> \<and> \<tau> < ls_stop r) out) = card (?O \<tau>)" for \<tau>
  proof -
    have "length (filter (\<lambda>r. ls_start r \<le> \<tau> \<and> \<tau> < ls_stop r) out)
        = (\<Sum>i<length starts. length (rows_at out i \<tau>))"
      unfolding length_by_session [OF bound] rows ..
    also have "\<dots> = (\<Sum>i<length starts. if i \<in> ?O \<tau> then 1 else 0)" by (intro sum.cong) (simp_all add: one)
    finally show ?thesis unfolding card [OF subset_refl] .
  qed
  moreover have "length (filter (\<lambda>r. (ls_start r \<le> \<tau> \<and> \<tau> < ls_stop r) \<and> ls_layer r = Primary) out)
      = (if ?O \<tau> = {} then 0 else 1)" for \<tau>
  proof -
    let ?N = "{k \<in> ?O \<tau>. newest_at starts stops \<tau> k}"
    have "filter (\<lambda>r. (ls_start r \<le> \<tau> \<and> \<tau> < ls_stop r) \<and> ls_layer r = Primary) (filter (\<lambda>r. ls_session r = i) out)
        = filter (\<lambda>r. ls_layer r = Primary) (rows_at out i \<tau>)" for i
      by (simp add: rows [symmetric])
    then have "length (filter (\<lambda>r. (ls_start r \<le> \<tau> \<and> \<tau> < ls_stop r) \<and> ls_layer r = Primary) out)
        = (\<Sum>i<length starts. length (filter (\<lambda>r. ls_layer r = Primary) (rows_at out i \<tau>)))"
      unfolding length_by_session [OF bound] by simp
    also have "\<dots> = (\<Sum>i<length starts. if i \<in> ?N then 1 else 0)" by (intro sum.cong) (simp_all add: prim)
    also have "\<dots> = card ?N" by (rule card [of _ \<tau>]) auto
    also have "card ?N = (if ?O \<tau> = {} then 0 else 1)"
    proof (cases "?O \<tau> = {}")
      case False
      with newest_unique [of starts stops \<tau>] obtain i where "?N = {i}" by blast
      then have "card ?N = card {i}" by (rule arg_cong)
      with False show ?thesis by simp
    qed simp
    finally show ?thesis .
  qed
  ultimately show thesis using that out bound by blast
qed

section \<open>The table\<close>

definition covers_instant :: "int \<Rightarrow> pipeline_row \<Rightarrow> bool" where
  "covers_instant \<tau> r \<longleftrightarrow>
     (case (row_start r, row_stop r) of (Some start, Some stop) \<Rightarrow> start \<le> \<tau> \<and> \<tau> < stop | _ \<Rightarrow> False)"

definition in_use :: "string set \<Rightarrow> string \<Rightarrow> int \<Rightarrow> pipeline_row \<Rightarrow> bool" where
  "in_use filtered p \<tau> r \<longleftrightarrow> layered_usage filtered r \<and> row_participant_id r = p \<and> covers_instant \<tau> r"

definition usable_usage :: "string set \<Rightarrow> pipeline_row list \<Rightarrow> bool" where
  "usable_usage filtered rows \<longleftrightarrow>
     (\<forall>r \<in> set rows. layered_usage filtered r \<longrightarrow>
        (\<exists>start stop. row_start r = Some start \<and> row_stop r = Some stop \<and> start \<le> stop))"

lemma layered_row_simps [simp]:
  "row_interaction_type (layered_row th am rows (i, s)) = row_interaction_type (rows ! i)"
  "row_app_package_name (layered_row th am rows (i, s)) = row_app_package_name (rows ! i)"
  "row_participant_id (layered_row th am rows (i, s)) = row_participant_id (rows ! i)"
  "row_usage_layer (layered_row th am rows (i, s)) = Some (layer_name (ls_layer s))"
  "row_start (layered_row th am rows (i, s)) = Some (ls_start s)"
  "row_stop (layered_row th am rows (i, s)) = Some (ls_stop s)"
  by (simp_all add: layered_row_def Let_def set_durations_def)

lemma layer_name_primary [simp]: "layer_name l = ''primary'' \<longleftrightarrow> l = Primary"
  by (cases l) simp_all

lemma in_use_layered_row:
  "layered_usage filtered (rows ! i) \<Longrightarrow> row_participant_id (rows ! i) = q
     \<Longrightarrow> in_use filtered p \<tau> (layered_row th am rows (i, s)) \<longleftrightarrow> q = p \<and> ls_start s \<le> \<tau> \<and> \<tau> < ls_stop s"
  by (auto simp: in_use_def layered_usage_def covers_instant_def)

lemma usage_index:
  assumes "k < length (usage_indices filtered rows p)"
  defines "i \<equiv> usage_indices filtered rows p ! k"
  shows "i < length rows" "layered_usage filtered (rows ! i)" "row_participant_id (rows ! i) = p"
proof -
  have "i \<in> set (usage_indices filtered rows p)" using assms(1) unfolding i_def by (rule nth_mem)
  then show "i < length rows" "layered_usage filtered (rows ! i)" "row_participant_id (rows ! i) = p"
    by (simp_all add: usage_indices_def)
qed

text \<open>The rows of one participant at an instant, before and after.\<close>

lemma length_filter_nth: "length (filter (\<lambda>i. P (xs ! i)) [0..<length xs]) = length (filter P xs)"
  using filter_map [of P "\<lambda>i. xs ! i" "[0..<length xs]"] by (simp add: map_nth comp_def)

lemma open_usage_count:
  assumes "usable_usage filtered rows"
  shows "card (open_indices (map (\<lambda>i. or_zero (row_start (rows ! i))) (usage_indices filtered rows p))
      (map (\<lambda>i. or_zero (row_stop (rows ! i))) (usage_indices filtered rows p)) \<tau>)
    = length (filter (in_use filtered p \<tau>) rows)"
proof -
  let ?is = "usage_indices filtered rows p"
  let ?Z = "\<lambda>r. or_zero (row_start r) \<le> \<tau> \<and> \<tau> < or_zero (row_stop r)"
  have ends: "in_use filtered p \<tau> r \<longleftrightarrow> ?Z r \<and> layered_usage filtered r \<and> row_participant_id r = p"
    if "r \<in> set rows" for r
    using assms that by (auto simp: usable_usage_def in_use_def covers_instant_def or_zero_def)
  have "open_indices (map (\<lambda>i. or_zero (row_start (rows ! i))) ?is) (map (\<lambda>i. or_zero (row_stop (rows ! i))) ?is) \<tau>
      = {k. k < length ?is \<and> ?Z (rows ! (?is ! k))}"
    by (auto simp: open_indices_def)
  then have "card (open_indices (map (\<lambda>i. or_zero (row_start (rows ! i))) ?is)
      (map (\<lambda>i. or_zero (row_stop (rows ! i))) ?is) \<tau>) = length (filter (\<lambda>i. ?Z (rows ! i)) ?is)"
    by (simp add: length_filter_conv_card)
  also have "\<dots> = length (filter (\<lambda>i. in_use filtered p \<tau> (rows ! i)) [0..<length rows])"
    unfolding usage_indices_def filter_filter
    by (intro arg_cong [where f = length] filter_cong refl) (use ends in auto)
  finally show ?thesis using length_filter_nth [of "in_use filtered p \<tau>" rows] by simp
qed

text \<open>One participant's fragments.\<close>

lemma layered_of_counts:
  assumes ok: "usable_usage filtered rows"
  obtains sessions where "layered_of filtered rows p = Inr sessions"
    "\<forall>(i, s) \<in> set sessions. layered_usage filtered (rows ! i) \<and> row_participant_id (rows ! i) = p"
    "\<And>\<tau>. length (filter (\<lambda>(i, s). ls_start s \<le> \<tau> \<and> \<tau> < ls_stop s) sessions)
        = length (filter (in_use filtered p \<tau>) rows)"
    "\<And>\<tau>. length (filter (\<lambda>(i, s). (ls_start s \<le> \<tau> \<and> \<tau> < ls_stop s) \<and> ls_layer s = Primary) sessions)
        = (if filter (in_use filtered p \<tau>) rows = [] then 0 else 1)"
proof -
  let ?is = "usage_indices filtered rows p"
  let ?starts = "map (\<lambda>i. or_zero (row_start (rows ! i))) ?is" and ?stops = "map (\<lambda>i. or_zero (row_stop (rows ! i))) ?is"
  have ordered: "\<forall>i < length ?starts. ?starts ! i \<le> ?stops ! i"
  proof (intro allI impI)
    fix k assume k: "k < length ?starts"
    with usage_index [of k filtered rows p] ok
    obtain start stop where "row_start (rows ! (?is ! k)) = Some start" "row_stop (rows ! (?is ! k)) = Some stop" "start \<le> stop"
      unfolding usable_usage_def by (metis length_map nth_mem)
    with k show "?starts ! k \<le> ?stops ! k" by (simp add: or_zero_def)
  qed
  have len: "length ?starts = length ?stops" by simp
  note found = that
  show thesis
  proof (rule split_counts [OF len ordered])
    fix out
    assume out: "split_overlapping_sessions ?starts ?stops = Inr out"
    "\<forall>r \<in> set out. ls_session r < length ?starts"
    "\<And>\<tau>. length (filter (\<lambda>r. ls_start r \<le> \<tau> \<and> \<tau> < ls_stop r) out) = card (open_indices ?starts ?stops \<tau>)"
    "\<And>\<tau>. length (filter (\<lambda>r. (ls_start r \<le> \<tau> \<and> \<tau> < ls_stop r) \<and> ls_layer r = Primary) out)
      = (if open_indices ?starts ?stops \<tau> = {} then 0 else 1)"
  let ?sessions = "map (\<lambda>s. (?is ! ls_session s, s)) out"
  have empty: "open_indices ?starts ?stops \<tau> = {} \<longleftrightarrow> filter (in_use filtered p \<tau>) rows = []" for \<tau>
    using open_usage_count [OF ok, of p \<tau>] by (metis card_eq_0_iff finite_open_indices length_0_conv)
  show thesis
  proof (rule found)
    show "layered_of filtered rows p = Inr ?sessions" by (simp add: layered_of_def Let_def out(1))
    show "\<forall>(i, s) \<in> set ?sessions. layered_usage filtered (rows ! i) \<and> row_participant_id (rows ! i) = p"
      using out(2) usage_index by auto
    show "length (filter (\<lambda>(i, s). ls_start s \<le> \<tau> \<and> \<tau> < ls_stop s) ?sessions)
        = length (filter (in_use filtered p \<tau>) rows)" for \<tau>
      using out(3) [of \<tau>] open_usage_count [OF ok, of p \<tau>] by (simp add: filter_map comp_def)
    show "length (filter (\<lambda>(i, s). (ls_start s \<le> \<tau> \<and> \<tau> < ls_stop s) \<and> ls_layer s = Primary) ?sessions)
        = (if filter (in_use filtered p \<tau>) rows = [] then 0 else 1)" for \<tau>
      using out(4) [of \<tau>] empty [of \<tau>] by (simp add: filter_map comp_def)
  qed
  qed
qed

lemma collect_results_Inr: "collect_results (map (\<lambda>x. Inr (g x)) xs) = Inr (map g xs)"
  by (induction xs) simp_all

lemma sum_list_only: "distinct qs \<Longrightarrow> (\<Sum>q\<leftarrow>qs. if q = p then c q else 0) = (if p \<in> set qs then c p else (0::nat))"
  by (induction qs) auto

lemma length_filter_concat: "length (filter P (concat xss)) = (\<Sum>xs\<leftarrow>xss. length (filter P xs))"
  by (induction xss) simp_all

lemma mset_filter_order: "mset (filter P (order_app_episodes rows)) = mset (filter P rows)"
  by (simp add: order_app_episodes_def)

lemma length_filter_order: "length (filter P (order_app_episodes rows)) = length (filter P rows)"
  using mset_filter_order by (rule mset_eq_length)

definition sessions_of :: "string set \<Rightarrow> pipeline_row list \<Rightarrow> string \<Rightarrow> (nat \<times> layered_session) list" where
  "sessions_of filtered rows p =
     (case layered_of filtered rows p of Inl _ \<Rightarrow> [] | Inr sessions \<Rightarrow> sessions)"

lemma sessions_of_counts:
  assumes "usable_usage filtered rows"
  shows "layered_of filtered rows p = Inr (sessions_of filtered rows p)"
    "(i, s) \<in> set (sessions_of filtered rows p)
       \<Longrightarrow> layered_usage filtered (rows ! i) \<and> row_participant_id (rows ! i) = p"
    "length (filter (\<lambda>(i, s). ls_start s \<le> \<tau> \<and> \<tau> < ls_stop s) (sessions_of filtered rows p))
        = length (filter (in_use filtered p \<tau>) rows)"
    "length (filter (\<lambda>(i, s). (ls_start s \<le> \<tau> \<and> \<tau> < ls_stop s) \<and> ls_layer s = Primary) (sessions_of filtered rows p))
        = (if filter (in_use filtered p \<tau>) rows = [] then 0 else 1)"
proof (atomize (full), rule layered_of_counts [OF assms, of p], goal_cases)
  case (1 sessions)
  then show ?case by (auto simp: sessions_of_def)
qed

lemma fragments_count:
  assumes ok: "usable_usage filtered rows" and qs: "distinct qs"
    and P: "\<And>q i s. (i, s) \<in> set (sessions_of filtered rows q) \<Longrightarrow> P (layered_row th am rows (i, s)) \<longleftrightarrow> q = p \<and> Q (i, s)"
  shows "length (filter P (map (layered_row th am rows) (concat (map (sessions_of filtered rows) qs))))
    = (if p \<in> set qs then length (filter Q (sessions_of filtered rows p)) else 0)"
proof -
  have one: "length (filter (\<lambda>x. P (layered_row th am rows x)) (sessions_of filtered rows q))
      = (if q = p then length (filter Q (sessions_of filtered rows q)) else 0)" for q
  proof -
    have "filter (\<lambda>x. P (layered_row th am rows x)) (sessions_of filtered rows q)
        = filter (\<lambda>x. q = p \<and> Q x) (sessions_of filtered rows q)"
      using P by (intro filter_cong) auto
    then show ?thesis by simp
  qed
  have "length (filter P (map (layered_row th am rows) (concat (map (sessions_of filtered rows) qs))))
      = (\<Sum>q\<leftarrow>qs. length (filter (\<lambda>x. P (layered_row th am rows x)) (sessions_of filtered rows q)))"
    by (simp add: filter_map comp_def length_filter_concat)
  also have "\<dots> = (\<Sum>q\<leftarrow>qs. if q = p then length (filter Q (sessions_of filtered rows q)) else 0)"
    by (simp only: one)
  finally show ?thesis using sum_list_only [OF qs] by simp
qed

text \<open>C39: when every usage row has ordered endpoints and layering is on, it succeeds, and at every instant
  each participant has as many usage rows as sessions in use before; exactly one of them is primary when there
  is any, and none otherwise, whatever other participants do. Rows that are no usage are all kept as they are.\<close>

theorem one_primary_per_participant:
  assumes "usable_usage filtered rows" "model_concurrent \<or> background_apps \<noteq> {}"
  shows "\<exists>out. segment_concurrent_usage filtered background_apps model_concurrent minimum_seconds apply_minimum rows
        = Inr out
    \<and> (\<forall>p \<tau>. length (filter (in_use filtered p \<tau>) out) = length (filter (in_use filtered p \<tau>) rows)
        \<and> length (filter (\<lambda>r. in_use filtered p \<tau> r \<and> row_usage_layer r = Some ''primary'') out)
            = (if filter (in_use filtered p \<tau>) rows = [] then 0 else 1))
    \<and> mset (filter (\<lambda>r. \<not> layered_usage filtered r) out)
        = mset (filter (\<lambda>r. \<not> layered_usage filtered r) rows)"
proof -
  let ?qs = "usage_participants filtered rows" and ?S = "sessions_of filtered rows"
  let ?others = "filter (\<lambda>r. \<not> layered_usage filtered r) rows"
  let ?row = "layered_row (minimum_duration_threshold_ns minimum_seconds) apply_minimum rows"
  let ?rows = "?others @ map ?row (concat (map ?S ?qs))"
  note S = sessions_of_counts [OF assms(1)]
  have "map (layered_of filtered rows) ?qs = map (\<lambda>p. Inr (?S p)) ?qs" using S(1) by simp
  then have "collect_results (map (layered_of filtered rows) ?qs) = Inr (map ?S ?qs)"
    by (simp only: collect_results_Inr)
  then have ok: "segment_concurrent_usage filtered background_apps model_concurrent minimum_seconds apply_minimum rows
      = Inr (order_app_episodes ?rows)"
    using assms(2) unfolding segment_concurrent_usage_def by auto
  have qs: "distinct ?qs" by (simp add: usage_participants_def)
  have absent: "filter (in_use filtered p \<tau>) rows = []" if "p \<notin> set ?qs" for p \<tau>
    using that by (auto simp: usage_participants_def filter_empty_conv in_use_def)
  have frag: "in_use filtered p \<tau> (?row (i, s)) \<longleftrightarrow> q = p \<and> ls_start s \<le> \<tau> \<and> \<tau> < ls_stop s"
    if "(i, s) \<in> set (?S q)" for p \<tau> q i s
    using S(2) [OF that] by (intro in_use_layered_row) auto
  have none: "filter (in_use filtered p \<tau>) ?others = []"
    "filter (\<lambda>r. in_use filtered p \<tau> r \<and> row_usage_layer r = Some ''primary'') ?others = []" for p \<tau>
    by (auto simp: filter_empty_conv in_use_def)
  have all: "length (filter (in_use filtered p \<tau>) ?rows) = length (filter (in_use filtered p \<tau>) rows)" for p \<tau>
    using fragments_count [OF assms(1) qs, of "in_use filtered p \<tau>" _ _ p
        "\<lambda>(i, s). ls_start s \<le> \<tau> \<and> \<tau> < ls_stop s"] S(3) [of \<tau> p] none absent [of p \<tau>] frag
    by (auto split: if_splits)
  have prim: "length (filter (\<lambda>r. in_use filtered p \<tau> r \<and> row_usage_layer r = Some ''primary'') ?rows)
      = (if filter (in_use filtered p \<tau>) rows = [] then 0 else 1)" for p \<tau>
    using fragments_count [OF assms(1) qs, of "\<lambda>r. in_use filtered p \<tau> r \<and> row_usage_layer r = Some ''primary''" _ _ p
        "\<lambda>(i, s). (ls_start s \<le> \<tau> \<and> \<tau> < ls_stop s) \<and> ls_layer s = Primary"] S(4) [of \<tau> p] none absent [of p \<tau>] frag
    by (auto split: if_splits)
  have "filter (\<lambda>r. \<not> layered_usage filtered r) (map ?row (concat (map ?S ?qs))) = []"
    using S(2) by (auto simp: filter_empty_conv layered_usage_def)
  then have "mset (filter (\<lambda>r. \<not> layered_usage filtered r) (order_app_episodes ?rows))
      = mset (filter (\<lambda>r. \<not> layered_usage filtered r) rows)"
    by (simp only: mset_filter_order filter_append filter_filter) simp
  with ok all prim show ?thesis by (auto simp: length_filter_order)
qed

text \<open>Two people use the phone at once, one of them two apps: at 25 the table has three usage rows, and \<open>P\<close> one
  primary of two.\<close>

definition sample_usage :: "pipeline_row list" where
  "sample_usage =
     [timed_row ''P'' app_usage ''a'' 10 50, timed_row ''Q'' app_usage ''a'' 15 40, timed_row ''P'' app_usage ''b'' 20 30]"

theorem one_primary_per_participant_witness:
  "\<exists>out. segment_concurrent_usage {} {} True (Finite 0) False sample_usage = Inr out
    \<and> length (filter (in_use {} ''P'' 25) out) = 2
    \<and> length (filter (\<lambda>r. in_use {} ''P'' 25 r \<and> row_usage_layer r = Some ''primary'') out) = 1"
proof -
  note sample = sample_usage_def timed_row_def set_timing_def event_row_def
  have "usable_usage {} sample_usage" by (simp add: usable_usage_def sample)
  moreover have two: "length (filter (in_use {} ''P'' 25) sample_usage) = 2"
    by (simp add: in_use_def covers_instant_def layered_usage_def sample)
  moreover have "filter (in_use {} ''P'' 25) sample_usage \<noteq> []" using two by auto
  ultimately show ?thesis
    using one_primary_per_participant [of "{}" sample_usage True "{}" "Finite 0" False] by fastforce
qed

end
