(* ===== verification/Spec2Isabelle.thy ===== *)
theory Spec2Isabelle
  imports Matcher_Properties Eyes_Properties Eyes_Evidence_Properties Credit_Properties Screen_Properties
    Polled_Properties Eyes_Arm Maximum_Properties Concurrent_Usage
begin

text \<open>
  A verification development for the episode logic of the Chronicle Android preprocessing application.

  The application turns the event log of an Android phone into episodes of app usage. Two crates under
  \<open>src/rust\<close> hold its core, and this library models parts of both as executable functions translated from
  the source, component by component.

  \<^bold>\<open>chronicle_app_usage_matcher/src/lib.rs\<close> pairs the start of an episode with the event that ends it.
  The close reasons and their lineage strings are in \<open>Close_Reason\<close>; options, outputs, validation and the
  predicates on pairs in \<open>Matcher_Base\<close>; the linked-list pool of open starts (\<open>SparseOpenStarts\<close>) in
  \<open>Sparse_Open_Starts\<close>, with its contract, the locale \<open>open_start_pool\<close>, in \<open>Open_Start_Pool\<close>. The dense,
  sparse and proximity matchers are \<open>Matcher_Dense\<close>, \<open>Matcher_Sparse\<close> and \<open>Matcher_Proximity\<close>, the two
  published alternatives \<open>Gesis\<close> and \<open>Forward_Pairing\<close>, and the layering of overlapping sessions
  \<open>Split_Sessions\<close>. \<open>Fused_Spec\<close> states as a locale what every rule owes its caller. The properties are in
  \<open>Matcher_Properties\<close>: the optimised matchers agree with the reference ones, every start is reported once,
  every close is justified, the layers hold instant by instant, errors and panics are the ones stated.

  \<^bold>\<open>chronicle_chrono_kernel_wasm/src/eyes_complement.rs\<close> segments one device's stream into device states and
  app usage. \<open>Eyes_Types\<close> has its vocabulary (with \<open>normalize_interaction_type\<close> of the crate's \<open>lib.rs\<close>) and
  \<open>Float_Seconds\<close> its \<open>f64\<close> conversions. \<open>Eyes_Blocks\<close> builds brackets, gaps and glances, \<open>Eyes_Reconcile\<close>
  the block set, \<open>Eyes_Pickup\<close> the pickups export. \<open>Eyes_Triplets\<close> has the arena, queues and handlers of the
  episode reconstruction; \<open>Eyes_Triplet_Invariant\<close> and \<open>Eyes_Triplet_Handlers\<close> its invariant and that every
  handler keeps it; \<open>Eyes_Episodes\<close> the emission and the repair of endpoints. \<open>Eyes_Usage\<close> merges episodes
  into chunks, \<open>Eyes_Tagging\<close> shows that tagging partitions them, \<open>Eyes_Segment\<close> is the entry point with what
  is read off its result. The cutting contract \<open>interval_cut\<close> of \<open>Interval_Cut\<close> serves three cuts: shutdowns
  out of idles, chunks into fragments, chunks into credited fragments. \<open>Eyes_Evidence\<close> has the evidence
  bundle with its receipt and the validator of \<open>validate_eyes_tagged_fau_evidence\<close>; \<open>Eyes_Block_Shape\<close> and
  \<open>Eyes_Episode_Packages\<close> show that the segmentation's output passes its checks. The properties are in
  \<open>Eyes_Properties\<close> and \<open>Eyes_Evidence_Properties\<close>.

  \<^bold>\<open>chronicle_chrono_kernel_wasm/src/pipeline\<close> runs the stages around the matcher over rows.
  \<open>Source_Rows\<close> is the lineage a row carries, a normal list of ranges of input rows; \<open>Pipeline_Row\<close> the row
  with its calendar columns. \<open>Screen_Credit\<close> and \<open>Credit_Emission\<close> are \<open>stages/credit.rs\<close>: the index of
  screen and liveness witnesses, the decision for every session under the four gating rules, the credited
  rows with their lineage, and the report. Its searches are in \<open>Interval_Search\<close>, its liveness spans with
  their reference in \<open>Alive_Spans\<close> (another instance of \<open>interval_cut\<close>). \<open>Credit_Exact\<close> shows which instants
  the interval loops cover, by an invariant on the loop over screen changes; \<open>Credit_Properties\<close> has the
  properties. \<open>Screen_Sessions\<close>, \<open>Screen_Classify\<close> and \<open>Screen_Bound\<close> are \<open>stages/screen.rs\<close>: the
  state machine of screen sessions, why each ended, the policies, and app rows bounded by the screen.
  \<open>Screen_Bouts\<close> shows that the machine cuts each participant's events into bouts, \<open>Float_Error\<close> bounds the
  rounding behind comparisons in seconds, and \<open>Screen_Properties\<close> has the properties. Binary searches end by the width of their window, and no fuel
  is used. \<open>Polled\<close> is \<open>stages/polled.rs\<close>, the emulation of a polling collector (samples on an epoch grid,
  runs under two published rules, the expansion into half-open seconds), with its properties in
  \<open>Polled_Properties\<close>.

  \<open>stages/reconstruction.rs\<close> is where the two crates above meet the rows. \<open>Opener_Set\<close> has the reconstruction
  rules and opener sets of \<open>options.rs\<close> and the stage's output. \<open>Single_Open\<close> is the contract of a rule that keeps
  one episode open, a locale, and what it has closed after any number of rows; \<open>Screen_Rules\<close> interprets it for
  the rules of Draxler and Morrison, \<open>Background_Pairing\<close> has the first-in-first-out pairing, and all three
  interpret \<open>episode_rule\<close>. \<open>Reconstruction\<close> is the index of app events, the adapters of the matcher's rules and
  of the EYES segmentation, the partition of a table by participant, the merge of the reports and the entry point.
  \<open>Reconstruction_Arms\<close> shows that every arm answers with rows of its table, \<open>Reconstruction_Properties\<close> that the
  dispatch reports every opener of every participant once and never ends an episode on another participant's row,
  and \<open>Eyes_Arm\<close> the same for the intervals the EYES arm credits.

  What follows the materialization of rows in the same file is in \<open>Episode_Durations\<close>: micro-use classes, the
  minimum floor, the maximum on a row, filtered apps, the order of the rows and the layers of concurrent usage.
  \<open>Duration_Properties\<close> shows what a classified row publishes and that the limits hold for the rows published,
  \<open>Concurrent_Usage\<close> that at any instant a participant in use has one primary row, from the sweep's theorem.

  \<^bold>\<open>chronicle_chrono_kernel_wasm/src/b06_maximum_duration.rs\<close> decides which maximum duration applies to an
  episode. \<open>Float_Text\<close> has Rust's reading and shortest printing of \<open>f64\<close>; \<open>Maximum_Duration\<close> the vocabularies
  (each an instance of the locale \<open>closed_vocabulary\<close>), the threshold grammar and the conversion of legacy hours on
  digit strings; \<open>Maximum_Threshold\<close> shows that conversion exact; \<open>Maximum_Resolution\<close> resolves a request against
  the reconstruction rule; \<open>Maximum_Properties\<close> has the properties: accepted thresholds are exact, and preflight,
  execution and row stage agree.

  \<^bold>\<open>Conventions\<close>. Integers of the source are \<open>int\<close> with the wrap-around of \<open>i64\<close> written out (\<open>i64_sub\<close>,
  \<open>i64_add\<close>), since the release profile has no overflow checks; where a property needs exact differences it
  assumes timestamps in the epoch range \<open>[0, 2^63)\<close>. An \<open>f64\<close> is the rational it denotes, each operation
  rounded to 53 bits. Errors are \<open>Inl\<close>, panics their own constructor, and a loop that might not end returns
  an option whose \<open>None\<close> is running forever; the development has no fuel: loops over cursors have
  termination proofs, and the walks along links are \<open>partial_function (option)\<close> with a theorem that they
  return. Strings are lists of characters compared as Rust compares bytes.

  The text of an \<open>f64\<close> is read and printed over the whole range of binary64 in \<open>Float_Text\<close>.

  Time zones come from \<open>chrono\<close> and \<open>chrono_tz\<close>: the local time of an instant is a parameter.

  \<^bold>\<open>Not modelled\<close>. The Python bindings, the row codecs and the stage driver (\<open>pipeline_v2.rs\<close>), the
  incremental engine on salsa, canonical JSON, the literature components of the browser runtime and the web
  application; of \<open>eyes_complement.rs\<close> the JCS bytes and heap accounting; of the credit stage the BLAKE3
  digests of its checkpoints; of the reconstruction stage the Schoedel path
  over \<open>b05_foundational_semantics.rs\<close> and the materialization of rows;
  of \<open>b06_maximum_duration.rs\<close> the receipt.
\<close>

end
